(* ===== verification/Prelude.thy ===== *)
theory Prelude
  imports Main "HOL-Library.Word"
begin

text \<open>
  Shared vocabulary of the development: machine words of the widths the C code uses, byte
  addressed physical memory with little-endian loads and stores, page arithmetic, the ways
  in which kernel code can fail to return, and the one loop shape the kernel uses for page
  ranges (\<open>for (p = start; p < end; p += 4096)\<close>).
\<close>

unbundle bit_operations_syntax

text \<open>Loop bounds such as 512 and 4096 are numerals; \<open>simp\<close> must not unroll them.\<close>

declare upt_rec_numeral [simp del] lessThan_nat_numeral [simp del] atMost_nat_numeral [simp del]

section \<open>Words and memory\<close>

type_synonym u8 = "8 word"
type_synonym u16 = "16 word"
type_synonym u32 = "32 word"
type_synonym u64 = "64 word"

text \<open>Physical memory: one byte per 64-bit address. RV64 is little-endian.\<close>

type_synonym memory = "u64 \<Rightarrow> u8"

fun load_le :: "memory \<Rightarrow> u64 \<Rightarrow> nat \<Rightarrow> u64" where
  "load_le m a 0 = 0"
| "load_le m a (Suc n) = ucast (m a) OR push_bit 8 (load_le m (a + 1) n)"

fun store_le :: "memory \<Rightarrow> u64 \<Rightarrow> nat \<Rightarrow> u64 \<Rightarrow> memory" where
  "store_le m a 0 v = m"
| "store_le m a (Suc n) v = store_le (m(a := ucast v)) (a + 1) n (drop_bit 8 v)"

abbreviation load64 :: "memory \<Rightarrow> u64 \<Rightarrow> u64" where
  "load64 m a \<equiv> load_le m a 8"

abbreviation store64 :: "memory \<Rightarrow> u64 \<Rightarrow> u64 \<Rightarrow> memory" where
  "store64 m a v \<equiv> store_le m a 8 v"

abbreviation load32 :: "memory \<Rightarrow> u64 \<Rightarrow> u32" where
  "load32 m a \<equiv> ucast (load_le m a 4)"

abbreviation load16 :: "memory \<Rightarrow> u64 \<Rightarrow> u16" where
  "load16 m a \<equiv> ucast (load_le m a 2)"

named_theorems mem_simps \<open>reading memory after it was written\<close>

lemma load_le_cong:
  "(\<And>k. k < n \<Longrightarrow> m (a + of_nat k) = m' (a + of_nat k)) \<Longrightarrow> load_le m a n = load_le m' a n"
proof (induction n arbitrary: a)
  case (Suc n)
  have "load_le m (a + 1) n = load_le m' (a + 1) n"
  proof (rule Suc.IH)
    fix k assume "k < n"
    then show "m (a + 1 + of_nat k) = m' (a + 1 + of_nat k)"
      using Suc.prems [of "Suc k"] by (simp add: add.assoc)
  qed
  moreover have "m a = m' a" using Suc.prems [of 0] by simp
  ultimately show ?case by simp
qed simp

lemma store_le_other:
  "(\<And>k. k < n \<Longrightarrow> b \<noteq> a + of_nat k) \<Longrightarrow> store_le m a n v b = m b"
proof (induction n arbitrary: a m v)
  case (Suc n)
  have "store_le (m(a := ucast v)) (a + 1) n (drop_bit 8 v) b = (m(a := ucast v)) b"
  proof (rule Suc.IH)
    fix k assume "k < n"
    then show "b \<noteq> a + 1 + of_nat k"
      using Suc.prems [of "Suc k"] by (simp add: add.assoc)
  qed
  moreover have "b \<noteq> a" using Suc.prems [of 0] by simp
  ultimately show ?case by simp
qed simp

lemma of_nat_u64_eq:
  assumes "k < 2 ^ 64" "l < 2 ^ 64"
  shows "(of_nat k = (of_nat l :: u64)) = (k = l)"
proof
  assume "of_nat k = (of_nat l :: u64)"
  then have "unat (of_nat k :: u64) = unat (of_nat l :: u64)" by simp
  then show "k = l" using assms by (simp only: unat_of_nat len_of_numeral_defs) simp
qed simp

lemma store_le_at:
  "k < n \<Longrightarrow> n \<le> 8 \<Longrightarrow> store_le m a n v (a + of_nat k) = ucast (drop_bit (8 * k) v)"
proof (induction n arbitrary: a m v k)
  case (Suc n)
  show ?case
  proof (cases k)
    case 0
    have "store_le (m(a := ucast v)) (a + 1) n (drop_bit 8 v) a = (m(a := ucast v)) a"
    proof (rule store_le_other)
      fix j assume "j < n"
      then have "Suc j < 2 ^ 64" "Suc j \<noteq> 0" using Suc.prems by auto
      then have "of_nat (Suc j) \<noteq> (of_nat 0 :: u64)"
        using of_nat_u64_eq [of "Suc j" 0] by simp
      then show "a \<noteq> a + 1 + of_nat j" by (simp add: add.assoc)
    qed
    with 0 show ?thesis by simp
  next
    case (Suc k')
    with Suc.prems have "k' < n" "n \<le> 8" by simp_all
    then have "store_le (m(a := ucast v)) (a + 1) n (drop_bit 8 v) (a + 1 + of_nat k')
        = ucast (drop_bit (8 * k') (drop_bit 8 v))"
      by (rule Suc.IH)
    moreover have "a + of_nat k = a + 1 + of_nat k'" using Suc by simp
    moreover have "drop_bit (8 * k) v = drop_bit (8 * k') (drop_bit 8 v)"
      using Suc by (simp add: drop_bit_drop_bit add.commute)
    ultimately show ?thesis by (simp only: store_le.simps)
  qed
qed simp

lemma bit_load_le:
  "bit (load_le m a n) i \<longleftrightarrow> i < 8 * n \<and> i < 64 \<and> bit (m (a + of_nat (i div 8))) (i mod 8)"
proof (induction n arbitrary: a i)
  case (Suc n)
  show ?case
  proof (cases "i < 8")
    case True
    then show ?thesis
      by (auto simp: bit_or_iff bit_push_bit_iff bit_ucast_iff Suc.IH)
  next
    case False
    then have i: "i div 8 = Suc ((i - 8) div 8)" "i mod 8 = (i - 8) mod 8"
      by (simp_all add: le_div_geq le_mod_geq)
    have "\<not> bit (m a) i"
      using False by (metis bit_imp_le_length len_of_numeral_defs(1-3) len_num1 mult_2 numeral_Bit0 one_add_one)
    with False i show ?thesis
      by (auto simp: bit_or_iff bit_push_bit_iff bit_ucast_iff Suc.IH add.assoc)
  qed
qed simp

lemma load_le_store_le:
  assumes "n \<le> 8"
  shows "load_le (store_le m a n v) a n = take_bit (8 * n) v"
proof (rule bit_word_eqI)
  fix i assume i: "i < LENGTH(64)"
  show "bit (load_le (store_le m a n v) a n) i = bit (take_bit (8 * n) v) i"
  proof (cases "i < 8 * n")
    case True
    then have "i div 8 < n" by auto
    with assms have "store_le m a n v (a + of_nat (i div 8)) = ucast (drop_bit (8 * (i div 8)) v)"
      by (simp add: store_le_at)
    with True i show ?thesis
      by (simp add: bit_load_le bit_ucast_iff bit_drop_bit_eq bit_take_bit_iff)
  qed (simp add: bit_load_le bit_take_bit_iff)
qed

lemma load64_store64 [simp, mem_simps]: "load64 (store64 m a v) a = v"
  by (simp add: load_le_store_le take_bit_word_eq_self)

lemma load64_upd_other:
  assumes "\<And>k. k < 8 \<Longrightarrow> a + of_nat k \<noteq> b"
  shows "load64 (m(b := v)) a = load64 m a"
  by (rule load_le_cong) (use assms in auto)

text \<open>A small number is the same as an \<open>int\<close> and sign-extended.\<close>

lemma sint_small: "n < 2 ^ 31 \<Longrightarrow> sint (of_nat n :: u32) = int n"
  by (simp add: signed_of_nat signed_take_bit_int_eq_self)

lemma scast_small: "n < 2 ^ 31 \<Longrightarrow> scast (of_nat n :: u32) = (of_nat n :: u64)"
  unfolding scast_eq by (simp only: sint_small of_int_of_nat_eq)

section \<open>Pages\<close>

text \<open>
  A page is 4096 bytes at an address whose low twelve bits are zero. \<open>page_base\<close> is the C
  expression \<open>a & ~0xFFF\<close> and \<open>page_up\<close> is \<open>(a + 0xFFF) & ~0xFFF\<close>, both on wrapping
  64-bit addresses.
\<close>

definition page_aligned :: "u64 \<Rightarrow> bool" where
  "page_aligned a \<longleftrightarrow> a AND 0xFFF = 0"

definition page_base :: "u64 \<Rightarrow> u64" where
  "page_base a = a AND NOT 0xFFF"

definition page_up :: "u64 \<Rightarrow> u64" where
  "page_up a = (a + 0xFFF) AND NOT 0xFFF"

lemma mask12: "(0xFFF :: u64) = mask 12"
  by (simp add: mask_eq_exp_minus_1)

lemma page_aligned_unat: "page_aligned a \<longleftrightarrow> 4096 dvd unat a"
  using and_mask_dvd_nat [of 12 a] by (simp add: page_aligned_def mask12)

lemma unat_u64_less: "unat (a :: u64) < 18446744073709551616"
  using unsigned_less [of a] by simp

lemma unat_of_nat_u64: "k < 18446744073709551616 \<Longrightarrow> unat (of_nat k :: u64) = k"
  by (simp add: unat_of_nat)

lemma unat_add_of_nat:
  assumes "unat a + k < 18446744073709551616"
  shows "unat ((a :: u64) + of_nat k) = unat a + k"
proof -
  have "unat (of_nat k :: u64) = k" using assms by (intro unat_of_nat_u64) simp
  with assms show ?thesis by (simp add: unat_word_ariths)
qed

lemma unat_add_nowrap: "\<not> a + b < (a :: u64) \<Longrightarrow> unat (a + b) = unat a + unat b"
  using unat_plus_simple [of a b] by (simp add: not_less)

lemma page_base_shift: "page_base a = push_bit 12 (drop_bit 12 a)"
  unfolding page_base_def mask12
  by (rule bit_word_eqI) (auto simp: bit_simps)

lemma unat_page_base: "unat (page_base a) = unat a div 4096 * 4096"
proof -
  have "unat a div 4096 * 4096 \<le> unat a" by simp
  then have "unat a div 4096 * 4096 < 18446744073709551616"
    using le_less_trans unat_u64_less by blast
  moreover have "unat (page_base a) = (unat a div 4096 * 4096) mod 18446744073709551616"
    by (simp add: page_base_shift push_bit_eq_mult drop_bit_eq_div unat_word_ariths unat_div
        mod_mult_left_eq)
  ultimately show ?thesis by simp
qed

lemma page_aligned_base [simp]: "page_aligned (page_base a)"
  by (simp add: page_aligned_unat unat_page_base)

lemma page_aligned_0 [simp]: "page_aligned 0"
  by (simp add: page_aligned_def)

lemma page_aligned_le: "page_aligned t \<Longrightarrow> unat t + 4096 \<le> 18446744073709551616"
proof -
  assume "page_aligned t"
  then obtain q where q: "unat t = 4096 * q" by (auto simp: page_aligned_unat dvd_def)
  have "4096 * q < 4096 * 4503599627370496" using unat_u64_less [of t] q by simp
  then have "Suc q \<le> 4503599627370496" by (simp only: mult_less_cancel1 Suc_le_eq)
  then have "4096 * Suc q \<le> 4096 * 4503599627370496" by (rule mult_le_mono2)
  with q show ?thesis by simp
qed

lemma unat_page_add:
  assumes "page_aligned t" "k < 4096"
  shows "unat (t + of_nat k) = unat t + k"
proof -
  have "unat t + k < 18446744073709551616"
    using assms page_aligned_le [of t] by simp
  moreover have "unat (of_nat k :: u64) = k" using assms by (simp add: unat_of_nat)
  ultimately show ?thesis by (simp add: unat_word_ariths)
qed

lemma page_base_add [simp]:
  assumes "page_aligned t" "k < 4096"
  shows "page_base (t + of_nat k) = t"
proof -
  obtain q where "unat t = 4096 * q" using assms by (auto simp: page_aligned_unat dvd_def)
  then have "unat (page_base (t + of_nat k)) = unat t"
    using assms by (simp add: unat_page_base unat_page_add)
  then show ?thesis by (rule word_unat_eq_iff [THEN iffD2])
qed

lemma page_base_aligned [simp]: "page_aligned t \<Longrightarrow> page_base t = t"
  using page_base_add [of t 0] by simp

lemma page_coord:
  assumes "page_aligned t" "page_aligned t'" "k < 4096" "l < 4096"
  shows "t + of_nat k = t' + of_nat l \<longleftrightarrow> t = t' \<and> k = l"
proof
  assume eq: "t + of_nat k = t' + of_nat l"
  then have "page_base (t + of_nat k) = page_base (t' + of_nat l)" by simp
  with assms have "t = t'" by simp
  moreover have "unat (t + of_nat k) = unat (t' + of_nat l)" using eq by simp
  ultimately show "t = t' \<and> k = l" using assms by (simp add: unat_page_add)
qed simp

lemma page_decomp: "\<exists>k < 4096. a = page_base a + of_nat k"
proof -
  let ?k = "unat a mod 4096"
  have "unat (page_base a + of_nat ?k) = unat a"
    by (simp add: unat_page_add unat_page_base)
  then have "a = page_base a + of_nat ?k" by (rule word_unat_eq_iff [THEN iffD2, OF sym])
  then show ?thesis by (intro exI [of _ ?k]) simp
qed

text \<open>A memory that differs from another one only inside the pages \<open>P\<close>.\<close>

definition same_except :: "u64 set \<Rightarrow> memory \<Rightarrow> memory \<Rightarrow> bool" where
  "same_except P m m' \<longleftrightarrow> (\<forall>b. page_base b \<notin> P \<longrightarrow> m' b = m b)"

lemma same_except_refl [simp]: "same_except P m m"
  by (simp add: same_except_def)

lemma same_except_trans:
  "same_except P m m' \<Longrightarrow> same_except Q m' m'' \<Longrightarrow> P \<union> Q \<subseteq> R \<Longrightarrow> same_except R m m''"
  unfolding same_except_def by (metis UnI1 UnI2 subsetD)

lemma same_except_mono: "same_except P m m' \<Longrightarrow> P \<subseteq> Q \<Longrightarrow> same_except Q m m'"
  by (auto simp: same_except_def)

lemma same_exceptD: "same_except P m m' \<Longrightarrow> page_base b \<notin> P \<Longrightarrow> m' b = m b"
  by (simp add: same_except_def)

section \<open>Eight-byte slots of a page\<close>

text \<open>
  \<open>slot t i\<close> is the address of \<open>((uint64_t *)t)[i]\<close>; a page holds 512 of them. The three
  lemmas below are the only place where the byte layout of a page table matters.
\<close>

definition slot :: "u64 \<Rightarrow> nat \<Rightarrow> u64" where
  "slot t i = t + of_nat (8 * i)"

lemma slot_byte: "slot t i + of_nat k = t + of_nat (8 * i + k)"
  by (simp add: slot_def)

lemma page_base_slot [simp]: "page_aligned t \<Longrightarrow> i < 512 \<Longrightarrow> page_base (slot t i) = t"
  unfolding slot_def by (rule page_base_add) simp_all

lemma slot_eq_iff:
  assumes "page_aligned t" "page_aligned t'" "i < 512" "j < 512"
  shows "slot t i = slot t' j \<longleftrightarrow> t = t' \<and> i = j"
  unfolding slot_def using page_coord [OF assms(1,2), of "8 * i" "8 * j"] assms by auto

lemma load64_store64_slot:
  assumes "page_aligned t" "page_aligned t'" "i < 512" "j < 512"
  shows "load64 (store64 m (slot t i) v) (slot t' j)
    = (if t = t' \<and> i = j then v else load64 m (slot t' j))"
proof (cases "t = t' \<and> i = j")
  case False
  have "load64 (store64 m (slot t i) v) (slot t' j) = load64 m (slot t' j)"
  proof (rule load_le_cong, rule store_le_other)
    fix k k' :: nat assume "k < 8" "k' < 8"
    then have "t' + of_nat (8 * j + k) \<noteq> t + of_nat (8 * i + k')"
      using page_coord [OF assms(2,1), of "8 * j + k" "8 * i + k'"] assms False by auto
    then show "slot t' j + of_nat k \<noteq> slot t i + of_nat k'"
      by (simp only: slot_byte not_False_eq_True)
  qed
  with False show ?thesis by auto
qed simp

lemma same_except_store64_slot:
  assumes "page_aligned t" "i < 512"
  shows "same_except {t} m (store64 m (slot t i) v)"
  unfolding same_except_def
proof (intro allI impI store_le_other)
  fix b k assume b: "page_base b \<notin> {t}" and k: "k < (8 :: nat)"
  then have "page_base (slot t i + of_nat k) = t"
    unfolding slot_byte using assms by (intro page_base_add) simp_all
  with b show "b \<noteq> slot t i + of_nat k" by auto
qed

lemma load64_same_except:
  assumes "same_except P m m'" "page_aligned t" "t \<notin> P" "i < 512"
  shows "load64 m' (slot t i) = load64 m (slot t i)"
proof (rule load_le_cong)
  fix k assume "k < (8 :: nat)"
  then have "page_base (slot t i + of_nat k) = t"
    unfolding slot_byte using assms by (intro page_base_add) simp_all
  with assms show "m' (slot t i + of_nat k) = m (slot t i + of_nat k)"
    by (auto simp: same_except_def)
qed

section \<open>How kernel code stops\<close>

text \<open>
  The ways in which a kernel function may not return to its caller: \<open>Panic\<close> is a message
  on the console (without its final line break) followed by \<open>while (1);\<close>, \<open>KernelFault\<close> a trap taken in S-mode (which
  \<open>trap_handler\<close> turns into an endless loop), \<open>UnknownSyscall\<close> and
  \<open>UnexpectedInterrupt\<close> its other endless loops, \<open>Shutdown\<close> the SBI system reset,
  \<open>Idle\<close> the idle loop waiting in \<open>wfi\<close> with no further interrupt arriving, and
  \<open>Diverge\<close> a C loop whose counter wraps around for ever. A fallible function returns
  \<open>Inl\<close> one of these, or \<open>Inr\<close> its result.
\<close>

datatype stop =
    Panic string
  | KernelFault u64
  | UnknownSyscall
  | UnexpectedInterrupt
  | Shutdown
  | Idle
  | Diverge

fun bind_stop :: "'e + 'a \<Rightarrow> ('a \<Rightarrow> 'e + 'b) \<Rightarrow> 'e + 'b" where
  "bind_stop (Inl r) f = Inl r"
| "bind_stop (Inr x) f = f x"

lemma bind_stop_Inr_iff: "bind_stop r f = Inr y \<longleftrightarrow> (\<exists>x. r = Inr x \<and> f x = Inr y)"
  by (cases r) auto

text \<open>A loop over a list whose body may leave the function.\<close>

fun for_each :: "('a \<Rightarrow> 's \<Rightarrow> 'e + 's) \<Rightarrow> 'a list \<Rightarrow> 's \<Rightarrow> 'e + 's" where
  "for_each body [] s = Inr s"
| "for_each body (x # xs) s = bind_stop (body x s) (for_each body xs)"

lemma for_each_cong [fundef_cong]:
  "xs = ys \<Longrightarrow> s = t \<Longrightarrow> (\<And>x s. x \<in> set ys \<Longrightarrow> f x s = g x s) \<Longrightarrow> for_each f xs s = for_each g ys t"
proof (induction ys arbitrary: xs s t)
  case (Cons y ys)
  have "for_each f ys u = for_each g ys u" for u using Cons.IH [of ys u u] Cons.prems(3) by simp
  then have "for_each f ys = for_each g ys" by (rule ext)
  with Cons.prems show ?case by simp
qed simp

lemma for_each_append: "for_each f (xs @ ys) s = bind_stop (for_each f xs s) (for_each f ys)"
proof (induction xs arbitrary: s)
  case (Cons x xs)
  then show ?case by (cases "f x s") auto
qed simp

lemma for_each_rule:
  assumes "I [] s"
    and "\<And>ys x zs s r. xs = ys @ x # zs \<Longrightarrow> I ys s \<Longrightarrow> body x s = Inl r \<Longrightarrow> Q r"
    and "\<And>ys x zs s s'. xs = ys @ x # zs \<Longrightarrow> I ys s \<Longrightarrow> body x s = Inr s' \<Longrightarrow> I (ys @ [x]) s'"
  shows "case for_each body xs s of Inl r \<Rightarrow> Q r | Inr s' \<Rightarrow> I xs s'"
proof -
  have "case for_each body zs s of Inl r \<Rightarrow> Q r | Inr s' \<Rightarrow> I xs s'" if "xs = ys @ zs" "I ys s" for ys zs s
    using that
  proof (induction zs arbitrary: ys s)
    case (Cons z zs)
    then show ?case
      using assms(2) [of ys z zs s] assms(3) [of ys z zs s] Cons.IH [of "ys @ [z]"]
      by (cases "body z s") auto
  qed simp
  from this [of "[]" xs s] assms(1) show ?thesis by simp
qed

text \<open>\<open>find_index\<close> is a C loop over an array that stops at the first match.\<close>

definition find_index :: "('a \<Rightarrow> bool) \<Rightarrow> 'a list \<Rightarrow> nat option" where
  "find_index P xs = find (\<lambda>i. P (xs ! i)) [0..<length xs]"

lemma find_index_Some:
  "find_index P xs = Some i \<Longrightarrow> i < length xs \<and> P (xs ! i) \<and> (\<forall>j < i. \<not> P (xs ! j))"
  by (auto simp: find_index_def find_Some_iff)

lemma find_index_None: "find_index P xs = None \<longleftrightarrow> (\<forall>i < length xs. \<not> P (xs ! i))"
  by (auto simp: find_index_def find_None_iff)

lemma find_map_Suc: "find P (map Suc xs) = map_option Suc (find (\<lambda>i. P (Suc i)) xs)"
  by (induction xs) auto

lemma find_nth: "find P xs = map_option ((!) xs) (find_index P xs)"
proof (induction xs)
  case (Cons x xs)
  have up: "[0..<length (x # xs)] = 0 # map Suc [0..<length xs]"
    by (simp add: map_Suc_upt upt_conv_Cons del: upt_Suc)
  show ?case using Cons unfolding find_index_def up by (simp add: find_map_Suc option.map_comp comp_def)
qed (simp add: find_index_def)

section \<open>Loops over page ranges\<close>

text \<open>
  \<^verbatim>\<open>for (uintptr_t p = a; p < e; p += 4096) body(p);\<close> The body either leaves the loop
  (\<open>Inl\<close>) or passes on to the next page (\<open>Inr\<close>). When \<open>p += 4096\<close> wraps around,
  \<open>p\<close> restarts below 4096, which is again below \<open>e\<close>: the C loop never ends, and the
  model leaves it with the given \<open>d\<close>.
\<close>

function for_pages :: "'e \<Rightarrow> (u64 \<Rightarrow> 's \<Rightarrow> 'e + 's) \<Rightarrow> u64 \<Rightarrow> u64 \<Rightarrow> 's \<Rightarrow> 'e + 's" where
  "for_pages d body a e s =
     (if a < e then
        (case body a s of
           Inl r \<Rightarrow> Inl r
         | Inr s' \<Rightarrow> if a + 4096 < a then Inl d else for_pages d body (a + 4096) e s')
      else Inr s)"
  by pat_completeness auto
termination
proof (relation "measure (\<lambda>(d, body, a, e, s). 2 ^ 64 - unat a)")
  fix d :: 'e and body a e s x s'
  assume "\<not> a + 4096 < (a :: u64)"
  then have "unat (a + 4096) = unat a + 4096"
    using unat_add_nowrap [of a 4096] by simp
  then show "((d, body, a + 4096, e, s'), d, body, a, e, s)
      \<in> measure (\<lambda>(d, body, a, e, s). 2 ^ 64 - unat a)"
    using unat_u64_less [of a] by simp
qed simp

declare for_pages.simps [simp del]

text \<open>The invariant rule: \<open>I p s\<close> holds whenever the loop head is reached at page \<open>p\<close>.\<close>

lemma for_pages_rule:
  assumes "I a s"
    and "\<And>p s r. I p s \<Longrightarrow> p < e \<Longrightarrow> body p s = Inl r \<Longrightarrow> Q r"
    and "\<And>p s s'. I p s \<Longrightarrow> p < e \<Longrightarrow> body p s = Inr s' \<Longrightarrow> \<not> p + 4096 < p \<Longrightarrow> I (p + 4096) s'"
    and "\<And>p s s'. I p s \<Longrightarrow> p < e \<Longrightarrow> body p s = Inr s' \<Longrightarrow> p + 4096 < p \<Longrightarrow> Q d"
  shows "case for_pages d body a e s of Inl r \<Rightarrow> Q r | Inr s' \<Rightarrow> \<exists>p. \<not> p < e \<and> I p s'"
  using assms
proof (induction d body a e s rule: for_pages.induct)
  case (1 d body a e s)
  show ?case
  proof (cases "a < e")
    case True
    show ?thesis
    proof (cases "body a s")
      case (Inl r)
      with True 1 show ?thesis by (simp add: for_pages.simps [of d body a e s])
    next
      case (Inr s')
      show ?thesis
      proof (cases "a + 4096 < a")
        case wrap: True
        have "Q d" by (rule "1.prems"(4)) (fact "1.prems"(1) True Inr wrap)+
        with True Inr wrap show ?thesis by (simp add: for_pages.simps [of d body a e s])
      next
        case False
        have "I (a + 4096) s'" by (rule "1.prems"(3)) (fact "1.prems"(1) True Inr False)+
        with True Inr False "1.IH" "1.prems" show ?thesis
          by (simp add: for_pages.simps [of d body a e s])
      qed
    qed
  next
    case False
    with "1.prems"(1) show ?thesis by (auto simp: for_pages.simps [of d body a e s])
  qed
qed

lemma page_aligned_step:
  assumes "page_aligned p" "page_aligned e" "p < e"
  shows "unat (p + 4096) = unat p + 4096" "\<not> p + 4096 < p" "page_aligned (p + 4096)" "p + 4096 \<le> e"
proof -
  have "unat p < unat e" using assms by (simp add: word_less_nat_alt)
  moreover obtain x y where "unat p = 4096 * x" "unat e = 4096 * y"
    using assms by (auto simp: page_aligned_unat dvd_def)
  ultimately have le: "unat p + 4096 \<le> unat e" by simp
  then have "unat p + 4096 < 18446744073709551616" using unat_u64_less [of e] by linarith
  then show eq: "unat (p + 4096) = unat p + 4096" by (simp add: unat_word_ariths)
  then show "\<not> p + 4096 < p" "p + 4096 \<le> e" using le
    by (simp_all add: word_less_nat_alt word_le_nat_alt)
  show "page_aligned (p + 4096)" using assms(1) by (simp add: page_aligned_unat eq)
qed

text \<open>Over an aligned range the counter never wraps and ends exactly at \<open>e\<close>.\<close>

lemma for_pages_aligned:
  assumes "page_aligned a" "page_aligned e" "a \<le> e" "I a s"
    and "\<And>p s r. I p s \<Longrightarrow> page_aligned p \<Longrightarrow> a \<le> p \<Longrightarrow> p < e \<Longrightarrow> body p s = Inl r \<Longrightarrow> Q r"
    and "\<And>p s s'. I p s \<Longrightarrow> page_aligned p \<Longrightarrow> a \<le> p \<Longrightarrow> p < e \<Longrightarrow> body p s = Inr s' \<Longrightarrow> I (p + 4096) s'"
  shows "case for_pages d body a e s of Inl r \<Rightarrow> Q r | Inr s' \<Rightarrow> I e s'"
proof -
  let ?I = "\<lambda>p s. I p s \<and> page_aligned p \<and> a \<le> p \<and> p \<le> e"
  have "case for_pages d body a e s of Inl r \<Rightarrow> Q r | Inr s' \<Rightarrow> \<exists>p. \<not> p < e \<and> ?I p s'"
  proof (rule for_pages_rule)
    show "?I a s" using assms by simp
  next
    fix p s r assume "?I p s" "p < e" "body p s = Inl r"
    then show "Q r" using assms(5) by blast
  next
    fix p s s' assume I: "?I p s" and lt: "p < e" and b: "body p s = Inr s'" and w: "\<not> p + 4096 < p"
    have "a \<le> p + 4096" using I w by (meson not_less order_trans)
    with I lt b show "?I (p + 4096) s'"
      using assms(6) page_aligned_step [of p e] assms(2) by blast
  next
    fix p s s' assume "?I p s" "p < e" "p + 4096 < p"
    then show "Q d" using page_aligned_step(2) [of p e] assms(2) by blast
  qed
  then show ?thesis by (auto split: sum.splits)
qed

text \<open>The pages of an address range.\<close>

definition pages_in :: "u64 \<Rightarrow> u64 \<Rightarrow> u64 set" where
  "pages_in a e = {p. page_aligned p \<and> a \<le> p \<and> p < e}"

lemma pages_in_empty [simp]: "pages_in a a = {}"
  by (auto simp: pages_in_def)

lemma page_less_step:
  assumes "page_aligned p" "\<not> p + 4096 < p" "page_aligned b"
  shows "b < p + 4096 \<longleftrightarrow> b = p \<or> b < p"
proof -
  obtain x where x: "unat b = 4096 * x" using assms(3) by (auto simp: page_aligned_unat dvd_def)
  obtain y where y: "unat p = 4096 * y" using assms(1) by (auto simp: page_aligned_unat dvd_def)
  have step: "unat (p + 4096) = unat p + 4096" using unat_add_nowrap [OF assms(2)] by simp
  have "b = p \<longleftrightarrow> x = y" using x y by (auto simp: word_unat_eq_iff)
  moreover have "b < p + 4096 \<longleftrightarrow> x < Suc y"
    unfolding word_less_nat_alt step x y by linarith
  moreover have "b < p \<longleftrightarrow> x < y" unfolding word_less_nat_alt x y by linarith
  ultimately show ?thesis by auto
qed

lemma pages_in_step:
  assumes "page_aligned p" "\<not> p + 4096 < p" "a \<le> p"
  shows "pages_in a (p + 4096) = insert p (pages_in a p)"
  using assms page_less_step [OF assms(1,2)] by (auto simp: pages_in_def)

text \<open>
  The rule used for every page loop of the kernel: from an aligned start, within the address
  range Sv39 can translate, the body runs exactly once for each page of the range.
\<close>

lemma for_pages_exact:
  assumes al: "page_aligned a" and low: "unat e \<le> 2 ^ 39" and init: "J {} s"
    and leave: "\<And>p s r. J (pages_in a p) s \<Longrightarrow> p \<in> pages_in a e \<Longrightarrow> body p s = Inl r \<Longrightarrow> Q r"
    and step: "\<And>p s s'. J (pages_in a p) s \<Longrightarrow> p \<in> pages_in a e \<Longrightarrow> p \<notin> pages_in a p \<Longrightarrow>
      body p s = Inr s' \<Longrightarrow> J (insert p (pages_in a p)) s'"
  shows "case for_pages d body a e s of Inl r \<Rightarrow> Q r | Inr s' \<Rightarrow> J (pages_in a e) s'"
proof -
  let ?I = "\<lambda>p s. page_aligned p \<and> a \<le> p \<and> pages_in a p \<subseteq> pages_in a e \<and> J (pages_in a p) s"
  have nowrap: "unat (p + 4096) = unat p + 4096" "\<not> p + 4096 < p" if "p < e" for p
  proof -
    have "unat p < 2 ^ 39" using that low by (simp add: word_less_nat_alt)
    then have lt: "unat p + 4096 < 18446744073709551616" by simp
    then show u: "unat (p + 4096) = unat p + 4096" using unat_add_of_nat [of p 4096] by simp
    show "\<not> p + 4096 < p" unfolding word_less_nat_alt u by simp
  qed
  have "case for_pages d body a e s of Inl r \<Rightarrow> Q r | Inr s' \<Rightarrow> \<exists>p. \<not> p < e \<and> ?I p s'"
  proof (rule for_pages_rule)
    show "?I a s" using al init by simp
  next
    fix p s r assume I: "?I p s" and p: "p < e" and b: "body p s = Inl r"
    then have "p \<in> pages_in a e" by (simp add: pages_in_def)
    with I b show "Q r" using leave by blast
  next
    fix p s s' assume I: "?I p s" and p: "p < e" and b: "body p s = Inr s'"
    have mem: "p \<in> pages_in a e" "p \<notin> pages_in a p" using I p by (simp_all add: pages_in_def)
    have ins: "pages_in a (p + 4096) = insert p (pages_in a p)"
      using I nowrap(2) [OF p] by (intro pages_in_step) simp_all
    have "page_aligned (p + 4096)" using I nowrap(1) [OF p] by (simp add: page_aligned_unat)
    moreover have "a \<le> p + 4096" using I nowrap(2) [OF p] by (meson not_less order_trans)
    moreover have "J (pages_in a (p + 4096)) s'"
      unfolding ins using I mem b step by blast
    ultimately show "?I (p + 4096) s'" using I mem ins by simp
  next
    fix p s s' assume "p < e" "p + 4096 < p"
    then show "Q d" using nowrap(2) by blast
  qed
  then have res: "case for_pages d body a e s of Inl r \<Rightarrow> Q r | Inr s' \<Rightarrow> \<exists>p. \<not> p < e \<and> ?I p s'" .
  show ?thesis
  proof (cases "for_pages d body a e s")
    case (Inr s')
    then obtain p where p: "\<not> p < e" "pages_in a p \<subseteq> pages_in a e" "J (pages_in a p) s'"
      using res by auto
    then have "pages_in a p = pages_in a e" by (auto simp: pages_in_def)
    with p(3) Inr show ?thesis by simp
  qed (use res in simp)
qed

lemma for_pages_set:
  assumes al: "page_aligned a" and low: "unat e \<le> 2 ^ 39" and init: "J {} s"
    and leave: "\<And>A p s r. J A s \<Longrightarrow> p \<in> pages_in a e \<Longrightarrow> A \<subseteq> pages_in a p \<Longrightarrow> body p s = Inl r \<Longrightarrow> Q r"
    and step: "\<And>A p s s'. J A s \<Longrightarrow> p \<in> pages_in a e \<Longrightarrow> A \<subseteq> pages_in a p \<Longrightarrow> body p s = Inr s' \<Longrightarrow>
      J (insert p A) s'"
  shows "case for_pages d body a e s of Inl r \<Rightarrow> Q r | Inr s' \<Rightarrow> J (pages_in a e) s'"
  using al low init by (rule for_pages_exact) (use leave step in blast)+

end
