(* ===== verification/Klib.thy ===== *)
theory Klib
  imports Prelude
begin

text \<open>
  The kernel's memory routines (\<open>kernel/lib/string.c\<close>): \<open>memset\<close> and \<open>memcpy\<close> are
  forward byte loops over physical memory. The closed forms below say what the loops
  compute; \<open>memcpy\<close> needs source and destination not to overlap, as its comment says.
\<close>

definition memset :: "memory \<Rightarrow> u64 \<Rightarrow> u32 \<Rightarrow> u64 \<Rightarrow> memory" where
  "memset m dest value count =
     fold (\<lambda>i m. m(dest + of_nat i := ucast value)) [0..<unat count] m"

definition memcpy :: "memory \<Rightarrow> u64 \<Rightarrow> u64 \<Rightarrow> u64 \<Rightarrow> memory" where
  "memcpy m dest src count =
     fold (\<lambda>i m. m(dest + of_nat i := m (src + of_nat i))) [0..<unat count] m"

text \<open>Whether a byte lies in the \<open>n\<close> bytes from \<open>d\<close>, with wrap-around.\<close>

lemma in_range_iff:
  assumes "n \<le> unat (c :: u64)"
  shows "(\<exists>i < n. (b :: u64) = d + of_nat i) \<longleftrightarrow> unat (b - d) < n"
proof
  assume "\<exists>i < n. b = d + of_nat i"
  then obtain i where i: "i < n" "b = d + of_nat i" by blast
  moreover have "i < 18446744073709551616"
    using i(1) assms unat_u64_less [of c] by linarith
  ultimately show "unat (b - d) < n" by (simp add: unat_of_nat)
next
  assume "unat (b - d) < n"
  moreover have "b = d + of_nat (unat (b - d))" by simp
  ultimately show "\<exists>i < n. b = d + of_nat i" by blast
qed

lemma memset_upto:
  "n \<le> unat (c :: u64) \<Longrightarrow> fold (\<lambda>i m. m(d + of_nat i := v)) [0..<n] m (b :: u64)
     = (if unat (b - d) < n then v else m b)"
proof (induction n)
  case (Suc n)
  then have "n \<le> unat c" by simp
  note IH = Suc.IH [OF this]
  have "unat (b - d) < Suc n \<longleftrightarrow> unat (b - d) < n \<or> b = d + of_nat n"
    using in_range_iff [OF Suc.prems, of b d] in_range_iff [OF \<open>n \<le> unat c\<close>, of b d]
    by (auto simp: less_Suc_eq)
  then show ?case using IH by auto
qed simp

lemma memset_apply [mem_simps]:
  "memset m d v n b = (if unat (b - d) < unat n then ucast v else m b)"
  unfolding memset_def by (rule memset_upto) (rule order_refl)

text \<open>The closed form is also how \<open>memset\<close> is evaluated.\<close>

lemma memset_code [code]:
  "memset m d v n = (\<lambda>b. if unat (b - d) < unat n then ucast v else m b)"
  by (rule ext) (rule memset_apply)

lemma memcpy_upto:
  assumes "n \<le> unat (c :: u64)"
    and "\<And>i j. i < n \<Longrightarrow> j < n \<Longrightarrow> (d :: u64) + of_nat i \<noteq> s + of_nat j"
  shows "fold (\<lambda>i m. m(d + of_nat i := m (s + of_nat i))) [0..<n] m b
     = (if unat (b - d) < n then m (s + (b - d)) else m b)"
  using assms
proof (induction n arbitrary: b)
  case (Suc n)
  let ?f = "fold (\<lambda>i m. m(d + of_nat i := m (s + of_nat i))) [0..<n] m"
  have n: "n \<le> unat c" and disj: "\<And>i j. i < n \<Longrightarrow> j < n \<Longrightarrow> d + of_nat i \<noteq> s + of_nat j"
    using Suc.prems by auto
  have IH: "?f b = (if unat (b - d) < n then m (s + (b - d)) else m b)" for b
    by (rule Suc.IH [OF n]) (rule disj)
  have "\<not> unat (s + of_nat n - d) < n"
    using in_range_iff [OF n, of "s + of_nat n" d] Suc.prems(2) by (metis lessI less_SucI)
  then have src: "?f (s + of_nat n) = m (s + of_nat n)"
    by (simp only: IH if_False)
  have "unat (b - d) < Suc n \<longleftrightarrow> unat (b - d) < n \<or> b = d + of_nat n"
    using in_range_iff [OF Suc.prems(1), of b d] in_range_iff [OF n, of b d]
    by (auto simp: less_Suc_eq)
  moreover have "\<not> (unat (b - d) < n \<and> b = d + of_nat n)"
  proof
    assume a: "unat (b - d) < n \<and> b = d + of_nat n"
    have "n < 18446744073709551616" using n unat_u64_less [of c] Suc.prems(1) by linarith
    with a show False by (auto simp: unat_of_nat)
  qed
  moreover have "fold (\<lambda>i m. m(d + of_nat i := m (s + of_nat i))) [0..<Suc n] m b
      = (if b = d + of_nat n then m (s + of_nat n) else ?f b)"
    using src by simp
  ultimately show ?case by (auto simp only: IH if_True if_False add_diff_cancel_left' split: if_split)
qed simp

lemma memcpy_apply:
  assumes "\<And>i j. i < unat n \<Longrightarrow> j < unat n \<Longrightarrow> d + of_nat i \<noteq> s + of_nat j"
  shows "memcpy m d s n b = (if unat (b - d) < unat n then m (s + (b - d)) else m b)"
  unfolding memcpy_def using assms by (rule memcpy_upto [OF order_refl])

section \<open>Whole pages\<close>

lemma page_range_iff:
  assumes "page_aligned t" "n \<le> 4096"
  shows "unat (b - t) < n \<Longrightarrow> page_base b = t"
proof -
  assume lt: "unat (b - t) < n"
  have "page_base (t + of_nat (unat (b - t))) = t"
    using assms lt by (intro page_base_add) simp_all
  then show ?thesis by simp
qed

lemma same_except_memset:
  assumes "page_aligned t" "unat n \<le> 4096"
  shows "same_except {t} m (memset m t v n)"
  using page_range_iff [OF assms] by (auto simp: same_except_def memset_apply)

lemma memset_page_at:
  assumes "page_aligned t" "k < 4096"
  shows "memset m t v 4096 (t + of_nat k) = ucast v"
  using assms by (simp add: memset_apply unat_of_nat)

lemma load64_memset_page [simp]:
  assumes "page_aligned t" "i < 512"
  shows "load64 (memset m t 0 4096) (slot t i) = 0"
proof (rule bit_word_eqI)
  fix k
  have "bit (load64 (memset m t 0 4096) (slot t i)) k = False"
  proof (cases "k < 64")
    case True
    then have "memset m t 0 4096 (slot t i + of_nat (k div 8)) = 0"
      unfolding slot_byte using assms by (subst memset_page_at) auto
    then show ?thesis by (simp add: bit_load_le)
  qed (simp add: bit_load_le)
  then show "bit (load64 (memset m t 0 4096) (slot t i)) k = bit (0 :: u64) k" by simp
qed

lemma memcpy_page_outside:
  assumes "page_aligned t" "unat n \<le> 4096" "\<And>j. j < unat n \<Longrightarrow> page_base (s + of_nat j) \<noteq> t"
  shows "memcpy m t s n b = (if unat (b - t) < unat n then m (s + (b - t)) else m b)"
proof (rule memcpy_apply)
  fix i j assume "i < unat n" "j < unat n"
  then have "page_base (t + of_nat i) = t" using assms by (intro page_base_add) simp_all
  with assms(3) [OF \<open>j < unat n\<close>] show "t + of_nat i \<noteq> s + of_nat j" by auto
qed

lemma same_except_memcpy:
  assumes "page_aligned t" "unat n \<le> 4096"
  shows "same_except {t} m (memcpy m t s n)"
proof -
  have "same_except {t} m (fold (\<lambda>i m. m(t + of_nat i := m (s + of_nat i))) [0..<k] m)"
    if "k \<le> 4096" for k
    using that
  proof (induction k)
    case (Suc k)
    then have "page_base (t + of_nat k) = t" using assms by (intro page_base_add) simp_all
    with Suc show ?case by (auto simp: same_except_def)
  qed simp
  with assms show ?thesis by (simp add: memcpy_def)
qed

end
