(* ===== verification/Pmm.thy ===== *)
theory Pmm
  imports Klib
begin

text \<open>
  The physical memory manager (\<open>kernel/mm/pmm.c\<close>, \<open>kernel/include/pmm.h\<close>): a bitmap of
  32768 bits at \<open>_end\<close>, one per 4KB frame of the 128MB RAM. The bitmap lives in the same
  byte memory as everything else, so the model can say that handing out a frame touches
  nothing but the bitmap page. The addresses the linker script exports are the fields of
  \<open>layout\<close>; \<open>layout_ok\<close> is what \<open>kernel/linker.ld\<close> guarantees about them.
\<close>

section \<open>Linker symbols\<close>

record layout =
  text_start :: u64
  text_end :: u64
  rodata_start :: u64
  rodata_end :: u64
  image_end :: u64
  ramdisk_start :: u64

abbreviation PAGE_SIZE :: nat where
  "PAGE_SIZE \<equiv> 4096"

abbreviation PHYSICAL_RAM_START :: u64 where
  "PHYSICAL_RAM_START \<equiv> 0x80000000"

abbreviation PHYSICAL_RAM_SIZE :: u64 where
  "PHYSICAL_RAM_SIZE \<equiv> 0x8000000"

abbreviation TOTAL_PAGES :: nat where
  "TOTAL_PAGES \<equiv> 32768"

definition layout_ok :: "layout \<Rightarrow> bool" where
  "layout_ok L \<longleftrightarrow>
     text_start L = 0x80200000 \<and>
     page_aligned (text_end L) \<and> page_aligned (rodata_start L) \<and>
     page_aligned (rodata_end L) \<and> page_aligned (image_end L) \<and>
     text_start L \<le> text_end L \<and> text_end L \<le> rodata_start L \<and>
     rodata_start L \<le> ramdisk_start L \<and> ramdisk_start L \<le> rodata_end L \<and>
     rodata_end L \<le> image_end L \<and> image_end L < 0x88000000"

lemma layout_okD:
  assumes "layout_ok L"
  shows "page_aligned (image_end L)" "0x80200000 \<le> unat (image_end L)"
    "unat (image_end L) < 0x88000000"
  using assms by (auto simp: layout_ok_def word_le_nat_alt word_less_nat_alt)

section \<open>The bitmap\<close>

text \<open>\<open>bitmap[i / 8] & (1 << (i % 8))\<close> and the two updates of that bit.\<close>

definition bitmap_test :: "layout \<Rightarrow> memory \<Rightarrow> nat \<Rightarrow> bool" where
  "bitmap_test L m i \<longleftrightarrow>
     m (image_end L + of_nat (i div 8)) AND push_bit (i mod 8) 1 \<noteq> 0"

definition bitmap_set :: "layout \<Rightarrow> memory \<Rightarrow> nat \<Rightarrow> memory" where
  "bitmap_set L m i =
     (let a = image_end L + of_nat (i div 8) in m(a := m a OR push_bit (i mod 8) 1))"

definition bitmap_clear :: "layout \<Rightarrow> memory \<Rightarrow> nat \<Rightarrow> memory" where
  "bitmap_clear L m i =
     (let a = image_end L + of_nat (i div 8) in m(a := m a AND NOT (push_bit (i mod 8) 1)))"

section \<open>Operations\<close>

text \<open>\<open>init_pmm\<close>: clear the bitmap, then mark everything below \<open>_end + bitmap_size\<close>.\<close>

definition init_pmm :: "layout \<Rightarrow> memory \<Rightarrow> memory" where
  "init_pmm L m =
     (let bitmap_size = TOTAL_PAGES div 8;
          m1 = fold (\<lambda>i m. m(image_end L + of_nat i := 0)) [0..<bitmap_size] m;
          protected_space = image_end L + of_nat bitmap_size;
          full_bytes = protected_space - PHYSICAL_RAM_START;
          pages_to_protect = unat full_bytes div PAGE_SIZE
      in fold (\<lambda>i m. bitmap_set L m i) [0..<pages_to_protect] m1)"

definition pmm_translator :: "nat \<Rightarrow> u64" where
  "pmm_translator index = PHYSICAL_RAM_START + of_nat (PAGE_SIZE * index)"

text \<open>
  \<open>pmm_alloc_page\<close> scans from index 0; a null pointer is the address 0. The second
  component is the memory after the call.
\<close>

function alloc_scan :: "layout \<Rightarrow> memory \<Rightarrow> nat \<Rightarrow> u64 \<times> memory" where
  "alloc_scan L m i =
     (if i < TOTAL_PAGES then
        if \<not> bitmap_test L m i then (pmm_translator i, bitmap_set L m i)
        else alloc_scan L m (Suc i)
      else (0, m))"
  by pat_completeness auto
termination
  by (relation "measure (\<lambda>(L, m, i). TOTAL_PAGES - i)") auto

declare alloc_scan.simps [simp del]

definition pmm_alloc_page :: "layout \<Rightarrow> memory \<Rightarrow> u64 \<times> memory" where
  "pmm_alloc_page L m = alloc_scan L m 0"

definition pmm_free_page :: "layout \<Rightarrow> memory \<Rightarrow> u64 \<Rightarrow> memory" where
  "pmm_free_page L m p =
     (if p < PHYSICAL_RAM_START \<or> PHYSICAL_RAM_START + PHYSICAL_RAM_SIZE \<le> p then m
      else if unat p mod PAGE_SIZE \<noteq> 0 then m
      else bitmap_clear L m (unat (p - PHYSICAL_RAM_START) div PAGE_SIZE))"

section \<open>The bitmap as a set of frames\<close>

lemma bitmap_test_bit: "bitmap_test L m i \<longleftrightarrow> bit (m (image_end L + of_nat (i div 8))) (i mod 8)"
  unfolding bitmap_test_def
  by (subst bit_iff_and_push_bit_not_eq_0) simp

lemma bitmap_addr_eq:
  assumes "i < TOTAL_PAGES" "j < TOTAL_PAGES"
  shows "image_end L + of_nat (i div 8) = image_end L + of_nat (j div 8) \<longleftrightarrow> i div 8 = j div 8"
proof -
  have "i div 8 < 2 ^ 64" "j div 8 < 2 ^ 64" using assms by simp_all
  then show ?thesis using of_nat_u64_eq [of "i div 8" "j div 8"] by simp
qed

lemma div_mod_8_eq: "i div 8 = j div 8 \<Longrightarrow> i mod 8 = j mod 8 \<Longrightarrow> i = (j :: nat)"
  by (metis div_mult_mod_eq)

lemma bit_byte_single: "k < 8 \<Longrightarrow> bit (2 ^ k :: u8) l \<longleftrightarrow> k = l"
  by (auto simp: bit_exp_iff)

lemma bitmap_test_set:
  assumes "i < TOTAL_PAGES" "j < TOTAL_PAGES"
  shows "bitmap_test L (bitmap_set L m i) j \<longleftrightarrow> i = j \<or> bitmap_test L m j"
proof (cases "i div 8 = j div 8")
  case True
  then show ?thesis using div_mod_8_eq [of i j]
    by (auto simp: bitmap_test_bit bitmap_set_def Let_def bit_or_iff bit_byte_single)
next
  case False
  then show ?thesis using bitmap_addr_eq [OF assms, of L]
    by (auto simp: bitmap_test_bit bitmap_set_def Let_def)
qed

lemma bitmap_test_clear:
  assumes "i < TOTAL_PAGES" "j < TOTAL_PAGES"
  shows "bitmap_test L (bitmap_clear L m i) j \<longleftrightarrow> i \<noteq> j \<and> bitmap_test L m j"
proof (cases "i div 8 = j div 8")
  case True
  then show ?thesis using div_mod_8_eq [of i j]
    by (auto simp: bitmap_test_bit bitmap_clear_def Let_def bit_and_iff bit_not_iff bit_byte_single)
next
  case False
  then show ?thesis using bitmap_addr_eq [OF assms, of L]
    by (auto simp: bitmap_test_bit bitmap_clear_def Let_def)
qed

lemma bitmap_page:
  assumes "page_aligned (image_end L)" "i < TOTAL_PAGES"
  shows "page_base (image_end L + of_nat (i div 8)) = image_end L"
  using assms by (intro page_base_add) auto

lemma same_except_bitmap:
  assumes "page_aligned (image_end L)" "i < TOTAL_PAGES"
  shows "same_except {image_end L} m (bitmap_set L m i)"
    "same_except {image_end L} m (bitmap_clear L m i)"
  using bitmap_page [OF assms] by (auto simp: same_except_def bitmap_set_def bitmap_clear_def Let_def)

text \<open>Writes outside the bitmap page do not change any bit.\<close>

lemma bitmap_test_same_except:
  assumes "same_except P m m'" "page_aligned (image_end L)" "image_end L \<notin> P" "i < TOTAL_PAGES"
  shows "bitmap_test L m' i \<longleftrightarrow> bitmap_test L m i"
  using assms bitmap_page [of L i] by (simp add: bitmap_test_def same_except_def)

definition ram_frames :: "u64 set" where
  "ram_frames = pmm_translator ` {i. i < TOTAL_PAGES}"

definition used :: "layout \<Rightarrow> memory \<Rightarrow> u64 set" where
  "used L m = pmm_translator ` {i. i < TOTAL_PAGES \<and> bitmap_test L m i}"

lemma unat_pmm_translator: "i < TOTAL_PAGES \<Longrightarrow> unat (pmm_translator i) = 0x80000000 + 4096 * i"
proof -
  assume i: "i < TOTAL_PAGES"
  have "unat (0x80000000 :: u64) = 0x80000000" by simp
  moreover have "0x80000000 + 4096 * i < 18446744073709551616" using i by linarith
  ultimately show "unat (pmm_translator i) = 0x80000000 + 4096 * i"
    using unat_add_of_nat [of "0x80000000" "4096 * i"] by (simp only: pmm_translator_def)
qed

lemma pmm_translator_inj: "inj_on pmm_translator {i. i < TOTAL_PAGES}"
proof (rule inj_onI)
  fix i j assume i: "i \<in> {i. i < TOTAL_PAGES}" "j \<in> {i. i < TOTAL_PAGES}"
    and eq: "pmm_translator i = pmm_translator j"
  have "0x80000000 + 4096 * i = 0x80000000 + 4096 * j"
    using unat_pmm_translator [of i] unat_pmm_translator [of j] i
    unfolding eq by (simp only: mem_Collect_eq)
  then show "i = j" by linarith
qed

lemma frame_index:
  "i < TOTAL_PAGES \<Longrightarrow> unat (pmm_translator i - PHYSICAL_RAM_START) div PAGE_SIZE = i"
  unfolding pmm_translator_def add_diff_cancel_left' by (subst unat_of_nat_u64) simp_all

lemma frame_aligned: "p \<in> ram_frames \<Longrightarrow> page_aligned p"
  by (auto simp: ram_frames_def page_aligned_unat unat_pmm_translator)

lemma frame_bounds:
  "p \<in> ram_frames \<Longrightarrow> 0x80000000 \<le> unat p \<and> unat p + 4096 \<le> 0x88000000"
  by (auto simp: ram_frames_def unat_pmm_translator)

lemma frame_nonzero: "p \<in> ram_frames \<Longrightarrow> p \<noteq> 0"
  using frame_bounds [of p] by auto

lemma ram_frames_iff:
  "p \<in> ram_frames \<longleftrightarrow> page_aligned p \<and> 0x80000000 \<le> unat p \<and> unat p < 0x88000000"
proof
  assume r: "page_aligned p \<and> 0x80000000 \<le> unat p \<and> unat p < 0x88000000"
  then obtain q where q: "unat p = 4096 * q" by (auto simp: page_aligned_unat dvd_def)
  let ?i = "q - 0x80000"
  have i: "?i < TOTAL_PAGES" using r q by linarith
  then have "unat (pmm_translator ?i) = unat p"
    using r q unat_pmm_translator [OF i] by linarith
  then have "p = pmm_translator ?i" by (intro word_unat_eq_iff [THEN iffD2]) simp
  then show "p \<in> ram_frames" unfolding ram_frames_def
    using i by (intro image_eqI [of _ _ ?i]) simp_all
qed (use frame_aligned frame_bounds in force)

lemma used_subset: "used L m \<subseteq> ram_frames"
  by (auto simp: used_def ram_frames_def)

lemma frame_used_iff: "i < TOTAL_PAGES \<Longrightarrow> pmm_translator i \<in> used L m \<longleftrightarrow> bitmap_test L m i"
  unfolding used_def using pmm_translator_inj by (auto dest: inj_onD)

lemma finite_ram_frames [simp]: "finite ram_frames"
  by (simp add: ram_frames_def)

lemma finite_used [simp]: "finite (used L m)"
  by (rule finite_subset [OF used_subset]) simp

lemma used_same_except:
  assumes "same_except P m m'" "page_aligned (image_end L)" "image_end L \<notin> P"
  shows "used L m' = used L m"
  unfolding used_def using bitmap_test_same_except [OF assms] by (auto intro!: image_cong)

section \<open>What the operations do to the set of used frames\<close>

lemma used_bitmap_set: "i < TOTAL_PAGES \<Longrightarrow> used L (bitmap_set L m i) = insert (pmm_translator i) (used L m)"
  unfolding used_def by (auto simp: bitmap_test_set)

lemma used_bitmap_clear:
  assumes "i < TOTAL_PAGES"
  shows "used L (bitmap_clear L m i) = used L m - {pmm_translator i}"
proof -
  have "{j. j < TOTAL_PAGES \<and> bitmap_test L (bitmap_clear L m i) j}
      = {j. j < TOTAL_PAGES \<and> bitmap_test L m j} - {i}"
    using assms by (auto simp: bitmap_test_clear)
  moreover have "pmm_translator ` ({j. j < TOTAL_PAGES \<and> bitmap_test L m j} - {i})
      = pmm_translator ` {j. j < TOTAL_PAGES \<and> bitmap_test L m j} - pmm_translator ` {i}"
    by (rule inj_on_image_set_diff [OF pmm_translator_inj]) (use assms in auto)
  ultimately show ?thesis by (simp add: used_def)
qed

lemma alloc_scan_cases:
  "alloc_scan L m i = (p, m') \<Longrightarrow>
     (\<exists>j. i \<le> j \<and> j < TOTAL_PAGES \<and> \<not> bitmap_test L m j \<and>
        (\<forall>k. i \<le> k \<and> k < j \<longrightarrow> bitmap_test L m k) \<and> p = pmm_translator j \<and> m' = bitmap_set L m j)
   \<or> (\<forall>k. i \<le> k \<and> k < TOTAL_PAGES \<longrightarrow> bitmap_test L m k) \<and> p = 0 \<and> m' = m"
proof (induction L m i rule: alloc_scan.induct)
  case (1 L m i)
  show ?case
  proof (cases "i < TOTAL_PAGES \<and> bitmap_test L m i")
    case True
    then have "alloc_scan L m (Suc i) = (p, m')"
      using "1.prems" by (simp add: alloc_scan.simps [of L m i])
    moreover have "i \<le> k \<longleftrightarrow> k = i \<or> Suc i \<le> k" for k by auto
    ultimately show ?thesis using "1.IH" True by auto
  next
    case False
    then show ?thesis using "1.prems"
      by (auto simp: alloc_scan.simps [of L m i] split: if_splits)
  qed
qed

lemma pmm_alloc_cases:
  assumes "pmm_alloc_page L m = (p, m')"
  obtains (null) "p = 0" "m' = m" "used L m = ram_frames"
  | (page) j where "j < TOTAL_PAGES" "p = pmm_translator j" "m' = bitmap_set L m j"
      "p \<in> ram_frames" "p \<notin> used L m" "used L m' = insert p (used L m)"
      "\<And>q. q \<in> ram_frames - used L m \<Longrightarrow> p \<le> q"
proof -
  from alloc_scan_cases [OF assms [unfolded pmm_alloc_page_def]]
  consider j where "j < TOTAL_PAGES" "\<not> bitmap_test L m j" "\<forall>k < j. bitmap_test L m k"
      "p = pmm_translator j" "m' = bitmap_set L m j"
    | "\<forall>k < TOTAL_PAGES. bitmap_test L m k" "p = 0" "m' = m"
    by blast
  then show thesis
  proof cases
    case (1 j)
    have least: "p \<le> q" if q: "q \<in> ram_frames - used L m" for q
    proof -
      obtain k where k: "k < TOTAL_PAGES" "q = pmm_translator k"
        using q by (auto simp: ram_frames_def)
      then have "\<not> bitmap_test L m k" using q by (simp add: frame_used_iff)
      then have "j \<le> k" using 1(3) not_less by blast
      moreover have "unat p = 0x80000000 + 4096 * j" "unat q = 0x80000000 + 4096 * k"
        using 1(1,4) k unat_pmm_translator by blast+
      ultimately have "unat p \<le> unat q" by linarith
      then show "p \<le> q" by (rule word_le_nat_alt [THEN iffD2])
    qed
    show thesis
      by (rule page [of j]) (use 1 least in \<open>auto simp: ram_frames_def frame_used_iff used_bitmap_set\<close>)
  next
    case 2
    then have "used L m = ram_frames" by (auto simp: used_def ram_frames_def)
    with 2 null show thesis by blast
  qed
qed

lemma pmm_free_cases:
  obtains (frame) j where "j < TOTAL_PAGES" "p = pmm_translator j" "p \<in> ram_frames"
      "pmm_free_page L m p = bitmap_clear L m j"
  | (other) "p \<notin> ram_frames" "pmm_free_page L m p = m"
proof (cases "p \<in> ram_frames")
  case True
  then obtain j where j: "j < TOTAL_PAGES" "p = pmm_translator j" by (auto simp: ram_frames_def)
  moreover have "unat p mod PAGE_SIZE = 0"
    using frame_aligned [OF True] by (simp add: page_aligned_unat dvd_eq_mod_eq_0)
  moreover have "\<not> p < PHYSICAL_RAM_START" "\<not> PHYSICAL_RAM_START + PHYSICAL_RAM_SIZE \<le> p"
    using frame_bounds [OF True] by (auto simp: word_less_nat_alt word_le_nat_alt)
  ultimately have "pmm_free_page L m p = bitmap_clear L m j"
    using frame_index [OF j(1)] by (simp add: pmm_free_page_def)
  with j True frame show thesis by blast
next
  case False
  then have "pmm_free_page L m p = m"
    by (auto simp: pmm_free_page_def ram_frames_iff page_aligned_unat word_less_nat_alt
        word_le_nat_alt dvd_eq_mod_eq_0)
  with False other show thesis by blast
qed

lemma used_free [simp]: "used L (pmm_free_page L m p) = used L m - {p}"
proof (cases rule: pmm_free_cases [of p L m])
  case (frame j)
  then show ?thesis by (simp add: used_bitmap_clear)
next
  case other
  then show ?thesis using used_subset [of L m] by auto
qed

text \<open>Both operations write the bitmap page and nothing else.\<close>

lemma same_except_free:
  assumes "page_aligned (image_end L)"
  shows "same_except {image_end L} m (pmm_free_page L m p)"
  by (cases rule: pmm_free_cases [of p L m]) (simp_all add: same_except_bitmap assms)

lemma same_except_alloc:
  assumes "page_aligned (image_end L)" "pmm_alloc_page L m = (p, m')"
  shows "same_except {image_end L} m m'"
  using assms(2) by (cases rule: pmm_alloc_cases) (simp_all add: same_except_bitmap assms(1))

section \<open>Initialisation\<close>

lemma bitmap_test_set_upto:
  "n \<le> TOTAL_PAGES \<Longrightarrow> j < TOTAL_PAGES \<Longrightarrow>
     bitmap_test L (fold (\<lambda>i m. bitmap_set L m i) [0..<n] m) j \<longleftrightarrow> j < n \<or> bitmap_test L m j"
  by (induction n) (auto simp: bitmap_test_set)

lemma same_except_set_upto:
  assumes "page_aligned (image_end L)"
  shows "n \<le> TOTAL_PAGES \<Longrightarrow>
     same_except {image_end L} m (fold (\<lambda>i m. bitmap_set L m i) [0..<n] m)"
proof (induction n)
  case (Suc n)
  then have "same_except {image_end L} (fold (\<lambda>i m. bitmap_set L m i) [0..<n] m)
      (bitmap_set L (fold (\<lambda>i m. bitmap_set L m i) [0..<n] m) n)"
    by (intro same_except_bitmap assms) simp
  with Suc show ?case by (auto intro: same_except_trans)
qed simp

lemma bitmap_clear_loop: "fold (\<lambda>i m. m(a + of_nat i := 0)) [0..<4096] m = memset m a 0 4096"
proof -
  have "unat (4096 :: u64) = 4096" "ucast (0 :: u32) = (0 :: u8)" by simp_all
  then show ?thesis unfolding memset_def by (simp only:)
qed

text \<open>How many frames \<open>init_pmm\<close> protects: everything below \<open>_end\<close> and the bitmap page.\<close>

lemma pages_to_protect:
  assumes "layout_ok L"
  shows "unat (image_end L + of_nat 4096 - PHYSICAL_RAM_START) div PAGE_SIZE
      = (unat (image_end L) - 0x80000000) div 4096 + 1"
proof -
  note b = layout_okD [OF assms]
  have "unat (image_end L + of_nat 4096) = unat (image_end L) + 4096"
    by (rule unat_add_of_nat) (use b in linarith)
  then have "unat (image_end L + of_nat 4096 - PHYSICAL_RAM_START) = unat (image_end L) + 4096 - 0x80000000"
    using b by (subst unat_sub) (simp_all add: word_le_nat_alt)
  moreover have "unat (image_end L) + 4096 - 0x80000000 = (unat (image_end L) - 0x80000000) + 4096"
    using b by linarith
  moreover have "(x + 4096) div 4096 = x div 4096 + 1" for x :: nat by simp
  ultimately show ?thesis by (simp only: of_nat_numeral)
qed

lemma init_pmm_eq:
  assumes "layout_ok L"
  shows "init_pmm L m = fold (\<lambda>i m. bitmap_set L m i)
      [0..<(unat (image_end L) - 0x80000000) div 4096 + 1] (memset m (image_end L) 0 4096)"
proof -
  have "TOTAL_PAGES div 8 = 4096" by simp
  then show ?thesis unfolding init_pmm_def Let_def
    by (simp only: bitmap_clear_loop pages_to_protect [OF assms])
qed

lemma init_pmm_frame:
  assumes "layout_ok L" "i < TOTAL_PAGES"
  shows "bitmap_test L (init_pmm L m) i \<longleftrightarrow> pmm_translator i \<le> image_end L"
proof -
  let ?n = "(unat (image_end L) - 0x80000000) div 4096 + 1"
  note b = layout_okD [OF assms(1)]
  have n: "?n \<le> TOTAL_PAGES" using b by linarith
  have clear: "\<not> bitmap_test L (memset m (image_end L) 0 4096) i"
  proof -
    have "memset m (image_end L) 0 4096 (image_end L + of_nat (i div 8)) = 0"
      using b assms(2) by (subst memset_page_at) simp_all
    then show ?thesis by (simp add: bitmap_test_def)
  qed
  have "bitmap_test L (init_pmm L m) i \<longleftrightarrow> i < ?n"
    using bitmap_test_set_upto [OF n assms(2), of L] clear
    by (simp only: init_pmm_eq [OF assms(1)] simp_thms)
  also obtain q where q: "unat (image_end L) = 4096 * q"
    using b(1) by (auto simp: page_aligned_unat dvd_def)
  have "i < ?n \<longleftrightarrow> 0x80000000 + 4096 * i \<le> unat (image_end L)"
    using b(2) unfolding q by linarith
  also have "\<dots> \<longleftrightarrow> pmm_translator i \<le> image_end L"
    using unat_pmm_translator [OF assms(2)] by (simp only: word_le_nat_alt)
  finally show ?thesis .
qed

lemma used_init_pmm:
  assumes "layout_ok L"
  shows "used L (init_pmm L m) = {p \<in> ram_frames. p \<le> image_end L}"
  unfolding used_def ram_frames_def using init_pmm_frame [OF assms] by auto

lemma same_except_init:
  assumes "layout_ok L"
  shows "same_except {image_end L} m (init_pmm L m)"
proof -
  note b = layout_okD [OF assms]
  have "(unat (image_end L) - 0x80000000) div 4096 + 1 \<le> TOTAL_PAGES" using b by linarith
  moreover have "same_except {image_end L} m (memset m (image_end L) 0 4096)"
    using b by (intro same_except_memset) simp_all
  ultimately show ?thesis unfolding init_pmm_eq [OF assms]
    by (intro same_except_trans [OF _ same_except_set_upto [OF b(1)]]) auto
qed

section \<open>The allocator interface\<close>

text \<open>
  What the rest of the kernel relies on: a page that is handed out is a frame of the pool
  that was not live, it becomes live, nothing else does, and a null result means that every
  frame is live. Everything about runs of allocations is proved once from these laws.
\<close>

datatype page_op = Alloc | Free u64

text \<open>
  \<open>run_ops\<close> runs a list of requests; \<open>held\<close> is the set of pages the callers got from
  this run and have not given back. It records whether a page was ever handed out while held.
\<close>

fun no_double_alloc ::
  "('s \<Rightarrow> u64 \<times> 's) \<Rightarrow> ('s \<Rightarrow> u64 \<Rightarrow> 's) \<Rightarrow> page_op list \<Rightarrow> 's \<Rightarrow> u64 set \<Rightarrow> bool" where
  "no_double_alloc al fr [] s held = True"
| "no_double_alloc al fr (Alloc # ops) s held =
     (let (p, s') = al s in
      if p = 0 then no_double_alloc al fr ops s' held
      else p \<notin> held \<and> no_double_alloc al fr ops s' (insert p held))"
| "no_double_alloc al fr (Free p # ops) s held = no_double_alloc al fr ops (fr s p) (held - {p})"

fun alloc_many :: "('s \<Rightarrow> u64 \<times> 's) \<Rightarrow> nat \<Rightarrow> 's \<Rightarrow> u64 list \<times> 's" where
  "alloc_many al 0 s = ([], s)"
| "alloc_many al (Suc n) s =
     (let (p, s') = al s in
      if p = 0 then ([], s') else (let (ps, s'') = alloc_many al n s' in (p # ps, s'')))"

locale page_allocator =
  fixes al :: "'s \<Rightarrow> u64 \<times> 's" and fr :: "'s \<Rightarrow> u64 \<Rightarrow> 's" and live :: "'s \<Rightarrow> u64 set"
    and pool :: "u64 set"
  assumes al_null: "al s = (0, s') \<Longrightarrow> s' = s \<and> live s = pool"
    and al_page: "al s = (p, s') \<Longrightarrow> p \<noteq> 0 \<Longrightarrow>
      p \<in> pool \<and> p \<notin> live s \<and> live s' = insert p (live s)"
    and fr_live: "live (fr s p) = live s - {p}"
    and live_pool: "live s \<subseteq> pool"
    and finite_pool: "finite pool"
    and pool_nonzero: "0 \<notin> pool"
begin

lemma finite_live: "finite (live s)"
  using live_pool finite_pool by (rule finite_subset)

lemma al_no_double: "held \<subseteq> live s \<Longrightarrow> no_double_alloc al fr ops s held"
proof (induction ops arbitrary: s held)
  case (Cons x ops)
  show ?case
  proof (cases x)
    case Alloc
    obtain p s' where al: "al s = (p, s')" by fastforce
    show ?thesis
    proof (cases "p = 0")
      case True
      with al al_null have "s' = s" by blast
      with True al Alloc Cons show ?thesis by simp
    next
      case False
      with al_page [OF al] Cons.prems have "insert p held \<subseteq> live s'" "p \<notin> held" by auto
      with al Alloc False Cons.IH [of "insert p held" s'] show ?thesis by simp
    qed
  next
    case (Free p)
    have "held - {p} \<subseteq> live (fr s p)" using Cons.prems fr_live by auto
    with Free Cons.IH [of "held - {p}" "fr s p"] show ?thesis by simp
  qed
qed simp

text \<open>\<open>n\<close> allocations in a row succeed exactly when \<open>n\<close> frames are free.\<close>

lemma alloc_many_spec:
  assumes "alloc_many al n s = (ps, s')"
  shows "length ps = min n (card (pool - live s))" "distinct ps" "set ps \<subseteq> pool - live s"
    "live s' = live s \<union> set ps"
proof -
  have "length ps = min n (card (pool - live s)) \<and> distinct ps \<and> set ps \<subseteq> pool - live s
      \<and> live s' = live s \<union> set ps"
    using assms
  proof (induction n arbitrary: s ps s')
    case (Suc n)
    obtain p t where al: "al s = (p, t)" by fastforce
    show ?case
    proof (cases "p = 0")
      case True
      with al al_null have "s' = s \<and> ps = [] \<and> live s = pool" using Suc.prems by auto
      then show ?thesis by simp
    next
      case False
      note page = al_page [OF al False]
      obtain qs where qs: "alloc_many al n t = (qs, s')" "ps = p # qs"
        using Suc.prems al False by (auto split: prod.splits)
      note IH = Suc.IH [OF qs(1)]
      have pool_eq: "pool - live s = insert p (pool - live t)" "p \<notin> pool - live t" using page by auto
      then have "card (pool - live s) = Suc (card (pool - live t))" using finite_pool by simp
      then have "length ps = min (Suc n) (card (pool - live s))" using IH qs(2) by simp
      moreover have "p \<notin> set qs" using IH page by blast
      then have "distinct ps" using IH qs(2) by simp
      moreover have "set qs \<subseteq> pool - live t" "live s' = live t \<union> set qs" using IH by blast+
      then have "set ps \<subseteq> pool - live s" "live s' = live s \<union> set ps"
        using page qs(2) by auto
      ultimately show ?thesis by (intro conjI)
    qed
  qed simp
  then show "length ps = min n (card (pool - live s))" "distinct ps" "set ps \<subseteq> pool - live s"
    "live s' = live s \<union> set ps" by simp_all
qed

lemma al_succeeds_iff: "fst (al s) \<noteq> 0 \<longleftrightarrow> live s \<noteq> pool"
  using al_null [of s "snd (al s)"] al_page [of s "fst (al s)" "snd (al s)"] live_pool [of s]
  by (cases "al s") auto

end

interpretation pmm: page_allocator "pmm_alloc_page L" "pmm_free_page L" "used L" ram_frames for L
proof unfold_locales
  fix m m' p assume al: "pmm_alloc_page L m = (p, m')"
  show "p \<in> ram_frames \<and> p \<notin> used L m \<and> used L m' = insert p (used L m)" if "p \<noteq> 0"
    using al that by (cases rule: pmm_alloc_cases) simp_all
next
  fix m m' assume "pmm_alloc_page L m = (0, m')"
  then show "m' = m \<and> used L m = ram_frames"
    by (cases rule: pmm_alloc_cases) (auto dest: frame_nonzero)
next
  fix m p show "used L (pmm_free_page L m p) = used L m - {p}" by simp
next
  fix m show "used L m \<subseteq> ram_frames" by (rule used_subset)
next
  show "finite ram_frames" by simp
next
  show "0 \<notin> ram_frames" using frame_nonzero by blast
qed

section \<open>Properties\<close>

text \<open>
  \<open>init_pmm\<close> leaves exactly the frames from the start of RAM up to and including the
  bitmap page marked as used, so the firmware, the kernel image and the bitmap itself are
  never handed out, and it writes nothing but the bitmap page.
\<close>
theorem init_pmm_protects:
  assumes "layout_ok L"
  shows "used L (init_pmm L m) = {p \<in> ram_frames. p \<le> image_end L}
    \<and> same_except {image_end L} m (init_pmm L m)"
  using used_init_pmm [OF assms] same_except_init [OF assms] by blast

definition sample_layout :: layout where
  "sample_layout = \<lparr>text_start = 0x80200000, text_end = 0x80206000, rodata_start = 0x80206000,
     rodata_end = 0x80210000, image_end = 0x80216000, ramdisk_start = 0x80208000\<rparr>"

lemma sample_layout_ok: "layout_ok sample_layout"
  by (simp add: layout_ok_def sample_layout_def page_aligned_def)

lemma init_pmm_protects_witness:
  "used sample_layout (init_pmm sample_layout (\<lambda>_. 0)) = {p \<in> ram_frames. p \<le> 0x80216000}
    \<and> same_except {0x80216000} (\<lambda>_. 0) (init_pmm sample_layout (\<lambda>_. 0))"
  using init_pmm_protects [OF sample_layout_ok, of "\<lambda>_. 0"] by (simp add: sample_layout_def)

text \<open>
  \<open>pmm_alloc_page\<close> returns null exactly when no frame is free, and then changes nothing;
  otherwise it returns the lowest free frame, marks that frame and no other one as used, and
  writes nothing but the bitmap page.
\<close>
theorem pmm_alloc_page_spec:
  assumes "page_aligned (image_end L)" "pmm_alloc_page L m = (p, m')"
  shows "if used L m = ram_frames then p = 0 \<and> m' = m
    else p \<in> ram_frames - used L m \<and> (\<forall>q \<in> ram_frames - used L m. p \<le> q) \<and>
      used L m' = insert p (used L m) \<and> same_except {image_end L} m m'"
  using assms(2)
proof (cases rule: pmm_alloc_cases)
  case (page j)
  then show ?thesis using same_except_alloc [OF assms] by auto
qed simp

lemma pmm_alloc_page_spec_witness:
  "let (p, m') = pmm_alloc_page sample_layout (\<lambda>_. 0) in
     p = 0x80000000 \<and> same_except {0x80216000} (\<lambda>_. 0) m'"
proof -
  have al: "pmm_alloc_page sample_layout (\<lambda>_. 0)
      = (0x80000000, bitmap_set sample_layout (\<lambda>_. 0) 0)"
    by (simp add: pmm_alloc_page_def alloc_scan.simps [of _ _ 0] bitmap_test_def pmm_translator_def)
  have "page_aligned (image_end sample_layout)" by (simp add: sample_layout_def page_aligned_def)
  note spec = pmm_alloc_page_spec [OF this al]
  have "image_end sample_layout = 0x80216000" by (simp add: sample_layout_def)
  with spec show ?thesis unfolding al Let_def prod.case
    by (cases "used sample_layout (\<lambda>_. 0) = ram_frames") simp_all
qed

text \<open>
  C37: \<open>pmm_free_page\<close> returns exactly the given frame to the pool; for an address that is not
  a page-aligned RAM address it does nothing at all, and it never writes outside the bitmap.
\<close>
theorem pmm_free_page_spec:
  assumes "page_aligned (image_end L)"
  shows "used L (pmm_free_page L m p) = used L m - {p} \<and>
    (p \<notin> ram_frames \<longrightarrow> pmm_free_page L m p = m) \<and>
    same_except {image_end L} m (pmm_free_page L m p)"
proof -
  have "p \<notin> ram_frames \<Longrightarrow> pmm_free_page L m p = m"
    by (cases rule: pmm_free_cases [of p L m]) simp_all
  with used_free same_except_free [OF assms] show ?thesis by blast
qed

lemma pmm_free_page_spec_witness:
  "pmm_free_page sample_layout (\<lambda>_. 255) 0x80216004 = (\<lambda>_. 255)"
proof -
  have "page_aligned (image_end sample_layout)" by (simp add: sample_layout_def page_aligned_def)
  moreover have "(0x80216004 :: u64) \<notin> ram_frames"
    by (auto dest!: frame_aligned simp: page_aligned_def)
  ultimately show ?thesis using pmm_free_page_spec by blast
qed

text \<open>
  C36: over any sequence of allocations and frees, from any state of the bitmap, no page is
  handed out while a caller of the run still holds it; and \<open>n\<close> allocations in a row return
  as many distinct free frames as there are, up to \<open>n\<close>.
\<close>
theorem pmm_never_double_allocates:
  "no_double_alloc (pmm_alloc_page L) (pmm_free_page L) ops m {} \<and>
   (let (ps, m') = alloc_many (pmm_alloc_page L) n m in
      length ps = min n (card (ram_frames - used L m)) \<and> distinct ps \<and>
      set ps \<subseteq> ram_frames - used L m \<and> used L m' = used L m \<union> set ps)"
proof -
  obtain ps m' where run: "alloc_many (pmm_alloc_page L) n m = (ps, m')" by fastforce
  note spec = pmm.alloc_many_spec [OF run]
  have "no_double_alloc (pmm_alloc_page L) (pmm_free_page L) ops m {}"
    by (rule pmm.al_no_double) simp
  then show ?thesis unfolding run Let_def prod.case by (intro conjI spec)
qed

end
