(* ===== verification/Vmm.thy ===== *)
theory Vmm
  imports Pmm
begin

text \<open>
  Sv39 page tables (\<open>kernel/mm/vmm.c\<close>, \<open>kernel/include/vmm.h\<close>,
  \<open>kernel/include/platform.h\<close>): the operations on them, as the code performs them on
  physical memory. A page table is a page of 512 eight-byte entries; the kernel reaches
  it at its physical address because RAM is identity mapped. Facts about whole trees are
  in \<open>Page_Tree\<close>.
\<close>

section \<open>Page table entries\<close>

definition PTE_V :: u64 where "PTE_V = 1"
definition PTE_R :: u64 where "PTE_R = 2"
definition PTE_W :: u64 where "PTE_W = 4"
definition PTE_X :: u64 where "PTE_X = 8"
definition PTE_U :: u64 where "PTE_U = 16"

definition PTE_TO_PA :: "u64 \<Rightarrow> u64" where
  "PTE_TO_PA pte = push_bit 12 (drop_bit 10 pte)"

definition PA_TO_PTE :: "u64 \<Rightarrow> u64" where
  "PA_TO_PTE pa = push_bit 10 (drop_bit 12 pa)"

definition VPN :: "u64 \<Rightarrow> nat \<Rightarrow> nat" where
  "VPN va level = unat (drop_bit (12 + 9 * level) va AND 0x1FF)"

definition MAKE_SATP :: "u64 \<Rightarrow> u64" where
  "MAKE_SATP root_pa = push_bit 60 8 OR drop_bit 12 root_pa"

definition has :: "u64 \<Rightarrow> u64 \<Rightarrow> bool" where
  "has pte flag \<longleftrightarrow> pte AND flag \<noteq> 0"

definition is_leaf :: "u64 \<Rightarrow> bool" where
  "is_leaf pte \<longleftrightarrow> has pte PTE_R \<or> has pte PTE_W \<or> has pte PTE_X"

section \<open>Walking and mapping\<close>

text \<open>
  \<open>vmm_lookup\<close> returns the address of the level-0 entry, or 0. The loop over levels 2 and 1
  is the recursion on the level.
\<close>

fun lookup_walk :: "memory \<Rightarrow> u64 \<Rightarrow> u64 \<Rightarrow> nat \<Rightarrow> u64" where
  "lookup_walk m table va 0 = slot table (VPN va 0)"
| "lookup_walk m table va (Suc level) =
     (let pte = load64 m (slot table (VPN va (Suc level))) in
      if \<not> has pte PTE_V then 0 else lookup_walk m (PTE_TO_PA pte) va level)"

definition vmm_lookup :: "memory \<Rightarrow> u64 \<Rightarrow> u64 \<Rightarrow> u64" where
  "vmm_lookup m root va = lookup_walk m root va 2"

text \<open>
  \<open>map_page\<close> returns 0, or -1 when an intermediate table cannot be allocated; tables it
  allocated before that stay in the tree.
\<close>

fun map_walk :: "layout \<Rightarrow> memory \<Rightarrow> u64 \<Rightarrow> u64 \<Rightarrow> u64 \<Rightarrow> u64 \<Rightarrow> nat \<Rightarrow> int \<times> memory" where
  "map_walk L m table va pa flags 0 =
     (0, store64 m (slot table (VPN va 0)) (PA_TO_PTE pa OR flags OR PTE_V))"
| "map_walk L m table va pa flags (Suc level) =
     (let pte = slot table (VPN va (Suc level)) in
      if has (load64 m pte) PTE_V then
        map_walk L m (PTE_TO_PA (load64 m pte)) va pa flags level
      else
        (let (new_table, m1) = pmm_alloc_page L m in
         if new_table = 0 then (-1, m1)
         else
           (let m2 = memset m1 new_table 0 4096;
                m3 = store64 m2 pte (PA_TO_PTE new_table OR PTE_V)
            in map_walk L m3 new_table va pa flags level)))"

definition map_page :: "layout \<Rightarrow> memory \<Rightarrow> u64 \<Rightarrow> u64 \<Rightarrow> u64 \<Rightarrow> u64 \<Rightarrow> int \<times> memory" where
  "map_page L m root va pa flags = map_walk L m root va pa flags 2"

text \<open>\<open>vmm_unmap_range\<close>; the TLB flush that ends it has no counterpart in the model.\<close>

definition unmap_page :: "layout \<Rightarrow> u64 \<Rightarrow> u64 \<Rightarrow> memory \<Rightarrow> memory" where
  "unmap_page L root a m =
     (let pte = vmm_lookup m root a in
      if pte = 0 \<or> \<not> has (load64 m pte) PTE_V then m
      else store64 (pmm_free_page L m (PTE_TO_PA (load64 m pte))) pte 0)"

definition vmm_unmap_range :: "layout \<Rightarrow> memory \<Rightarrow> u64 \<Rightarrow> u64 \<Rightarrow> u64 \<Rightarrow> stop + memory" where
  "vmm_unmap_range L m root start stop_at =
     for_pages Diverge (\<lambda>a m. Inr (unmap_page L root a m)) start stop_at m"

section \<open>The kernel's own mappings\<close>

definition map_identity_range ::
  "layout \<Rightarrow> u64 \<Rightarrow> u64 \<Rightarrow> u64 \<Rightarrow> u64 \<Rightarrow> memory \<Rightarrow> stop + memory" where
  "map_identity_range L pt start stop_at flags m =
     for_pages Diverge
       (\<lambda>addr m. let (r, m') = map_page L m pt addr addr flags in
          if r = -1 then Inl (Panic ''PANIC: vmm_map_kernel out of memory!'') else Inr m')
       start stop_at m"

abbreviation UART0_BASE :: u64 where "UART0_BASE \<equiv> 0x10000000"
abbreviation UART0_SIZE :: u64 where "UART0_SIZE \<equiv> 0x100"
abbreviation PLIC_BASE :: u64 where "PLIC_BASE \<equiv> 0x0C000000"
abbreviation PLIC_SIZE :: u64 where "PLIC_SIZE \<equiv> 0x202000"

text \<open>The six ranges of \<open>vmm_map_kernel\<close> with their permissions, in the code's order.\<close>

definition kernel_ranges :: "layout \<Rightarrow> (u64 \<times> u64 \<times> u64) list" where
  "kernel_ranges L =
     [(text_start L, text_end L, PTE_R OR PTE_X),
      (rodata_start L, rodata_end L, PTE_R),
      (rodata_end L, image_end L, PTE_R OR PTE_W),
      (image_end L, PHYSICAL_RAM_START + PHYSICAL_RAM_SIZE, PTE_R OR PTE_W),
      (UART0_BASE, UART0_BASE + UART0_SIZE, PTE_R OR PTE_W),
      (PLIC_BASE, PLIC_BASE + PLIC_SIZE, PTE_R OR PTE_W)]"

definition vmm_map_kernel :: "layout \<Rightarrow> u64 \<Rightarrow> memory \<Rightarrow> stop + memory" where
  "vmm_map_kernel L pt m =
     for_each (\<lambda>(start, stop_at, flags) m. map_identity_range L pt start stop_at flags m)
       (kernel_ranges L) m"

section \<open>Freeing and copying trees\<close>

fun free_page_table :: "layout \<Rightarrow> u64 \<Rightarrow> nat \<Rightarrow> memory \<Rightarrow> memory" where
  "free_page_table L pt level m =
     fold
       (\<lambda>i m. let pte = load64 m (slot pt i) in
          if has pte PTE_V then
            if is_leaf pte then
              if has pte PTE_U then pmm_free_page L m (PTE_TO_PA pte) else m
            else if 0 < level then
              pmm_free_page L (free_page_table L (PTE_TO_PA pte) (level - 1) m) (PTE_TO_PA pte)
            else m
          else m)
       [0..<512] m"

declare free_page_table.simps [simp del]

definition vmm_free_pt :: "layout \<Rightarrow> memory \<Rightarrow> u64 \<Rightarrow> memory" where
  "vmm_free_pt L m root = pmm_free_page L (free_page_table L root 2 m) root"

text \<open>
  \<open>vmm_copy_uvm\<close>: one entry of the loop, then the recursion over levels. Every failure
  is a panic, so the function either returns or the kernel hangs.
\<close>

definition copy_leaf :: "layout \<Rightarrow> u64 \<Rightarrow> nat \<Rightarrow> u64 \<Rightarrow> memory \<Rightarrow> stop + memory" where
  "copy_leaf L child_pt i pte m =
     (if \<not> has pte PTE_U then Inr m
      else
        (let (new_page, m1) = pmm_alloc_page L m in
         if new_page = 0 then Inl (Panic ''PANIC: vmm_copy_uvm out of memory!'')
         else
           (let m2 = memcpy m1 new_page (PTE_TO_PA pte) 4096
            in Inr (store64 m2 (slot child_pt i) (PA_TO_PTE new_page OR (pte AND 0x3FF))))))"

definition child_table :: "layout \<Rightarrow> u64 \<Rightarrow> nat \<Rightarrow> memory \<Rightarrow> stop + u64 \<times> memory" where
  "child_table L child_pt i m =
     (let child_pte = load64 m (slot child_pt i) in
      if has child_pte PTE_V then
        if is_leaf child_pte then
          Inl (Panic ''PANIC: vmm_copy_uvm: child has a leaf where parent has a table!'')
        else Inr (PTE_TO_PA child_pte, m)
      else
        (let (next_child, m1) = pmm_alloc_page L m in
         if next_child = 0 then Inl (Panic ''PANIC: vmm_copy_uvm out of memory!'')
         else
           (let m2 = memset m1 next_child 0 4096
            in Inr (next_child,
                 store64 m2 (slot child_pt i) (PA_TO_PTE next_child OR PTE_V)))))"

fun vmm_copy_uvm :: "layout \<Rightarrow> u64 \<Rightarrow> u64 \<Rightarrow> nat \<Rightarrow> memory \<Rightarrow> stop + memory" where
  "vmm_copy_uvm L parent_pt child_pt level m =
     for_each
       (\<lambda>i m.
          if level = 2 \<and> 2 \<le> i then Inr m
          else
            (let pte = load64 m (slot parent_pt i) in
             if \<not> has pte PTE_V then Inr m
             else if is_leaf pte then copy_leaf L child_pt i pte m
             else if level = 0 then
               Inl (Panic ''PANIC: vmm_copy_uvm: invalid non-leaf PTE at level 0!'')
             else
               (case child_table L child_pt i m of
                  Inl r \<Rightarrow> Inl r
                | Inr (next_child, m1) \<Rightarrow>
                    vmm_copy_uvm L (PTE_TO_PA pte) next_child (level - 1) m1)))
       [0..<512] m"

declare vmm_copy_uvm.simps [simp del]

section \<open>Flag and address arithmetic\<close>

lemma has_bit: "has pte (2 ^ k) \<longleftrightarrow> bit pte k"
  using bit_iff_and_push_bit_not_eq_0 [of pte k] by (simp add: has_def push_bit_eq_mult)

lemma has_flags:
  "has pte PTE_V \<longleftrightarrow> bit pte 0" "has pte PTE_R \<longleftrightarrow> bit pte 1" "has pte PTE_W \<longleftrightarrow> bit pte 2"
  "has pte PTE_X \<longleftrightarrow> bit pte 3" "has pte PTE_U \<longleftrightarrow> bit pte 4"
  using has_bit [of pte 0] has_bit [of pte 1] has_bit [of pte 2] has_bit [of pte 3] has_bit [of pte 4]
  by (simp_all add: PTE_V_def PTE_R_def PTE_W_def PTE_X_def PTE_U_def)

lemma bit_PA_TO_PTE: "bit (PA_TO_PTE pa) k \<longleftrightarrow> 10 \<le> k \<and> k < 64 \<and> bit pa (k + 2)"
  by (auto simp: PA_TO_PTE_def bit_simps)

lemma bit_PTE_TO_PA: "bit (PTE_TO_PA pte) k \<longleftrightarrow> 12 \<le> k \<and> k < 64 \<and> bit pte (k - 2)"
  by (auto simp: PTE_TO_PA_def bit_simps)

text \<open>A small flag word fits in the ten low bits of an entry.\<close>

definition flag_word :: "u64 \<Rightarrow> bool" where
  "flag_word f \<longleftrightarrow> (\<forall>k \<ge> 10. \<not> bit f k)"

lemma page_aligned_bits: "page_aligned a \<longleftrightarrow> (\<forall>k < 12. \<not> bit a k)"
proof -
  have "page_aligned a \<longleftrightarrow> take_bit 12 a = 0"
    by (simp add: page_aligned_def mask12 take_bit_eq_mask)
  also have "\<dots> \<longleftrightarrow> (\<forall>k < 12. \<not> bit a k)"
    by (auto simp: bit_eq_iff bit_take_bit_iff)
  finally show ?thesis .
qed

lemma PTE_TO_PA_entry:
  assumes "page_aligned pa" "flag_word flags"
  shows "PTE_TO_PA (PA_TO_PTE pa OR flags) = pa"
proof (rule bit_word_eqI)
  fix k assume k: "k < LENGTH(64)"
  show "bit (PTE_TO_PA (PA_TO_PTE pa OR flags)) k = bit pa k"
  proof (cases "k < 12")
    case True
    with assms(1) show ?thesis by (simp add: bit_PTE_TO_PA page_aligned_bits)
  next
    case False
    then have "\<not> bit flags (k - 2)" using assms(2) by (simp add: flag_word_def)
    moreover have "k = (k - 2) + 2" "10 \<le> k - 2" using False by linarith+
    then obtain j where "k = j + 2" "10 \<le> j" by blast
    ultimately show ?thesis using k by (simp add: bit_PTE_TO_PA bit_or_iff bit_PA_TO_PTE)
  qed
qed

lemma page_aligned_PTE_TO_PA [simp]: "page_aligned (PTE_TO_PA pte)"
  by (simp add: page_aligned_bits bit_PTE_TO_PA)

lemma VPN_less [simp]: "VPN va level < 512"
proof -
  have "unat (drop_bit (12 + 9 * level) va AND mask 9) < 2 ^ 9"
    by (simp add: take_bit_eq_mask [symmetric] unsigned_take_bit_eq take_bit_eq_mod unat_mod)
  moreover have "(0x1FF :: u64) = mask 9" by (simp add: mask_eq_exp_minus_1)
  ultimately show ?thesis by (simp add: VPN_def)
qed

lemma VPN_unat: "VPN va level = unat va div 2 ^ (12 + 9 * level) mod 512"
proof -
  have m: "(0x1FF :: u64) = mask 9" by (simp add: mask_eq_exp_minus_1)
  have "VPN va level = take_bit 9 (unat (drop_bit (12 + 9 * level) va))"
    unfolding VPN_def m by (simp only: take_bit_eq_mask [symmetric] unsigned_take_bit_eq)
  also have "\<dots> = take_bit 9 (drop_bit (12 + 9 * level) (unat va))"
    unfolding unsigned_drop_bit_eq by (simp only: take_bit_nat_eq_self unsigned_less)
  finally show ?thesis by (simp add: take_bit_eq_mod drop_bit_eq_div)
qed

text \<open>Below the 39 bits that Sv39 translates, a page is determined by its three indices.\<close>

lemma page_of_VPN:
  assumes "page_aligned a" "unat a < 2 ^ 39"
  shows "unat a = (VPN a 2 * 2 ^ 18 + VPN a 1 * 2 ^ 9 + VPN a 0) * 4096"
proof -
  obtain q where q: "unat a = 4096 * q" using assms by (auto simp: page_aligned_unat dvd_def)
  then have q_less: "q < 134217728" using assms by simp
  have c: "(2 :: nat) ^ 12 = 4096" "(2 :: nat) ^ 21 = 4096 * 512" "(2 :: nat) ^ 30 = 4096 * 262144"
    by simp_all
  have v0: "VPN a 0 = q mod 512"
    unfolding VPN_unat q by simp
  have v1: "VPN a 1 = q div 512 mod 512"
    unfolding VPN_unat q by (simp only: mult_1_right numeral_plus_numeral add_num_simps c div_mult2_eq) simp
  have "2 ^ (12 + 9 * 2) = (4096 * 262144 :: nat)" by simp
  then have v2: "VPN a 2 = q div 262144 mod 512"
    unfolding VPN_unat q by (simp only: div_mult2_eq) simp
  have "q div 262144 mod 512 = q div 262144" using q_less by (simp add: less_mult_imp_div_less)
  moreover have "q div 262144 = q div 512 div 512" by (simp add: div_mult2_eq [symmetric])
  ultimately have "q = q div 262144 mod 512 * 262144 + q div 512 mod 512 * 512 + q mod 512"
    using div_mult_mod_eq [of q 512] div_mult_mod_eq [of "q div 512" 512] by linarith
  moreover have "(2 :: nat) ^ 18 = 262144" "(2 :: nat) ^ 9 = 512" by simp_all
  ultimately have "4096 * q = (q div 262144 mod 512 * 2 ^ 18 + q div 512 mod 512 * 2 ^ 9 + q mod 512) * 4096"
    by (simp only: mult.commute)
  then show ?thesis unfolding v0 v1 v2 q .
qed

lemma VPN_inj:
  assumes "page_aligned a" "unat a < 2 ^ 39" "page_aligned b" "unat b < 2 ^ 39"
    and "[VPN a 2, VPN a 1, VPN a 0] = [VPN b 2, VPN b 1, VPN b 0]"
  shows "a = b"
proof -
  have "unat a = unat b" using page_of_VPN [OF assms(1,2)] page_of_VPN [OF assms(3,4)] assms(5) by simp
  then show ?thesis by (rule word_unat_eq_iff [THEN iffD2])
qed

end
