(* ===== verification/Uart.thy ===== *)
theory Uart
  imports Prelude
begin

text \<open>
  The console input driver (\<open>kernel/arch/riscv/uart.c\<close>): a 128 byte ring with three
  free-running 32-bit counters, an escape sequence filter and a line discipline. The driver's
  two effects on the rest of the kernel, echoing bytes on the console and waking the readers,
  are returned as the echoed bytes and a flag; \<open>Plic\<close> performs them. The ring is shown to
  implement a pair of unbounded lists: finished lines and the line being typed.
\<close>

section \<open>The driver\<close>

datatype esc_state = ESC_NORMAL | ESC_GOT_ESC | ESC_IN_SEQ

record uart =
  rx_buf :: "u8 list"
  rx_head :: u32
  rx_tail :: u32
  rx_commit :: u32
  esc :: esc_state

abbreviation UART_RX_SIZE :: nat where
  "UART_RX_SIZE \<equiv> 128"

text \<open>\<open>.bss\<close> is zeroed at boot, so the driver starts like this.\<close>

definition uart_reset :: uart where
  "uart_reset = \<lparr>rx_buf = replicate UART_RX_SIZE 0, rx_head = 0, rx_tail = 0, rx_commit = 0,
     esc = ESC_NORMAL\<rparr>"

abbreviation newline :: u8 where
  "newline \<equiv> 10"

definition rx_store :: "u8 \<Rightarrow> uart \<Rightarrow> uart" where
  "rx_store c u =
     u\<lparr>rx_buf := (rx_buf u)[unat (rx_head u) mod UART_RX_SIZE := c], rx_head := rx_head u + 1\<rparr>"

text \<open>
  One round of the loop of \<open>uart_intr\<close>, for the byte read from the receive register: the new
  state, the bytes echoed, and whether \<open>wakeup(&rx_buf)\<close> was called.
\<close>

definition uart_byte :: "u8 \<Rightarrow> uart \<Rightarrow> uart \<times> u8 list \<times> bool" where
  "uart_byte b u =
     (let c = (if b = 13 then newline else b) in
      if esc u = ESC_GOT_ESC then
        (u\<lparr>esc := (if c = 0x5B then ESC_IN_SEQ else ESC_NORMAL)\<rparr>, [], False)
      else if esc u = ESC_IN_SEQ then
        (if 0x40 \<le> c \<and> c \<le> 0x7E then u\<lparr>esc := ESC_NORMAL\<rparr> else u, [], False)
      else if c = 0x1B then (u\<lparr>esc := ESC_GOT_ESC\<rparr>, [], False)
      else if c = newline then
        if rx_head u - rx_tail u < of_nat UART_RX_SIZE then
          (let u1 = rx_store c u in (u1\<lparr>rx_commit := rx_head u1\<rparr>, [c], True))
        else (u, [], False)
      else if c = 8 \<or> c = 0x7F then
        if rx_head u \<noteq> rx_commit u then (u\<lparr>rx_head := rx_head u - 1\<rparr>, [8, 32, 8], False)
        else (u, [], False)
      else if c < 0x20 then (u, [], False)
      else if rx_head u - rx_tail u < of_nat UART_RX_SIZE - 1 then (rx_store c u, [c], False)
      else (u, [], False))"

definition uart_getc :: "uart \<Rightarrow> int \<times> uart" where
  "uart_getc u =
     (if rx_commit u = rx_tail u then (-1, u)
      else (uint (rx_buf u ! (unat (rx_tail u) mod UART_RX_SIZE)), u\<lparr>rx_tail := rx_tail u + 1\<rparr>))"

section \<open>The ring as two lists\<close>

text \<open>The bytes of the ring from counter value \<open>a\<close> up to \<open>b\<close>.\<close>

definition ring_slice :: "u8 list \<Rightarrow> u32 \<Rightarrow> nat \<Rightarrow> u8 list" where
  "ring_slice buf a n = map (\<lambda>i. buf ! (unat (a + of_nat i) mod UART_RX_SIZE)) [0..<n]"

definition finished :: "uart \<Rightarrow> u8 list" where
  "finished u = ring_slice (rx_buf u) (rx_tail u) (unat (rx_commit u - rx_tail u))"

definition editing :: "uart \<Rightarrow> u8 list" where
  "editing u = ring_slice (rx_buf u) (rx_commit u) (unat (rx_head u - rx_commit u))"

text \<open>The driver's documented invariants, read modulo the wrap-around of the counters.\<close>

definition uart_ok :: "uart \<Rightarrow> bool" where
  "uart_ok u \<longleftrightarrow> length (rx_buf u) = UART_RX_SIZE \<and>
     rx_commit u - rx_tail u \<le> rx_head u - rx_tail u \<and>
     rx_head u - rx_tail u \<le> of_nat UART_RX_SIZE"

text \<open>What the line discipline does to finished lines \<open>q\<close> and the line being typed \<open>e\<close>.\<close>

definition line_byte :: "u8 \<Rightarrow> u8 list \<times> u8 list \<times> esc_state \<Rightarrow>
    (u8 list \<times> u8 list \<times> esc_state) \<times> u8 list \<times> bool" where
  "line_byte b s =
     (case s of (q, e, st) \<Rightarrow>
        let c = (if b = 13 then newline else b) in
        if st = ESC_GOT_ESC then ((q, e, if c = 0x5B then ESC_IN_SEQ else ESC_NORMAL), [], False)
        else if st = ESC_IN_SEQ then
          ((q, e, if 0x40 \<le> c \<and> c \<le> 0x7E then ESC_NORMAL else ESC_IN_SEQ), [], False)
        else if c = 0x1B then ((q, e, ESC_GOT_ESC), [], False)
        else if c = newline then
          if length q + length e < 128 then ((q @ e @ [c], [], st), [c], True) else (s, [], False)
        else if c = 8 \<or> c = 0x7F then
          if e \<noteq> [] then ((q, butlast e, st), [8, 32, 8], False) else (s, [], False)
        else if c < 0x20 then (s, [], False)
        else if length q + length e < 127 then ((q, e @ [c], st), [c], False)
        else (s, [], False))"

definition uart_abs :: "uart \<Rightarrow> u8 list \<times> u8 list \<times> esc_state" where
  "uart_abs u = (finished u, editing u, esc u)"

subsection \<open>Counter arithmetic\<close>

lemma ring_slice_append: "ring_slice buf a (m + n) = ring_slice buf a m @ ring_slice buf (a + of_nat m) n"
proof -
  have "[0..<m + n] = [0..<m] @ map (\<lambda>i. i + m) [0..<n]"
    using upt_add_eq_append [of 0 m n] map_add_upt [of m n] by (simp add: add.commute)
  then show ?thesis
    unfolding ring_slice_def by (simp only: map_append map_map o_def of_nat_add ac_simps)
qed

lemma length_ring_slice [simp]: "length (ring_slice buf a n) = n"
  by (simp add: ring_slice_def)

lemma mod_128: "unat (w :: u32) mod 128 = unat (w AND 127)"
proof -
  have "(127 :: u32) = mask 7" by (simp add: mask_eq_exp_minus_1)
  then have "unat (w AND 127) = take_bit 7 (unat w)"
    by (simp only: take_bit_eq_mask [symmetric] unsigned_take_bit_eq)
  then show ?thesis by (simp add: take_bit_eq_mod)
qed

text \<open>Slots less than 128 counter values apart are different.\<close>

lemma slot_distinct:
  assumes "i < j" "j < i + 128"
  shows "unat ((a :: u32) + of_nat i) mod 128 \<noteq> unat (a + of_nat j) mod 128"
proof
  assume eq: "unat (a + of_nat i) mod 128 = unat (a + of_nat j) mod 128"
  have m: "unat (a + of_nat k) mod 128 = (unat a + k) mod 128" for k
  proof -
    have "unat (a + of_nat k) = (unat a + k) mod 2 ^ 32"
      by (simp add: unat_word_ariths unat_of_nat mod_add_right_eq)
    moreover have "(128 :: nat) dvd 2 ^ 32" by (simp add: dvd_def)
    ultimately show ?thesis by (simp add: mod_mod_cancel)
  qed
  have "(unat a + i) mod 128 = (unat a + j) mod 128" using eq unfolding m .
  then have "(unat a + j - (unat a + i)) mod 128 = 0"
    using assms(1) by (metis add_left_mono less_imp_le mod_eq_dvd_iff_nat dvd_imp_mod_0)
  then show False using assms by simp
qed

lemma ring_slice_update:
  assumes "length buf = 128" "n \<le> j" "j < 128"
  shows "ring_slice (buf[unat (a + of_nat j) mod 128 := c]) a n = ring_slice buf a n"
  unfolding ring_slice_def
proof (rule map_cong [OF refl])
  fix i assume "i \<in> set [0..<n]"
  then have "unat (a + of_nat i) mod 128 \<noteq> unat (a + of_nat j) mod 128"
    using assms by (intro slot_distinct) auto
  then show "buf[unat (a + of_nat j) mod 128 := c] ! (unat (a + of_nat i) mod 128)
      = buf ! (unat (a + of_nat i) mod 128)" by simp
qed

text \<open>The counters as lengths: \<open>q\<close> bytes finished, \<open>e\<close> bytes being typed.\<close>

lemma uart_counters:
  assumes "uart_ok u"
  obtains q e where "rx_commit u = rx_tail u + of_nat q" "rx_head u = rx_commit u + of_nat e"
    "q + e \<le> 128" "unat (rx_commit u - rx_tail u) = q" "unat (rx_head u - rx_commit u) = e"
    "unat (rx_head u - rx_tail u) = q + e"
proof -
  let ?q = "unat (rx_commit u - rx_tail u)" and ?h = "unat (rx_head u - rx_tail u)"
  have h: "?h \<le> 128" "?q \<le> ?h"
    using assms by (simp_all add: uart_ok_def word_le_nat_alt)
  have "rx_commit u - rx_tail u \<le> rx_head u - rx_tail u" using assms by (simp add: uart_ok_def)
  then have "unat ((rx_head u - rx_tail u) - (rx_commit u - rx_tail u)) = ?h - ?q"
    by (rule unat_sub)
  then have e: "unat (rx_head u - rx_commit u) = ?h - ?q" by simp
  have "of_nat (?h - ?q) = rx_head u - rx_commit u" unfolding e [symmetric] by simp
  moreover have "of_nat ?q = rx_commit u - rx_tail u" by simp
  ultimately show thesis
    using that [of ?q "?h - ?q"] e h by simp
qed

lemma unat_small: "n \<le> 128 \<Longrightarrow> unat (of_nat n :: u32) = n"
  by (simp add: unat_of_nat)

lemma ring_slice_Suc:
  "ring_slice buf a (Suc n) = ring_slice buf a n @ [buf ! (unat (a + of_nat n) mod 128)]"
  by (simp add: ring_slice_def)

lemma ring_slice_Cons:
  "ring_slice buf a (Suc n) = buf ! (unat a mod 128) # ring_slice buf (a + 1) n"
  using ring_slice_append [of buf a 1 n] by (simp add: ring_slice_def)

text \<open>A state given by its counters.\<close>

lemma uart_okI:
  assumes "length (rx_buf u) = 128" "rx_commit u = rx_tail u + of_nat q" "rx_head u = rx_commit u + of_nat e"
    "q + e \<le> 128"
  shows "uart_ok u" "finished u = ring_slice (rx_buf u) (rx_tail u) q"
    "editing u = ring_slice (rx_buf u) (rx_commit u) e"
proof -
  have c: "rx_commit u - rx_tail u = of_nat q" "rx_head u - rx_commit u = of_nat e"
    "rx_head u - rx_tail u = of_nat (q + e)"
    using assms(2,3) by simp_all
  have n: "unat (of_nat q :: u32) = q" "unat (of_nat e :: u32) = e" "unat (of_nat (q + e) :: u32) = q + e"
    using assms(4) unat_small [of q] unat_small [of e] unat_small [OF assms(4)] by linarith+
  show "uart_ok u" unfolding uart_ok_def c word_le_nat_alt n using assms by simp
  show "finished u = ring_slice (rx_buf u) (rx_tail u) q" unfolding finished_def c n ..
  show "editing u = ring_slice (rx_buf u) (rx_commit u) e" unfolding editing_def c n ..
qed

lemma uart_lengths:
  assumes "uart_ok u"
  shows "length (finished u) + length (editing u) \<le> 128"
    "rx_head u - rx_tail u < of_nat UART_RX_SIZE \<longleftrightarrow> length (finished u) + length (editing u) < 128"
    "rx_head u - rx_tail u < of_nat UART_RX_SIZE - 1 \<longleftrightarrow> length (finished u) + length (editing u) < 127"
    "rx_head u \<noteq> rx_commit u \<longleftrightarrow> editing u \<noteq> []"
    "rx_commit u = rx_tail u \<longleftrightarrow> finished u = []"
proof -
  obtain q e where c: "rx_commit u = rx_tail u + of_nat q" "rx_head u = rx_commit u + of_nat e"
      "q + e \<le> 128" "unat (rx_commit u - rx_tail u) = q" "unat (rx_head u - rx_commit u) = e"
      "unat (rx_head u - rx_tail u) = q + e"
    using uart_counters [OF assms] by blast
  have l: "length (finished u) = q" "length (editing u) = e"
    by (simp_all add: finished_def editing_def c(4,5))
  show "length (finished u) + length (editing u) \<le> 128" using l c(3) by simp
  show "rx_head u - rx_tail u < of_nat UART_RX_SIZE \<longleftrightarrow> length (finished u) + length (editing u) < 128"
    using c(6) l by (simp add: word_less_nat_alt)
  show "rx_head u - rx_tail u < of_nat UART_RX_SIZE - 1 \<longleftrightarrow> length (finished u) + length (editing u) < 127"
    using c(6) l by (simp add: word_less_nat_alt)
  have "rx_head u = rx_commit u \<longleftrightarrow> unat (rx_head u - rx_commit u) = 0" by (simp add: unat_eq_0)
  then show "rx_head u \<noteq> rx_commit u \<longleftrightarrow> editing u \<noteq> []" using c(5) l(2) by auto
  have "rx_commit u = rx_tail u \<longleftrightarrow> unat (rx_commit u - rx_tail u) = 0" by (simp add: unat_eq_0)
  then show "rx_commit u = rx_tail u \<longleftrightarrow> finished u = []" using c(4) l(1) by auto
qed

section \<open>The refinement\<close>

lemma uart_store_abs:
  assumes ok: "uart_ok u" and room: "length (finished u) + length (editing u) < 128"
  shows "uart_ok (rx_store c u)" "finished (rx_store c u) = finished u"
    "editing (rx_store c u) = editing u @ [c]"
    "uart_ok (rx_store c u\<lparr>rx_commit := rx_head (rx_store c u)\<rparr>)"
    "finished (rx_store c u\<lparr>rx_commit := rx_head (rx_store c u)\<rparr>) = finished u @ editing u @ [c]"
    "editing (rx_store c u\<lparr>rx_commit := rx_head (rx_store c u)\<rparr>) = []"
proof -
  obtain q e where c: "rx_commit u = rx_tail u + of_nat q" "rx_head u = rx_commit u + of_nat e"
      "q + e \<le> 128" "unat (rx_commit u - rx_tail u) = q" "unat (rx_head u - rx_commit u) = e"
      "unat (rx_head u - rx_tail u) = q + e"
    using uart_counters [OF ok] by blast
  have len: "length (rx_buf u) = 128" using ok by (simp add: uart_ok_def)
  have l: "length (finished u) = q" "length (editing u) = e"
    by (simp_all add: finished_def editing_def c(4,5))
  with room have qe: "q + e < 128" by simp
  let ?s = "rx_store c u"
  let ?buf = "(rx_buf u)[unat (rx_head u) mod 128 := c]"
  have s: "rx_buf ?s = ?buf" "rx_tail ?s = rx_tail u" "rx_commit ?s = rx_tail ?s + of_nat q"
    "rx_head ?s = rx_commit ?s + of_nat (Suc e)" "length (rx_buf ?s) = 128"
    using c(1,2) len by (simp_all add: rx_store_def)
  have head: "rx_head u = rx_tail u + of_nat (q + e)" using c(1,2) by simp
  have all: "ring_slice ?buf (rx_tail u) (q + e) = finished u @ editing u"
  proof -
    have "ring_slice ?buf (rx_tail u) (q + e) = ring_slice (rx_buf u) (rx_tail u) (q + e)"
      unfolding head using len qe by (intro ring_slice_update) simp_all
    then show ?thesis
      unfolding ring_slice_append finished_def editing_def c(4,5) using c(1) by simp
  qed
  then have fin: "ring_slice ?buf (rx_tail u) q = finished u"
    and ed: "ring_slice ?buf (rx_commit u) e = editing u"
    unfolding ring_slice_append using l c(1) by simp_all
  have new: "?buf ! (unat (rx_head u) mod 128) = c" using len by simp
  have qe': "q + Suc e \<le> 128" using qe by simp
  note a = uart_okI [OF s(5,3,4) qe']
  show "uart_ok ?s" by (rule a)
  show "finished ?s = finished u" using a(2) s(1,2) fin by simp
  have "rx_commit ?s = rx_commit u" by (simp add: rx_store_def)
  then show "editing ?s = editing u @ [c]"
    using a(3) s(1) ed new c(2) by (simp add: ring_slice_Suc)
  let ?t = "?s\<lparr>rx_commit := rx_head ?s\<rparr>"
  have t: "length (rx_buf ?t) = 128" "rx_commit ?t = rx_tail ?t + of_nat (Suc (q + e))"
    "rx_head ?t = rx_commit ?t + of_nat 0" "Suc (q + e) + 0 \<le> 128"
    using s qe by (simp_all add: ac_simps)
  note b = uart_okI [OF t]
  show "uart_ok ?t" by (rule b)
  have "finished ?t = ring_slice ?buf (rx_tail u) (q + e) @ [?buf ! (unat (rx_head u) mod 128)]"
    using b(2) s(1,2) head by (simp add: ring_slice_Suc)
  then show "finished ?t = finished u @ editing u @ [c]" using all new by simp
  show "editing ?t = []" using b(3) by (simp add: ring_slice_def)
qed

lemma uart_erase_abs:
  assumes ok: "uart_ok u" and some: "editing u \<noteq> []"
  shows "uart_ok (u\<lparr>rx_head := rx_head u - 1\<rparr>)" "finished (u\<lparr>rx_head := rx_head u - 1\<rparr>) = finished u"
    "editing (u\<lparr>rx_head := rx_head u - 1\<rparr>) = butlast (editing u)"
proof -
  obtain q e where c: "rx_commit u = rx_tail u + of_nat q" "rx_head u = rx_commit u + of_nat e"
      "q + e \<le> 128" "unat (rx_commit u - rx_tail u) = q" "unat (rx_head u - rx_commit u) = e"
    using uart_counters [OF ok] by blast
  have len: "length (rx_buf u) = 128" using ok by (simp add: uart_ok_def)
  have ed: "editing u = ring_slice (rx_buf u) (rx_commit u) e" by (simp add: editing_def c(5))
  then obtain e' where e': "e = Suc e'" using some by (cases e) (auto simp: ring_slice_def)
  let ?s = "u\<lparr>rx_head := rx_head u - 1\<rparr>"
  have s: "length (rx_buf ?s) = 128" "rx_commit ?s = rx_tail ?s + of_nat q"
    "rx_head ?s = rx_commit ?s + of_nat e'" "q + e' \<le> 128"
    using len c(1-3) e' by simp_all
  note a = uart_okI [OF s]
  show "uart_ok ?s" by (rule a)
  show "finished ?s = finished u" using a(2) by (simp add: finished_def c(4))
  show "editing ?s = butlast (editing u)" using a(3) ed e' by (simp add: ring_slice_Suc)
qed

lemma uart_esc_abs:
  "uart_ok (u\<lparr>esc := s\<rparr>) = uart_ok u" "finished (u\<lparr>esc := s\<rparr>) = finished u"
  "editing (u\<lparr>esc := s\<rparr>) = editing u"
  by (simp_all add: uart_ok_def finished_def editing_def)

lemma uart_byte_refines:
  assumes ok: "uart_ok u" and step: "uart_byte b u = (u', echo, woke)"
  shows "uart_ok u'" "line_byte b (uart_abs u) = (uart_abs u', echo, woke)"
proof -
  note l = uart_lengths [OF ok]
  let ?c = "if b = 13 then newline else b"
  have st [simp]: "esc (rx_store c u) = esc u" for c by (simp add: rx_store_def)
  note abs = uart_store_abs [OF ok] uart_erase_abs [OF ok] uart_esc_abs
  note defs = uart_byte_def line_byte_def uart_abs_def
  have "uart_ok u' \<and> line_byte b (uart_abs u) = (uart_abs u', echo, woke)"
  proof (cases "esc u")
    case ESC_NORMAL
    define c where "c = ?c"
    note defs' = defs Let_def c_def [symmetric] prod.case
    consider "c = 0x1B" | "c = newline" | "c = 8 \<or> c = 0x7F"
      | "c \<noteq> 0x1B" "c \<noteq> newline" "c \<noteq> 8" "c \<noteq> 0x7F" by blast
    then show ?thesis
    proof cases
      case 1
      then show ?thesis using step ok ESC_NORMAL unfolding defs' by (auto simp: abs)
    next
      case 2
      then show ?thesis using step ok ESC_NORMAL unfolding defs' l by (auto simp: abs split: if_splits)
    next
      case 3
      then have "c \<noteq> 0x1B" "c \<noteq> newline" by auto
      with 3 show ?thesis using step ok ESC_NORMAL unfolding defs' l by (auto simp: abs split: if_splits)
    next
      case 4
      then show ?thesis using step ok ESC_NORMAL unfolding defs' l
        by (cases "c < 0x20"; cases "length (finished u) + length (editing u) < 127") (auto simp: abs)
    qed
  next
    case ESC_GOT_ESC
    then show ?thesis using step ok unfolding defs Let_def by (auto simp: abs)
  next
    case ESC_IN_SEQ
    define c where "c = ?c"
    show ?thesis using step ok ESC_IN_SEQ unfolding defs Let_def c_def [symmetric]
      by (cases "0x40 \<le> c \<and> c \<le> 0x7E") (auto simp: abs)
  qed
  then show "uart_ok u'" "line_byte b (uart_abs u) = (uart_abs u', echo, woke)" by simp_all
qed

lemma uart_getc_refines:
  assumes ok: "uart_ok u"
  shows "finished u = [] \<Longrightarrow> uart_getc u = (-1, u)"
    "finished u = c # q \<Longrightarrow> \<exists>u'. uart_getc u = (uint c, u') \<and> uart_ok u' \<and> finished u' = q \<and>
       editing u' = editing u \<and> esc u' = esc u"
proof -
  show "finished u = [] \<Longrightarrow> uart_getc u = (-1, u)"
    using uart_lengths(5) [OF ok] by (simp add: uart_getc_def)
next
  assume f: "finished u = c # q"
  obtain n e where c: "rx_commit u = rx_tail u + of_nat n" "rx_head u = rx_commit u + of_nat e"
      "n + e \<le> 128" "unat (rx_commit u - rx_tail u) = n" "unat (rx_head u - rx_commit u) = e"
    using uart_counters [OF ok] by blast
  have len: "length (rx_buf u) = 128" using ok by (simp add: uart_ok_def)
  have fs: "finished u = ring_slice (rx_buf u) (rx_tail u) n" by (simp add: finished_def c(4))
  then obtain n' where n': "n = Suc n'" using f by (cases n) (auto simp: ring_slice_def)
  let ?s = "u\<lparr>rx_tail := rx_tail u + 1\<rparr>"
  have s: "length (rx_buf ?s) = 128" "rx_commit ?s = rx_tail ?s + of_nat n'"
    "rx_head ?s = rx_commit ?s + of_nat e" "n' + e \<le> 128"
    using len c(1-3) n' by simp_all
  note a = uart_okI [OF s]
  have "rx_buf u ! (unat (rx_tail u) mod 128) = c" "ring_slice (rx_buf u) (rx_tail u + 1) n' = q"
    using f fs n' by (simp_all add: ring_slice_Cons)
  moreover have "rx_commit u \<noteq> rx_tail u" using uart_lengths(5) [OF ok] f by simp
  moreover have "editing ?s = editing u" using a(3) by (simp add: editing_def c(5))
  ultimately show "\<exists>u'. uart_getc u = (uint c, u') \<and> uart_ok u' \<and> finished u' = q \<and>
       editing u' = editing u \<and> esc u' = esc u"
    using a by (intro exI [of _ ?s]) (simp add: uart_getc_def)
qed

lemma uart_reset_ok: "uart_ok uart_reset" "uart_abs uart_reset = ([], [], ESC_NORMAL)"
  by (simp_all add: uart_ok_def uart_reset_def uart_abs_def finished_def editing_def ring_slice_def)

section \<open>The reader's interface\<close>

text \<open>
  What \<open>SYS_READ\<close> relies on: \<open>get\<close> takes the next available byte, or returns -1 and changes
  nothing. \<open>take_line n\<close> is the reader's loop on this interface: at most \<open>n\<close> bytes, stopping
  after a line break or when nothing is left.
\<close>

fun take_line :: "('s \<Rightarrow> int \<times> 's) \<Rightarrow> nat \<Rightarrow> 's \<Rightarrow> u8 list \<times> 's" where
  "take_line get 0 s = ([], s)"
| "take_line get (Suc n) s =
     (case get s of (c, s') \<Rightarrow>
        if c = -1 then ([], s')
        else if word_of_int c = newline then ([word_of_int c], s')
        else (let (bs, s'') = take_line get n s' in (word_of_int c # bs, s'')))"

text \<open>What such a reader gets of the bytes \<open>q\<close>: the first line, cut off at \<open>n\<close> bytes.\<close>

fun first_line :: "nat \<Rightarrow> u8 list \<Rightarrow> u8 list" where
  "first_line 0 q = []"
| "first_line (Suc n) [] = []"
| "first_line (Suc n) (c # q) = (if c = newline then [c] else c # first_line n q)"

lemma first_line_Nil [simp]: "first_line n [] = []"
  by (cases n) simp_all

lemma first_line_prefix: "\<exists>rest. q = first_line n q @ rest"
  by (induction n q rule: first_line.induct) auto

lemma first_line_length: "length (first_line n q) \<le> n"
  by (induction n q rule: first_line.induct) auto

lemma first_line_newline: "newline \<in> set (butlast (first_line n q)) \<Longrightarrow> False"
  by (induction n q rule: first_line.induct) (auto split: if_splits)

locale byte_source =
  fixes get :: "'s \<Rightarrow> int \<times> 's" and avail :: "'s \<Rightarrow> u8 list" and inv :: "'s \<Rightarrow> bool"
  assumes get_none: "inv s \<Longrightarrow> avail s = [] \<Longrightarrow> get s = (-1, s)"
    and get_some: "inv s \<Longrightarrow> avail s = c # q \<Longrightarrow> \<exists>s'. get s = (uint c, s') \<and> inv s' \<and> avail s' = q"
begin

lemma take_line_spec:
  "inv s \<Longrightarrow> take_line get n s = (bs, s') \<Longrightarrow>
     bs = first_line n (avail s) \<and> inv s' \<and> avail s = bs @ avail s'"
proof (induction n arbitrary: s bs s')
  case (Suc n)
  show ?case
  proof (cases "avail s")
    case Nil
    then show ?thesis using Suc.prems get_none by simp
  next
    case (Cons c q)
    then obtain t where t: "get s = (uint c, t)" "inv t" "avail t = q"
      using get_some Suc.prems(1) by blast
    have pos: "uint c \<noteq> -1" using uint_ge_0 [of c] by linarith
    show ?thesis
    proof (cases "c = newline")
      case True
      then show ?thesis using Suc.prems t Cons pos by simp
    next
      case False
      obtain cs u where r: "take_line get n t = (cs, u)" by fastforce
      have IH: "cs = first_line n q" "inv u" "q = cs @ avail u"
        using Suc.IH [OF t(2) r] t(3) by blast+
      have run: "bs = c # cs" "s' = u" using Suc.prems(2) t(1) pos False r by auto
      have "avail s = bs @ avail s'" using Cons IH(3) unfolding run by simp
      moreover have "bs = first_line (Suc n) (avail s)"
        unfolding run Cons IH(1) using False by simp
      ultimately show ?thesis using IH(2) run(2) by blast
    qed
  qed
qed simp

end

interpretation uart_rx: byte_source uart_getc finished uart_ok
  by unfold_locales (use uart_getc_refines in blast)+

section \<open>Properties\<close>

fun uart_bytes :: "u8 list \<Rightarrow> uart \<Rightarrow> uart \<times> u8 list" where
  "uart_bytes [] u = (u, [])"
| "uart_bytes (b # bs) u =
     (let (u1, echo, woke) = uart_byte b u; (u2, echoes) = uart_bytes bs u1 in (u2, echo @ echoes))"

fun line_bytes :: "u8 list \<Rightarrow> u8 list \<times> u8 list \<times> esc_state \<Rightarrow> (u8 list \<times> u8 list \<times> esc_state) \<times> u8 list" where
  "line_bytes [] s = (s, [])"
| "line_bytes (b # bs) s =
     (let (s1, echo, woke) = line_byte b s; (s2, echoes) = line_bytes bs s1 in (s2, echo @ echoes))"

text \<open>
  C29: whatever bytes the terminal sends, in whatever order, the ring buffer with its wrapping
  counters keeps its invariant (\<open>rx_tail\<close>, \<open>rx_commit\<close>, \<open>rx_head\<close> in this order, at most 128
  bytes in use) and behaves exactly like the line discipline on two lists, finished lines and
  the line being typed: same contents, same escape state, same echo.
\<close>
theorem uart_refines_line_discipline:
  assumes "uart_ok u"
  shows "uart_ok (fst (uart_bytes bs u)) \<and>
    line_bytes bs (uart_abs u) = (uart_abs (fst (uart_bytes bs u)), snd (uart_bytes bs u))"
  using assms
proof (induction bs arbitrary: u)
  case (Cons b bs)
  obtain u1 echo woke where s: "uart_byte b u = (u1, echo, woke)" by (cases "uart_byte b u")
  note r = uart_byte_refines [OF Cons.prems s]
  show ?case using Cons.IH [OF r(1)] r(2) s by (auto split: prod.splits)
qed simp

lemma uart_refines_line_discipline_witness:
  "uart_ok (fst (uart_bytes [104, 120, 127, 105, 13] uart_reset)) \<and>
   uart_abs (fst (uart_bytes [104, 120, 127, 105, 13] uart_reset)) = ([104, 105, 10], [], ESC_NORMAL)"
proof -
  have "fst (line_bytes [104, 120, 127, 105, 13] ([], [], ESC_NORMAL)) = ([104, 105, 10], [], ESC_NORMAL)"
    by (simp add: line_byte_def)
  then show ?thesis
    using uart_refines_line_discipline [OF uart_reset_ok(1), of "[104, 120, 127, 105, 13]"]
    unfolding uart_reset_ok(2) by simp
qed

text \<open>
  A reader that takes up to \<open>n\<close> bytes from the ring gets a prefix of the finished lines:
  exactly the first line, newline included, cut off at \<open>n\<close> bytes. What it does not take stays
  available, the line being typed is not touched, and an empty ring returns -1.
\<close>
theorem uart_reader_gets_a_line:
  assumes "uart_ok u" "take_line uart_getc n u = (bs, u')"
  shows "bs = first_line n (finished u) \<and> finished u = bs @ finished u' \<and> uart_ok u' \<and>
    newline \<notin> set (butlast bs) \<and> (finished u = [] \<longrightarrow> uart_getc u = (-1, u))"
  using uart_rx.take_line_spec [OF assms] first_line_newline uart_getc_refines(1) [OF assms(1)] by blast

lemma uart_reader_gets_a_line_witness:
  "fst (take_line uart_getc 5 uart_reset) = [] \<and> uart_getc uart_reset = (-1, uart_reset)"
proof -
  obtain bs u' where t: "take_line uart_getc 5 uart_reset = (bs, u')" by fastforce
  have "finished uart_reset = []" using uart_reset_ok(2) by (simp add: uart_abs_def)
  with uart_reader_gets_a_line [OF uart_reset_ok(1) t] t show ?thesis by simp
qed

end
