(* ===== verification/Sbi.thy ===== *)
theory Sbi
  imports Prelude
begin

text \<open>
  Console output (\<open>kernel/arch/riscv/sbi.c\<close>). OpenSBI prints the bytes the kernel sends; the
  console is the list of bytes sent so far. \<open>sbi_puts\<close> and \<open>puthex\<close> are given by the bytes
  they send, in order.
\<close>

section \<open>Output\<close>

text \<open>A C string literal as bytes, without its terminating zero.\<close>

definition bytes_of :: "string \<Rightarrow> u8 list" where
  "bytes_of s = map of_char s"

definition sbi_putchar :: "u8 \<Rightarrow> u8 list \<Rightarrow> u8 list" where
  "sbi_putchar c out = out @ [c]"

text \<open>\<open>while (*s) sbi_putchar(*s++);\<close> over the bytes at \<open>s\<close>.\<close>

fun puts_loop :: "u8 list \<Rightarrow> u8 list \<Rightarrow> u8 list" where
  "puts_loop [] out = out"
| "puts_loop (c # cs) out = (if c = 0 then out else puts_loop cs (sbi_putchar c out))"

definition sbi_puts :: "string \<Rightarrow> u8 list \<Rightarrow> u8 list" where
  "sbi_puts s out = puts_loop (bytes_of s) out"

definition hex_digit :: "u64 \<Rightarrow> u8" where
  "hex_digit n = bytes_of ''0123456789abcdef'' ! unat n"

text \<open>\<open>for (i = 60; i >= 0; i -= 4) sbi_putchar(h[(x >> i) & 0xF]);\<close>\<close>

definition puthex :: "u64 \<Rightarrow> u8 list \<Rightarrow> u8 list" where
  "puthex x out =
     fold (\<lambda>j. sbi_putchar (hex_digit (drop_bit (60 - 4 * j) x AND 0xF))) [0..<16] out"

section \<open>What is printed\<close>

lemma puts_loop_app: "0 \<notin> set cs \<Longrightarrow> puts_loop cs out = out @ cs"
  by (induction cs arbitrary: out) (auto simp: sbi_putchar_def)

text \<open>Reading a hexadecimal number back, for the round trip.\<close>

definition hex_value :: "u8 \<Rightarrow> u64" where
  "hex_value c = (if c \<le> 0x39 then ucast c - 0x30 else ucast c - 0x57)"

definition read_hex :: "u8 list \<Rightarrow> u64" where
  "read_hex cs = fold (\<lambda>c x. push_bit 4 x OR hex_value c) cs 0"

lemma hex_digits: "bytes_of ''0123456789abcdef'' =
    [0x30, 0x31, 0x32, 0x33, 0x34, 0x35, 0x36, 0x37, 0x38, 0x39, 0x61, 0x62, 0x63, 0x64, 0x65, 0x66]"
  by (simp add: bytes_of_def of_char_def)

lemma hex_value_digit:
  assumes "n < 16"
  shows "hex_value (hex_digit n) = n"
proof -
  define i where "i = unat n"
  have "i < 16" using assms by (simp add: i_def word_less_nat_alt)
  moreover have "n = of_nat i" by (simp add: i_def)
  moreover have "hex_value (bytes_of ''0123456789abcdef'' ! j) = of_nat j" if "j < 16" for j
  proof -
    have "j \<in> set [0, 1, 2, 3, 4, 5, 6, 7, 8, 9, 10, 11, 12, 13, 14, 15]"
      using that by (simp only: list.set insert_iff empty_iff) presburger
    then show ?thesis unfolding hex_digits by (auto simp: hex_value_def)
  qed
  ultimately show ?thesis unfolding hex_digit_def i_def [symmetric] by simp
qed

lemma fold_putchar: "fold (\<lambda>j. sbi_putchar (f j)) xs out = out @ map f xs"
  by (induction xs arbitrary: out) (simp_all add: sbi_putchar_def)

lemma puthex_digits:
  "puthex x out = out @ map (\<lambda>j. hex_digit (drop_bit (60 - 4 * j) x AND 0xF)) [0..<16]"
  by (simp only: puthex_def fold_putchar)

text \<open>After \<open>n\<close> digits the top \<open>4 * n\<close> bits have been printed.\<close>

lemma read_hex_upto:
  "n \<le> 16 \<Longrightarrow> read_hex (map (\<lambda>j. hex_digit (drop_bit (60 - 4 * j) x AND 0xF)) [0..<n])
     = drop_bit (64 - 4 * n) x"
proof (induction n)
  case 0
  show ?case by (simp add: read_hex_def)
next
  case (Suc n)
  let ?d = "drop_bit (60 - 4 * n) x"
  have m: "(0xF :: u64) = mask 4" by (simp add: mask_eq_exp_minus_1)
  have "?d AND 0xF < 16"
    using take_bit_nat_less_exp [of 4 "unat ?d"]
    by (simp add: m take_bit_eq_mask [symmetric] word_less_nat_alt unsigned_take_bit_eq)
  then have v: "hex_value (hex_digit (?d AND 0xF)) = ?d AND 0xF" by (rule hex_value_digit)
  have "read_hex (map (\<lambda>j. hex_digit (drop_bit (60 - 4 * j) x AND 0xF)) [0..<Suc n])
      = push_bit 4 (drop_bit (64 - 4 * n) x) OR (?d AND 0xF)"
    using Suc v by (simp add: read_hex_def)
  also have "\<dots> = drop_bit (64 - 4 * Suc n) x"
    using Suc.prems by (intro bit_word_eqI) (auto simp: m bit_simps)
  finally show ?case .
qed

text \<open>
  \<open>puthex\<close> prints sixteen hexadecimal digits that read back as the printed value, for
  every 64-bit value.
\<close>
theorem puthex_reads_back:
  "\<exists>ds. puthex x out = out @ ds \<and> length ds = 16 \<and> read_hex ds = x"
  using read_hex_upto [of 16 x] by (auto simp: puthex_digits)

end
