(* ===== verification/Kernel_State.thy ===== *)
theory Kernel_State
  imports Vmm Uart Sbi
begin

text \<open>
  The state of the kernel (\<open>kernel/include/proc.h\<close>, \<open>kernel/include/trap_header.h\<close> and the
  global variables of \<open>process.c\<close>, \<open>uart.c\<close> and \<open>trap_handler.c\<close>): the process table, the
  physical memory, the console, the input ring and the two registers the scheduler writes.
  A pointer to a process is its index in the table, a pointer to a trap frame is one of the
  two places where trap frames live.
\<close>

section \<open>Trap frames\<close>

record trap_frame =
  tf_ra :: u64
  tf_sp :: u64
  tf_gp :: u64
  tf_tp :: u64
  tf_t0 :: u64
  tf_t1 :: u64
  tf_t2 :: u64
  tf_s0 :: u64
  tf_s1 :: u64
  tf_a0 :: u64
  tf_a1 :: u64
  tf_a2 :: u64
  tf_a3 :: u64
  tf_a4 :: u64
  tf_a5 :: u64
  tf_a6 :: u64
  tf_a7 :: u64
  tf_s2 :: u64
  tf_s3 :: u64
  tf_s4 :: u64
  tf_s5 :: u64
  tf_s6 :: u64
  tf_s7 :: u64
  tf_s8 :: u64
  tf_s9 :: u64
  tf_s10 :: u64
  tf_s11 :: u64
  tf_t3 :: u64
  tf_t4 :: u64
  tf_t5 :: u64
  tf_t6 :: u64
  tf_sepc :: u64
  tf_sstatus :: u64
  tf_scause :: u64
  tf_stval :: u64
  tf_kernel_sp :: u64

text \<open>\<open>memset(&p->trap_frame, 0, sizeof(trap_frame_t))\<close>.\<close>

definition zero_frame :: trap_frame where
  "zero_frame = \<lparr>tf_ra = 0, tf_sp = 0, tf_gp = 0, tf_tp = 0, tf_t0 = 0, tf_t1 = 0, tf_t2 = 0,
     tf_s0 = 0, tf_s1 = 0, tf_a0 = 0, tf_a1 = 0, tf_a2 = 0, tf_a3 = 0, tf_a4 = 0, tf_a5 = 0,
     tf_a6 = 0, tf_a7 = 0, tf_s2 = 0, tf_s3 = 0, tf_s4 = 0, tf_s5 = 0, tf_s6 = 0, tf_s7 = 0,
     tf_s8 = 0, tf_s9 = 0, tf_s10 = 0, tf_s11 = 0, tf_t3 = 0, tf_t4 = 0, tf_t5 = 0, tf_t6 = 0,
     tf_sepc = 0, tf_sstatus = 0, tf_scause = 0, tf_stval = 0, tf_kernel_sp = 0\<rparr>"

section \<open>Processes\<close>

abbreviation MAX_PROCS :: nat where "MAX_PROCS \<equiv> 64"
abbreviation FD_MAX :: nat where "FD_MAX \<equiv> 16"
abbreviation TIMER_INTERVAL :: u64 where "TIMER_INTERVAL \<equiv> 100000"

abbreviation (input) FILE_TYPE_NONE :: int where "FILE_TYPE_NONE \<equiv> 0"
abbreviation (input) FILE_TYPE_CONSOLE :: int where "FILE_TYPE_CONSOLE \<equiv> 1"
abbreviation (input) FILE_TYPE_RAMDISK :: int where "FILE_TYPE_RAMDISK \<equiv> 2"

record file_t =
  f_type :: int
  f_offset :: u32
  f_size :: u32
  f_data :: u64

definition closed_file :: file_t where
  "closed_file = \<lparr>f_type = FILE_TYPE_NONE, f_offset = 0, f_size = 0, f_data = 0\<rparr>"

datatype proc_state = PROC_UNUSED | PROC_READY | PROC_RUNNING | PROC_BLOCKED | PROC_ZOMBIE

text \<open>The wait channels in use: none, the table entry of a waiting parent, the input ring.\<close>

datatype chan = NoChan | ProcChan nat | UartChan

record process =
  pid :: u32
  state :: proc_state
  page_table :: u64
  kernel_stack :: u64
  frame :: trap_frame
  parent_pid :: u32
  heap_break :: u64
  heap_max :: u64
  chan :: chan
  open_files :: "file_t list"

text \<open>A table entry as \<open>.bss\<close> initialises it.\<close>

definition empty_process :: process where
  "empty_process = \<lparr>pid = 0, state = PROC_UNUSED, page_table = 0, kernel_stack = 0,
     frame = zero_frame, parent_pid = 0, heap_break = 0, heap_max = 0, chan = NoChan,
     open_files = replicate FD_MAX closed_file\<rparr>"

section \<open>The kernel\<close>

text \<open>A \<open>trap_frame_t *\<close> points to \<open>g_tf\<close> or into an entry of the process table.\<close>

datatype tf_ptr = GlobalFrame | ProcFrame nat

record kernel =
  mem :: memory
  procs :: "process list"
  next_pid :: u32
  current :: "nat option"
  g_tf :: trap_frame
  rx :: uart
  console :: "u8 list"
  satp :: u64
  timer :: u64
  irqs_done :: "u32 list"

definition upd_proc :: "nat \<Rightarrow> (process \<Rightarrow> process) \<Rightarrow> kernel \<Rightarrow> kernel" where
  "upd_proc i f k = k\<lparr>procs := (procs k)[i := f (procs k ! i)]\<rparr>"

fun get_frame :: "kernel \<Rightarrow> tf_ptr \<Rightarrow> trap_frame" where
  "get_frame k GlobalFrame = g_tf k"
| "get_frame k (ProcFrame i) = frame (procs k ! i)"

fun upd_frame :: "tf_ptr \<Rightarrow> (trap_frame \<Rightarrow> trap_frame) \<Rightarrow> kernel \<Rightarrow> kernel" where
  "upd_frame GlobalFrame f k = k\<lparr>g_tf := f (g_tf k)\<rparr>"
| "upd_frame (ProcFrame i) f k = upd_proc i (\<lambda>p. p\<lparr>frame := f (frame p)\<rparr>) k"

text \<open>What the hardware delivers while the kernel handles one trap: the time, and for an external
  interrupt the source the PLIC hands out and the bytes waiting in the UART. A \<open>wake\<close> is one
  return from \<open>wfi\<close> in the idle loop, with the pending bits of \<open>sip\<close>.\<close>

record wake =
  w_sip :: u64
  w_time :: u64
  w_irq :: u32
  w_fifo :: "u8 list"

definition say :: "string \<Rightarrow> kernel \<Rightarrow> kernel" where
  "say s k = k\<lparr>console := sbi_puts s (console k)\<rparr>"

definition say_hex :: "u64 \<Rightarrow> kernel \<Rightarrow> kernel" where
  "say_hex x k = k\<lparr>console := puthex x (console k)\<rparr>"

definition say_byte :: "u8 \<Rightarrow> kernel \<Rightarrow> kernel" where
  "say_byte c k = k\<lparr>console := sbi_putchar c (console k)\<rparr>"

text \<open>\<open>"\\n"\<close> cannot be written inside an Isabelle string; \<open>nl\<close> is that one-character string.\<close>

definition nl :: string where
  "nl = [CHR 0x0A]"

section \<open>Reading after updating\<close>

lemma procs_upd_proc [simp]: "procs (upd_proc i f k) = (procs k)[i := f (procs k ! i)]"
  by (simp add: upd_proc_def)

lemma upd_proc_other [simp]:
  "mem (upd_proc i f k) = mem k" "next_pid (upd_proc i f k) = next_pid k"
  "current (upd_proc i f k) = current k" "g_tf (upd_proc i f k) = g_tf k" "rx (upd_proc i f k) = rx k"
  "console (upd_proc i f k) = console k" "satp (upd_proc i f k) = satp k"
  "timer (upd_proc i f k) = timer k" "irqs_done (upd_proc i f k) = irqs_done k"
  by (simp_all add: upd_proc_def)

lemma upd_frame_other [simp]:
  "mem (upd_frame p f k) = mem k" "next_pid (upd_frame p f k) = next_pid k"
  "current (upd_frame p f k) = current k" "rx (upd_frame p f k) = rx k"
  "console (upd_frame p f k) = console k" "satp (upd_frame p f k) = satp k"
  "timer (upd_frame p f k) = timer k" "irqs_done (upd_frame p f k) = irqs_done k"
  "length (procs (upd_frame p f k)) = length (procs k)"
  by (cases p; simp)+

lemma say_other [simp]:
  "mem (say s k) = mem k" "procs (say s k) = procs k" "next_pid (say s k) = next_pid k"
  "current (say s k) = current k" "g_tf (say s k) = g_tf k" "rx (say s k) = rx k"
  "satp (say s k) = satp k" "timer (say s k) = timer k" "irqs_done (say s k) = irqs_done k"
  "mem (say_hex x k) = mem k" "procs (say_hex x k) = procs k" "next_pid (say_hex x k) = next_pid k"
  "current (say_hex x k) = current k" "g_tf (say_hex x k) = g_tf k" "rx (say_hex x k) = rx k"
  "satp (say_hex x k) = satp k" "timer (say_hex x k) = timer k" "irqs_done (say_hex x k) = irqs_done k"
  "mem (say_byte c k) = mem k" "procs (say_byte c k) = procs k" "next_pid (say_byte c k) = next_pid k"
  "current (say_byte c k) = current k" "g_tf (say_byte c k) = g_tf k" "rx (say_byte c k) = rx k"
  "satp (say_byte c k) = satp k" "timer (say_byte c k) = timer k" "irqs_done (say_byte c k) = irqs_done k"
  by (simp_all add: say_def say_hex_def say_byte_def)

lemma get_upd_frame [simp]:
  "p = GlobalFrame \<or> (\<exists>i. p = ProcFrame i \<and> i < length (procs k)) \<Longrightarrow>
     get_frame (upd_frame p f k) p = f (get_frame k p)"
  by (cases p) auto

lemma get_frame_say [simp]:
  "get_frame (say s k) p = get_frame k p" "get_frame (say_hex x k) p = get_frame k p"
  "get_frame (say_byte c k) p = get_frame k p"
  by (cases p; simp)+

text \<open>Two versions of a process that differ at most in what scheduling changes.\<close>

definition same_process :: "process \<Rightarrow> process \<Rightarrow> bool" where
  "same_process p p' \<longleftrightarrow> pid p' = pid p \<and> page_table p' = page_table p \<and>
     kernel_stack p' = kernel_stack p \<and> parent_pid p' = parent_pid p \<and>
     heap_break p' = heap_break p \<and> heap_max p' = heap_max p \<and> open_files p' = open_files p"

lemma same_process_refl [simp]: "same_process p p"
  by (simp add: same_process_def)

lemma same_process_trans: "same_process p q \<Longrightarrow> same_process q r \<Longrightarrow> same_process p r"
  by (simp add: same_process_def)

end
