(* ===== verification/Sched.thy ===== *)
theory Sched
  imports Kernel_State
begin

text \<open>
  Blocking, waking, device interrupts and the scheduler: \<open>sleep_on\<close>, \<open>wakeup\<close>,
  \<open>exit_current\<close>, \<open>find_ready\<close>, \<open>any_blocked\<close>, \<open>idle_service\<close> and \<open>schedule\<close> of
  \<open>kernel/proc/process.c\<close>, \<open>plic_dispatch\<close> of \<open>plic.c\<close>, and the loop of \<open>uart_intr\<close>. The idle
  loop consumes a list of \<open>wake\<close>s, the returns from \<open>wfi\<close>; when the list is used up while
  nothing is runnable the machine is still idle, the result \<open>Idle\<close>.
\<close>

section \<open>Wait channels\<close>

definition sleep_on :: "chan \<Rightarrow> kernel \<Rightarrow> kernel" where
  "sleep_on ch k =
     (case current k of
        None \<Rightarrow> k
      | Some c \<Rightarrow> upd_proc c (\<lambda>p. p\<lparr>state := PROC_BLOCKED, chan := ch\<rparr>) k)"

definition wake_one :: "chan \<Rightarrow> process \<Rightarrow> process" where
  "wake_one ch p =
     (if state p = PROC_BLOCKED \<and> chan p = ch then p\<lparr>state := PROC_READY, chan := NoChan\<rparr> else p)"

definition wakeup :: "chan \<Rightarrow> kernel \<Rightarrow> kernel" where
  "wakeup ch k = k\<lparr>procs := map (wake_one ch) (procs k)\<rparr>"

section \<open>Device interrupts\<close>

text \<open>The loop of \<open>uart_intr\<close> over the bytes waiting in the UART.\<close>

definition uart_rx_byte :: "u8 \<Rightarrow> kernel \<Rightarrow> kernel" where
  "uart_rx_byte b k =
     (case uart_byte b (rx k) of (u, echo, woke) \<Rightarrow>
        let k1 = fold say_byte echo (k\<lparr>rx := u\<rparr>)
        in if woke then wakeup UartChan k1 else k1)"

definition uart_intr :: "u8 list \<Rightarrow> kernel \<Rightarrow> kernel" where
  "uart_intr fifo k = fold uart_rx_byte fifo k"

abbreviation UART0_IRQ :: u32 where "UART0_IRQ \<equiv> 10"

text \<open>
  The claim register read gives \<open>irq\<close>; the write that completes it is recorded in
  \<open>irqs_done\<close>.
\<close>

definition plic_dispatch :: "u32 \<Rightarrow> u8 list \<Rightarrow> kernel \<Rightarrow> kernel" where
  "plic_dispatch irq fifo k =
     (if irq = 0 then k
      else
        (let k1 = (if irq = UART0_IRQ then uart_intr fifo k
                   else say nl (say_hex (ucast irq) (say ''[plic] unexpected IRQ 0x'' k)))
         in k1\<lparr>irqs_done := irqs_done k1 @ [irq]\<rparr>))"

definition idle_service :: "wake \<Rightarrow> kernel \<Rightarrow> kernel" where
  "idle_service w k =
     (let k1 = (if bit (w_sip w) 5 then k\<lparr>timer := w_time w + TIMER_INTERVAL\<rparr> else k)
      in if bit (w_sip w) 9 then plic_dispatch (w_irq w) (w_fifo w) k1 else k1)"

section \<open>The scheduler\<close>

fun find_ready_from :: "process list \<Rightarrow> nat \<Rightarrow> nat \<Rightarrow> nat option" where
  "find_ready_from ps idx 0 = None"
| "find_ready_from ps idx (Suc n) =
     (let i = (idx + 1) mod MAX_PROCS in
      if state (ps ! i) = PROC_READY then Some i else find_ready_from ps i n)"

definition find_ready :: "process list \<Rightarrow> nat \<Rightarrow> nat option" where
  "find_ready ps start = find_ready_from ps start MAX_PROCS"

definition any_blocked :: "process list \<Rightarrow> bool" where
  "any_blocked ps \<longleftrightarrow> (\<exists>p \<in> set ps. state p = PROC_BLOCKED)"

text \<open>
  The \<open>while (next_proc == 0)\<close> loop: the chosen index, or \<open>None\<close> for the current process
  keeping the CPU.
\<close>

fun pick_next :: "nat \<Rightarrow> wake list \<Rightarrow> kernel \<Rightarrow> stop + nat option \<times> kernel" where
  "pick_next c ws k =
     (case find_ready (procs k) c of
        Some n \<Rightarrow> Inr (Some n, k)
      | None \<Rightarrow>
          if state (procs k ! c) = PROC_READY \<or> state (procs k ! c) = PROC_RUNNING then Inr (None, k)
          else if \<not> any_blocked (procs k) then Inl Shutdown
          else (case ws of
                  [] \<Rightarrow> Inl Idle
                | w # ws' \<Rightarrow> pick_next c ws' (idle_service w k)))"

declare pick_next.simps [simp del]

definition schedule :: "wake list \<Rightarrow> tf_ptr \<Rightarrow> kernel \<Rightarrow> stop + tf_ptr \<times> kernel" where
  "schedule ws tf k =
     (case current k of
        None \<Rightarrow> Inr (tf, k)
      | Some c \<Rightarrow>
          let f = get_frame k tf;
              k1 = upd_proc c (\<lambda>p. p\<lparr>frame := f\<rparr>) k;
              k2 = (if state (procs k1 ! c) = PROC_RUNNING
                    then upd_proc c (\<lambda>p. p\<lparr>state := PROC_READY\<rparr>) k1 else k1)
          in case pick_next c ws k2 of
               Inl r \<Rightarrow> Inl r
             | Inr (None, k3) \<Rightarrow> Inr (tf, upd_proc c (\<lambda>p. p\<lparr>state := PROC_RUNNING\<rparr>) k3)
             | Inr (Some n, k3) \<Rightarrow>
                 Inr (ProcFrame n,
                      (upd_proc n (\<lambda>p. p\<lparr>state := PROC_RUNNING\<rparr>) k3)
                        \<lparr>current := Some n, satp := MAKE_SATP (page_table (procs k3 ! n))\<rparr>))"

definition exit_current :: "wake list \<Rightarrow> tf_ptr \<Rightarrow> kernel \<Rightarrow> stop + tf_ptr \<times> kernel" where
  "exit_current ws tf k =
     (case current k of
        None \<Rightarrow> Inl (KernelFault 0)
      | Some c \<Rightarrow>
          let k1 = upd_proc c (\<lambda>p. p\<lparr>state := PROC_ZOMBIE\<rparr>) k;
              ppid = parent_pid (procs k1 ! c);
              k2 = (case find_index (\<lambda>p. pid p = ppid \<and> state p \<noteq> PROC_UNUSED) (procs k1) of
                      None \<Rightarrow> k1 | Some i \<Rightarrow> wakeup (ProcChan i) k1)
          in schedule ws tf k2)"

section \<open>Finding a ready process\<close>

lemma mod_shift: "((a + 1) mod 64 + e + 1) mod 64 = (a + Suc e + 1) mod (64 :: nat)"
  using mod_add_left_eq [of "a + 1" 64 "e + 1"] by (simp add: add.assoc)

lemma find_ready_from_Some:
  "find_ready_from ps idx n = Some i \<Longrightarrow> idx < 64 \<Longrightarrow>
     i < 64 \<and> state (ps ! i) = PROC_READY \<and>
     (\<exists>d. d < n \<and> i = (idx + d + 1) mod 64 \<and> (\<forall>e < d. state (ps ! ((idx + e + 1) mod 64)) \<noteq> PROC_READY))"
proof (induction n arbitrary: idx)
  case (Suc n)
  let ?i = "(idx + 1) mod 64"
  show ?case
  proof (cases "state (ps ! ?i) = PROC_READY")
    case True
    with Suc.prems show ?thesis by (auto intro!: exI [of _ 0])
  next
    case False
    then have f: "find_ready_from ps ?i n = Some i" using Suc.prems(1) by (simp add: Let_def)
    have "?i < 64" by simp
    from Suc.IH [OF f this] obtain d where d: "i < 64" "state (ps ! i) = PROC_READY" "d < n"
      "i = (?i + d + 1) mod 64" "\<forall>e < d. state (ps ! ((?i + e + 1) mod 64)) \<noteq> PROC_READY" by blast
    note shift = mod_shift [of idx]
    have "\<forall>e < Suc d. state (ps ! ((idx + e + 1) mod 64)) \<noteq> PROC_READY"
    proof (intro allI impI)
      fix e assume "e < Suc d"
      then show "state (ps ! ((idx + e + 1) mod 64)) \<noteq> PROC_READY"
        using False d(5) shift by (cases e) auto
    qed
    then show ?thesis using d shift by (intro conjI exI [of _ "Suc d"]) simp_all
  qed
qed simp

lemma find_ready_from_None:
  "find_ready_from ps idx n = None \<Longrightarrow> e < n \<Longrightarrow> state (ps ! ((idx + e + 1) mod 64)) \<noteq> PROC_READY"
proof (induction n arbitrary: idx e)
  case (Suc n)
  let ?i = "(idx + 1) mod 64"
  have no: "state (ps ! ?i) \<noteq> PROC_READY" "find_ready_from ps ?i n = None"
    using Suc.prems(1) by (auto simp: Let_def split: if_splits)
  show ?case
  proof (cases e)
    case (Suc e')
    then have "state (ps ! ((?i + e' + 1) mod 64)) \<noteq> PROC_READY"
      using Suc.IH [OF no(2), of e'] Suc.prems by simp
    then show ?thesis unfolding mod_shift using Suc by simp
  qed (use no in simp)
qed simp

text \<open>The distance, going forward, from the slot after \<open>c\<close> to \<open>i\<close>.\<close>

definition ahead :: "nat \<Rightarrow> nat \<Rightarrow> nat" where
  "ahead c i = (i + 63 - c) mod 64"

lemma ahead_less [simp]: "ahead c i < 64"
  by (simp add: ahead_def)

lemma ahead_cases:
  assumes "c < 64" "i < 64"
  shows "ahead c i = (if c < i then i - c - 1 else i + 63 - c)"
proof (cases "c < i")
  case True
  then have "i + 63 - c = (i - c - 1) + 64" by simp
  then have "ahead c i = (i - c - 1) mod 64" unfolding ahead_def by (simp only: mod_add_self2)
  with True assms show ?thesis by simp
qed (use assms in \<open>simp add: ahead_def\<close>)

lemma ahead_index: "c < 64 \<Longrightarrow> i < 64 \<Longrightarrow> (c + ahead c i + 1) mod 64 = i"
  by (simp add: ahead_cases)

lemma ahead_of: "c < 64 \<Longrightarrow> d < 64 \<Longrightarrow> ahead c ((c + d + 1) mod 64) = d"
proof (cases "c + d + 1 < 64")
  case False
  assume "c < 64" "d < 64"
  then have "c + d + 1 - 64 < 64" by simp
  moreover have "(c + d + 1) mod 64 = (c + d + 1 - 64) mod 64" using False by (intro le_mod_geq) simp
  ultimately have j: "(c + d + 1) mod 64 = c + d + 1 - 64" by simp
  have "\<not> c < c + d + 1 - 64" "c + d + 1 - 64 + 63 - c = d"
    using False \<open>d < 64\<close> by linarith+
  then show ?thesis unfolding j
    using ahead_cases [OF \<open>c < 64\<close> \<open>c + d + 1 - 64 < 64\<close>] by simp
qed (simp add: ahead_cases)

text \<open>\<open>find_ready\<close> returns the first READY slot after \<open>c\<close> in table order, wrapping around.\<close>

lemma find_ready_Some:
  assumes "find_ready ps c = Some i" "c < 64"
  shows "i < 64" "state (ps ! i) = PROC_READY"
    "\<And>j. j < 64 \<Longrightarrow> state (ps ! j) = PROC_READY \<Longrightarrow> ahead c i \<le> ahead c j"
proof -
  from find_ready_from_Some [OF assms(1) [unfolded find_ready_def] assms(2)]
  obtain d where d: "i < 64" "state (ps ! i) = PROC_READY" "d < 64" "i = (c + d + 1) mod 64"
    "\<forall>e < d. state (ps ! ((c + e + 1) mod 64)) \<noteq> PROC_READY" by blast
  show "i < 64" "state (ps ! i) = PROC_READY" by (fact d)+
  have di: "ahead c i = d" unfolding d(4) by (rule ahead_of [OF assms(2) d(3)])
  fix j assume j: "j < 64" "state (ps ! j) = PROC_READY"
  have "(c + ahead c j + 1) mod 64 = j" by (rule ahead_index [OF assms(2) j(1)])
  then have "\<not> ahead c j < d" using d(5) j(2) by force
  then show "ahead c i \<le> ahead c j" using di by simp
qed

lemma find_ready_None:
  assumes "find_ready ps c = None" "c < 64" "j < 64"
  shows "state (ps ! j) \<noteq> PROC_READY"
  using find_ready_from_None [OF assms(1) [unfolded find_ready_def], of "ahead c j"]
    ahead_index [OF assms(2,3)] by simp

section \<open>What interrupts change\<close>

text \<open>
  \<open>woken ch ps ps'\<close>: some of the processes blocked on \<open>ch\<close> became READY, nothing else in the
  table changed.
\<close>

definition woken :: "chan \<Rightarrow> process list \<Rightarrow> process list \<Rightarrow> bool" where
  "woken ch ps ps' \<longleftrightarrow> length ps' = length ps \<and>
     (\<forall>i < length ps. ps' ! i = ps ! i \<or> ps' ! i = wake_one ch (ps ! i))"

lemma wake_one_idem [simp]: "wake_one ch (wake_one ch p) = wake_one ch p"
  by (simp add: wake_one_def)

lemma wake_one_same [simp]: "same_process p (wake_one ch p)" "frame (wake_one ch p) = frame p"
  by (simp_all add: wake_one_def same_process_def)

lemma woken_refl [simp]: "woken ch ps ps"
  by (simp add: woken_def)

lemma woken_trans:
  assumes "woken ch ps ps'" "woken ch ps' ps''"
  shows "woken ch ps ps''"
  unfolding woken_def
proof (intro conjI allI impI)
  show "length ps'' = length ps" using assms by (simp add: woken_def)
  fix i assume "i < length ps"
  then have "ps' ! i = ps ! i \<or> ps' ! i = wake_one ch (ps ! i)"
    "ps'' ! i = ps' ! i \<or> ps'' ! i = wake_one ch (ps' ! i)"
    using assms by (auto simp: woken_def)
  then show "ps'' ! i = ps ! i \<or> ps'' ! i = wake_one ch (ps ! i)" by auto
qed

lemma woken_wakeup [simp]: "woken ch (procs k) (procs (wakeup ch k))"
  by (simp add: woken_def wakeup_def)

lemma woken_at:
  assumes "woken ch ps ps'" "i < length ps"
  shows "same_process (ps ! i) (ps' ! i)" "frame (ps' ! i) = frame (ps ! i)"
    "state (ps' ! i) \<noteq> state (ps ! i) \<Longrightarrow> state (ps ! i) = PROC_BLOCKED \<and> state (ps' ! i) = PROC_READY"
proof -
  have "ps' ! i = ps ! i \<or> ps' ! i = wake_one ch (ps ! i)" using assms by (auto simp: woken_def)
  then show "same_process (ps ! i) (ps' ! i)" "frame (ps' ! i) = frame (ps ! i)"
    "state (ps' ! i) \<noteq> state (ps ! i) \<Longrightarrow> state (ps ! i) = PROC_BLOCKED \<and> state (ps' ! i) = PROC_READY"
    by (auto simp: wake_one_def same_process_def split: if_splits)
qed

text \<open>A device interrupt only touches the driver state, the console, and sleeping readers.\<close>

definition interrupt_frame :: "kernel \<Rightarrow> kernel \<Rightarrow> bool" where
  "interrupt_frame k k' \<longleftrightarrow> woken UartChan (procs k) (procs k') \<and>
     mem k' = mem k \<and> next_pid k' = next_pid k \<and> current k' = current k \<and> g_tf k' = g_tf k \<and>
     satp k' = satp k"

lemma interrupt_frame_refl [simp]: "interrupt_frame k k"
  by (simp add: interrupt_frame_def)

lemma interrupt_frame_trans: "interrupt_frame k k' \<Longrightarrow> interrupt_frame k' k'' \<Longrightarrow> interrupt_frame k k''"
  unfolding interrupt_frame_def using woken_trans by auto

lemma fold_say_byte: "fold say_byte cs k = k\<lparr>console := console k @ cs\<rparr>"
  by (induction cs arbitrary: k) (simp_all add: say_byte_def sbi_putchar_def)

lemma interrupt_frame_rx_byte: "interrupt_frame k (uart_rx_byte b k)"
proof -
  obtain u echo woke where b: "uart_byte b (rx k) = (u, echo, woke)" by (cases "uart_byte b (rx k)")
  have "interrupt_frame k (wakeup UartChan (k\<lparr>rx := u, console := console k @ echo\<rparr>))"
    by (simp add: interrupt_frame_def woken_def wakeup_def)
  then show ?thesis
    by (simp add: uart_rx_byte_def b fold_say_byte Let_def) (simp add: interrupt_frame_def)
qed

lemma interrupt_frame_uart_intr: "interrupt_frame k (uart_intr fifo k)"
proof (induction fifo arbitrary: k)
  case (Cons b bs)
  then show ?case using interrupt_frame_trans interrupt_frame_rx_byte
    by (fastforce simp: uart_intr_def)
qed (simp add: uart_intr_def)

lemma interrupt_frame_plic: "interrupt_frame k (plic_dispatch irq fifo k)"
  using interrupt_frame_uart_intr [of k fifo]
  by (auto simp: plic_dispatch_def Let_def interrupt_frame_def)

lemma interrupt_frame_idle: "interrupt_frame k (idle_service w k)"
proof -
  let ?k1 = "if bit (w_sip w) 5 then k\<lparr>timer := w_time w + TIMER_INTERVAL\<rparr> else k"
  have k1: "interrupt_frame k ?k1" by (simp add: interrupt_frame_def)
  show ?thesis
  proof (cases "bit (w_sip w) 9")
    case True
    then have "idle_service w k = plic_dispatch (w_irq w) (w_fifo w) ?k1"
      by (simp only: idle_service_def Let_def if_True)
    then show ?thesis using interrupt_frame_trans [OF k1 interrupt_frame_plic] by (simp only:)
  next
    case False
    then have "idle_service w k = ?k1" by (simp only: idle_service_def Let_def if_False)
    then show ?thesis using k1 by (simp only:)
  qed
qed

section \<open>The choice of the next process\<close>

lemma pick_next_spec:
  assumes "length (procs k) = 64" "c < 64"
  shows "case pick_next c ws k of
      Inl r \<Rightarrow> \<exists>k'. interrupt_frame k k' \<and> (\<forall>i < 64. state (procs k' ! i) \<noteq> PROC_READY) \<and>
        (r = Shutdown \<and> (\<forall>i < 64. state (procs k' ! i) \<noteq> PROC_BLOCKED) \<or>
         r = Idle \<and> (\<exists>i < 64. state (procs k' ! i) = PROC_BLOCKED))
    | Inr (None, k') \<Rightarrow> interrupt_frame k k' \<and> state (procs k' ! c) = PROC_RUNNING
    | Inr (Some n, k') \<Rightarrow> interrupt_frame k k' \<and> n < 64 \<and> state (procs k' ! n) = PROC_READY \<and>
        (\<forall>j < 64. state (procs k' ! j) = PROC_READY \<longrightarrow> ahead c n \<le> ahead c j)"
  using assms
proof (induction c ws k rule: pick_next.induct)
  case (1 c ws k)
  note len = "1.prems"(1) and c = "1.prems"(2)
  show ?case
  proof (cases "find_ready (procs k) c")
    case (Some n)
    then show ?thesis using find_ready_Some [OF Some c] by (simp add: pick_next.simps [of c ws k])
  next
    case none: None
    have not_ready: "state (procs k ! i) \<noteq> PROC_READY" if "i < 64" for i
      using find_ready_None [OF none c that] .
    show ?thesis
    proof (cases "state (procs k ! c) = PROC_RUNNING")
      case True
      then show ?thesis using none by (simp add: pick_next.simps [of c ws k])
    next
      case not_run: False
      have blocked: "any_blocked (procs k) \<longleftrightarrow> (\<exists>i < 64. state (procs k ! i) = PROC_BLOCKED)"
        using len by (metis any_blocked_def in_set_conv_nth)
      show ?thesis
      proof (cases "any_blocked (procs k)")
        case False
        then have "pick_next c ws k = Inl Shutdown"
          using none not_run not_ready [OF c] by (simp add: pick_next.simps [of c ws k])
        moreover have "\<forall>i < 64. state (procs k ! i) \<noteq> PROC_BLOCKED" using False blocked by blast
        ultimately show ?thesis using not_ready by (auto intro!: exI [of _ k])
      next
        case b: True
        show ?thesis
        proof (cases ws)
          case Nil
          then have "pick_next c ws k = Inl Idle"
            using none not_run not_ready [OF c] b by (simp add: pick_next.simps [of c "[]" k])
          moreover have "\<exists>i < 64. state (procs k ! i) = PROC_BLOCKED" using b blocked by blast
          ultimately show ?thesis using not_ready by (auto intro!: exI [of _ k])
        next
          case (Cons w ws')
          let ?k = "idle_service w k"
          have fr: "interrupt_frame k ?k" by (rule interrupt_frame_idle)
          then have len': "length (procs ?k) = 64" using len by (simp add: interrupt_frame_def woken_def)
          have step: "pick_next c ws k = pick_next c ws' ?k"
            using none not_run not_ready [OF c] b Cons by (simp add: pick_next.simps [of c "w # ws'" k])
          have IH: "case pick_next c ws' ?k of
              Inl r \<Rightarrow> \<exists>k'. interrupt_frame ?k k' \<and> (\<forall>i < 64. state (procs k' ! i) \<noteq> PROC_READY) \<and>
                (r = Shutdown \<and> (\<forall>i < 64. state (procs k' ! i) \<noteq> PROC_BLOCKED) \<or>
                 r = Idle \<and> (\<exists>i < 64. state (procs k' ! i) = PROC_BLOCKED))
            | Inr (None, k') \<Rightarrow> interrupt_frame ?k k' \<and> state (procs k' ! c) = PROC_RUNNING
            | Inr (Some n, k') \<Rightarrow> interrupt_frame ?k k' \<and> n < 64 \<and> state (procs k' ! n) = PROC_READY \<and>
                (\<forall>j < 64. state (procs k' ! j) = PROC_READY \<longrightarrow> ahead c n \<le> ahead c j)"
            using "1.IH" none not_run not_ready [OF c] b Cons len' c by simp
          show ?thesis
          proof (cases "pick_next c ws' ?k")
            case (Inl r)
            then show ?thesis using IH interrupt_frame_trans [OF fr] unfolding step by auto
          next
            case (Inr y)
            obtain o' k' where y: "y = (o', k')" by (cases y)
            show ?thesis using IH interrupt_frame_trans [OF fr] unfolding step Inr y
              by (cases o') auto
          qed
        qed
      qed
    qed
  qed
qed

section \<open>The scheduler\<close>

text \<open>The table after the interrupted process was put away.\<close>

definition put_away :: "nat \<Rightarrow> trap_frame \<Rightarrow> process \<Rightarrow> process" where
  "put_away c f p = p\<lparr>frame := f, state := (if state p = PROC_RUNNING then PROC_READY else state p)\<rparr>"

lemma schedule_eq:
  assumes "current k = Some c" "c < length (procs k)"
  shows "schedule ws tf k =
    (case pick_next c ws (upd_proc c (put_away c (get_frame k tf)) k) of
       Inl r \<Rightarrow> Inl r
     | Inr (None, k3) \<Rightarrow> Inr (tf, upd_proc c (\<lambda>p. p\<lparr>state := PROC_RUNNING\<rparr>) k3)
     | Inr (Some n, k3) \<Rightarrow>
         Inr (ProcFrame n,
              (upd_proc n (\<lambda>p. p\<lparr>state := PROC_RUNNING\<rparr>) k3)
                \<lparr>current := Some n, satp := MAKE_SATP (page_table (procs k3 ! n))\<rparr>))"
proof -
  let ?k1 = "upd_proc c (\<lambda>p. p\<lparr>frame := get_frame k tf\<rparr>) k"
  have "(if state (procs ?k1 ! c) = PROC_RUNNING
      then upd_proc c (\<lambda>p. p\<lparr>state := PROC_READY\<rparr>) ?k1 else ?k1)
      = upd_proc c (put_away c (get_frame k tf)) k"
    using assms(2) by (auto simp: upd_proc_def put_away_def list_update_same_conv)
  then show ?thesis using assms(1) by (simp add: schedule_def Let_def)
qed

text \<open>
  What the rest of the kernel relies on: \<open>schedule\<close> returns with a process that could run, now
  the only running one, with its page table installed; nothing else about any process
  changed, except that the interrupted process's registers were saved and sleeping readers may
  have been woken.
\<close>

definition scheduled :: "trap_frame \<Rightarrow> nat \<Rightarrow> kernel \<Rightarrow> nat \<Rightarrow> kernel \<Rightarrow> bool" where
  "scheduled f c k n k' \<longleftrightarrow>
     n < 64 \<and> current k' = Some n \<and> satp k' = MAKE_SATP (page_table (procs k ! n)) \<and>
     mem k' = mem k \<and> next_pid k' = next_pid k \<and> length (procs k') = 64 \<and>
     (\<forall>i < 64. same_process (procs k ! i) (procs k' ! i) \<and>
        frame (procs k' ! i) = (if i = c then f else frame (procs k ! i)) \<and>
        (i \<noteq> n \<longrightarrow> state (procs k' ! i) = state (procs k ! i) \<and> (i = c \<longrightarrow> state (procs k ! i) \<noteq> PROC_RUNNING) \<or>
           state (procs k' ! i) = PROC_READY \<and>
           (i = c \<and> state (procs k ! i) = PROC_RUNNING \<or> state (procs k ! i) = PROC_BLOCKED))) \<and>
     state (procs k' ! n) = PROC_RUNNING \<and>
     (state (procs k ! n) = PROC_RUNNING \<longrightarrow> n = c) \<and>
     state (procs k ! n) \<in> {PROC_READY, PROC_BLOCKED, PROC_RUNNING}"

lemma schedule_spec:
  assumes len: "length (procs k) = 64" and cur: "current k = Some c" and c: "c < 64"
    and run: "schedule ws tf k = Inr (q, k')"
  shows "\<exists>n. q = ProcFrame n \<and> scheduled (get_frame k tf) c k n k'"
proof -
  let ?f = "get_frame k tf"
  let ?k2 = "upd_proc c (put_away c ?f) k"
  have len2: "length (procs ?k2) = 64" using len by simp
  note spec = pick_next_spec [OF len2 c, of ws]
  have not_running: "state (procs ?k2 ! c) \<noteq> PROC_RUNNING" using c len by (simp add: put_away_def)
  note eq = schedule_eq [OF cur, of ws tf]
  obtain o' k3 where p: "pick_next c ws ?k2 = Inr (o', k3)"
    using run eq c len by (auto split: sum.splits prod.splits option.splits)
  have "interrupt_frame ?k2 k3" using spec p by (cases o') simp_all
  then have w: "woken UartChan (procs ?k2) (procs k3)" and
    k3: "mem k3 = mem k" "next_pid k3 = next_pid k"
    by (simp_all add: interrupt_frame_def)
  have len3: "length (procs k3) = 64" using w len by (simp add: woken_def)
  have at2: "procs ?k2 ! i = (if i = c then put_away c ?f (procs k ! c) else procs k ! i)"
    if "i < 64" for i using that len by simp
  have same2: "same_process (procs k ! i) (procs ?k2 ! i)"
    "frame (procs ?k2 ! i) = (if i = c then ?f else frame (procs k ! i))" if "i < 64" for i
    unfolding at2 [OF that] by (simp_all add: put_away_def same_process_def)
  have w3: "same_process (procs ?k2 ! i) (procs k3 ! i)" "frame (procs k3 ! i) = frame (procs ?k2 ! i)"
    "state (procs k3 ! i) \<noteq> state (procs ?k2 ! i) \<Longrightarrow>
       state (procs ?k2 ! i) = PROC_BLOCKED \<and> state (procs k3 ! i) = PROC_READY" if "i < 64" for i
    using woken_at [OF w, of i] that len2 by simp_all
  have same3: "same_process (procs k ! i) (procs k3 ! i)"
    "frame (procs k3 ! i) = (if i = c then ?f else frame (procs k ! i))" if "i < 64" for i
    using same_process_trans [OF same2(1) w3(1)] w3(2) same2(2) that by simp_all
  have st3: "state (procs k3 ! i) = state (procs k ! i) \<and> (i = c \<longrightarrow> state (procs k ! i) \<noteq> PROC_RUNNING) \<or>
      state (procs k3 ! i) = PROC_READY \<and>
        (i = c \<and> state (procs k ! i) = PROC_RUNNING \<or> state (procs k ! i) = PROC_BLOCKED)"
    if "i < 64" for i
  proof -
    have "state (procs ?k2 ! i) = (if i = c \<and> state (procs k ! i) = PROC_RUNNING then PROC_READY
        else state (procs k ! i))"
      unfolding at2 [OF that] by (simp add: put_away_def)
    then show ?thesis using w3(3) [OF that]
      by (cases "state (procs k3 ! i) = state (procs ?k2 ! i)") (auto split: if_splits)
  qed
  show ?thesis
  proof (cases o')
    case None
    then have "state (procs k3 ! c) = PROC_RUNNING" using spec p by simp
    then show ?thesis using st3 [OF c] by auto
  next
    case (Some n)
    then have n: "n < 64" "state (procs k3 ! n) = PROC_READY" using spec p by simp_all
    have k': "q = ProcFrame n" "procs k' = (procs k3)[n := (procs k3 ! n)\<lparr>state := PROC_RUNNING\<rparr>]"
      "current k' = Some n" "satp k' = MAKE_SATP (page_table (procs k3 ! n))" "mem k' = mem k3"
      "next_pid k' = next_pid k3"
      using run eq p Some c len by auto
    have at': "procs k' ! i = (if i = n then (procs k3 ! n)\<lparr>state := PROC_RUNNING\<rparr> else procs k3 ! i)"
      if "i < 64" for i using that len3 k'(2) by simp
    have all: "same_process (procs k ! i) (procs k' ! i)"
      "frame (procs k' ! i) = (if i = c then ?f else frame (procs k ! i))" if "i < 64" for i
      using same3 [OF that] unfolding at' [OF that] by (auto simp: same_process_def)
    have st: "i \<noteq> n \<longrightarrow> state (procs k' ! i) = state (procs k ! i) \<and> (i = c \<longrightarrow> state (procs k ! i) \<noteq> PROC_RUNNING) \<or>
        state (procs k' ! i) = PROC_READY \<and>
          (i = c \<and> state (procs k ! i) = PROC_RUNNING \<or> state (procs k ! i) = PROC_BLOCKED)"
      if "i < 64" for i
      using st3 [OF that] unfolding at' [OF that] by simp
    have "page_table (procs k3 ! n) = page_table (procs k ! n)"
      using same3(1) [OF n(1)] by (simp add: same_process_def)
    moreover have "state (procs k' ! n) = PROC_RUNNING" using at' [OF n(1)] by simp
    moreover have "(state (procs k ! n) = PROC_RUNNING \<longrightarrow> n = c) \<and>
        state (procs k ! n) \<in> {PROC_READY, PROC_BLOCKED, PROC_RUNNING}"
      using st3 [OF n(1)] n(2) by auto
    moreover have "length (procs k') = 64" using k'(2) len3 by simp
    ultimately have "scheduled ?f c k n k'"
      unfolding scheduled_def using n(1) all st k'(3-6) k3 by simp
    with k'(1) show ?thesis by blast
  qed
qed

section \<open>Stopping\<close>

lemma schedule_stops:
  assumes len: "length (procs k) = 64" and cur: "current k = Some c" and c: "c < 64"
    and run: "schedule ws tf k = Inl r"
  shows "state (procs k ! c) \<noteq> PROC_RUNNING" "\<And>i. i < 64 \<Longrightarrow> state (procs k ! i) \<noteq> PROC_READY"
    "r = Shutdown \<and> (\<forall>i < 64. state (procs k ! i) \<noteq> PROC_BLOCKED) \<or>
     r = Idle \<and> (\<exists>i < 64. state (procs k ! i) = PROC_BLOCKED)"
proof -
  let ?k2 = "upd_proc c (put_away c (get_frame k tf)) k"
  have len2: "length (procs ?k2) = 64" using len by simp
  have p: "pick_next c ws ?k2 = Inl r"
    using run schedule_eq [OF cur, of ws tf] c len by (auto split: sum.splits prod.splits option.splits)
  obtain k' where k': "interrupt_frame ?k2 k'" "\<And>i. i < 64 \<Longrightarrow> state (procs k' ! i) \<noteq> PROC_READY"
    "r = Shutdown \<and> (\<forall>i < 64. state (procs k' ! i) \<noteq> PROC_BLOCKED) \<or>
     r = Idle \<and> (\<exists>i < 64. state (procs k' ! i) = PROC_BLOCKED)"
    using pick_next_spec [OF len2 c, of ws] unfolding p by auto
  have w: "woken UartChan (procs ?k2) (procs k')" using k'(1) by (simp add: interrupt_frame_def)
  have same: "state (procs k' ! i) = state (procs ?k2 ! i)" if "i < 64" for i
    using woken_at(3) [OF w, of i] k'(2) [OF that] that len2 by fastforce
  have at2: "state (procs ?k2 ! i) = (if i = c \<and> state (procs k ! i) = PROC_RUNNING then PROC_READY
      else state (procs k ! i))" if "i < 64" for i
    using that len by (cases "i = c") (auto simp: put_away_def)
  show "state (procs k ! c) \<noteq> PROC_RUNNING" using k'(2) [OF c] same [OF c] at2 [OF c] by auto
  show "state (procs k ! i) \<noteq> PROC_READY" if "i < 64" for i
    using k'(2) [OF that] same [OF that] at2 [OF that] by auto
  have "(state (procs k' ! i) = PROC_BLOCKED) = (state (procs k ! i) = PROC_BLOCKED)" if "i < 64" for i
    unfolding same [OF that] at2 [OF that] by auto
  then show "r = Shutdown \<and> (\<forall>i < 64. state (procs k ! i) \<noteq> PROC_BLOCKED) \<or>
     r = Idle \<and> (\<exists>i < 64. state (procs k ! i) = PROC_BLOCKED)"
    using k'(3) by auto
qed

section \<open>Fairness\<close>

text \<open>A READY process makes \<open>schedule\<close> return at once, with the first READY one in table order.\<close>

lemma schedule_ready:
  assumes len: "length (procs k) = 64" and cur: "current k = Some c" and c: "c < 64"
    and run: "state (procs k ! c) = PROC_RUNNING" and j: "j < 64" "state (procs k ! j) = PROC_READY"
  obtains n k' where "schedule ws tf k = Inr (ProcFrame n, k')" "n < 64" "ahead c n \<le> ahead c j"
    "current k' = Some n" "length (procs k') = 64" "state (procs k' ! n) = PROC_RUNNING"
    "j \<noteq> n \<Longrightarrow> state (procs k' ! j) = PROC_READY"
proof -
  let ?k2 = "upd_proc c (put_away c (get_frame k tf)) k"
  have len2: "length (procs ?k2) = 64" using len by simp
  have "j \<noteq> c" using j run by auto
  then have j2: "state (procs ?k2 ! j) = PROC_READY" using j len by simp
  obtain n where n: "find_ready (procs ?k2) c = Some n"
    using find_ready_None [of "procs ?k2" c j] c j(1) j2 by (cases "find_ready (procs ?k2) c") auto
  note fr = find_ready_Some [OF n c]
  have "pick_next c ws ?k2 = Inr (Some n, ?k2)" using n by (simp add: pick_next.simps [of c ws])
  then have "schedule ws tf k = Inr (ProcFrame n, (upd_proc n (\<lambda>p. p\<lparr>state := PROC_RUNNING\<rparr>) ?k2)
      \<lparr>current := Some n, satp := MAKE_SATP (page_table (procs ?k2 ! n))\<rparr>)"
    using schedule_eq [OF cur, of ws tf] c len by simp
  then show thesis
  proof (rule that)
    show "ahead c n \<le> ahead c j" using fr(3) j(1) j2 by blast
  qed (use fr(1) len2 j2 j(1) in \<open>auto simp: nth_list_update\<close>)
qed

lemma ahead_step:
  assumes "c < 64" "n < 64" "j < 64" "ahead c n \<le> ahead c j" "n \<noteq> j"
  shows "ahead n j < ahead c j"
  using assms by (auto simp: ahead_cases split: if_splits)

text \<open>\<open>t\<close> timer ticks in a row, each interrupting the process that is running.\<close>

fun ticks :: "nat \<Rightarrow> kernel \<Rightarrow> stop + kernel" where
  "ticks 0 k = Inr k"
| "ticks (Suc t) k =
     (case current k of
        None \<Rightarrow> Inr k
      | Some c \<Rightarrow>
          (case schedule [] (ProcFrame c) k of
             Inl r \<Rightarrow> Inl r
           | Inr (q, k') \<Rightarrow> ticks t k'))"

lemma ready_runs:
  "length (procs k) = 64 \<Longrightarrow> current k = Some c \<Longrightarrow> c < 64 \<Longrightarrow> state (procs k ! c) = PROC_RUNNING \<Longrightarrow>
   j < 64 \<Longrightarrow> state (procs k ! j) = PROC_READY \<Longrightarrow>
   \<exists>t \<le> Suc (ahead c j). \<exists>k'. ticks t k = Inr k' \<and> current k' = Some j \<and> state (procs k' ! j) = PROC_RUNNING"
proof (induction "ahead c j" arbitrary: c k rule: less_induct)
  case less
  obtain n k1 where n: "schedule [] (ProcFrame c) k = Inr (ProcFrame n, k1)" "n < 64"
    "ahead c n \<le> ahead c j" "current k1 = Some n" "length (procs k1) = 64"
    "state (procs k1 ! n) = PROC_RUNNING" "j \<noteq> n \<Longrightarrow> state (procs k1 ! j) = PROC_READY"
    using schedule_ready [OF less.prems(1-6)] by blast
  have step: "ticks (Suc t) k = ticks t k1" for t using n(1) less.prems(2) by simp
  show ?case
  proof (cases "n = j")
    case True
    have "ticks (Suc 0) k = Inr k1" using step [of 0] by simp
    with True n show ?thesis by (intro exI [of _ "Suc 0"]) auto
  next
    case False
    have closer: "ahead n j < ahead c j"
      by (rule ahead_step [OF less.prems(3) n(2) less.prems(5) n(3) False])
    obtain t k' where t: "t \<le> Suc (ahead n j)" "ticks t k1 = Inr k'" "current k' = Some j"
      "state (procs k' ! j) = PROC_RUNNING"
      using less.hyps [OF closer n(5,4,2,6) less.prems(5) n(7)] False by blast
    have "Suc t \<le> Suc (ahead c j)" using t(1) closer by simp
    then show ?thesis using t step [of t] by (intro exI [of _ "Suc t"]) simp
  qed
qed

section \<open>No wakeup is lost\<close>

text \<open>A process sleeps on the input ring only while there is no finished line to read.\<close>

definition readers_ok :: "kernel \<Rightarrow> bool" where
  "readers_ok k \<longleftrightarrow> uart_ok (rx k) \<and>
     (\<forall>p \<in> set (procs k). state p = PROC_BLOCKED \<and> chan p = UartChan \<longrightarrow> finished (rx k) = [])"

lemma readers_ok_rx: "readers_ok k \<Longrightarrow> uart_ok (rx k)"
  by (simp add: readers_ok_def)

text \<open>Changing a process without putting it to sleep on the ring keeps the condition.\<close>

lemma readers_ok_upd:
  assumes "readers_ok k" "\<not> (state (f (procs k ! i)) = PROC_BLOCKED \<and> chan (f (procs k ! i)) = UartChan) \<or>
      finished (rx k) = []"
  shows "readers_ok (upd_proc i f k)"
  using assms set_update_subset_insert [of "procs k" i "f (procs k ! i)"]
  by (auto simp: readers_ok_def)

lemma readers_ok_cong:
  "readers_ok k \<Longrightarrow> rx k' = rx k \<Longrightarrow> procs k' = procs k \<Longrightarrow> readers_ok k'"
  by (simp add: readers_ok_def)

lemma readers_ok_wakeup:
  assumes "readers_ok k"
  shows "readers_ok (wakeup ch k)"
  using assms by (auto simp: readers_ok_def wakeup_def wake_one_def)

lemma readers_ok_rx_byte:
  assumes ok: "readers_ok k"
  shows "readers_ok (uart_rx_byte b k)"
proof -
  obtain u echo woke where s: "uart_byte b (rx k) = (u, echo, woke)" by (cases "uart_byte b (rx k)")
  note r = uart_byte_refines [OF readers_ok_rx [OF ok] s]
  let ?k1 = "k\<lparr>rx := u, console := console k @ echo\<rparr>"
  have eq: "uart_rx_byte b k = (if woke then wakeup UartChan ?k1 else ?k1)"
    by (simp add: uart_rx_byte_def s fold_say_byte Let_def)
  show ?thesis
  proof (cases woke)
    case True
    then show ?thesis unfolding eq using r(1)
      by (auto simp: readers_ok_def wakeup_def wake_one_def)
  next
    case False
    then have "finished u = finished (rx k)"
      using r(2) by (auto simp: line_byte_def uart_abs_def Let_def split: if_splits)
    then show ?thesis unfolding eq using False r(1) ok by (simp add: readers_ok_def)
  qed
qed

lemma readers_ok_uart_intr: "readers_ok k \<Longrightarrow> readers_ok (uart_intr fifo k)"
  by (induction fifo arbitrary: k) (simp_all add: uart_intr_def readers_ok_rx_byte)

lemma readers_ok_plic: "readers_ok k \<Longrightarrow> readers_ok (plic_dispatch irq fifo k)"
  using readers_ok_uart_intr [of k fifo]
  by (auto simp: plic_dispatch_def Let_def intro: readers_ok_cong)

lemma rx_say [simp]: "rx (say s k) = rx k" "rx (say_hex x k) = rx k"
  by simp_all

lemma readers_ok_idle:
  assumes "readers_ok k"
  shows "readers_ok (idle_service w k)"
proof -
  have "readers_ok (k\<lparr>timer := t\<rparr>)" for t using assms by (rule readers_ok_cong) simp_all
  with assms show ?thesis unfolding idle_service_def Let_def by (simp add: readers_ok_plic)
qed

lemma readers_ok_pick_next:
  "readers_ok k \<Longrightarrow> pick_next c ws k = Inr (o', k') \<Longrightarrow> readers_ok k'"
proof (induction c ws k rule: pick_next.induct)
  case (1 c ws k)
  show ?case
  proof (cases "find_ready (procs k) c = None \<and> state (procs k ! c) \<noteq> PROC_READY \<and>
      state (procs k ! c) \<noteq> PROC_RUNNING \<and> any_blocked (procs k) \<and> ws \<noteq> []")
    case True
    then obtain w ws' where ws: "ws = w # ws'" by (cases ws) auto
    have "pick_next c ws' (idle_service w k) = Inr (o', k')"
      using "1.prems"(2) True ws by (simp add: pick_next.simps [of c "w # ws'" k])
    then show ?thesis using "1.IH" True ws readers_ok_idle [OF "1.prems"(1)] by simp
  next
    case False
    then have "k' = k"
      using "1.prems"(2) by (auto simp: pick_next.simps [of c ws k] split: option.splits if_splits list.splits)
    with "1.prems"(1) show ?thesis by simp
  qed
qed

lemma readers_ok_schedule:
  assumes ok: "readers_ok k" and len: "length (procs k) = 64" and cur: "current k = Some c" and c: "c < 64"
    and run: "schedule ws tf k = Inr (q, k')"
  shows "readers_ok k'"
proof -
  let ?k2 = "upd_proc c (put_away c (get_frame k tf)) k"
  have ok2: "readers_ok ?k2"
  proof (rule readers_ok_upd [OF ok])
    have "procs k ! c \<in> set (procs k)" using len c by simp
    then show "\<not> (state (put_away c (get_frame k tf) (procs k ! c)) = PROC_BLOCKED \<and>
        chan (put_away c (get_frame k tf) (procs k ! c)) = UartChan) \<or> finished (rx k) = []"
      using ok by (auto simp: readers_ok_def put_away_def split: if_splits)
  qed
  obtain o' k3 where p: "pick_next c ws ?k2 = Inr (o', k3)"
    using run schedule_eq [OF cur, of ws tf] c len by (auto split: sum.splits prod.splits option.splits)
  have ok3: "readers_ok k3" by (rule readers_ok_pick_next [OF ok2 p])
  have ok4: "readers_ok (upd_proc n (\<lambda>p. p\<lparr>state := PROC_RUNNING\<rparr>) k3)" for n
    by (rule readers_ok_upd [OF ok3]) simp
  show ?thesis
  proof (cases o')
    case None
    then have "k' = upd_proc c (\<lambda>p. p\<lparr>state := PROC_RUNNING\<rparr>) k3"
      using run schedule_eq [OF cur, of ws tf] c len p by simp
    then show ?thesis using ok4 by blast
  next
    case (Some n)
    then have "rx k' = rx (upd_proc n (\<lambda>p. p\<lparr>state := PROC_RUNNING\<rparr>) k3)"
      "procs k' = procs (upd_proc n (\<lambda>p. p\<lparr>state := PROC_RUNNING\<rparr>) k3)"
      using run schedule_eq [OF cur, of ws tf] c len p by auto
    then show ?thesis by (rule readers_ok_cong [OF ok4])
  qed
qed

section \<open>Properties\<close>

text \<open>A table of 64 slots for the witnesses: 0 runs, 1 is ready, 2 waits for input.\<close>

definition sample_kernel :: kernel where
  "sample_kernel = \<lparr>mem = (\<lambda>_. 0),
     procs = (replicate 64 empty_process)
       [0 := empty_process\<lparr>pid := 1, state := PROC_RUNNING, page_table := 0x80300000\<rparr>,
        1 := empty_process\<lparr>pid := 2, state := PROC_READY, page_table := 0x80400000\<rparr>,
        2 := empty_process\<lparr>pid := 3, state := PROC_BLOCKED, chan := UartChan\<rparr>],
     next_pid = 4, current = Some 0, g_tf = zero_frame, rx = uart_reset, console = [],
     satp = MAKE_SATP 0x80300000, timer = 0, irqs_done = []\<rparr>"

lemma sample_kernel_procs:
  "length (procs sample_kernel) = 64" "current sample_kernel = Some 0"
  "state (procs sample_kernel ! 0) = PROC_RUNNING" "state (procs sample_kernel ! 1) = PROC_READY"
  "page_table (procs sample_kernel ! 1) = 0x80400000"
  by (simp_all add: sample_kernel_def)

text \<open>
  C27: when \<open>schedule\<close> returns, exactly the process it chose is running and its page table is
  installed; it was READY, running before, or woken by an interrupt meanwhile, never UNUSED or
  a ZOMBIE. The registers of the interrupted process are saved in its own frame, no other
  process's registers, memory, identity, heap or files changed, and every state change is one
  of RUNNING to READY for the interrupted process and BLOCKED to READY.
\<close>
theorem schedule_switches:
  assumes "length (procs k) = 64" "current k = Some c" "c < 64" "schedule ws tf k = Inr (q, k')"
    and "\<forall>i < 64. state (procs k ! i) = PROC_RUNNING \<longrightarrow> i = c"
  shows "\<exists>n < 64. q = ProcFrame n \<and> current k' = Some n \<and>
    satp k' = MAKE_SATP (page_table (procs k' ! n)) \<and> mem k' = mem k \<and>
    (\<forall>i < 64. state (procs k' ! i) = PROC_RUNNING \<longleftrightarrow> i = n) \<and>
    state (procs k ! n) \<noteq> PROC_UNUSED \<and> state (procs k ! n) \<noteq> PROC_ZOMBIE \<and>
    (\<forall>i < 64. same_process (procs k ! i) (procs k' ! i) \<and>
       frame (procs k' ! i) = (if i = c then get_frame k tf else frame (procs k ! i)) \<and>
       (i \<noteq> n \<longrightarrow> state (procs k' ! i) = state (procs k ! i) \<or>
          state (procs k' ! i) = PROC_READY \<and> state (procs k ! i) \<in> {PROC_RUNNING, PROC_BLOCKED}))"
proof -
  obtain n where q: "q = ProcFrame n" and s: "scheduled (get_frame k tf) c k n k'"
    using schedule_spec [OF assms(1-4)] by blast
  have n: "n < 64" "current k' = Some n" "satp k' = MAKE_SATP (page_table (procs k ! n))"
    "mem k' = mem k" "state (procs k' ! n) = PROC_RUNNING"
    "state (procs k ! n) \<in> {PROC_READY, PROC_BLOCKED, PROC_RUNNING}"
    using s by (simp_all add: scheduled_def)
  have each: "same_process (procs k ! i) (procs k' ! i)"
    "frame (procs k' ! i) = (if i = c then get_frame k tf else frame (procs k ! i))"
    "i \<noteq> n \<longrightarrow> state (procs k' ! i) = state (procs k ! i) \<and> (i = c \<longrightarrow> state (procs k ! i) \<noteq> PROC_RUNNING) \<or>
       state (procs k' ! i) = PROC_READY \<and>
       (i = c \<and> state (procs k ! i) = PROC_RUNNING \<or> state (procs k ! i) = PROC_BLOCKED)"
    if "i < 64" for i
    using s that unfolding scheduled_def by blast+
  have "state (procs k' ! i) = PROC_RUNNING \<longleftrightarrow> i = n" if "i < 64" for i
  proof (cases "i = n")
    case False
    have "state (procs k' ! i) \<noteq> PROC_RUNNING"
    proof
      assume r: "state (procs k' ! i) = PROC_RUNNING"
      then have "state (procs k ! i) = PROC_RUNNING" "i \<noteq> c" using each(3) [OF that] False by auto
      then show False using assms(5) that by blast
    qed
    with False show ?thesis by simp
  qed (use n(5) in simp)
  moreover have "page_table (procs k' ! n) = page_table (procs k ! n)"
    using each(1) [OF n(1)] by (simp add: same_process_def)
  moreover have "i \<noteq> n \<longrightarrow> state (procs k' ! i) = state (procs k ! i) \<or>
      state (procs k' ! i) = PROC_READY \<and> state (procs k ! i) \<in> {PROC_RUNNING, PROC_BLOCKED}"
    if "i < 64" for i
    using each(3) [OF that] by auto
  ultimately show ?thesis using n q each(1,2) by (intro exI [of _ n]) auto
qed

lemma sample_schedule:
  "\<exists>k'. schedule [] (ProcFrame 0) sample_kernel = Inr (ProcFrame 1, k') \<and> current k' = Some 1"
proof -
  let ?ps = "procs (upd_proc 0 (put_away 0 (get_frame sample_kernel (ProcFrame 0))) sample_kernel)"
  have "state (?ps ! 1) = PROC_READY" using sample_kernel_procs by simp
  then have "find_ready_from ?ps 0 (Suc 63) = Some 1" by (simp only: find_ready_from.simps Let_def) simp
  moreover have "(64 :: nat) = Suc 63" by simp
  ultimately have "find_ready ?ps 0 = Some 1" unfolding find_ready_def by (simp only:)
  then show ?thesis
    using schedule_eq [of sample_kernel 0 "[]" "ProcFrame 0"] sample_kernel_procs
    by (simp add: pick_next.simps [of 0])
qed

lemma schedule_switches_witness:
  "\<exists>k'. schedule [] (ProcFrame 0) sample_kernel = Inr (ProcFrame 1, k') \<and>
     satp k' = MAKE_SATP 0x80400000 \<and> state (procs k' ! 1) = PROC_RUNNING"
proof -
  obtain k' where k': "schedule [] (ProcFrame 0) sample_kernel = Inr (ProcFrame 1, k')"
    using sample_schedule by blast
  have "state (procs sample_kernel ! i) \<noteq> PROC_RUNNING" if "i < 64" "i \<noteq> 0" for i
    using that by (simp add: sample_kernel_def nth_list_update empty_process_def)
  then have "\<forall>i < 64. state (procs sample_kernel ! i) = PROC_RUNNING \<longrightarrow> i = 0" by blast
  from schedule_switches [OF sample_kernel_procs(1,2) _ k' this] k' sample_kernel_procs(5)
  show ?thesis by (auto simp: same_process_def)
qed

text \<open>
  \<open>schedule\<close> stops the machine only when the interrupted process cannot go on and no
  process is READY: it shuts down when no process is left that could ever run again, and it
  stays idle only while some process is blocked.
\<close>
theorem schedule_stops_only_when_idle:
  assumes "length (procs k) = 64" "current k = Some c" "c < 64" "schedule ws tf k = Inl r"
  shows "state (procs k ! c) \<noteq> PROC_RUNNING \<and> (\<forall>i < 64. state (procs k ! i) \<noteq> PROC_READY) \<and>
    (r = Shutdown \<and> (\<forall>i < 64. state (procs k ! i) \<noteq> PROC_BLOCKED) \<or>
     r = Idle \<and> (\<exists>i < 64. state (procs k ! i) = PROC_BLOCKED))"
  using schedule_stops [OF assms] by blast

lemma schedule_stops_only_when_idle_witness:
  "\<exists>r k. schedule [] (ProcFrame 0) k = Inl r \<and> r = Shutdown \<and>
     (\<forall>i < 64. state (procs k ! i) \<noteq> PROC_READY \<and> state (procs k ! i) \<noteq> PROC_BLOCKED)"
proof -
  let ?k = "sample_kernel\<lparr>procs := (replicate 64 empty_process)[0 := empty_process\<lparr>pid := 1, state := PROC_ZOMBIE\<rparr>]\<rparr>"
  have len: "length (procs ?k) = 64" "current ?k = Some 0" "(0 :: nat) < 64"
    by (simp_all add: sample_kernel_def)
  have states: "state (procs ?k ! i) = (if i = 0 then PROC_ZOMBIE else PROC_UNUSED)" if "i < 64" for i
    using that by (simp add: nth_list_update empty_process_def)
  obtain r where r: "schedule [] (ProcFrame 0) ?k = Inl r"
  proof (cases "schedule [] (ProcFrame 0) ?k")
    case (Inr x)
    obtain q k' where x: "x = (q, k')" by (cases x)
    obtain n where s: "scheduled (get_frame ?k (ProcFrame 0)) 0 ?k n k'"
      using schedule_spec [OF len, of "[]" "ProcFrame 0" q k'] Inr x by blast
    then have "n < 64" "state (procs ?k ! n) \<in> {PROC_READY, PROC_BLOCKED, PROC_RUNNING}"
      unfolding scheduled_def by blast+
    then show ?thesis using states [of n] by (auto split: if_splits)
  qed (use that in blast)
  have "\<forall>i < 64. state (procs ?k ! i) \<noteq> PROC_READY \<and> state (procs ?k ! i) \<noteq> PROC_BLOCKED"
    using states by simp
  with schedule_stops_only_when_idle [OF len r] r show ?thesis by blast
qed

text \<open>
  C28: round-robin fairness: a READY process is running after at most 64 timer ticks, whatever
  the other processes are, as long as they keep running until their tick.
\<close>
theorem ready_process_runs_within_64_ticks:
  assumes "length (procs k) = 64" "current k = Some c" "c < 64" "state (procs k ! c) = PROC_RUNNING"
    and "j < 64" "state (procs k ! j) = PROC_READY"
  shows "\<exists>t \<le> 64. \<exists>k'. ticks t k = Inr k' \<and> current k' = Some j \<and> state (procs k' ! j) = PROC_RUNNING"
proof -
  have "Suc (ahead c j) \<le> 64" using ahead_less [of c j] by (rule Suc_leI)
  then show ?thesis using ready_runs [OF assms] by (meson order_trans)
qed

lemma ready_process_runs_within_64_ticks_witness:
  "\<exists>t \<le> 64. \<exists>k'. ticks t sample_kernel = Inr k' \<and> current k' = Some 1"
  using ready_process_runs_within_64_ticks [OF sample_kernel_procs(1,2) _ sample_kernel_procs(3) _ sample_kernel_procs(4)]
  by auto

text \<open>
  No wakeup is lost on the console: if readers sleep only while there is no finished line,
  this stays so over every device interrupt and every scheduling decision, whatever bytes
  arrive in whatever order; so a finished line always finds its readers READY.
\<close>
theorem no_lost_console_wakeup:
  assumes "readers_ok k"
  shows "readers_ok (plic_dispatch irq fifo k) \<and>
    (\<forall>c ws tf q k'. length (procs k) = 64 \<longrightarrow> current k = Some c \<longrightarrow> c < 64 \<longrightarrow>
       schedule ws tf k = Inr (q, k') \<longrightarrow> readers_ok k')"
  using readers_ok_plic [OF assms] readers_ok_schedule [OF assms] by blast

lemma no_lost_console_wakeup_witness:
  "readers_ok (plic_dispatch UART0_IRQ [104, 105, 13] sample_kernel)"
proof -
  have "finished uart_reset = []" using uart_reset_ok(2) by (simp add: uart_abs_def)
  then have "readers_ok sample_kernel" using uart_reset_ok(1) by (simp add: readers_ok_def sample_kernel_def)
  then show ?thesis using no_lost_console_wakeup by blast
qed

end
