(* ===== verification/Page_Tree.thy ===== *)
theory Page_Tree
  imports Vmm
begin

text \<open>
  Page tables as trees. A path is a list of at most three indices, from the root down; the
  node at a path is a table page (paths of length 0, 1, 2) or a user frame (length 3).
  \<open>wf_forest L m R\<close> says that the trees of the roots \<open>R\<close> consist of frames handed out by
  the allocator and that no frame occurs at two places: this is what keeps the address
  spaces of processes apart. The lemmas show what writing one entry does to the forest.
\<close>

section \<open>Nodes\<close>

definition child :: "memory \<Rightarrow> nat \<Rightarrow> u64 \<Rightarrow> nat \<Rightarrow> u64 option" where
  "child m level t i =
     (let e = load64 m (slot t i) in
      if \<not> has e PTE_V then None
      else if level = 0 then (if is_leaf e \<and> has e PTE_U then Some (PTE_TO_PA e) else None)
      else if is_leaf e then None
      else Some (PTE_TO_PA e))"

fun node :: "memory \<Rightarrow> nat \<Rightarrow> u64 \<Rightarrow> nat list \<Rightarrow> u64 option" where
  "node m n t [] = Some t"
| "node m 0 t (i # p) = None"
| "node m (Suc n) t (i # p) =
     (if i < 512 then Option.bind (child m n t i) (\<lambda>t'. node m n t' p) else None)"

abbreviation tree :: "memory \<Rightarrow> u64 \<Rightarrow> nat list \<Rightarrow> u64 option" where
  "tree m r p \<equiv> node m 3 r p"

definition tables :: "memory \<Rightarrow> u64 \<Rightarrow> u64 set" where
  "tables m r = {t. \<exists>p. length p \<le> 2 \<and> tree m r p = Some t}"

text \<open>The level-0 entry for the indices \<open>i\<close>, \<open>j\<close>, \<open>k\<close>; 0 (invalid) where there is no table.\<close>

definition leaf_at :: "memory \<Rightarrow> u64 \<Rightarrow> nat \<Rightarrow> nat \<Rightarrow> nat \<Rightarrow> u64" where
  "leaf_at m r i j k = (case tree m r [i, j] of None \<Rightarrow> 0 | Some t \<Rightarrow> load64 m (slot t k))"

lemma child_less_0 [simp]: "load64 m (slot t i) = 0 \<Longrightarrow> child m n t i = None"
  by (simp add: child_def has_def)

lemma node_snoc:
  "node m n t (p @ [i]) =
     (if length p < n \<and> i < 512
      then Option.bind (node m n t p) (\<lambda>t'. child m (n - Suc (length p)) t' i) else None)"
proof (induction p arbitrary: n t)
  case Nil
  show ?case by (cases n; cases "child m (n - 1) t i") auto
next
  case (Cons j p)
  show ?case
  proof (cases n)
    case (Suc n')
    then show ?thesis by (cases "child m n' t j") (auto simp: Cons.IH)
  qed simp
qed

lemma node_Some_length: "node m n t p = Some x \<Longrightarrow> length p \<le> n"
proof (induction p arbitrary: n t)
  case (Cons j p)
  then show ?case by (cases n) (auto split: if_splits bind_splits)
qed simp

lemma tree_prefix:
  assumes "tree m r (p @ [i]) = Some x"
  obtains t where "tree m r p = Some t" "length p \<le> 2" "i < 512" "child m (2 - length p) t i = Some x"
proof -
  have c: "length p < 3 \<and> i < 512" and
    b: "Option.bind (tree m r p) (\<lambda>t'. child m (3 - Suc (length p)) t' i) = Some x"
    using assms by (simp_all add: node_snoc split: if_splits)
  then obtain t where "tree m r p = Some t" "child m (3 - Suc (length p)) t i = Some x"
    by (auto split: bind_splits)
  with c that show thesis by simp
qed

lemma tree_snoc:
  "tree m r p = Some t \<Longrightarrow> length p \<le> 2 \<Longrightarrow> i < 512 \<Longrightarrow> tree m r (p @ [i]) = child m (2 - length p) t i"
  by (simp add: node_snoc)

section \<open>Forests\<close>

definition wf_forest :: "layout \<Rightarrow> memory \<Rightarrow> u64 set \<Rightarrow> bool" where
  "wf_forest L m R \<longleftrightarrow>
     page_aligned (image_end L) \<and>
     {p \<in> ram_frames. p \<le> image_end L} \<subseteq> used L m \<and>
     (\<forall>r \<in> R. \<forall>p t. tree m r p = Some t \<longrightarrow> t \<in> used L m \<and> image_end L < t) \<and>
     (\<forall>r \<in> R. \<forall>r' \<in> R. \<forall>p p' t. tree m r p = Some t \<longrightarrow> tree m r' p' = Some t \<longrightarrow> r = r' \<and> p = p') \<and>
     (\<forall>r \<in> R. \<forall>p t i. tree m r p = Some t \<longrightarrow> length p < 2 \<longrightarrow> i < 512 \<longrightarrow>
        has (load64 m (slot t i)) PTE_V \<longrightarrow> \<not> is_leaf (load64 m (slot t i)))"

lemma wf_aligned: "wf_forest L m R \<Longrightarrow> page_aligned (image_end L)"
  by (simp add: wf_forest_def)

lemma wf_reserved: "wf_forest L m R \<Longrightarrow> {p \<in> ram_frames. p \<le> image_end L} \<subseteq> used L m"
  by (simp add: wf_forest_def)

lemma wf_used: "wf_forest L m R \<Longrightarrow> r \<in> R \<Longrightarrow> tree m r p = Some t \<Longrightarrow> t \<in> used L m"
  unfolding wf_forest_def by (elim conjE) blast

lemma wf_above: "wf_forest L m R \<Longrightarrow> r \<in> R \<Longrightarrow> tree m r p = Some t \<Longrightarrow> image_end L < t"
  unfolding wf_forest_def by (elim conjE) blast

lemma wf_inj:
  "wf_forest L m R \<Longrightarrow> r \<in> R \<Longrightarrow> r' \<in> R \<Longrightarrow> tree m r p = Some t \<Longrightarrow> tree m r' p' = Some t \<Longrightarrow>
     r = r' \<and> p = p'"
  unfolding wf_forest_def by (elim conjE) blast

lemma wf_inner:
  "wf_forest L m R \<Longrightarrow> r \<in> R \<Longrightarrow> tree m r p = Some t \<Longrightarrow> length p < 2 \<Longrightarrow> i < 512 \<Longrightarrow>
     has (load64 m (slot t i)) PTE_V \<Longrightarrow> \<not> is_leaf (load64 m (slot t i))"
  unfolding wf_forest_def by (elim conjE) blast

lemma wf_page: "wf_forest L m R \<Longrightarrow> r \<in> R \<Longrightarrow> tree m r p = Some t \<Longrightarrow> page_aligned t"
  using wf_used used_subset frame_aligned by blast

lemma wf_not_bitmap: "wf_forest L m R \<Longrightarrow> r \<in> R \<Longrightarrow> tree m r p = Some t \<Longrightarrow> t \<noteq> image_end L"
  using wf_above by blast

text \<open>The entries of the tables survive writes to other pages.\<close>

lemma node_same_except:
  assumes wf: "wf_forest L m R" and r: "r \<in> R" and se: "same_except P m m'"
    and disj: "tables m r \<inter> P = {}"
  shows "tree m' r p = tree m r p"
proof (induction p rule: rev_induct)
  case (snoc i p)
  show ?case
  proof (cases "length p \<le> 2 \<and> i < 512")
    case True
    show ?thesis
    proof (cases "tree m r p")
      case (Some t)
      then have "t \<in> tables m r" using True by (auto simp: tables_def)
      then have "load64 m' (slot t i) = load64 m (slot t i)"
        using se disj True wf_page [OF wf r Some] by (intro load64_same_except) auto
      with Some snoc True show ?thesis by (simp add: node_snoc child_def)
    qed (simp add: node_snoc snoc)
  qed (auto simp: node_snoc)
qed simp

section \<open>Writing one entry\<close>

text \<open>
  The situation after entry \<open>i0\<close> of the table \<open>t0\<close> (at path \<open>q0\<close> of \<open>r0\<close>) was written: all
  other entries of all tables are as before, and where the write hooks in a new table, the
  slot was empty and the new table is zero.
\<close>

definition entry_written ::
  "memory \<Rightarrow> u64 set \<Rightarrow> u64 \<Rightarrow> nat list \<Rightarrow> u64 \<Rightarrow> nat \<Rightarrow> memory \<Rightarrow> bool" where
  "entry_written m R r0 q0 t0 i0 m' \<longleftrightarrow>
     r0 \<in> R \<and> tree m r0 q0 = Some t0 \<and> length q0 \<le> 2 \<and> i0 < 512 \<and>
     (\<forall>r \<in> R. \<forall>p t i. tree m r p = Some t \<longrightarrow> length p \<le> 2 \<longrightarrow> i < 512 \<longrightarrow> (t, i) \<noteq> (t0, i0) \<longrightarrow>
        load64 m' (slot t i) = load64 m (slot t i)) \<and>
     (length q0 < 2 \<longrightarrow> child m (2 - length q0) t0 i0 = None \<and>
        (\<forall>n i. child m' (2 - length q0) t0 i0 = Some n \<longrightarrow> i < 512 \<longrightarrow> load64 m' (slot n i) = 0))"

lemma node_entry_written:
  assumes wf: "wf_forest L m R" and ew: "entry_written m R r0 q0 t0 i0 m'" and r: "r \<in> R"
  shows "tree m' r p =
    (if r = r0 \<and> p = q0 @ [i0] then child m' (2 - length q0) t0 i0 else tree m r p)"
proof (induction p rule: rev_induct)
  case Nil
  then show ?case by simp
next
  case (snoc i p)
  have t0: "r0 \<in> R" "tree m r0 q0 = Some t0" "length q0 \<le> 2" "i0 < 512"
    using ew by (simp_all add: entry_written_def)
  show ?case
  proof (cases "length p \<le> 2 \<and> i < 512")
    case False
    then show ?thesis using t0 by (auto simp: node_snoc)
  next
    case True
    show ?thesis
    proof (cases "r = r0 \<and> p = q0 @ [i0]")
      case below: True
      then have "length q0 < 2" using True by simp
      then have "child m (2 - length q0) t0 i0 = None"
        and zero: "\<And>n. child m' (2 - length q0) t0 i0 = Some n \<Longrightarrow> load64 m' (slot n i) = 0"
        using ew True by (auto simp: entry_written_def)
      then have "tree m r p = None" using below t0 by (simp add: tree_snoc)
      then have "tree m r (p @ [i]) = None" by (simp add: node_snoc)
      moreover have "tree m' r (p @ [i]) = None"
      proof -
        have "tree m' r p = child m' (2 - length q0) t0 i0" using snoc below by simp
        then show ?thesis unfolding node_snoc [of m' 3 r p i]
          using zero by (cases "child m' (2 - length q0) t0 i0") simp_all
      qed
      ultimately show ?thesis using below by simp
    next
      case other: False
      then have same: "tree m' r p = tree m r p" using snoc by auto
      show ?thesis
      proof (cases "tree m r p")
        case None
        moreover have "\<not> (r = r0 \<and> p = q0)" using None t0 by auto
        ultimately show ?thesis using same by (auto simp: node_snoc)
      next
        case (Some t)
        show ?thesis
        proof (cases "(t, i) = (t0, i0)")
          case here: True
          then have "r = r0 \<and> p = q0" using wf_inj [OF wf r t0(1)] Some t0(2) by blast
          with here same Some True show ?thesis by (simp add: tree_snoc)
        next
          case False
          then have "load64 m' (slot t i) = load64 m (slot t i)"
            using ew Some True r by (auto simp: entry_written_def)
          then have "child m' (2 - length p) t i = child m (2 - length p) t i"
            by (simp add: child_def)
          moreover have "\<not> (r = r0 \<and> p @ [i] = q0 @ [i0])" using False Some t0 by auto
          ultimately show ?thesis using same Some True by (auto simp: tree_snoc)
        qed
      qed
    qed
  qed
qed

text \<open>
  The write keeps the forest well formed when the frame it hooks in is allocated, lies above
  the kernel image and is not in the forest yet, and when no frame of the forest was freed
  but the one the entry pointed to before.
\<close>

lemma wf_entry_written:
  assumes wf: "wf_forest L m R" and ew: "entry_written m R r0 q0 t0 i0 m'"
    and new: "\<And>n. child m' (2 - length q0) t0 i0 = Some n \<Longrightarrow>
        n \<in> used L m' \<and> image_end L < n \<and> (\<forall>r \<in> R. \<forall>p. tree m r p = Some n \<longrightarrow> r = r0 \<and> p = q0 @ [i0])"
    and kept: "\<And>t. t \<in> used L m \<Longrightarrow> t \<notin> used L m' \<Longrightarrow> child m (2 - length q0) t0 i0 = Some t"
    and inner: "length q0 < 2 \<Longrightarrow> \<not> is_leaf (load64 m' (slot t0 i0))"
  shows "wf_forest L m' R"
proof -
  note tree' = node_entry_written [OF wf ew]
  have t0: "r0 \<in> R" "tree m r0 q0 = Some t0" "length q0 \<le> 2" "i0 < 512"
    using ew by (simp_all add: entry_written_def)
  have t0_child: "tree m r0 (q0 @ [i0]) = child m (2 - length q0) t0 i0"
    using t0 by (simp add: tree_snoc)
  show ?thesis
    unfolding wf_forest_def
  proof (intro conjI ballI allI impI)
    show "page_aligned (image_end L)" using wf by (rule wf_aligned)
  next
    have "t \<in> used L m'" if "t \<in> ram_frames" "t \<le> image_end L" for t
    proof (rule ccontr)
      assume no: "t \<notin> used L m'"
      have "t \<in> used L m" using that wf_reserved [OF wf] by blast
      with no kept t0_child have "tree m r0 (q0 @ [i0]) = Some t" by simp
      then have "image_end L < t" using wf_above [OF wf t0(1)] by blast
      with that show False by simp
    qed
    then show "{p \<in> ram_frames. p \<le> image_end L} \<subseteq> used L m'" by blast
  next
    fix r p t assume r: "r \<in> R" and t: "tree m' r p = Some t"
    show "t \<in> used L m'"
    proof (cases "r = r0 \<and> p = q0 @ [i0]")
      case True
      with t tree' [OF r] new show ?thesis by simp
    next
      case False
      then have old: "tree m r p = Some t" using t tree' [OF r, of p] by (auto split: if_splits)
      have "t \<notin> used L m' \<Longrightarrow> tree m r0 (q0 @ [i0]) = Some t"
        using kept wf_used [OF wf r old] t0_child by simp
      then show ?thesis using wf_inj [OF wf r t0(1) old] False by blast
    qed
    show "image_end L < t"
      using t tree' [OF r, of p] new wf_above [OF wf r, of p t] by (auto split: if_splits)
  next
    fix r r' p p' t
    assume r: "r \<in> R" "r' \<in> R" and t: "tree m' r p = Some t" "tree m' r' p' = Some t"
    have fresh: "s = r0 \<and> q = q0 @ [i0]"
      if "s \<in> R" "tree m s q = Some t" "child m' (2 - length q0) t0 i0 = Some t" for s q
      using new that by blast
    show "r = r'" "p = p'"
      using t tree' [OF r(1), of p] tree' [OF r(2), of p'] wf_inj [OF wf r] fresh r
      by (metis option.inject)+
  next
    fix r p t i
    assume r: "r \<in> R" and t: "tree m' r p = Some t" and p: "length p < 2" and i: "i < 512"
      and v: "has (load64 m' (slot t i)) PTE_V"
    show "\<not> is_leaf (load64 m' (slot t i))"
    proof (cases "r = r0 \<and> p = q0 @ [i0]")
      case True
      then have "length q0 < 2" using p by simp
      then have "load64 m' (slot t i) = 0"
        using ew t tree' [OF r] True i by (auto simp: entry_written_def)
      then show ?thesis using v by (simp add: has_def)
    next
      case False
      then have old: "tree m r p = Some t" using t tree' [OF r, of p] by (auto split: if_splits)
      show ?thesis
      proof (cases "(t, i) = (t0, i0)")
        case True
        then have "p = q0" using wf_inj [OF wf r t0(1) old] t0(2) by blast
        with True inner p show ?thesis by simp
      next
        case False
        then have "load64 m' (slot t i) = load64 m (slot t i)"
          using ew old p i r by (auto simp: entry_written_def)
        with v wf_inner [OF wf r old p i] show ?thesis by simp
      qed
    qed
  qed
qed

section \<open>Steps that only add tables\<close>

text \<open>
  \<open>grows L R r m m'\<close>: from \<open>m\<close> to \<open>m'\<close> the tree of \<open>r\<close> got new tables and new entries in its
  tables, every table stays where it was, the other trees are unchanged, and only the bitmap
  page and the tables of \<open>r\<close> were written.
\<close>

definition grows :: "layout \<Rightarrow> u64 set \<Rightarrow> u64 \<Rightarrow> memory \<Rightarrow> memory \<Rightarrow> bool" where
  "grows L R r m m' \<longleftrightarrow>
     wf_forest L m' R \<and> used L m \<subseteq> used L m' \<and> used L m' \<subseteq> used L m \<union> tables m' r \<and>
     tables m r \<subseteq> tables m' r \<and> tables m' r \<inter> used L m \<subseteq> tables m r \<and>
     (\<forall>p t. tree m r p = Some t \<longrightarrow> length p \<le> 2 \<longrightarrow> tree m' r p = Some t) \<and>
     (\<forall>r' \<in> R - {r}. \<forall>p. tree m' r' p = tree m r' p) \<and>
     same_except (insert (image_end L) (tables m' r)) m m'"

lemma grows_wf: "grows L R r m m' \<Longrightarrow> wf_forest L m' R"
  by (simp add: grows_def)

lemma grows_refl: "wf_forest L m R \<Longrightarrow> grows L R r m m"
  by (simp add: grows_def)

lemma grows_tree: "grows L R r m m' \<Longrightarrow> tree m r p = Some t \<Longrightarrow> length p \<le> 2 \<Longrightarrow> tree m' r p = Some t"
  unfolding grows_def by blast

lemma grows_other: "grows L R r m m' \<Longrightarrow> r' \<in> R \<Longrightarrow> r' \<noteq> r \<Longrightarrow> tree m' r' p = tree m r' p"
  unfolding grows_def by blast

lemma growsD:
  assumes "grows L R r m m'"
  shows "wf_forest L m' R" "used L m \<subseteq> used L m'" "used L m' \<subseteq> used L m \<union> tables m' r"
    "tables m r \<subseteq> tables m' r" "tables m' r \<inter> used L m \<subseteq> tables m r"
    "\<And>p t. tree m r p = Some t \<Longrightarrow> length p \<le> 2 \<Longrightarrow> tree m' r p = Some t"
    "\<And>r' p. r' \<in> R \<Longrightarrow> r' \<noteq> r \<Longrightarrow> tree m' r' p = tree m r' p"
    "same_except (insert (image_end L) (tables m' r)) m m'"
  using assms unfolding grows_def by (elim conjE; simp)+

lemma grows_trans:
  assumes "grows L R r m m'" "grows L R r m' m''"
  shows "grows L R r m m''"
proof -
  note a = growsD [OF assms(1)] and b = growsD [OF assms(2)]
  have "same_except (insert (image_end L) (tables m'' r)) m m''"
    using a(8) b(8) by (rule same_except_trans) (use b(4) in blast)
  moreover have "\<forall>p t. tree m r p = Some t \<longrightarrow> length p \<le> 2 \<longrightarrow> tree m'' r p = Some t"
    using a(6) b(6) by blast
  moreover have "\<forall>r' \<in> R - {r}. \<forall>p. tree m'' r' p = tree m r' p" using a(7) b(7) by simp
  moreover have "used L m'' \<subseteq> used L m \<union> tables m'' r" using a(3) b(3,4) by blast
  moreover have "tables m'' r \<inter> used L m \<subseteq> tables m r" using a(2,5) b(5) by blast
  ultimately show ?thesis unfolding grows_def using a(2,4) b(1,2,4) by blast
qed

text \<open>Frames outside the tables of \<open>r\<close> keep their contents.\<close>

lemma grows_frame:
  assumes "grows L R r m m'" "t \<notin> tables m' r" "page_base b = t" "t \<noteq> image_end L"
  shows "m' b = m b"
  using assms unfolding grows_def by (auto intro!: same_exceptD)

section \<open>The next table of a walk\<close>

text \<open>The body of \<open>map_page\<close>'s loop: follow the entry, or allocate and hook in a zeroed table.\<close>

definition next_table :: "layout \<Rightarrow> memory \<Rightarrow> u64 \<Rightarrow> nat \<Rightarrow> u64 \<times> memory" where
  "next_table L m t i =
     (if has (load64 m (slot t i)) PTE_V then (PTE_TO_PA (load64 m (slot t i)), m)
      else
        (let (n, m1) = pmm_alloc_page L m in
         if n = 0 then (0, m1)
         else (n, store64 (memset m1 n 0 4096) (slot t i) (PA_TO_PTE n OR PTE_V))))"

lemma table_entry:
  assumes "page_aligned n"
  shows "has (PA_TO_PTE n OR PTE_V) PTE_V" "\<not> is_leaf (PA_TO_PTE n OR PTE_V)"
    "PTE_TO_PA (PA_TO_PTE n OR PTE_V) = n"
proof -
  show "has (PA_TO_PTE n OR PTE_V) PTE_V"
    by (simp only: has_flags) (simp add: bit_or_iff PTE_V_def)
  show "\<not> is_leaf (PA_TO_PTE n OR PTE_V)"
    by (simp add: is_leaf_def has_flags bit_or_iff bit_PA_TO_PTE PTE_V_def bit_1_iff)
  show "PTE_TO_PA (PA_TO_PTE n OR PTE_V) = n"
    by (rule PTE_TO_PA_entry [OF assms]) (simp add: flag_word_def PTE_V_def bit_1_iff)
qed

lemma wf_child:
  assumes wf: "wf_forest L m R" and r: "r \<in> R" and t: "tree m r q = Some t" and q: "length q < 2" and i: "i < 512"
  shows "child m (2 - length q) t i =
    (if has (load64 m (slot t i)) PTE_V then Some (PTE_TO_PA (load64 m (slot t i))) else None)"
  using wf_inner [OF wf r t q i] q by (simp add: child_def Let_def)

lemma next_table_grows:
  assumes wf: "wf_forest L m R" and r: "r \<in> R" and t: "tree m r q = Some t" and q: "length q < 2"
    and i: "i < 512" and nt: "next_table L m t i = (t', m')" and ok: "t' \<noteq> 0"
  shows "grows L R r m m'" "tree m' r (q @ [i]) = Some t'"
    "\<And>r' a b c. r' \<in> R \<Longrightarrow> a < 512 \<Longrightarrow> b < 512 \<Longrightarrow> c < 512 \<Longrightarrow> leaf_at m' r' a b c = leaf_at m r' a b c"
proof -
  have "grows L R r m m' \<and> tree m' r (q @ [i]) = Some t' \<and>
    (\<forall>r' a b c. r' \<in> R \<longrightarrow> a < 512 \<longrightarrow> b < 512 \<longrightarrow> c < 512 \<longrightarrow> leaf_at m' r' a b c = leaf_at m r' a b c)"
  proof (cases "has (load64 m (slot t i)) PTE_V")
    case True
    then have "m' = m" "t' = PTE_TO_PA (load64 m (slot t i))" using nt by (auto simp: next_table_def)
    moreover have "tree m r (q @ [i]) = Some (PTE_TO_PA (load64 m (slot t i)))"
      using wf_child [OF wf r t q i] t q i True by (simp add: tree_snoc)
    ultimately show ?thesis using grows_refl [OF wf] by simp
  next
    case empty: False
    obtain n m1 where al: "pmm_alloc_page L m = (n, m1)" by fastforce
    let ?m2 = "memset m1 n 0 4096"
    have n: "n = t'" and m': "m' = store64 ?m2 (slot t i) (PA_TO_PTE n OR PTE_V)" and n0: "n \<noteq> 0"
      using nt empty al ok by (auto simp: next_table_def split: if_splits)
    note fresh = pmm.al_page [OF al n0]
    have end_al: "page_aligned (image_end L)" using wf by (rule wf_aligned)
    have n_al: "page_aligned n" using fresh frame_aligned by blast
    have t_al: "page_aligned t" using wf_page [OF wf r t] .
    have t_used: "t \<in> used L m" using wf_used [OF wf r t] .
    have tn: "t \<noteq> n" using t_used fresh by blast
    have old: "load64 ?m2 (slot x c) = load64 m (slot x c)"
      if "page_aligned x" "x \<noteq> n" "x \<noteq> image_end L" "c < 512" for x c
    proof -
      have "same_except {image_end L} m m1" by (rule same_except_alloc [OF end_al al])
      moreover have "same_except {n} m1 ?m2" using n_al by (intro same_except_memset) simp_all
      ultimately have "same_except {image_end L, n} m ?m2" by (rule same_except_trans) auto
      then show ?thesis using that by (intro load64_same_except) auto
    qed
    have entry: "load64 m' (slot x c) =
        (if x = t \<and> c = i then PA_TO_PTE n OR PTE_V else load64 m (slot x c))"
      if "page_aligned x" "x \<noteq> n" "x \<noteq> image_end L" "c < 512" for x c
      unfolding m' using load64_store64_slot [OF t_al that(1) i that(4)] old [OF that] by auto
    have zero: "load64 m' (slot n c) = 0" if "c < 512" for c
      unfolding m' using load64_store64_slot [OF t_al n_al i that] tn load64_memset_page [OF n_al that] by simp
    have node_ne: "x \<noteq> n" if "r' \<in> R" "tree m r' p = Some x" for r' p x
      using wf_used [OF wf that] fresh by blast
    have hooked: "child m' (2 - length q) t i = Some n"
      using entry [OF t_al tn wf_not_bitmap [OF wf r t] i] table_entry [OF n_al] q
      by (simp add: child_def Let_def)
    have ew: "entry_written m R r q t i m'"
      unfolding entry_written_def
    proof (intro conjI ballI allI impI)
      fix r' p x c assume "r' \<in> R" "tree m r' p = Some x" "c < 512" "(x, c) \<noteq> (t, i)"
      then show "load64 m' (slot x c) = load64 m (slot x c)"
        using entry [OF wf_page [OF wf] node_ne wf_not_bitmap [OF wf]] by auto
    next
      show "child m (2 - length q) t i = None" using wf_child [OF wf r t q i] empty by simp
    next
      fix n' c assume "child m' (2 - length q) t i = Some n'" "c < (512 :: nat)"
      then show "load64 m' (slot n' c) = 0" using hooked zero by simp
    qed (use r t q i in auto)
    have used': "used L m' = insert n (used L m)"
    proof -
      have "used L m1 = insert n (used L m)" using fresh by blast
      moreover have "same_except {n, t} m1 m'"
        unfolding m' using n_al t_al i
        by (intro same_except_trans [OF same_except_memset same_except_store64_slot]) auto
      moreover have "image_end L \<notin> {n, t}"
        using wf_not_bitmap [OF wf r t] wf_reserved [OF wf] fresh by auto
      ultimately show ?thesis using used_same_except [OF _ end_al] by metis
    qed
    have above: "image_end L < n"
    proof (rule ccontr)
      assume "\<not> image_end L < n"
      then have "n \<in> used L m" using wf_reserved [OF wf] fresh by auto
      then show False using fresh by blast
    qed
    have wf': "wf_forest L m' R"
    proof (rule wf_entry_written [OF wf ew])
      show "\<not> is_leaf (load64 m' (slot t i))"
        using entry [OF t_al tn wf_not_bitmap [OF wf r t] i] table_entry(2) [OF n_al] by simp
    next
      fix n' assume "child m' (2 - length q) t i = Some n'"
      then show "n' \<in> used L m' \<and> image_end L < n' \<and>
          (\<forall>r' \<in> R. \<forall>p. tree m r' p = Some n' \<longrightarrow> r' = r \<and> p = q @ [i])"
        using hooked used' above node_ne by auto
    qed (use used' in auto)
    note tree' = node_entry_written [OF wf ew]
    have path: "tree m r (q @ [i]) = None"
      using wf_child [OF wf r t q i] empty t q i by (simp add: tree_snoc)
    have top: "tree m' r (q @ [i]) = Some n" using tree' [OF r] hooked by simp
    have old_tree: "tree m' r p = Some x" if "tree m r p = Some x" for p x
      using tree' [OF r, of p] that path by auto
    have tabs: "tables m r \<subseteq> tables m' r" using old_tree by (auto simp: tables_def)
    have "x \<in> tables m r" if x: "x \<in> tables m' r" "x \<in> used L m" for x
    proof -
      obtain p where p: "length p \<le> 2" "tree m' r p = Some x" using x(1) by (auto simp: tables_def)
      have "p \<noteq> q @ [i]" using p(2) top x(2) fresh by auto
      then have "tree m r p = Some x" using tree' [OF r, of p] p(2) by simp
      with p(1) show ?thesis by (auto simp: tables_def)
    qed
    then have tabs': "tables m' r \<inter> used L m \<subseteq> tables m r" by blast
    have n_tab: "n \<in> tables m' r" using top q by (auto simp: tables_def intro!: exI [of _ "q @ [i]"])
    have t_tab: "t \<in> tables m' r" using old_tree [OF t] q by (auto simp: tables_def intro!: exI [of _ q])
    have "same_except {image_end L} m m1" by (rule same_except_alloc [OF end_al al])
    moreover have "same_except {n, t} m1 m'"
      unfolding m' using n_al t_al i
      by (intro same_except_trans [OF same_except_memset same_except_store64_slot]) auto
    ultimately have "same_except (insert (image_end L) (tables m' r)) m m'"
      by (rule same_except_trans) (use n_tab t_tab in auto)
    then have "grows L R r m m'"
      unfolding grows_def using wf' used' n_tab tabs tabs' old_tree tree' by auto
    moreover have "leaf_at m' r' a b c = leaf_at m r' a b c"
      if "r' \<in> R" "a < 512" "b < 512" "c < 512" for r' a b c
    proof (cases "r' = r \<and> [a, b] = q @ [i]")
      case True
      then have "tree m' r' [a, b] = Some n" "tree m r' [a, b] = None"
        using top path by (simp_all only: True)
      then show ?thesis using zero [OF that(4)] by (simp add: leaf_at_def)
    next
      case False
      then have same: "tree m' r' [a, b] = tree m r' [a, b]" using tree' [OF that(1)] by auto
      show ?thesis
      proof (cases "tree m r' [a, b]")
        case (Some x)
        have "q \<noteq> [a, b]" using q by auto
        then have "x \<noteq> t" using wf_inj [OF wf that(1) r Some] t by blast
        then have "load64 m' (slot x c) = load64 m (slot x c)"
          using entry [OF wf_page [OF wf that(1) Some] node_ne [OF that(1) Some]
              wf_not_bitmap [OF wf that(1) Some] that(4)] by auto
        then show ?thesis using same Some by (simp add: leaf_at_def)
      qed (simp add: leaf_at_def same)
    qed
    ultimately show ?thesis using top n by simp
  qed
  then show "grows L R r m m'" "tree m' r (q @ [i]) = Some t'"
    "\<And>r' a b c. r' \<in> R \<Longrightarrow> a < 512 \<Longrightarrow> b < 512 \<Longrightarrow> c < 512 \<Longrightarrow> leaf_at m' r' a b c = leaf_at m r' a b c"
    by blast+
qed

text \<open>One round of the walk either finds no memory and changes nothing, or moves down one table.\<close>

lemma next_table_cases:
  assumes wf: "wf_forest L m R" and r: "r \<in> R" and t: "tree m r q = Some t" and q: "length q < 2"
    and i: "i < 512" and nt: "next_table L m t i = (t', m')"
  obtains (oom) "t' = 0" "m' = m" "used L m = ram_frames"
  | (down) "t' \<noteq> 0" "grows L R r m m'" "tree m' r (q @ [i]) = Some t'"
      "\<And>r' a b c. r' \<in> R \<Longrightarrow> a < 512 \<Longrightarrow> b < 512 \<Longrightarrow> c < 512 \<Longrightarrow>
         leaf_at m' r' a b c = leaf_at m r' a b c"
proof (cases "t' = 0")
  case True
  have "\<not> has (load64 m (slot t i)) PTE_V"
  proof
    assume v: "has (load64 m (slot t i)) PTE_V"
    then have "tree m r (q @ [i]) = Some (PTE_TO_PA (load64 m (slot t i)))"
      using wf_child [OF wf r t q i] t q i by (simp add: tree_snoc)
    then have "PTE_TO_PA (load64 m (slot t i)) \<noteq> 0"
      using wf_used [OF wf r] used_subset frame_nonzero by blast
    with True nt v show False by (simp add: next_table_def)
  qed
  then obtain "pmm_alloc_page L m = (0, m')" using nt True
    by (auto simp: next_table_def split: prod.splits if_splits)
  then show thesis using pmm.al_null oom True by blast
qed (rule down, assumption, (rule next_table_grows [OF assms]; assumption)+)

lemma map_walk_Suc:
  assumes wf: "wf_forest L m R" and r: "r \<in> R" and t: "tree m r q = Some t" and q: "length q < 2"
  shows "map_walk L m t va pa flags (Suc level) =
    (case next_table L m t (VPN va (Suc level)) of (t', m') \<Rightarrow>
       if t' = 0 then (-1, m') else map_walk L m' t' va pa flags level)"
proof (cases "has (load64 m (slot t (VPN va (Suc level)))) PTE_V")
  case True
  then have "tree m r (q @ [VPN va (Suc level)]) = Some (PTE_TO_PA (load64 m (slot t (VPN va (Suc level)))))"
    using wf_child [OF wf r t q] t q by (simp add: tree_snoc)
  then have "PTE_TO_PA (load64 m (slot t (VPN va (Suc level)))) \<noteq> 0"
    using wf_used [OF wf r] used_subset frame_nonzero by blast
  with True show ?thesis by (simp add: next_table_def Let_def)
qed (auto simp: next_table_def Let_def split: prod.splits)

lemma vmm_lookup_eq:
  assumes wf: "wf_forest L m R" and r: "r \<in> R"
  shows "vmm_lookup m r va =
    (case tree m r [VPN va 2, VPN va 1] of None \<Rightarrow> 0 | Some t \<Rightarrow> slot t (VPN va 0))"
proof -
  have two: "(2 :: nat) = Suc (Suc 0)" by simp
  have root: "tree m r [VPN va 2] = child m 2 r (VPN va 2)"
    using tree_snoc [of m r "[]" r "VPN va 2"] by (simp only: append_Nil node.simps list.size simp_thms) simp
  have c1: "child m 2 r (VPN va 2) =
      (if has (load64 m (slot r (VPN va 2))) PTE_V then Some (PTE_TO_PA (load64 m (slot r (VPN va 2)))) else None)"
    using wf_child [OF wf r, of "[]" r] by simp
  show ?thesis
  proof (cases "has (load64 m (slot r (VPN va 2))) PTE_V")
    case True
    let ?t = "PTE_TO_PA (load64 m (slot r (VPN va 2)))"
    have t: "tree m r [VPN va 2] = Some ?t" using c1 True root by simp
    then have "child m 1 ?t (VPN va 1) =
        (if has (load64 m (slot ?t (VPN va 1))) PTE_V then Some (PTE_TO_PA (load64 m (slot ?t (VPN va 1)))) else None)"
      using wf_child [OF wf r t, of "VPN va 1"] by simp
    moreover have "tree m r ([VPN va 2] @ [VPN va 1]) = child m 1 ?t (VPN va 1)"
      using tree_snoc [OF t, of "VPN va 1"] by simp
    moreover have "vmm_lookup m r va = (if has (load64 m (slot ?t (VPN va 1))) PTE_V
        then slot (PTE_TO_PA (load64 m (slot ?t (VPN va 1)))) (VPN va 0) else 0)"
      using True by (simp add: vmm_lookup_def two Let_def)
    ultimately show ?thesis by simp
  next
    case False
    then have "tree m r [VPN va 2] = None" using c1 by (simp add: numeral_3_eq_3 numeral_2_eq_2)
    then have "tree m r ([VPN va 2] @ [VPN va 1]) = None" unfolding node_snoc by simp
    moreover have "vmm_lookup m r va = 0"
      using False by (simp add: vmm_lookup_def two Let_def)
    ultimately show ?thesis by simp
  qed
qed

end
