(* ===== verification/Page_Map.thy ===== *)
theory Page_Map
  imports Page_Tree
begin

text \<open>
  What \<open>map_page\<close>, \<open>vmm_lookup\<close>, \<open>vmm_unmap_range\<close> and \<open>free_page_table\<close> do to the forest of
  page tables: the walk is two rounds of \<open>next_table\<close> and one leaf write, so every
  operation is a composition of the steps of \<open>Page_Tree\<close>.
\<close>

section \<open>Leaves\<close>

text \<open>The frame a level-0 entry gives to the user program, if any.\<close>

definition user_frame :: "u64 \<Rightarrow> u64 option" where
  "user_frame e = (if has e PTE_V \<and> is_leaf e \<and> has e PTE_U then Some (PTE_TO_PA e) else None)"

lemma leaf_at_Some: "tree m r [i, j] = Some t \<Longrightarrow> leaf_at m r i j k = load64 m (slot t k)"
  by (simp add: leaf_at_def)

lemma tree_leaf:
  assumes "i < 512" "j < 512" "k < 512"
  shows "tree m r [i, j, k] = user_frame (leaf_at m r i j k)"
proof -
  have n: "tree m r ([i, j] @ [k]) = Option.bind (tree m r [i, j]) (\<lambda>t. child m 0 t k)"
    using assms(3) by (subst node_snoc) simp
  show ?thesis
  proof (cases "tree m r [i, j]")
    case None
    then show ?thesis using n by (simp add: leaf_at_def user_frame_def has_def)
  next
    case (Some t)
    then show ?thesis using n by (auto simp: leaf_at_def child_def user_frame_def Let_def)
  qed
qed

lemma node_entry_index: "node m n t (p @ i # q) = Some x \<Longrightarrow> i < 512"
proof (induction p arbitrary: n t)
  case Nil
  then show ?case by (cases n) (auto split: if_splits)
next
  case (Cons j p)
  then show ?case by (cases n) (auto split: if_splits bind_splits)
qed

text \<open>A path to a user frame is a path of three indices below 512.\<close>

lemma tree_path3:
  assumes "tree m r p = Some x" "\<not> length p \<le> 2"
  obtains i j k where "p = [i, j, k]" "i < 512" "j < 512" "k < 512"
proof -
  have "length p = 3" using assms node_Some_length by fastforce
  then obtain i j k where p: "p = [i, j, k]" by (auto simp: numeral_3_eq_3 length_Suc_conv)
  moreover have "i < 512" using node_entry_index [of m 3 r "[]" i "[j, k]" x] assms p by simp
  moreover have "j < 512" using node_entry_index [of m 3 r "[i]" j "[k]" x] assms p by simp
  moreover have "k < 512" using node_entry_index [of m 3 r "[i, j]" k "[]" x] assms p by simp
  ultimately show thesis using that by blast
qed

section \<open>Writing a leaf\<close>

text \<open>
  The three index path of a virtual address, and the condition under which a leaf entry may
  be written: a user leaf points to an allocated frame that occurs nowhere in the forest.
\<close>

abbreviation vpath :: "u64 \<Rightarrow> nat list" where
  "vpath va \<equiv> [VPN va 2, VPN va 1, VPN va 0]"

definition leaf_ok :: "layout \<Rightarrow> memory \<Rightarrow> u64 set \<Rightarrow> u64 \<Rightarrow> bool" where
  "leaf_ok L m R e \<longleftrightarrow>
     (\<forall>n. user_frame e = Some n \<longrightarrow>
        n \<in> used L m \<and> image_end L < n \<and> (\<forall>r \<in> R. \<forall>p. tree m r p \<noteq> Some n))"

lemma child_0: "child m 0 t i = user_frame (load64 m (slot t i))"
  by (simp add: child_def user_frame_def Let_def)

lemma leaf_write:
  assumes wf: "wf_forest L m R" and r: "r \<in> R" and t: "tree m r [i, j] = Some t"
    and k: "k < 512" and ok: "leaf_ok L m R e"
  defines "m' \<equiv> store64 m (slot t k) e"
  shows "grows L R r m m'"
    "\<And>r' a b c. r' \<in> R \<Longrightarrow> a < 512 \<Longrightarrow> b < 512 \<Longrightarrow> c < 512 \<Longrightarrow>
       leaf_at m' r' a b c = (if r' = r \<and> (a, b, c) = (i, j, k) then e else leaf_at m r' a b c)"
proof -
  have t_al: "page_aligned t" using wf_page [OF wf r t] .
  have entry: "load64 m' (slot x c) = (if x = t \<and> c = k then e else load64 m (slot x c))"
    if "page_aligned x" "c < 512" for x c
    unfolding m'_def using load64_store64_slot [OF t_al that(1) k that(2)] by auto
  have se: "same_except {t} m m'" unfolding m'_def by (rule same_except_store64_slot [OF t_al k])
  have "image_end L \<notin> {t}" using wf_not_bitmap [OF wf r t] by simp
  then have used': "used L m' = used L m" using used_same_except [OF se wf_aligned [OF wf]] by blast
  have ew: "entry_written m R r [i, j] t k m'"
    unfolding entry_written_def
  proof (intro conjI ballI allI impI)
    fix r' p x c assume "r' \<in> R" "tree m r' p = Some x" "c < 512" "(x, c) \<noteq> (t, k)"
    then show "load64 m' (slot x c) = load64 m (slot x c)"
      using entry [OF wf_page [OF wf]] by auto
  qed (use r t k in auto)
  have here: "child m' (2 - length [i, j]) t k = user_frame e"
    using entry [OF t_al k] by (simp add: child_0)
  have wf': "wf_forest L m' R"
  proof (rule wf_entry_written [OF wf ew])
    fix n assume "child m' (2 - length [i, j]) t k = Some n"
    with here have "user_frame e = Some n" by simp
    then show "n \<in> used L m' \<and> image_end L < n \<and>
        (\<forall>r' \<in> R. \<forall>p. tree m r' p = Some n \<longrightarrow> r' = r \<and> p = [i, j] @ [k])"
      using ok used' unfolding leaf_ok_def by blast
  qed (use used' in auto)
  note tree' = node_entry_written [OF wf ew]
  have short: "tree m' r' p = tree m r' p" if "r' \<in> R" "length p \<le> 2" for r' p
    using tree' [OF that(1), of p] that by auto
  have "tables m' r = tables m r" using short [OF r] by (auto simp: tables_def)
  moreover have "t \<in> tables m r" using t by (auto simp: tables_def intro!: exI [of _ "[i, j]"])
  ultimately show "grows L R r m m'"
    unfolding grows_def using wf' used' short [OF r] tree' se
    by (auto intro: same_except_mono)
  fix r' a b c assume r': "r' \<in> R" and abc: "a < (512 :: nat)" "b < (512 :: nat)" "c < (512 :: nat)"
  show "leaf_at m' r' a b c = (if r' = r \<and> (a, b, c) = (i, j, k) then e else leaf_at m r' a b c)"
  proof (cases "tree m r' [a, b]")
    case None
    with short [OF r', of "[a, b]"] t show ?thesis by (auto simp: leaf_at_def)
  next
    case (Some x)
    then have "x = t \<longleftrightarrow> r' = r \<and> [a, b] = [i, j]" using wf_inj [OF wf r' r Some] t by auto
    then show ?thesis
      using entry [OF wf_page [OF wf r' Some] abc(3)] Some short [OF r', of "[a, b]"]
      by (auto simp: leaf_at_def)
  qed
qed

section \<open>\<open>map_page\<close>\<close>

text \<open>Growth keeps a leaf admissible: new tables are frames that were free before.\<close>

lemma leaf_ok_grows:
  assumes ok: "leaf_ok L m R e" and r: "r \<in> R" and g: "grows L R r m m'"
    and same: "\<And>a b c. a < 512 \<Longrightarrow> b < 512 \<Longrightarrow> c < 512 \<Longrightarrow> leaf_at m' r a b c = leaf_at m r a b c"
  shows "leaf_ok L m' R e"
  unfolding leaf_ok_def
proof (intro allI impI conjI ballI notI)
  fix n assume n: "user_frame e = Some n"
  then have nm: "n \<in> used L m" "image_end L < n" "\<And>r p. r \<in> R \<Longrightarrow> tree m r p \<noteq> Some n"
    using ok by (auto simp: leaf_ok_def)
  then show "n \<in> used L m'" "image_end L < n" using g by (auto simp: grows_def)
  fix r' p assume r': "r' \<in> R" and t: "tree m' r' p = Some n"
  have "tree m r' p = Some n" if "r' \<noteq> r" using grows_other [OF g r' that, of p] t by simp
  then have "r' = r" using nm(3) [OF r'] by blast
  show False
  proof (cases "length p \<le> 2")
    case True
    then have "n \<in> tables m' r" using t \<open>r' = r\<close> by (auto simp: tables_def)
    then show False using g nm(1,3) r by (auto simp: grows_def tables_def)
  next
    case False
    with t obtain a b c where p: "p = [a, b, c]" "a < 512" "b < 512" "c < 512"
      using tree_path3 by blast
    then have "tree m r [a, b, c] = Some n" using t same \<open>r' = r\<close> by (simp add: tree_leaf)
    then show False using nm(3) r by blast
  qed
qed

text \<open>
  The two outcomes of \<open>map_page\<close>: out of memory, where no translation changed, or success,
  where exactly the entry of the address changed. In both cases the forest only grew.
\<close>

lemma map_page_cases:
  assumes wf: "wf_forest L m R" and r: "r \<in> R"
    and ok: "leaf_ok L m R (PA_TO_PTE pa OR flags OR PTE_V)"
    and mp: "map_page L m r va pa flags = (x, m')"
  obtains (oom) "x = -1" "grows L R r m m'" "used L m' = ram_frames"
      "\<And>r' a b c. r' \<in> R \<Longrightarrow> a < 512 \<Longrightarrow> b < 512 \<Longrightarrow> c < 512 \<Longrightarrow>
         leaf_at m' r' a b c = leaf_at m r' a b c"
  | (mapped) "x = 0" "grows L R r m m'" "tree m' r [VPN va 2, VPN va 1] \<noteq> None"
      "\<And>r' a b c. r' \<in> R \<Longrightarrow> a < 512 \<Longrightarrow> b < 512 \<Longrightarrow> c < 512 \<Longrightarrow>
         leaf_at m' r' a b c = (if r' = r \<and> [a, b, c] = vpath va
           then PA_TO_PTE pa OR flags OR PTE_V else leaf_at m r' a b c)"
proof -
  let ?e = "PA_TO_PTE pa OR flags OR PTE_V"
  obtain t1 m1 where n1: "next_table L m r (VPN va 2) = (t1, m1)" by fastforce
  have root: "tree m r [] = Some r" by simp
  have w2: "map_page L m r va pa flags = (if t1 = 0 then (-1, m1) else map_walk L m1 t1 va pa flags 1)"
    using map_walk_Suc [OF wf r root, of va pa flags 1] n1 by (simp add: map_page_def numeral_2_eq_2)
  have "length ([] :: nat list) < 2" "length [VPN va 2] < 2" by simp_all
  from wf r root this(1) VPN_less n1 show thesis
  proof (cases rule: next_table_cases)
    case oom: oom
    show thesis by (rule that(1)) (use oom w2 mp grows_refl [OF wf] in auto)
  next
    case d1: down
    have t1: "tree m1 r [VPN va 2] = Some t1" using d1(3) by simp
    have wf1: "wf_forest L m1 R" using d1(2) by (rule grows_wf)
    obtain t0 m2 where n2: "next_table L m1 t1 (VPN va 1) = (t0, m2)" by fastforce
    have w1: "map_page L m r va pa flags = (if t0 = 0 then (-1, m2) else map_walk L m2 t0 va pa flags 0)"
      using map_walk_Suc [OF wf1 r t1, of va pa flags 0] n2 w2 d1(1) by simp
    from wf1 r t1 \<open>length [VPN va 2] < 2\<close> VPN_less n2 show thesis
    proof (cases rule: next_table_cases)
      case oom: oom
      show thesis by (rule that(1)) (use oom w1 mp d1 in auto)
    next
      case d2: down
      have t0: "tree m2 r [VPN va 2, VPN va 1] = Some t0" using d2(3) by simp
      have wf2: "wf_forest L m2 R" using d2(2) by (rule grows_wf)
      have g2: "grows L R r m m2" using d1(2) d2(2) by (rule grows_trans)
      have same: "leaf_at m2 r' a b c = leaf_at m r' a b c"
        if "r' \<in> R" "a < 512" "b < 512" "c < 512" for r' a b c
        using d1(4) d2(4) that by simp
      have ok2: "leaf_ok L m2 R ?e" by (rule leaf_ok_grows [OF ok r g2]) (rule same [OF r])
      have m': "x = 0" "m' = store64 m2 (slot t0 (VPN va 0)) ?e" using w1 d2(1) mp by auto
      note lw = leaf_write [OF wf2 r t0 VPN_less [of va 0] ok2, folded m'(2)]
      show thesis
      proof (rule that(2))
        show "x = 0" by (rule m')
        show "grows L R r m m'" using g2 lw(1) by (rule grows_trans)
        show "tree m' r [VPN va 2, VPN va 1] \<noteq> None" using grows_tree [OF lw(1) t0] by simp
        fix r' a b c assume "r' \<in> R" "a < (512 :: nat)" "b < (512 :: nat)" "c < (512 :: nat)"
        then show "leaf_at m' r' a b c = (if r' = r \<and> [a, b, c] = vpath va then ?e else leaf_at m r' a b c)"
          using lw(2) same by simp
      qed
    qed
  qed
qed

section \<open>Unmapping\<close>

text \<open>Clearing a leaf and giving its frame back, at one address.\<close>

definition path_leaf :: "memory \<Rightarrow> u64 \<Rightarrow> u64 \<Rightarrow> u64" where
  "path_leaf m r va = leaf_at m r (VPN va 2) (VPN va 1) (VPN va 0)"

lemma unmap_page_cases:
  assumes wf: "wf_forest L m R" and r: "r \<in> R"
    and user: "has (path_leaf m r va) PTE_V \<Longrightarrow> user_frame (path_leaf m r va) \<noteq> None"
  obtains (skip) "\<not> has (path_leaf m r va) PTE_V" "unmap_page L r va m = m"
  | (unmap) n m' where "unmap_page L r va m = m'" "user_frame (path_leaf m r va) = Some n"
      "n \<in> used L m" "used L m' = used L m - {n}" "wf_forest L m' R"
      "\<And>r' p. r' \<in> R \<Longrightarrow> length p \<le> 2 \<Longrightarrow> tree m' r' p = tree m r' p"
      "\<And>r' a b c. r' \<in> R \<Longrightarrow> a < 512 \<Longrightarrow> b < 512 \<Longrightarrow> c < 512 \<Longrightarrow>
         leaf_at m' r' a b c = (if r' = r \<and> [a, b, c] = vpath va then 0 else leaf_at m r' a b c)"
      "same_except (insert (image_end L) (tables m r)) m m'"
proof (cases "has (path_leaf m r va) PTE_V")
  case False
  have "unmap_page L r va m = m"
  proof (cases "tree m r [VPN va 2, VPN va 1]")
    case None
    then show ?thesis by (simp add: unmap_page_def vmm_lookup_eq [OF wf r])
  next
    case (Some t)
    then show ?thesis using False
      by (simp add: unmap_page_def vmm_lookup_eq [OF wf r] path_leaf_def leaf_at_def Let_def)
  qed
  with False skip show thesis by blast
next
  case True
  then obtain t where t: "tree m r [VPN va 2, VPN va 1] = Some t"
    by (cases "tree m r [VPN va 2, VPN va 1]") (auto simp: path_leaf_def leaf_at_def has_def)
  let ?k = "VPN va 0"
  let ?e = "load64 m (slot t ?k)"
  have e: "path_leaf m r va = ?e" using t by (simp add: path_leaf_def leaf_at_def)
  obtain n where n: "user_frame ?e = Some n" using user True e by auto
  then have n_pa: "PTE_TO_PA ?e = n" by (simp add: user_frame_def split: if_splits)
  have t_al: "page_aligned t" using wf_page [OF wf r t] .
  have al: "page_aligned (image_end L)" using wf by (rule wf_aligned)
  have n_node: "tree m r (vpath va) = Some n"
    using n by (simp only: tree_leaf [OF VPN_less VPN_less VPN_less] path_leaf_def [symmetric] e)
  have "slot t ?k \<noteq> 0"
  proof
    assume "slot t ?k = 0"
    then have "page_base (slot t ?k) = 0" by simp
    then have "t = 0" using t_al by simp
    moreover have "t \<in> ram_frames" using wf_used [OF wf r t] used_subset by blast
    ultimately show False using frame_nonzero by blast
  qed
  then have up: "unmap_page L r va m = store64 (pmm_free_page L m n) (slot t ?k) 0"
    using t True e n_pa by (simp add: unmap_page_def vmm_lookup_eq [OF wf r] Let_def)
  let ?m1 = "pmm_free_page L m n" and ?m' = "unmap_page L r va m"
  have se1: "same_except {image_end L} m ?m1" by (rule same_except_free [OF al])
  have se2: "same_except {t} ?m1 ?m'" unfolding up by (rule same_except_store64_slot [OF t_al]) simp
  have "image_end L \<notin> {t}" using wf_not_bitmap [OF wf r t] by simp
  then have used': "used L ?m' = used L m - {n}" using used_same_except [OF se2 al] by simp
  have entry: "load64 ?m' (slot x c) = (if x = t \<and> c = ?k then 0 else load64 m (slot x c))"
    if "page_aligned x" "x \<noteq> image_end L" "c < 512" for x c
    unfolding up using load64_store64_slot [OF t_al that(1) VPN_less that(3)]
      load64_same_except [OF se1 that(1) _ that(3)] that(2) by auto
  have ew: "entry_written m R r [VPN va 2, VPN va 1] t ?k ?m'"
    unfolding entry_written_def
  proof (intro conjI ballI allI impI)
    fix r' p x c assume "r' \<in> R" "tree m r' p = Some x" "c < 512" "(x, c) \<noteq> (t, ?k)"
    then show "load64 ?m' (slot x c) = load64 m (slot x c)"
      using entry [OF wf_page [OF wf] wf_not_bitmap [OF wf]] by auto
  qed (use r t in auto)
  have gone: "child ?m' (2 - length [VPN va 2, VPN va 1]) t ?k = None"
    using entry [OF t_al wf_not_bitmap [OF wf r t] VPN_less] by simp
  have here: "child m (2 - length [VPN va 2, VPN va 1]) t ?k = Some n"
    using n by (simp add: child_0)
  have wf': "wf_forest L ?m' R"
    by (rule wf_entry_written [OF wf ew]) (use gone here used' in auto)
  note tree' = node_entry_written [OF wf ew]
  have short: "tree ?m' r' p = tree m r' p" if "r' \<in> R" "length p \<le> 2" for r' p
    using tree' [OF that(1), of p] that by auto
  show thesis
  proof (rule unmap [OF refl _ _ used' wf' short])
    show "user_frame (path_leaf m r va) = Some n" using n e by simp
    show "n \<in> used L m" using wf_used [OF wf r n_node] .
    have "t \<in> tables m r" using t by (auto simp: tables_def intro!: exI [of _ "[VPN va 2, VPN va 1]"])
    then show "same_except (insert (image_end L) (tables m r)) m ?m'"
      by (intro same_except_trans [OF se1 se2]) auto
    fix r' a b c assume r': "r' \<in> R" and abc: "a < (512 :: nat)" "b < (512 :: nat)" "c < (512 :: nat)"
    show "leaf_at ?m' r' a b c = (if r' = r \<and> [a, b, c] = vpath va then 0 else leaf_at m r' a b c)"
    proof (cases "tree m r' [a, b]")
      case None
      with short [OF r', of "[a, b]"] t show ?thesis by (auto simp: leaf_at_def)
    next
      case (Some x)
      then have "x = t \<longleftrightarrow> r' = r \<and> [a, b] = [VPN va 2, VPN va 1]"
        using wf_inj [OF wf r' r Some] t by auto
      then show ?thesis
        using entry [OF wf_page [OF wf r' Some] wf_not_bitmap [OF wf r' Some] abc(3)] Some
          short [OF r', of "[a, b]"] by (auto simp: leaf_at_def)
    qed
  qed
qed

text \<open>
  The range version. The condition says that what is mapped in the range is user memory, which
  is how the code calls it (the heap of a process).
\<close>

definition unmapped :: "layout \<Rightarrow> u64 set \<Rightarrow> u64 \<Rightarrow> u64 set \<Rightarrow> memory \<Rightarrow> memory \<Rightarrow> bool" where
  "unmapped L R r A m m' \<longleftrightarrow>
     wf_forest L m' R \<and>
     used L m' = used L m - {n. \<exists>a \<in> A. user_frame (path_leaf m r a) = Some n} \<and>
     (\<forall>r' \<in> R. \<forall>p. length p \<le> 2 \<longrightarrow> tree m' r' p = tree m r' p) \<and>
     (\<forall>r' \<in> R. \<forall>a b c. a < 512 \<longrightarrow> b < 512 \<longrightarrow> c < 512 \<longrightarrow> leaf_at m' r' a b c =
        (if r' = r \<and> [a, b, c] \<in> vpath ` A \<and> has (leaf_at m r' a b c) PTE_V then 0
         else leaf_at m r' a b c)) \<and>
     same_except (insert (image_end L) (tables m r)) m m'"

lemma unmapped_refl: "wf_forest L m R \<Longrightarrow> unmapped L R r {} m m"
  by (simp add: unmapped_def)

lemma unmappedD:
  assumes "unmapped L R r A m m'"
  shows "wf_forest L m' R"
    "used L m' = used L m - {n. \<exists>a \<in> A. user_frame (path_leaf m r a) = Some n}"
    "\<And>r' p. r' \<in> R \<Longrightarrow> length p \<le> 2 \<Longrightarrow> tree m' r' p = tree m r' p"
    "\<And>r' a b c. r' \<in> R \<Longrightarrow> a < 512 \<Longrightarrow> b < 512 \<Longrightarrow> c < 512 \<Longrightarrow> leaf_at m' r' a b c =
        (if r' = r \<and> [a, b, c] \<in> vpath ` A \<and> has (leaf_at m r' a b c) PTE_V then 0
         else leaf_at m r' a b c)"
    "same_except (insert (image_end L) (tables m r)) m m'"
  using assms unfolding unmapped_def by (elim conjE; simp)+

lemma unmapped_step:
  assumes u: "unmapped L R r A m m1" and r: "r \<in> R" and new: "vpath p \<notin> vpath ` A"
    and user: "has (path_leaf m r p) PTE_V \<Longrightarrow> user_frame (path_leaf m r p) \<noteq> None"
  shows "unmapped L R r (insert p A) m (unmap_page L r p m1)"
proof -
  note u1 = unmappedD [OF u]
  have same: "path_leaf m1 r p = path_leaf m r p"
    unfolding path_leaf_def using u1(4) [OF r VPN_less [of p 2] VPN_less [of p 1] VPN_less [of p 0]] new
    by (simp only: simp_thms if_False)
  have tabs: "tables m1 r = tables m r" unfolding tables_def using u1(3) [OF r] by auto
  show ?thesis
  proof (cases rule: unmap_page_cases [OF u1(1) r, of p, consumes 0, case_names user skip unmap])
    case user
    then show ?case using assms(4) same by simp
  next
    case skip
    have nv: "\<not> has (leaf_at m r (VPN p 2) (VPN p 1) (VPN p 0)) PTE_V"
      using skip(1) same by (simp add: path_leaf_def)
    then have "user_frame (path_leaf m r p) = None" by (simp add: user_frame_def path_leaf_def)
    moreover have "(if r' = r \<and> [a, b, c] \<in> vpath ` A \<and> has (leaf_at m r' a b c) PTE_V then 0 else leaf_at m r' a b c)
      = (if r' = r \<and> [a, b, c] \<in> vpath ` insert p A \<and> has (leaf_at m r' a b c) PTE_V then 0 else leaf_at m r' a b c)"
      for r' a b c using nv by auto
    ultimately show ?thesis using u1 unfolding skip(2) unmapped_def by auto
  next
    case (unmap n m')
    have "has (path_leaf m r p) PTE_V"
      using unmap(2) same by (simp add: user_frame_def split: if_splits)
    then have v: "has (leaf_at m r (VPN p 2) (VPN p 1) (VPN p 0)) PTE_V" by (simp only: path_leaf_def)
    have used': "used L m' = used L m - {n. \<exists>a \<in> insert p A. user_frame (path_leaf m r a) = Some n}"
      using unmap(2,4) u1(2) same by auto
    have leaf: "leaf_at m' r' a b c =
        (if r' = r \<and> [a, b, c] \<in> vpath ` insert p A \<and> has (leaf_at m r' a b c) PTE_V then 0
         else leaf_at m r' a b c)" if "r' \<in> R" "a < 512" "b < 512" "c < 512" for r' a b c
      using unmap(7) [OF that] u1(4) [OF that] v by auto
    have "same_except (insert (image_end L) (tables m r)) m m'"
      using u1(5) unmap(8) unfolding tabs by (rule same_except_trans) simp
    then show ?thesis
      unfolding unmapped_def unmap(1) using unmap(5,6) u1(3) used' leaf by simp
  qed
qed

lemma vpath_fresh:
  assumes "page_aligned a" "unat e \<le> 2 ^ 39" "p \<in> pages_in a e" "A \<subseteq> pages_in a p"
  shows "vpath p \<notin> vpath ` A"
proof
  have low: "unat b < 2 ^ 39" if "b < e" for b
    using that assms(2) by (simp add: word_less_nat_alt)
  assume "vpath p \<in> vpath ` A"
  then obtain b where b: "page_aligned b" "b < p" "vpath p = vpath b"
    using assms(4) by (auto simp: pages_in_def)
  moreover have p: "page_aligned p" "p < e" using assms(3) by (simp_all add: pages_in_def)
  ultimately have "p = b" using VPN_inj [OF p(1) low [OF p(2)] b(1)] low [of b] by simp
  with b(2) show False by simp
qed

lemma vmm_unmap_range_eq:
  assumes wf: "wf_forest L m R" and r: "r \<in> R"
    and range: "page_aligned start" "unat stop_at \<le> 2 ^ 39"
    and user: "\<And>p. p \<in> pages_in start stop_at \<Longrightarrow> has (path_leaf m r p) PTE_V \<Longrightarrow>
      user_frame (path_leaf m r p) \<noteq> None"
  obtains m' where "vmm_unmap_range L m r start stop_at = Inr m'"
    "unmapped L R r (pages_in start stop_at) m m'"
proof -
  have "case vmm_unmap_range L m r start stop_at of Inl x \<Rightarrow> False
      | Inr m' \<Rightarrow> unmapped L R r (pages_in start stop_at) m m'"
    unfolding vmm_unmap_range_def
  proof (rule for_pages_set [OF range])
    show "unmapped L R r {} m m" by (rule unmapped_refl [OF wf])
  next
    fix A p m1 m2
    assume u: "unmapped L R r A m m1" and p: "p \<in> pages_in start stop_at" and A: "A \<subseteq> pages_in start p"
      and "Inr (unmap_page L r p m1) = (Inr m2 :: stop + memory)"
    then have "m2 = unmap_page L r p m1" by simp
    then show "unmapped L R r (insert p A) m m2"
      using unmapped_step [OF u r vpath_fresh [OF range p A]] user [OF p] by blast
  qed simp
  then show thesis using that by (auto split: sum.splits)
qed

section \<open>A fresh frame\<close>

text \<open>
  Every user page comes into being the same way: a frame is allocated, filled, and then
  hooked in by a leaf write. Allocating and filling it changes no address space.
\<close>

lemma fresh_frame:
  assumes wf: "wf_forest L m R" and al: "pmm_alloc_page L m = (n, m1)" and n0: "n \<noteq> 0"
    and fill: "same_except {n} m1 m2"
  shows "wf_forest L m2 R" "used L m2 = insert n (used L m)" "n \<in> ram_frames - used L m"
    "image_end L < n" "same_except {image_end L, n} m m2"
    "\<And>r p. r \<in> R \<Longrightarrow> tree m2 r p = tree m r p"
    "\<And>r p. r \<in> R \<Longrightarrow> tree m r p \<noteq> Some n"
    "\<And>r i j k. r \<in> R \<Longrightarrow> k < 512 \<Longrightarrow> leaf_at m2 r i j k = leaf_at m r i j k"
proof -
  note fresh = pmm.al_page [OF al n0]
  have end_al: "page_aligned (image_end L)" using wf by (rule wf_aligned)
  have n_al: "page_aligned n" using fresh frame_aligned by blast
  show n_free: "n \<in> ram_frames - used L m" using fresh by blast
  show above: "image_end L < n"
  proof (rule ccontr)
    assume "\<not> image_end L < n"
    then have "n \<in> used L m" using wf_reserved [OF wf] fresh by auto
    then show False using fresh by blast
  qed
  then have "image_end L \<notin> {n}" by simp
  then show used': "used L m2 = insert n (used L m)"
    using used_same_except [OF fill end_al] fresh by blast
  show se: "same_except {image_end L, n} m m2"
    using same_except_alloc [OF end_al al] fill by (rule same_except_trans) auto
  show new: "tree m r p \<noteq> Some n" if "r \<in> R" for r p
    using wf_used [OF wf that] n_free by blast
  have entry: "load64 m2 (slot t i) = load64 m (slot t i)"
    if "r \<in> R" "tree m r p = Some t" "i < 512" for r p t i
    using wf_page [OF wf that(1,2)] wf_not_bitmap [OF wf that(1,2)] new [OF that(1)] that
    by (intro load64_same_except [OF se]) auto
  show same: "tree m2 r p = tree m r p" if r: "r \<in> R" for r p
  proof (rule node_same_except [OF wf r se])
    show "tables m r \<inter> {image_end L, n} = {}"
      using wf_not_bitmap [OF wf r] new [OF r] by (auto simp: tables_def)
  qed
  show "leaf_at m2 r i j k = leaf_at m r i j k" if "r \<in> R" "k < 512" for r i j k
  proof (cases "tree m r [i, j]")
    case (Some t)
    then show ?thesis using same [OF that(1), of "[i, j]"] entry [OF that(1) Some that(2)]
      by (simp add: leaf_at_def)
  next
    case None
    then show ?thesis using same [OF that(1), of "[i, j]"] by (simp add: leaf_at_def)
  qed
  show "wf_forest L m2 R"
    unfolding wf_forest_def
  proof (intro conjI ballI allI impI)
    show "page_aligned (image_end L)" by (rule end_al)
    show "{p \<in> ram_frames. p \<le> image_end L} \<subseteq> used L m2" using wf_reserved [OF wf] used' by blast
    fix r p t assume r: "r \<in> R" and t: "tree m2 r p = Some t"
    then have old: "tree m r p = Some t" using same by simp
    show "t \<in> used L m2" using wf_used [OF wf r old] used' by blast
    show "image_end L < t" using wf_above [OF wf r old] .
    show "r = r'" "p = p'" if "r' \<in> R" "tree m2 r' p' = Some t" for r' p'
      using wf_inj [OF wf r _ old, of r' p'] that same by auto
    show "\<not> is_leaf (load64 m2 (slot t i))"
      if "length p < 2" "i < 512" "has (load64 m2 (slot t i)) PTE_V" for i
      using wf_inner [OF wf r old that(1,2)] that(3) entry [OF r old that(2)] by simp
  qed
qed

lemma fresh_leaf_ok:
  assumes "wf_forest L m R" "pmm_alloc_page L m = (n, m1)" "n \<noteq> 0" "same_except {n} m1 m2"
    and "\<And>k. user_frame e = Some k \<Longrightarrow> k = n"
  shows "leaf_ok L m2 R e"
  using fresh_frame [OF assms(1-4)] assms(5) by (auto simp: leaf_ok_def)

text \<open>A zeroed fresh frame is the root of an empty tree.\<close>

lemma new_root:
  assumes wf: "wf_forest L m R" and al: "pmm_alloc_page L m = (n, m1)" and n0: "n \<noteq> 0"
    and fill: "same_except {n} m1 m2" and zero: "\<And>i. i < 512 \<Longrightarrow> load64 m2 (slot n i) = 0"
  shows "wf_forest L m2 (insert n R)" "tree m2 n p = (if p = [] then Some n else None)" "n \<notin> R"
proof -
  note f = fresh_frame [OF assms(1-4)]
  show empty: "tree m2 n p = (if p = [] then Some n else None)" for p
  proof (cases p)
    case (Cons i q)
    then show ?thesis using zero [of i] node.simps(3) [of m2 2 n i q] by simp
  qed simp
  show "n \<notin> R" using f(7) [of n "[]"] by auto
  have no: "tree m2 r p \<noteq> Some n" if "r \<in> R" for r p using f(6,7) that by simp
  show "wf_forest L m2 (insert n R)"
    unfolding wf_forest_def
  proof (intro conjI ballI allI impI)
    show "page_aligned (image_end L)" "{p \<in> ram_frames. p \<le> image_end L} \<subseteq> used L m2"
      using wf_aligned [OF f(1)] wf_reserved [OF f(1)] by blast+
    fix r p t assume r: "r \<in> insert n R" and t: "tree m2 r p = Some t"
    have c: "r = n \<and> p = [] \<and> t = n \<or> r \<in> R \<and> r \<noteq> n \<and> t \<noteq> n"
      using r t empty no [of r p] \<open>n \<notin> R\<close> by (cases "r = n") (auto split: if_splits)
    show "t \<in> used L m2" using c t f(2) wf_used [OF f(1)] by blast
    show "image_end L < t" using c t f(4) wf_above [OF f(1)] by blast
    show "r = r'" "p = p'" if "r' \<in> insert n R" "tree m2 r' p' = Some t" for r' p'
      using c that empty [of p'] no wf_inj [OF f(1), of r r' p t p'] t by (auto split: if_splits)
    show "\<not> is_leaf (load64 m2 (slot t i))"
      if "length p < 2" "i < 512" "has (load64 m2 (slot t i)) PTE_V" for i
      using c that zero [of i] wf_inner [OF f(1) _ t that] by (auto simp: has_def)
  qed
qed

lemma wf_init: "layout_ok L \<Longrightarrow> wf_forest L (init_pmm L m) {}"
  using used_init_pmm [of L m] layout_okD(1) [of L] by (simp add: wf_forest_def)

section \<open>A concrete address space\<close>

text \<open>The state after boot with one empty page table, used to evaluate the properties.\<close>

definition sample_boot :: "u64 \<times> memory" where
  "sample_boot = pmm_alloc_page sample_layout (init_pmm sample_layout (\<lambda>_. 0))"

definition sample_root :: u64 where
  "sample_root = fst sample_boot"

definition sample_memory :: memory where
  "sample_memory = memset (snd sample_boot) sample_root 0 4096"

lemma sample_wf:
  shows "wf_forest sample_layout sample_memory {sample_root}"
    "tree sample_memory sample_root p = (if p = [] then Some sample_root else None)"
    "0x87FFF000 \<in> ram_frames - used sample_layout sample_memory"
    "image_end sample_layout = 0x80216000"
proof -
  let ?m = "init_pmm sample_layout (\<lambda>_. 0)"
  have init: "wf_forest sample_layout ?m {}" by (rule wf_init [OF sample_layout_ok])
  show end_at: "image_end sample_layout = 0x80216000" by (simp add: sample_layout_def)
  have frames: "0x87FFF000 \<in> ram_frames" "0x80217000 \<in> ram_frames"
    by (simp_all add: ram_frames_iff page_aligned_def)
  then have free: "0x87FFF000 \<notin> used sample_layout ?m" "0x80217000 \<notin> used sample_layout ?m"
    using used_init_pmm [OF sample_layout_ok] end_at by simp_all
  obtain r m1 where al: "pmm_alloc_page sample_layout ?m = (r, m1)" by fastforce
  then have s: "sample_root = r" "sample_memory = memset m1 r 0 4096"
    by (simp_all add: sample_root_def sample_memory_def sample_boot_def)
  from al have r: "r \<noteq> 0 \<and> used sample_layout m1 = insert r (used sample_layout ?m) \<and> r \<le> 0x80217000
      \<and> r \<in> ram_frames"
  proof (cases rule: pmm_alloc_cases)
    case null
    then show ?thesis using free frames by simp
  next
    case (page j)
    then show ?thesis using free frames frame_nonzero by blast
  qed
  then have r_al: "page_aligned r" using frame_aligned by blast
  have fill: "same_except {r} m1 sample_memory" unfolding s by (rule same_except_memset [OF r_al]) simp
  have zero: "load64 sample_memory (slot r i) = 0" if "i < 512" for i
    unfolding s using r_al that by simp
  have r0: "r \<noteq> 0" using r by blast
  note root = new_root [OF init al r0 fill zero]
  show "wf_forest sample_layout sample_memory {sample_root}" using root(1) s(1) by simp
  show "tree sample_memory sample_root p = (if p = [] then Some sample_root else None)"
    using root(2) [of p] s(1) by simp
  have "used sample_layout sample_memory = insert r (used sample_layout ?m)"
    using fresh_frame(2) [OF init al r0 fill] .
  moreover have "r \<noteq> 0x87FFF000" using r by auto
  ultimately show "0x87FFF000 \<in> ram_frames - used sample_layout sample_memory" using frames free by simp
qed

section \<open>Properties\<close>

text \<open>
  C21: \<open>map_page\<close> on a well-formed set of address spaces, for an entry that gives the user
  program no frame that is already in use: it returns 0 or -1, and -1 only when every frame
  is in use. On success \<open>vmm_lookup\<close> finds exactly the new entry; in every address space
  every other entry is as before; on failure all of them are. Only the bitmap and tables of
  this address space are written, and the forest stays well formed.
\<close>
theorem map_page_spec:
  assumes "wf_forest L m R" "r \<in> R" "leaf_ok L m R (PA_TO_PTE pa OR flags OR PTE_V)"
    and "map_page L m r va pa flags = (x, m')"
  shows "wf_forest L m' R \<and> same_except (insert (image_end L) (tables m' r)) m m' \<and>
    (x = 0 \<or> x = -1 \<and> used L m' = ram_frames) \<and>
    (x = 0 \<longrightarrow> vmm_lookup m' r va \<noteq> 0 \<and>
       load64 m' (vmm_lookup m' r va) = PA_TO_PTE pa OR flags OR PTE_V) \<and>
    (\<forall>r' \<in> R. \<forall>a b c. a < 512 \<longrightarrow> b < 512 \<longrightarrow> c < 512 \<longrightarrow> \<not> (x = 0 \<and> r' = r \<and> [a, b, c] = vpath va) \<longrightarrow>
       leaf_at m' r' a b c = leaf_at m r' a b c)"
  using assms
proof (cases rule: map_page_cases)
  case oom
  then show ?thesis using growsD(1,8) [OF oom(2)] by simp
next
  case mapped
  note wf' = growsD(1) [OF mapped(2)]
  obtain t where t: "tree m' r [VPN va 2, VPN va 1] = Some t" using mapped(3) by blast
  have look: "vmm_lookup m' r va = slot t (VPN va 0)"
    unfolding vmm_lookup_eq [OF wf' assms(2)] using t by simp
  have "load64 m' (slot t (VPN va 0)) = leaf_at m' r (VPN va 2) (VPN va 1) (VPN va 0)"
    using t by (simp only: leaf_at_Some)
  also have "\<dots> = PA_TO_PTE pa OR flags OR PTE_V"
    using mapped(4) [OF assms(2) VPN_less VPN_less VPN_less] by simp
  finally have "load64 m' (vmm_lookup m' r va) = PA_TO_PTE pa OR flags OR PTE_V" unfolding look .
  moreover have "vmm_lookup m' r va \<noteq> 0"
  proof
    assume "vmm_lookup m' r va = 0"
    then have "page_base (slot t (VPN va 0)) = 0" unfolding look by simp
    then have "t = 0" using wf_page [OF wf' assms(2) t] by simp
    then show False using wf_used [OF wf' assms(2) t] used_subset frame_nonzero by blast
  qed
  ultimately show ?thesis using mapped growsD(1,8) [OF mapped(2)] by simp
qed

lemma map_page_spec_witness:
  "let (x, m') = map_page sample_layout sample_memory sample_root 0x10000000 0x10000000 (PTE_R OR PTE_W) in
     wf_forest sample_layout m' {sample_root} \<and> (x = 0 \<or> x = -1)"
proof -
  obtain x m' where mp: "map_page sample_layout sample_memory sample_root 0x10000000 0x10000000
      (PTE_R OR PTE_W) = (x, m')" by fastforce
  have "leaf_ok sample_layout sample_memory {sample_root} (PA_TO_PTE 0x10000000 OR (PTE_R OR PTE_W) OR PTE_V)"
    by (simp add: leaf_ok_def user_frame_def has_def PA_TO_PTE_def PTE_R_def PTE_W_def PTE_V_def PTE_U_def)
  from map_page_spec [OF sample_wf(1) _ this mp] mp show ?thesis by auto
qed

lemma sample_leaf: "leaf_at sample_memory sample_root i j k = 0"
  using sample_wf(2) [of "[i, j]"] by (simp add: leaf_at_def)

text \<open>
  C22: \<open>vmm_unmap_range\<close> over a page range that maps nothing but user pages always returns;
  afterwards no page of the range is mapped, exactly the frames that were mapped there are
  free again, and every other entry of every address space is as before.
\<close>
theorem vmm_unmap_range_spec:
  assumes "wf_forest L m R" "r \<in> R" "page_aligned start" "unat stop_at \<le> 2 ^ 39"
    and "\<forall>p \<in> pages_in start stop_at. has (path_leaf m r p) PTE_V \<longrightarrow> user_frame (path_leaf m r p) \<noteq> None"
  shows "\<exists>m'. vmm_unmap_range L m r start stop_at = Inr m' \<and> wf_forest L m' R \<and>
    used L m' = used L m - {n. \<exists>p \<in> pages_in start stop_at. user_frame (path_leaf m r p) = Some n} \<and>
    (\<forall>p \<in> pages_in start stop_at. \<not> has (path_leaf m' r p) PTE_V) \<and>
    (\<forall>r' \<in> R. \<forall>a b c. a < 512 \<longrightarrow> b < 512 \<longrightarrow> c < 512 \<longrightarrow>
       \<not> (r' = r \<and> [a, b, c] \<in> vpath ` pages_in start stop_at) \<longrightarrow>
       leaf_at m' r' a b c = leaf_at m r' a b c)"
proof -
  obtain m' where run: "vmm_unmap_range L m r start stop_at = Inr m'"
    and u: "unmapped L R r (pages_in start stop_at) m m'"
    by (rule vmm_unmap_range_eq [OF assms(1-4)]) (use assms(5) in blast)
  note u = unmappedD [OF u]
  have "\<not> has (path_leaf m' r p) PTE_V" if p: "p \<in> pages_in start stop_at" for p
  proof -
    have "vpath p \<in> vpath ` pages_in start stop_at" using p by (rule imageI)
    then have "path_leaf m' r p = (if has (path_leaf m r p) PTE_V then 0 else path_leaf m r p)"
      unfolding path_leaf_def using u(4) [OF assms(2) VPN_less VPN_less VPN_less] by simp
    then show ?thesis by (simp add: has_def)
  qed
  moreover have "leaf_at m' r' a b c = leaf_at m r' a b c"
    if "r' \<in> R" "a < 512" "b < 512" "c < 512" "\<not> (r' = r \<and> [a, b, c] \<in> vpath ` pages_in start stop_at)"
    for r' a b c
    unfolding u(4) [OF that(1-4)] using that(5) by (simp only: if_False simp_thms split: if_split) blast
  ultimately show ?thesis using run u(1,2) by blast
qed

lemma vmm_unmap_range_spec_witness:
  "\<exists>m'. vmm_unmap_range sample_layout sample_memory sample_root 0x1000 0x4000 = Inr m' \<and>
     wf_forest sample_layout m' {sample_root}"
proof -
  have "page_aligned (0x1000 :: u64)" by (simp add: page_aligned_def)
  moreover have "path_leaf sample_memory sample_root p = 0" for p
    by (simp add: path_leaf_def sample_leaf)
  ultimately show ?thesis
    using vmm_unmap_range_spec [OF sample_wf(1), of sample_root "0x1000" "0x4000"]
    by (auto simp: has_def)
qed

end
