(* ===== verification/Page_Extend.thy ===== *)
theory Page_Extend
  imports Page_Map
begin

text \<open>
  Steps that add pages to one address space. \<open>extends L R r m m'\<close> is the frame condition every
  growing operation obeys (heap growth, ELF loading, fork): all trees stay where they were,
  the trees of the other roots are untouched, and the only memory written is the bitmap, the
  tables of \<open>r\<close>, and frames that were free before.
\<close>

definition extends :: "layout \<Rightarrow> u64 set \<Rightarrow> u64 \<Rightarrow> memory \<Rightarrow> memory \<Rightarrow> bool" where
  "extends L R r m m' \<longleftrightarrow>
     wf_forest L m' R \<and> used L m \<subseteq> used L m' \<and>
     tables m r \<subseteq> tables m' r \<and> tables m' r \<inter> used L m \<subseteq> tables m r \<and>
     (\<forall>p t. tree m r p = Some t \<longrightarrow> length p \<le> 2 \<longrightarrow> tree m' r p = Some t) \<and>
     (\<forall>r' \<in> R - {r}. \<forall>p. tree m' r' p = tree m r' p) \<and>
     same_except (insert (image_end L) (tables m' r \<union> (ram_frames - used L m))) m m'"

lemma extendsD:
  assumes "extends L R r m m'"
  shows "wf_forest L m' R" "used L m \<subseteq> used L m'"
    "tables m r \<subseteq> tables m' r" "tables m' r \<inter> used L m \<subseteq> tables m r"
    "\<And>p t. tree m r p = Some t \<Longrightarrow> length p \<le> 2 \<Longrightarrow> tree m' r p = Some t"
    "\<And>r' p. r' \<in> R \<Longrightarrow> r' \<noteq> r \<Longrightarrow> tree m' r' p = tree m r' p"
    "same_except (insert (image_end L) (tables m' r \<union> (ram_frames - used L m))) m m'"
  using assms unfolding extends_def by (elim conjE; simp)+

lemma extends_refl: "wf_forest L m R \<Longrightarrow> extends L R r m m"
  by (simp add: extends_def)

lemma grows_extends: "grows L R r m m' \<Longrightarrow> extends L R r m m'"
proof -
  assume "grows L R r m m'"
  note g = growsD [OF this]
  have "same_except (insert (image_end L) (tables m' r \<union> (ram_frames - used L m))) m m'"
    using g(8) by (rule same_except_mono) blast
  then show ?thesis unfolding extends_def using g by blast
qed

lemma extends_trans:
  assumes "extends L R r m m'" "extends L R r m' m''"
  shows "extends L R r m m''"
proof -
  note a = extendsD [OF assms(1)] and b = extendsD [OF assms(2)]
  have "same_except (insert (image_end L) (tables m'' r \<union> (ram_frames - used L m))) m m''"
    using a(7) b(7) by (rule same_except_trans) (use a(2) b(2,3) in blast)
  moreover have "\<forall>p t. tree m r p = Some t \<longrightarrow> length p \<le> 2 \<longrightarrow> tree m'' r p = Some t"
    using a(5) b(5) by blast
  moreover have "\<forall>r' \<in> R - {r}. \<forall>p. tree m'' r' p = tree m r' p" using a(6) b(6) by simp
  moreover have "tables m'' r \<inter> used L m \<subseteq> tables m r" using a(2,4) b(4) by blast
  ultimately show ?thesis unfolding extends_def using a(2,3) b(1,2,3) by blast
qed

lemma fresh_extends:
  assumes "wf_forest L m R" "pmm_alloc_page L m = (n, m1)" "n \<noteq> 0" "same_except {n} m1 m2" "r \<in> R"
  shows "extends L R r m m2"
proof -
  note f = fresh_frame [OF assms(1-4)]
  have "tables m2 r = tables m r" using f(6) assms(5) by (simp add: tables_def)
  moreover have "same_except (insert (image_end L) (tables m2 r \<union> (ram_frames - used L m))) m m2"
    using f(3) by (intro same_except_mono [OF f(5)]) auto
  ultimately show ?thesis unfolding extends_def using f assms(5) by auto
qed

text \<open>Memory that belongs to someone: allocated, not the bitmap, not a table of \<open>r\<close>.\<close>

lemma extends_frame:
  assumes x: "extends L R r m m'" and b: "page_base b \<in> used L m" "page_base b \<noteq> image_end L"
    "page_base b \<notin> tables m r"
  shows "m' b = m b"
  by (rule same_exceptD [OF extendsD(7) [OF x]]) (use extendsD(4) [OF x] b in auto)

lemma extends_other_node:
  assumes wf: "wf_forest L m R" and x: "extends L R r m m'" and r: "r \<in> R" "r' \<in> R" "r' \<noteq> r"
    and t: "tree m r' p = Some t" and b: "page_base b = t"
  shows "m' b = m b"
proof (rule extends_frame [OF x])
  show "page_base b \<in> used L m" "page_base b \<noteq> image_end L"
    using wf_used [OF wf r(2) t] wf_not_bitmap [OF wf r(2) t] b by auto
  show "page_base b \<notin> tables m r"
    using wf_inj [OF wf r(2) r(1) t] r(3) b by (auto simp: tables_def)
qed

lemma extends_other_leaf:
  assumes wf: "wf_forest L m R" and x: "extends L R r m m'" and r: "r \<in> R" "r' \<in> R" "r' \<noteq> r"
    and k: "k < 512"
  shows "leaf_at m' r' i j k = leaf_at m r' i j k"
proof (cases "tree m r' [i, j]")
  case None
  then show ?thesis using extendsD(6) [OF x r(2,3), of "[i, j]"] by (simp add: leaf_at_def)
next
  case (Some t)
  have t_al: "page_aligned t" using wf_page [OF wf r(2) Some] .
  have "load64 m' (slot t k) = load64 m (slot t k)"
  proof (rule load_le_cong)
    fix l :: nat assume "l < 8"
    then have "page_base (slot t k + of_nat l) = t"
      unfolding slot_byte using t_al k by (intro page_base_add) simp_all
    then show "m' (slot t k + of_nat l) = m (slot t k + of_nat l)"
      by (rule extends_other_node [OF wf x r Some])
  qed
  then show ?thesis using Some extendsD(6) [OF x r(2,3), of "[i, j]"] by (simp add: leaf_at_def)
qed

text \<open>A user frame of \<open>r\<close> itself also keeps its contents.\<close>

lemma extends_own_frame:
  assumes wf: "wf_forest L m R" and x: "extends L R r m m'" and r: "r \<in> R"
    and t: "tree m r [i, j, k] = Some f" and b: "page_base b = f"
  shows "m' b = m b"
proof (rule extends_frame [OF x])
  show "page_base b \<in> used L m" "page_base b \<noteq> image_end L"
    using wf_used [OF wf r t] wf_not_bitmap [OF wf r t] b by auto
  have "p = [i, j, k]" if "tree m r p = Some f" for p using wf_inj [OF wf r r that t] by simp
  then have "\<not> (length p \<le> 2 \<and> tree m r p = Some f)" for p by fastforce
  then show "page_base b \<notin> tables m r" using b by (simp add: tables_def)
qed

end
