(* ===== verification/Kernel_Map.thy ===== *)
theory Kernel_Map
  imports Page_Map
begin

text \<open>
  The kernel half of every address space, as \<open>vmm_map_kernel\<close> builds it: an identity map of
  the image, of the rest of RAM and of the two device windows, each with its own permissions.
\<close>

section \<open>Mapping a set of pages\<close>

text \<open>From \<open>m\<close> to \<open>m'\<close> exactly the pages \<open>A\<close> of \<open>r\<close> got the entries \<open>g\<close>.\<close>

definition mapped :: "layout \<Rightarrow> u64 set \<Rightarrow> u64 \<Rightarrow> u64 set \<Rightarrow> (u64 \<Rightarrow> u64) \<Rightarrow> memory \<Rightarrow> memory \<Rightarrow> bool" where
  "mapped L R r A g m m' \<longleftrightarrow>
     grows L R r m m' \<and> (\<forall>p \<in> A. path_leaf m' r p = g p) \<and>
     (\<forall>r' \<in> R. \<forall>a b c. a < 512 \<longrightarrow> b < 512 \<longrightarrow> c < 512 \<longrightarrow> \<not> (r' = r \<and> [a, b, c] \<in> vpath ` A) \<longrightarrow>
        leaf_at m' r' a b c = leaf_at m r' a b c)"

lemma mapped_refl: "wf_forest L m R \<Longrightarrow> mapped L R r {} g m m"
  by (simp add: mapped_def grows_refl)

lemma mappedD:
  assumes "mapped L R r A g m m'"
  shows "grows L R r m m'" "\<And>p. p \<in> A \<Longrightarrow> path_leaf m' r p = g p"
    "\<And>r' a b c. r' \<in> R \<Longrightarrow> a < 512 \<Longrightarrow> b < 512 \<Longrightarrow> c < 512 \<Longrightarrow> \<not> (r' = r \<and> [a, b, c] \<in> vpath ` A) \<Longrightarrow>
       leaf_at m' r' a b c = leaf_at m r' a b c"
  using assms unfolding mapped_def by blast+

lemma mapped_trans:
  assumes a: "mapped L R r A g m m1" and b: "mapped L R r B g m1 m2" and r: "r \<in> R"
    and same: "\<And>x y. x \<in> A \<Longrightarrow> y \<in> B \<Longrightarrow> vpath x = vpath y \<Longrightarrow> x = y"
  shows "mapped L R r (A \<union> B) g m m2"
  unfolding mapped_def
proof (intro conjI ballI allI impI)
  show "grows L R r m m2" using mappedD(1) [OF a] mappedD(1) [OF b] by (rule grows_trans)
next
  fix p assume "p \<in> A \<union> B"
  then consider "p \<in> B" | "p \<in> A" "p \<notin> B" by blast
  then show "path_leaf m2 r p = g p"
  proof cases
    case 2
    then have "vpath p \<notin> vpath ` B" using same by blast
    then have "path_leaf m2 r p = path_leaf m1 r p"
      unfolding path_leaf_def using mappedD(3) [OF b r VPN_less VPN_less VPN_less] by blast
    with 2 show ?thesis using mappedD(2) [OF a] by simp
  qed (rule mappedD(2) [OF b])
next
  fix r' a' b' c' assume r': "r' \<in> R" and i: "a' < (512 :: nat)" "b' < (512 :: nat)" "c' < (512 :: nat)"
    and out: "\<not> (r' = r \<and> [a', b', c'] \<in> vpath ` (A \<union> B))"
  then show "leaf_at m2 r' a' b' c' = leaf_at m r' a' b' c'"
  proof -
    have "leaf_at m2 r' a' b' c' = leaf_at m1 r' a' b' c'"
      by (rule mappedD(3) [OF b r' i]) (use out in blast)
    also have "\<dots> = leaf_at m r' a' b' c'"
      by (rule mappedD(3) [OF a r' i]) (use out in blast)
    finally show ?thesis .
  qed
qed

text \<open>A successful \<open>map_page\<close> of an entry that is no user frame, or of a fresh one.\<close>

lemma map_page_mapped:
  assumes wf: "wf_forest L m R" and r: "r \<in> R"
    and ok: "leaf_ok L m R (PA_TO_PTE pa OR flags OR PTE_V)"
    and mp: "map_page L m r va pa flags = (x, m')" and g: "g va = PA_TO_PTE pa OR flags OR PTE_V"
  shows "x = -1 \<and> mapped L R r {} g m m' \<and> used L m' = ram_frames \<or> x = 0 \<and> mapped L R r {va} g m m'"
  using wf r ok mp
proof (cases rule: map_page_cases)
  case oom
  then show ?thesis by (simp add: mapped_def)
next
  case mapped
  have "path_leaf m' r va = g va"
    unfolding path_leaf_def using mapped(4) [OF r VPN_less VPN_less VPN_less] g by simp
  with mapped show ?thesis by (simp add: mapped_def)
qed

section \<open>The kernel's ranges\<close>

definition kernel_entry :: "u64 \<Rightarrow> u64 \<Rightarrow> u64" where
  "kernel_entry flags p = PA_TO_PTE p OR flags OR PTE_V"

definition kernel_flags :: "layout \<Rightarrow> u64 \<Rightarrow> u64" where
  "kernel_flags L p =
     (case find (\<lambda>(s, e, f). s \<le> p \<and> p < e) (kernel_ranges L) of
        None \<Rightarrow> 0 | Some (s, e, f) \<Rightarrow> f)"

definition kernel_pages :: "layout \<Rightarrow> u64 set" where
  "kernel_pages L = (\<Union>(s, e, f) \<in> set (kernel_ranges L). pages_in s e)"

lemma kernel_flag_cases:
  "(s, e, f) \<in> set (kernel_ranges L) \<Longrightarrow> f = PTE_R OR PTE_X \<or> f = PTE_R \<or> f = PTE_R OR PTE_W"
  by (auto simp: kernel_ranges_def)

lemma bit_flags:
  "bit PTE_V k \<longleftrightarrow> k = 0" "bit PTE_R k \<longleftrightarrow> k = 1" "bit PTE_W k \<longleftrightarrow> k = 2"
  "bit PTE_X k \<longleftrightarrow> k = 3" "bit PTE_U k \<longleftrightarrow> k = 4"
proof -
  have "bit ((2 :: u64) ^ n) k \<longleftrightarrow> k = n" if "n < 64" for n
    using that by (auto simp: bit_exp_iff)
  from this [of 0] this [of 1] this [of 2] this [of 3] this [of 4]
  show "bit PTE_V k \<longleftrightarrow> k = 0" "bit PTE_R k \<longleftrightarrow> k = 1" "bit PTE_W k \<longleftrightarrow> k = 2"
    "bit PTE_X k \<longleftrightarrow> k = 3" "bit PTE_U k \<longleftrightarrow> k = 4"
    by (simp_all add: PTE_V_def PTE_R_def PTE_W_def PTE_X_def PTE_U_def)
qed

text \<open>What the flags of an entry built by \<open>map_page\<close> are.\<close>

lemma has_entry:
  assumes "flag_word f"
  shows "has (PA_TO_PTE pa OR f OR PTE_V) PTE_V"
    "has (PA_TO_PTE pa OR f OR PTE_V) PTE_R = has f PTE_R"
    "has (PA_TO_PTE pa OR f OR PTE_V) PTE_W = has f PTE_W"
    "has (PA_TO_PTE pa OR f OR PTE_V) PTE_X = has f PTE_X"
    "has (PA_TO_PTE pa OR f OR PTE_V) PTE_U = has f PTE_U"
  by (simp_all add: has_flags bit_or_iff bit_PA_TO_PTE bit_flags)

lemma PTE_TO_PA_map:
  assumes "page_aligned pa" "flag_word f"
  shows "PTE_TO_PA (PA_TO_PTE pa OR f OR PTE_V) = pa"
proof (rule PTE_TO_PA_entry [OF assms(1), of "f OR PTE_V"])
  show "flag_word (f OR PTE_V)" using assms(2) by (auto simp: flag_word_def bit_or_iff bit_flags)
qed

lemma flag_word_kernel: "(s, e, f) \<in> set (kernel_ranges L) \<Longrightarrow> flag_word f"
  using kernel_flag_cases [of s e f L] by (auto simp: flag_word_def bit_or_iff bit_flags)

lemma has_kernel:
  assumes "(s, e, f) \<in> set (kernel_ranges L)"
  shows "\<not> has f PTE_U" "\<not> (has f PTE_W \<and> has f PTE_X)" "has f PTE_R"
  using kernel_flag_cases [OF assms] by (auto simp: has_flags bit_or_iff bit_flags)

lemma kernel_leaf_ok:
  assumes "(s, e, f) \<in> set (kernel_ranges L')"
  shows "leaf_ok L m R (kernel_entry f p)"
  using has_entry(5) [OF flag_word_kernel [OF assms], of p] has_kernel(1) [OF assms]
  by (simp add: leaf_ok_def user_frame_def kernel_entry_def)

text \<open>The ranges start at pages, lie below the Sv39 limit and are disjoint.\<close>

lemma kernel_ranges_low:
  assumes L: "layout_ok L" and x: "(s, e, f) \<in> set (kernel_ranges L)"
  shows "page_aligned s" "unat e \<le> 2 ^ 39"
proof -
  note b = layout_okD [OF L]
  have le: "text_start L \<le> text_end L" "text_end L \<le> rodata_start L" "rodata_start L \<le> rodata_end L"
    "rodata_end L \<le> image_end L" "text_start L = 0x80200000"
    "page_aligned (rodata_start L)" "page_aligned (rodata_end L)"
    using L by (auto simp: layout_ok_def)
  then have "unat (text_end L) \<le> unat (image_end L)" "unat (rodata_end L) \<le> unat (image_end L)"
    by (simp_all add: word_le_nat_alt)
  then have up: "unat (text_end L) \<le> 2 ^ 39" "unat (rodata_end L) \<le> 2 ^ 39" "unat (image_end L) \<le> 2 ^ 39"
    using b(3) by simp_all
  have const: "page_aligned (0x80200000 :: u64)" "page_aligned UART0_BASE" "page_aligned PLIC_BASE"
    by (simp_all add: page_aligned_def)
  show "page_aligned s" using x le b const by (auto simp: kernel_ranges_def)
  show "unat e \<le> 2 ^ 39" using x up by (auto simp: kernel_ranges_def)
qed

text \<open>The ranges in address order; consecutive ones do not overlap.\<close>

lemma kernel_flags_range:
  assumes L: "layout_ok L" and x: "(s, e, f) \<in> set (kernel_ranges L)" and p: "s \<le> p" "p < e"
  shows "kernel_flags L p = f"
proof -
  have le: "unat (text_end L) \<le> unat (rodata_start L)" "unat (rodata_start L) \<le> unat (rodata_end L)"
    "unat (rodata_end L) \<le> unat (image_end L)" "text_start L = 0x80200000"
    "0x80200000 \<le> unat (rodata_start L)"
    using L by (auto simp: layout_ok_def word_le_nat_alt)
  note alts = word_le_nat_alt word_less_nat_alt kernel_flags_def kernel_ranges_def
  consider "(s, e, f) = (text_start L, text_end L, PTE_R OR PTE_X)"
    | "(s, e, f) = (rodata_start L, rodata_end L, PTE_R)"
    | "(s, e, f) = (rodata_end L, image_end L, PTE_R OR PTE_W)"
    | "(s, e, f) = (image_end L, PHYSICAL_RAM_START + PHYSICAL_RAM_SIZE, PTE_R OR PTE_W)"
    | "(s, e, f) = (UART0_BASE, UART0_BASE + UART0_SIZE, PTE_R OR PTE_W)"
    | "(s, e, f) = (PLIC_BASE, PLIC_BASE + PLIC_SIZE, PTE_R OR PTE_W)"
    using x unfolding kernel_ranges_def by auto
  then show ?thesis
  proof cases
    case 1 then show ?thesis using p le by (simp add: alts)
  next
    case 2 then show ?thesis using p le by (simp add: alts)
  next
    case 3 then show ?thesis using p le by (simp add: alts)
  next
    case 4 then show ?thesis using p le by (simp add: alts)
  next
    case 5 then show ?thesis using p le by (simp add: alts)
  next
    case 6 then show ?thesis using p le by (simp add: alts)
  qed
qed

section \<open>\<open>vmm_map_kernel\<close>\<close>

abbreviation map_kernel_oom :: stop where
  "map_kernel_oom \<equiv> Panic ''PANIC: vmm_map_kernel out of memory!''"

lemma map_identity_range_mapped:
  assumes wf: "wf_forest L m R" and r: "r \<in> R" and L: "layout_ok L"
    and x: "(s, e, f) \<in> set (kernel_ranges L)"
  shows "case map_identity_range L r s e f m of Inl z \<Rightarrow> z = map_kernel_oom
    | Inr m' \<Rightarrow> mapped L R r (pages_in s e) (\<lambda>p. kernel_entry (kernel_flags L p) p) m m'"
  unfolding map_identity_range_def
proof (rule for_pages_set [OF kernel_ranges_low [OF L x]])
  show "mapped L R r {} (\<lambda>p. kernel_entry (kernel_flags L p) p) m m" by (rule mapped_refl [OF wf])
next
  fix A p m1 z
  assume "(let (y, m') = map_page L m1 r p p f in if y = - 1 then Inl map_kernel_oom else Inr m') = Inl z"
  then show "z = map_kernel_oom" by (auto split: prod.splits if_splits)
next
  fix A p m1 m2
  let ?g = "\<lambda>p. kernel_entry (kernel_flags L p) p"
  assume I: "mapped L R r A ?g m m1" and p: "p \<in> pages_in s e" and A: "A \<subseteq> pages_in s p"
    and "(let (y, m') = map_page L m1 r p p f in if y = - 1 then Inl map_kernel_oom else Inr m') = Inr m2"
  then obtain y where y: "map_page L m1 r p p f = (y, m2)" "y \<noteq> -1"
    by (auto split: prod.splits if_splits)
  have wf1: "wf_forest L m1 R" using growsD(1) [OF mappedD(1) [OF I]] .
  have "?g p = kernel_entry f p"
    using kernel_flags_range [OF L x] p by (simp add: pages_in_def)
  then have "mapped L R r {p} ?g m1 m2"
    using map_page_mapped [OF wf1 r kernel_leaf_ok [OF x, unfolded kernel_entry_def] y(1), of ?g] y(2)
    by (simp add: kernel_entry_def)
  then have "mapped L R r (A \<union> {p}) ?g m m2"
  proof (rule mapped_trans [OF I _ r])
    fix a b assume "a \<in> A" "b \<in> {p}" "vpath a = vpath b"
    then have "vpath p = vpath a" "a \<in> A" by simp_all
    then have "vpath p \<in> vpath ` A" by (rule image_eqI)
    then show "a = b" using vpath_fresh [OF kernel_ranges_low [OF L x] p A] by contradiction
  qed
  then show "mapped L R r (insert p A) ?g m m2" by simp
qed

lemma kernel_pages_low:
  assumes "layout_ok L" "p \<in> kernel_pages L"
  shows "page_aligned p" "unat p < 2 ^ 39"
proof -
  obtain s e f where x: "(s, e, f) \<in> set (kernel_ranges L)" "p \<in> pages_in s e"
    using assms(2) by (auto simp: kernel_pages_def)
  then show "page_aligned p" by (simp add: pages_in_def)
  have "unat p < unat e" using x(2) by (simp add: pages_in_def word_less_nat_alt)
  then show "unat p < 2 ^ 39" using kernel_ranges_low(2) [OF assms(1) x(1)] by simp
qed

lemma vmm_map_kernel_mapped:
  assumes wf: "wf_forest L m R" and r: "r \<in> R" and L: "layout_ok L"
  shows "case vmm_map_kernel L r m of Inl z \<Rightarrow> z = map_kernel_oom
    | Inr m' \<Rightarrow> mapped L R r (kernel_pages L) (\<lambda>p. kernel_entry (kernel_flags L p) p) m m'"
proof -
  let ?g = "\<lambda>p. kernel_entry (kernel_flags L p) p"
  let ?A = "\<lambda>xs. \<Union>(s, e, f) \<in> set xs. pages_in s e"
  have "case vmm_map_kernel L r m of Inl z \<Rightarrow> z = map_kernel_oom
    | Inr m' \<Rightarrow> mapped L R r (?A (kernel_ranges L)) ?g m m'"
    unfolding vmm_map_kernel_def
  proof (rule for_each_rule)
    show "mapped L R r (?A []) ?g m m" using mapped_refl [OF wf] by simp
  next
    fix ys x zs m1 z
    assume xs: "kernel_ranges L = ys @ x # zs" and I: "mapped L R r (?A ys) ?g m m1"
      and b: "(case x of (s, e, f) \<Rightarrow> \<lambda>m. map_identity_range L r s e f m) m1 = Inl z"
    obtain s e f where x: "x = (s, e, f)" by (cases x)
    then have "(s, e, f) \<in> set (kernel_ranges L)" unfolding xs by simp
    then show "z = map_kernel_oom"
      using map_identity_range_mapped [OF growsD(1) [OF mappedD(1) [OF I]] r L] b x by fastforce
  next
    fix ys x zs m1 m2
    assume xs: "kernel_ranges L = ys @ x # zs" and I: "mapped L R r (?A ys) ?g m m1"
      and b: "(case x of (s, e, f) \<Rightarrow> \<lambda>m. map_identity_range L r s e f m) m1 = Inr m2"
    obtain s e f where x: "x = (s, e, f)" by (cases x)
    then have mem: "(s, e, f) \<in> set (kernel_ranges L)" unfolding xs by simp
    have m2: "mapped L R r (pages_in s e) ?g m1 m2"
      using map_identity_range_mapped [OF growsD(1) [OF mappedD(1) [OF I]] r L mem] b x by simp
    have sub: "?A ys \<subseteq> kernel_pages L" "pages_in s e \<subseteq> kernel_pages L"
      using xs mem by (auto simp: kernel_pages_def)
    have "mapped L R r (?A ys \<union> pages_in s e) ?g m m2"
    proof (rule mapped_trans [OF I m2 r])
      fix a b assume "a \<in> ?A ys" "b \<in> pages_in s e" "vpath a = vpath b"
      moreover from this have "a \<in> kernel_pages L" "b \<in> kernel_pages L" using sub by blast+
      ultimately show "a = b" using kernel_pages_low [OF L] VPN_inj [of a b] by simp
    qed
    then show "mapped L R r (?A (ys @ [x])) ?g m m2" using x by (simp add: Un_commute)
  qed
  then show ?thesis unfolding kernel_pages_def .
qed

section \<open>Properties\<close>

text \<open>The entries outside and inside the kernel pages.\<close>

lemma kernel_leaf_outside:
  assumes L: "layout_ok L" and r: "r \<in> R" and z: "\<forall>i j k. leaf_at m r i j k = 0"
    and mp: "mapped L R r (kernel_pages L) (\<lambda>p. kernel_entry (kernel_flags L p) p) m m'"
    and va: "page_aligned va" "unat va < 2 ^ 39" "va \<notin> kernel_pages L"
  shows "\<not> has (path_leaf m' r va) PTE_V"
proof -
  have "vpath va \<notin> vpath ` kernel_pages L"
  proof
    assume "vpath va \<in> vpath ` kernel_pages L"
    then obtain p where p: "p \<in> kernel_pages L" "vpath va = vpath p" by blast
    have "va = p"
      by (rule VPN_inj [OF va(1,2) kernel_pages_low [OF L p(1)] p(2)])
    with p(1) va(3) show False by simp
  qed
  then have "path_leaf m' r va = 0"
    unfolding path_leaf_def
    using mappedD(3) [OF mp r VPN_less VPN_less VPN_less] z by simp
  then show ?thesis by (simp add: has_def)
qed

lemma kernel_leaf_inside:
  assumes L: "layout_ok L"
    and mp: "mapped L R r (kernel_pages L) (\<lambda>p. kernel_entry (kernel_flags L p) p) m m'"
    and va: "va \<in> kernel_pages L"
  shows "PTE_TO_PA (path_leaf m' r va) = va" "has (path_leaf m' r va) PTE_V"
    "has (path_leaf m' r va) PTE_R" "\<not> has (path_leaf m' r va) PTE_U"
    "\<not> (has (path_leaf m' r va) PTE_W \<and> has (path_leaf m' r va) PTE_X)"
    "has (path_leaf m' r va) PTE_X \<longleftrightarrow> va \<in> pages_in (text_start L) (text_end L)"
proof -
  obtain s e f where x: "(s, e, f) \<in> set (kernel_ranges L)" "va \<in> pages_in s e"
    using va by (auto simp: kernel_pages_def)
  have e: "path_leaf m' r va = PA_TO_PTE va OR f OR PTE_V"
    using mappedD(2) [OF mp va] kernel_flags_range [OF L x(1)] x(2)
    by (simp add: kernel_entry_def pages_in_def)
  note fw = flag_word_kernel [OF x(1)]
  show "PTE_TO_PA (path_leaf m' r va) = va"
    unfolding e by (rule PTE_TO_PA_map [OF kernel_pages_low(1) [OF L va] fw])
  show "has (path_leaf m' r va) PTE_V" "has (path_leaf m' r va) PTE_R"
    "\<not> has (path_leaf m' r va) PTE_U"
    "\<not> (has (path_leaf m' r va) PTE_W \<and> has (path_leaf m' r va) PTE_X)"
    unfolding e using has_entry [OF fw] has_kernel [OF x(1)] by blast+
  have img: "(text_start L, text_end L, PTE_R OR PTE_X) \<in> set (kernel_ranges L)"
    by (simp add: kernel_ranges_def)
  have "has f PTE_X \<longleftrightarrow> va \<in> pages_in (text_start L) (text_end L)"
  proof
    assume "has f PTE_X"
    then have "(s, e) = (text_start L, text_end L)"
      using x(1) by (auto simp: kernel_ranges_def has_flags bit_or_iff bit_flags)
    then show "va \<in> pages_in (text_start L) (text_end L)" using x(2) by simp
  next
    assume t: "va \<in> pages_in (text_start L) (text_end L)"
    have "f = kernel_flags L va"
      using kernel_flags_range [OF L x(1)] x(2) by (simp add: pages_in_def)
    also have "\<dots> = PTE_R OR PTE_X"
      using kernel_flags_range [OF L img] t by (simp add: pages_in_def)
    finally show "has f PTE_X" by (simp add: has_flags bit_or_iff bit_flags)
  qed
  then show "has (path_leaf m' r va) PTE_X \<longleftrightarrow> va \<in> pages_in (text_start L) (text_end L)"
    unfolding e has_entry [OF fw] .
qed

text \<open>
  C30: \<open>vmm_map_kernel\<close> on an empty address space either panics for lack of memory, or maps
  exactly the kernel's pages, each to itself, with the flags of its range. No page it maps
  is accessible to user code, none is both writable and executable, the kernel's code is not
  writable, and everything but the code is not executable.
\<close>
theorem vmm_map_kernel_wx:
  assumes "layout_ok L" "wf_forest L m R" "r \<in> R"
    and "\<forall>i j k. leaf_at m r i j k = 0"
  shows "case vmm_map_kernel L r m of
      Inl z \<Rightarrow> z = Panic ''PANIC: vmm_map_kernel out of memory!''
    | Inr m' \<Rightarrow> wf_forest L m' R \<and>
        (\<forall>va. page_aligned va \<longrightarrow> unat va < 2 ^ 39 \<longrightarrow>
           (let e = path_leaf m' r va in
            (has e PTE_V \<longleftrightarrow> va \<in> kernel_pages L) \<and>
            (has e PTE_V \<longrightarrow> PTE_TO_PA e = va \<and> has e PTE_R \<and> \<not> has e PTE_U \<and>
               \<not> (has e PTE_W \<and> has e PTE_X) \<and>
               (has e PTE_X \<longleftrightarrow> va \<in> pages_in (text_start L) (text_end L)))))"
proof (cases "vmm_map_kernel L r m")
  case (Inl z)
  then show ?thesis using vmm_map_kernel_mapped [OF assms(2,3,1)] by simp
next
  case (Inr m')
  then have mp: "mapped L R r (kernel_pages L) (\<lambda>p. kernel_entry (kernel_flags L p) p) m m'"
    using vmm_map_kernel_mapped [OF assms(2,3,1)] by simp
  show ?thesis unfolding Inr sum.case Let_def
    using growsD(1) [OF mappedD(1) [OF mp]] kernel_leaf_inside [OF assms(1) mp]
      kernel_leaf_outside [OF assms(1,3,4) mp] by blast
qed

lemma vmm_map_kernel_wx_witness:
  "case vmm_map_kernel sample_layout sample_root sample_memory of
      Inl z \<Rightarrow> z = Panic ''PANIC: vmm_map_kernel out of memory!''
    | Inr m' \<Rightarrow> wf_forest sample_layout m' {sample_root}"
proof -
  have "\<forall>i j k. leaf_at sample_memory sample_root i j k = 0" using sample_leaf by blast
  from vmm_map_kernel_wx [OF sample_layout_ok sample_wf(1) _ this] show ?thesis
    by (cases "vmm_map_kernel sample_layout sample_root sample_memory") simp_all
qed

end
