(* ===== verification/Page_Supply.thy ===== *)
theory Page_Supply
  imports Page_Extend Kernel_Map
begin

text \<open>
  How many free frames an operation needs. \<open>frames_left\<close> counts the free frames; with two of them
  \<open>map_page\<close> cannot fail, and with the tables in place it needs none. The end of the theory
  builds a concrete address space with one user page.
\<close>

definition frames_left :: "layout \<Rightarrow> memory \<Rightarrow> nat" where
  "frames_left L m = card (ram_frames - used L m)"

lemma frames_left_used: "used L m' = used L m \<Longrightarrow> frames_left L m' = frames_left L m"
  by (simp add: frames_left_def)

lemma frames_left_0: "frames_left L m = 0 \<longleftrightarrow> used L m = ram_frames"
  using used_subset [of L m] by (auto simp: frames_left_def)

lemma frames_left_insert:
  assumes "used L m' = insert n (used L m)" "n \<in> ram_frames - used L m"
  shows "frames_left L m = Suc (frames_left L m')"
proof -
  have "ram_frames - used L m = insert n (ram_frames - used L m')" "n \<notin> ram_frames - used L m'"
    using assms by auto
  then show ?thesis by (simp add: frames_left_def)
qed

lemma frames_left_alloc:
  assumes "pmm_alloc_page L m = (n, m1)"
  shows "n = 0 \<longleftrightarrow> frames_left L m = 0" "n \<noteq> 0 \<Longrightarrow> frames_left L m = Suc (frames_left L m1)"
  using pmm.al_page [OF assms] pmm.al_null [of L m m1] assms frames_left_0 [of L m] frames_left_insert [of L m1 n m]
  by auto

lemma next_table_frames:
  assumes wf: "wf_forest L m R" and r: "r \<in> R" and t: "tree m r q = Some t" and q: "length q < 2"
    and i: "i < 512" and nt: "next_table L m t i = (t', m')"
  shows "frames_left L m \<le> Suc (frames_left L m')" "0 < frames_left L m \<Longrightarrow> t' \<noteq> 0"
    "tree m r (q @ [i]) \<noteq> None \<Longrightarrow> t' \<noteq> 0 \<and> used L m' = used L m"
proof -
  let ?e = "load64 m (slot t i)"
  have "(frames_left L m \<le> Suc (frames_left L m')) \<and> (0 < frames_left L m \<longrightarrow> t' \<noteq> 0) \<and>
     (tree m r (q @ [i]) \<noteq> None \<longrightarrow> t' \<noteq> 0 \<and> used L m' = used L m)"
  proof (cases "has ?e PTE_V")
    case True
    then have e: "t' = PTE_TO_PA ?e" "m' = m" using nt by (auto simp: next_table_def)
    have tr: "tree m r (q @ [i]) = Some t'"
      using wf_child [OF wf r t q i] t q i True e(1) by (simp add: tree_snoc)
    then have "t' \<noteq> 0" using wf_used [OF wf r tr(1)] used_subset frame_nonzero by blast
    then show ?thesis using tr e(2) by simp
  next
    case False
    then have none: "tree m r (q @ [i]) = None"
      using wf_child [OF wf r t q i] t q i by (simp add: tree_snoc)
    obtain n m1 where al: "pmm_alloc_page L m = (n, m1)" by fastforce
    show ?thesis
    proof (cases "n = 0")
      case True
      then have "m' = m1" "t' = 0" using nt al False by (simp_all add: next_table_def)
      moreover have "m1 = m \<and> used L m = ram_frames" using pmm.al_null al True by blast
      ultimately show ?thesis using none frames_left_0 [of L m] by simp
    next
      case n0: False
      then have m': "t' = n" "m' = store64 (memset m1 n 0 4096) (slot t i) (PA_TO_PTE n OR PTE_V)"
        using nt al False n0 by (auto simp: next_table_def)
      note fr = pmm.al_page [OF al n0]
      have n_al: "page_aligned n" "image_end L < n"
        using fr frame_aligned fresh_frame(4) [OF wf al n0 same_except_refl] by auto
      have "used L (memset m1 n 0 4096) = used L m1"
        by (rule used_same_except [OF same_except_memset [OF n_al(1)] wf_aligned [OF wf]]) (use n_al in auto)
      moreover have "used L m' = used L (memset m1 n 0 4096)" unfolding m'(2)
        by (rule used_same_except [OF same_except_store64_slot [OF wf_page [OF wf r t] i] wf_aligned [OF wf]])
          (use wf_not_bitmap [OF wf r t] in auto)
      ultimately have "frames_left L m' = frames_left L m1" by (intro frames_left_used) simp
      then show ?thesis using frames_left_alloc [OF al] n0 m'(1) none by simp
    qed
  qed
  then show "frames_left L m \<le> Suc (frames_left L m')" "0 < frames_left L m \<Longrightarrow> t' \<noteq> 0"
    "tree m r (q @ [i]) \<noteq> None \<Longrightarrow> t' \<noteq> 0 \<and> used L m' = used L m" by blast+
qed

text \<open>Two free frames are enough for one \<open>map_page\<close>; none is needed when the tables exist.\<close>

lemma map_page_frames:
  assumes wf: "wf_forest L m R" and r: "r \<in> R" and ok: "leaf_ok L m R (PA_TO_PTE pa OR flags OR PTE_V)"
    and mp: "map_page L m r va pa flags = (x, m')"
  shows "frames_left L m \<le> frames_left L m' + 2" "2 \<le> frames_left L m \<Longrightarrow> x = 0"
    "tree m r [VPN va 2, VPN va 1] \<noteq> None \<Longrightarrow> x = 0 \<and> used L m' = used L m"
proof -
  let ?e = "PA_TO_PTE pa OR flags OR PTE_V"
  have root: "tree m r [] = Some r" by simp
  have len: "length ([] :: nat list) < 2" "length [VPN va 2] < 2" by simp_all
  obtain t1 m1 where n1: "next_table L m r (VPN va 2) = (t1, m1)" by fastforce
  note s1 = next_table_frames [OF wf r root len(1) VPN_less n1]
  have w2: "map_page L m r va pa flags = (if t1 = 0 then (-1, m1) else map_walk L m1 t1 va pa flags 1)"
    using map_walk_Suc [OF wf r root, of va pa flags 1] n1 by (simp add: map_page_def numeral_2_eq_2)
  have "(frames_left L m \<le> frames_left L m' + 2) \<and> (2 \<le> frames_left L m \<longrightarrow> x = 0) \<and>
    (tree m r [VPN va 2, VPN va 1] \<noteq> None \<longrightarrow> x = 0 \<and> used L m' = used L m)"
    using wf r root len(1) VPN_less n1
  proof (cases rule: next_table_cases)
    case oom: oom
    have "tree m r [VPN va 2, VPN va 1] = None"
    proof (rule ccontr)
      assume "tree m r [VPN va 2, VPN va 1] \<noteq> None"
      then obtain x where "tree m r ([VPN va 2] @ [VPN va 1]) = Some x" by auto
      then show False using tree_prefix [of m r "[VPN va 2]" "VPN va 1" x] s1(3) oom(1) by auto
    qed
    then show ?thesis using oom w2 mp frames_left_0 [of L m] by simp
  next
    case d1: down
    have t1: "tree m1 r [VPN va 2] = Some t1" using d1(3) by simp
    have wf1: "wf_forest L m1 R" using d1(2) by (rule grows_wf)
    obtain t0 m2 where n2: "next_table L m1 t1 (VPN va 1) = (t0, m2)" by fastforce
    note s2 = next_table_frames [OF wf1 r t1 len(2) VPN_less n2]
    have w1: "map_page L m r va pa flags = (if t0 = 0 then (-1, m2) else map_walk L m2 t0 va pa flags 0)"
      using map_walk_Suc [OF wf1 r t1, of va pa flags 0] n2 w2 d1(1) by simp
    have hit: "t0 \<noteq> 0 \<and> used L m2 = used L m" if h: "tree m r [VPN va 2, VPN va 1] \<noteq> None"
    proof -
      obtain x where x: "tree m r ([VPN va 2] @ [VPN va 1]) = Some x" using h by auto
      then have "tree m r ([] @ [VPN va 2]) \<noteq> None"
        using tree_prefix [of m r "[VPN va 2]" "VPN va 1" x] by auto
      then have u1: "used L m1 = used L m" using s1(3) by blast
      have "tree m1 r ([VPN va 2] @ [VPN va 1]) \<noteq> None" using grows_tree [OF d1(2) x] by simp
      then show ?thesis using s2(3) u1 by blast
    qed
    have two: "t0 \<noteq> 0" if "2 \<le> frames_left L m" using s1(1) s2(2) that by linarith
    have m': "x = 0 \<and> used L m' = used L m2" if t0: "t0 \<noteq> 0"
    proof -
      have tr: "tree m2 r [VPN va 2, VPN va 1] = Some t0"
        using wf1 r t1 len(2) VPN_less n2 by (cases rule: next_table_cases) (use t0 in auto)
      have wf2: "wf_forest L m2 R" 
        using wf1 r t1 len(2) VPN_less n2 by (cases rule: next_table_cases) (use t0 grows_wf in auto)
      have e: "x = 0" "m' = store64 m2 (slot t0 (VPN va 0)) ?e" using w1 t0 mp by auto
      have "used L m' = used L m2" unfolding e(2)
        by (rule used_same_except [OF same_except_store64_slot [OF wf_page [OF wf2 r tr]] wf_aligned [OF wf]])
          (use wf_not_bitmap [OF wf2 r tr] in auto)
      with e show ?thesis by simp
    qed
    have "frames_left L m' \<ge> frames_left L m2"
      using m' w1 mp frames_left_used [of L m' m2] by (cases "t0 = 0") auto
    then have "frames_left L m \<le> frames_left L m' + 2" using s1(1) s2(1) by linarith
    then show ?thesis using m' hit two by auto
  qed
  then show "frames_left L m \<le> frames_left L m' + 2" "2 \<le> frames_left L m \<Longrightarrow> x = 0"
    "tree m r [VPN va 2, VPN va 1] \<noteq> None \<Longrightarrow> x = 0 \<and> used L m' = used L m" by blast+
qed

section \<open>An address space with one user page\<close>

lemma sample_frames_left: "4 \<le> frames_left sample_layout sample_memory"
proof -
  let ?m = "init_pmm sample_layout (\<lambda>_. 0)"
  let ?F = "{0x87FFF000, 0x87FFE000, 0x87FFD000, 0x87FFC000, 0x87FFB000} :: u64 set"
  obtain r m1 where al: "pmm_alloc_page sample_layout ?m = (r, m1)" by fastforce
  then have s: "sample_root = r" "sample_memory = memset m1 r 0 4096"
    by (simp_all add: sample_root_def sample_memory_def sample_boot_def)
  have fr: "?F \<subseteq> ram_frames" by (simp add: ram_frames_iff page_aligned_def)
  have "?F \<subseteq> ram_frames - used sample_layout ?m"
    using fr used_init_pmm [OF sample_layout_ok] sample_wf(4) by auto
  then have "card ?F \<le> frames_left sample_layout ?m" unfolding frames_left_def by (intro card_mono) simp_all
  then have five: "5 \<le> frames_left sample_layout ?m" by simp
  then have r0: "r \<noteq> 0" using frames_left_alloc(1) [OF al] by auto
  then have "4 \<le> frames_left sample_layout m1" using five frames_left_alloc(2) [OF al] by linarith
  moreover have "page_aligned r" "image_end sample_layout < r"
    using pmm.al_page [OF al r0] frame_aligned fresh_frame(4) [OF wf_init [OF sample_layout_ok] al r0 same_except_refl]
    by auto
  then have "used sample_layout sample_memory = used sample_layout m1" unfolding s
    by (intro used_same_except [OF same_except_memset]) (use layout_okD [OF sample_layout_ok] in auto)
  ultimately show ?thesis using frames_left_used by metis
qed

definition sample_page :: "u64 \<times> memory" where
  "sample_page = (let (n, m1) = pmm_alloc_page sample_layout sample_memory in (n, memset m1 n 0 4096))"

definition sample_user :: memory where
  "sample_user = snd (map_page sample_layout (snd sample_page) sample_root 0x1000 (fst sample_page)
     (PTE_U OR PTE_R OR PTE_W))"

lemma vpath_0x1000: "vpath 0x1000 = [0, 0, 1]"
  by (simp add: VPN_def)

lemma user_rw_flags: "flag_word (PTE_U OR PTE_R OR PTE_W)" 
  by (auto simp: flag_word_def bit_or_iff bit_flags)

lemma sample_user_space:
  shows "wf_forest sample_layout sample_user {sample_root}"
    "path_leaf sample_user sample_root 0x1000 = PA_TO_PTE (fst sample_page) OR (PTE_U OR PTE_R OR PTE_W) OR PTE_V"
    "vpath va \<noteq> vpath 0x1000 \<Longrightarrow> path_leaf sample_user sample_root va = 0"
    "fst sample_page \<in> ram_frames" "1 \<le> frames_left sample_layout sample_user"
    "a < 512 \<Longrightarrow> b < 512 \<Longrightarrow> c < 512 \<Longrightarrow> leaf_at sample_user sample_root a b c =
       (if [a, b, c] = vpath 0x1000 then PA_TO_PTE (fst sample_page) OR (PTE_U OR PTE_R OR PTE_W) OR PTE_V else 0)"
proof -
  let ?L = sample_layout and ?r = sample_root and ?f = "PTE_U OR PTE_R OR PTE_W"
  obtain n m1 where al: "pmm_alloc_page ?L sample_memory = (n, m1)" by fastforce
  let ?m2 = "memset m1 n 0 4096"
  have sp: "sample_page = (n, ?m2)" using al by (simp add: sample_page_def)
  have n0: "n \<noteq> 0" using frames_left_alloc(1) [OF al] sample_frames_left by auto
  have n_al: "page_aligned n" using pmm.al_page [OF al n0] frame_aligned by blast
  have fill: "same_except {n} m1 ?m2" by (rule same_except_memset [OF n_al]) simp
  note fr = fresh_frame [OF sample_wf(1) al n0 fill]
  have "user_frame e = Some k \<Longrightarrow> k = n" if "e = PA_TO_PTE n OR ?f OR PTE_V" for e k
    using that PTE_TO_PA_map [OF n_al user_rw_flags] by (auto simp: user_frame_def split: if_splits)
  then have ok: "leaf_ok ?L ?m2 {?r} (PA_TO_PTE n OR ?f OR PTE_V)"
    by (intro fresh_leaf_ok [OF sample_wf(1) al n0 fill]) blast
  obtain x m' where mp: "map_page ?L ?m2 ?r 0x1000 n ?f = (x, m')" by fastforce
  then have su: "sample_user = m'" by (simp add: sample_user_def sp)
  have "frames_left ?L m1 = frames_left ?L ?m2" using fr(2) pmm.al_page [OF al n0] by (intro frames_left_used) simp
  then have left: "3 \<le> frames_left ?L ?m2" using frames_left_alloc(2) [OF al n0] sample_frames_left by linarith
  have in_R: "?r \<in> {?r}" by simp
  have x0: "x = 0" using map_page_frames(2) [OF fr(1) in_R ok mp] left by linarith
  show "1 \<le> frames_left ?L sample_user"
    unfolding su using map_page_frames(1) [OF fr(1) in_R ok mp] left by linarith
  have leaf0: "leaf_at ?m2 ?r i j k = 0" if "k < 512" for i j k
    using fr(8) [OF in_R that] sample_leaf by simp
  show "fst sample_page \<in> ram_frames" using fr(3) by (simp add: sp)
  from fr(1) in_R ok mp have "wf_forest ?L m' {?r} \<and>
      (\<forall>a b c. a < 512 \<longrightarrow> b < 512 \<longrightarrow> c < 512 \<longrightarrow> leaf_at m' ?r a b c =
        (if [a, b, c] = vpath 0x1000 then PA_TO_PTE n OR ?f OR PTE_V else leaf_at ?m2 ?r a b c))"
  proof (cases rule: map_page_cases)
    case oom
    then show ?thesis using x0 by simp
  next
    case mapped
    then show ?thesis using grows_wf by auto
  qed
  then show "wf_forest ?L sample_user {?r}"
    "path_leaf sample_user ?r 0x1000 = PA_TO_PTE (fst sample_page) OR ?f OR PTE_V"
    "vpath va \<noteq> vpath 0x1000 \<Longrightarrow> path_leaf sample_user ?r va = 0"
    "a < 512 \<Longrightarrow> b < 512 \<Longrightarrow> c < 512 \<Longrightarrow> leaf_at sample_user ?r a b c =
       (if [a, b, c] = vpath 0x1000 then PA_TO_PTE (fst sample_page) OR ?f OR PTE_V else 0)"
    unfolding path_leaf_def su sp using leaf0 by auto
qed

end
