(* ===== verification/Process.thy ===== *)
theory Process
  imports Sched Page_Supply
begin

text \<open>
  Making and reaping processes: \<open>proc_init\<close>, \<open>init_process_fds\<close>, \<open>alloc_proc\<close> and
  \<open>free_proc\<close> of \<open>kernel/proc/process.c\<close>.
\<close>

section \<open>The code\<close>

definition proc_init :: "kernel \<Rightarrow> kernel" where
  "proc_init k = k\<lparr>procs := map (\<lambda>p. p\<lparr>state := PROC_UNUSED\<rparr>) (procs k)\<rparr>"

definition console_file :: file_t where
  "console_file = closed_file\<lparr>f_type := FILE_TYPE_CONSOLE\<rparr>"

definition init_process_fds :: "process \<Rightarrow> process" where
  "init_process_fds p =
     p\<lparr>open_files := (replicate FD_MAX closed_file)[0 := console_file, 1 := console_file, 2 := console_file]\<rparr>"

text \<open>
  \<open>alloc_proc\<close> returns the index of the new process, or \<open>None\<close> for the null pointer. When a
  frame is missing the slot is marked unused again and keeps what was written to it; the root
  table that was already allocated is not given back.
\<close>

definition new_page_table :: "layout \<Rightarrow> nat \<Rightarrow> kernel \<Rightarrow> stop + bool \<times> kernel" where
  "new_page_table L i k =
     (let (pt, m1) = pmm_alloc_page L (mem k);
          k1 = upd_proc i (\<lambda>p. p\<lparr>page_table := pt\<rparr>) (k\<lparr>mem := m1\<rparr>)
      in if pt = 0 then Inr (False, upd_proc i (\<lambda>p. p\<lparr>state := PROC_UNUSED\<rparr>) k1)
         else bind_stop (vmm_map_kernel L pt (memset m1 pt 0 4096))
           (\<lambda>m2. Inr (True, k1\<lparr>mem := m2\<rparr>)))"

definition new_kernel_stack :: "layout \<Rightarrow> nat \<Rightarrow> kernel \<Rightarrow> bool \<times> kernel" where
  "new_kernel_stack L i k =
     (let (st, m1) = pmm_alloc_page L (mem k);
          k1 = upd_proc i (\<lambda>p. p\<lparr>kernel_stack := st\<rparr>) (k\<lparr>mem := m1\<rparr>)
      in if st = 0 then (False, upd_proc i (\<lambda>p. p\<lparr>state := PROC_UNUSED\<rparr>) k1)
         else
           (let m2 = memset m1 st 0 4096;
                k2 = upd_proc i (\<lambda>p. p\<lparr>frame := zero_frame\<rparr>) k1;
                (r, m3) = map_page L m2 (page_table (procs k2 ! i)) st st (PTE_R OR PTE_W)
            in (True, upd_proc i (\<lambda>p. p\<lparr>frame := (frame p)\<lparr>tf_kernel_sp := st + 4096\<rparr>\<rparr>) (k2\<lparr>mem := m3\<rparr>))))"

definition alloc_proc :: "layout \<Rightarrow> kernel \<Rightarrow> stop + nat option \<times> kernel" where
  "alloc_proc L k =
     (case find_index (\<lambda>p. state p = PROC_UNUSED) (procs k) of
        None \<Rightarrow> Inr (None, say nl (say ''alloc_proc: Process table is full!'' k))
      | Some i \<Rightarrow>
          let k1 = (upd_proc i (\<lambda>p. init_process_fds (p\<lparr>pid := next_pid k, state := PROC_READY\<rparr>)) k)
                     \<lparr>next_pid := next_pid k + 1\<rparr>
          in bind_stop (new_page_table L i k1)
               (\<lambda>(ok, k2). if \<not> ok then Inr (None, k2)
                 else (let (ok', k3) = new_kernel_stack L i k2
                       in Inr (if ok' then Some i else None, k3))))"

text \<open>\<open>free_proc\<close>: both frames go back, then the entry is scrubbed.\<close>

definition release_stack :: "layout \<Rightarrow> nat \<Rightarrow> kernel \<Rightarrow> kernel" where
  "release_stack L i k =
     (let st = kernel_stack (procs k ! i) in
      if st \<noteq> 0 then upd_proc i (\<lambda>p. p\<lparr>kernel_stack := 0\<rparr>) (k\<lparr>mem := pmm_free_page L (mem k) st\<rparr>) else k)"

definition release_space :: "layout \<Rightarrow> nat \<Rightarrow> kernel \<Rightarrow> kernel" where
  "release_space L i k =
     (let pt = page_table (procs k ! i) in
      if pt \<noteq> 0 then upd_proc i (\<lambda>p. p\<lparr>page_table := 0\<rparr>) (k\<lparr>mem := vmm_free_pt L (mem k) pt\<rparr>) else k)"

definition free_proc :: "layout \<Rightarrow> nat \<Rightarrow> kernel \<Rightarrow> kernel" where
  "free_proc L i k =
     (if state (procs k ! i) = PROC_UNUSED then k
      else upd_proc i
        (\<lambda>p. p\<lparr>state := PROC_UNUSED, pid := 0, parent_pid := 0, chan := NoChan, heap_break := 0,
               heap_max := 0, open_files := replicate FD_MAX closed_file\<rparr>)
        (release_space L i (release_stack L i k)))"

end
