(* ===== verification/Elf.thy ===== *)
theory Elf
  imports Process
begin

text \<open>
  Loading a program: \<open>load_elf\<close> of \<open>kernel/proc/process.c\<close> over the ELF64 layout of
  \<open>kernel/include/elf.h\<close>. The image is read where the ramdisk keeps it, in the kernel's own
  memory. A loop of the loader is left either because the kernel hangs (\<open>Inl (Inl _)\<close>) or
  because \<open>load_elf\<close> returns -1 (\<open>Inl (Inr _)\<close>, with the state at that point).
\<close>

section \<open>The code\<close>

abbreviation (input) ELF_NUM :: u32 where "ELF_NUM \<equiv> 0x464C457F"
abbreviation (input) PT_LOAD :: u32 where "PT_LOAD \<equiv> 1"
abbreviation (input) PF_X :: u32 where "PF_X \<equiv> 1"
abbreviation (input) PF_W :: u32 where "PF_W \<equiv> 2"
abbreviation (input) PF_R :: u32 where "PF_R \<equiv> 4"

abbreviation (input) STACK_TOP :: u64 where "STACK_TOP \<equiv> 0x40000000"
abbreviation (input) STACK_BASE :: u64 where "STACK_BASE \<equiv> 0x3FFFF000"

text \<open>The fields of the file header at \<open>elf\<close> and of a program header at \<open>ph\<close>.\<close>

definition e_entry :: "memory \<Rightarrow> u64 \<Rightarrow> u64" where "e_entry m elf = load64 m (elf + 24)"
definition e_phoff :: "memory \<Rightarrow> u64 \<Rightarrow> u64" where "e_phoff m elf = load64 m (elf + 32)"
definition e_phnum :: "memory \<Rightarrow> u64 \<Rightarrow> u16" where "e_phnum m elf = load16 m (elf + 56)"
definition p_type :: "memory \<Rightarrow> u64 \<Rightarrow> u32" where "p_type m ph = load32 m ph"
definition p_flags :: "memory \<Rightarrow> u64 \<Rightarrow> u32" where "p_flags m ph = load32 m (ph + 4)"
definition p_offset :: "memory \<Rightarrow> u64 \<Rightarrow> u64" where "p_offset m ph = load64 m (ph + 8)"
definition p_vaddr :: "memory \<Rightarrow> u64 \<Rightarrow> u64" where "p_vaddr m ph = load64 m (ph + 16)"
definition p_filesz :: "memory \<Rightarrow> u64 \<Rightarrow> u64" where "p_filesz m ph = load64 m (ph + 32)"
definition p_memsz :: "memory \<Rightarrow> u64 \<Rightarrow> u64" where "p_memsz m ph = load64 m (ph + 40)"

text \<open>The permissions of a segment, with X dropped when W is there too.\<close>

definition segment_flags :: "u32 \<Rightarrow> u64" where
  "segment_flags pf =
     (let f0 = PTE_U;
          f1 = (if pf AND PF_R \<noteq> 0 then f0 OR PTE_R else f0);
          f2 = (if pf AND PF_W \<noteq> 0 then f1 OR PTE_W else f1);
          f3 = (if pf AND PF_X \<noteq> 0 then f2 OR PTE_X else f2)
      in if f3 AND (PTE_W OR PTE_X) = PTE_W OR PTE_X then f3 AND NOT PTE_X else f3)"

text \<open>How many bytes of the file go into the page at \<open>cur\<close>.\<close>

definition copy_size :: "u64 \<Rightarrow> u64 \<Rightarrow> u64" where
  "copy_size filesz cur =
     (if cur + 4096 > filesz then (if filesz > cur then filesz - cur else 0) else 4096)"

text \<open>One page of a segment: the body of the inner loop.\<close>

definition load_page ::
  "layout \<Rightarrow> nat \<Rightarrow> u64 \<Rightarrow> u64 \<Rightarrow> u64 \<Rightarrow> u64 \<Rightarrow> u64 \<Rightarrow> kernel \<Rightarrow> (stop + kernel) + kernel" where
  "load_page L i elf ph vaddr offset cur k =
     (let (phys_page, m1) = pmm_alloc_page L (mem k) in
      if phys_page = 0 then Inl (Inl (Panic ''PANIC: Out of memory loading ELF!''))
      else
        (let m2 = memset m1 phys_page 0 4096;
             n = copy_size (p_filesz m2 ph) cur;
             m3 = (if n > 0 then memcpy m2 phys_page (elf + offset + cur) n else m2);
             (r, m4) = map_page L m3 (page_table (procs k ! i)) (vaddr + cur) phys_page
                         (segment_flags (p_flags m3 ph))
         in if r \<noteq> 0
            then Inl (Inr ((say nl (say ''PANIC: Out of memory mapping ELF segment!'' k))
                   \<lparr>mem := pmm_free_page L m4 phys_page\<rparr>))
            else Inr (k\<lparr>mem := m4\<rparr>)))"

text \<open>One program header: the body of the outer loop, which also tracks \<open>max_end\<close>.\<close>

definition load_segment ::
  "layout \<Rightarrow> nat \<Rightarrow> u64 \<Rightarrow> u64 \<Rightarrow> nat \<Rightarrow> u64 \<times> kernel \<Rightarrow> (stop + kernel) + u64 \<times> kernel" where
  "load_segment L i elf phdr idx s =
     (case s of (max_end, k) \<Rightarrow>
        let ph = phdr + of_nat (56 * idx) in
        if p_type (mem k) ph = PT_LOAD then
          (let memsz = p_memsz (mem k) ph; vaddr = p_vaddr (mem k) ph; offset = p_offset (mem k) ph
           in bind_stop (for_pages (Inl Diverge) (load_page L i elf ph vaddr offset) 0 memsz k)
                (\<lambda>k1. let segment_end = vaddr + memsz
                      in Inr (if segment_end > max_end then segment_end else max_end, k1)))
        else Inr (max_end, k))"

text \<open>The end of \<open>load_elf\<close>: the user stack, the stack pointer and the heap limits.\<close>

definition user_stack :: "layout \<Rightarrow> nat \<Rightarrow> u64 \<Rightarrow> kernel \<Rightarrow> int \<times> kernel" where
  "user_stack L i max_end k =
     (let (stack_page, m1) = pmm_alloc_page L (mem k) in
      if stack_page = 0
      then (-1, say nl (say ''PANIC: Failed to allocate user stack!'' (k\<lparr>mem := m1\<rparr>)))
      else
        (let m2 = memset m1 stack_page 0 4096;
             (r, m3) = map_page L m2 (page_table (procs k ! i)) STACK_BASE stack_page
                         (PTE_U OR PTE_R OR PTE_W)
         in (0, upd_proc i
               (\<lambda>p. p\<lparr>frame := (frame p)\<lparr>tf_sp := STACK_TOP\<rparr>,
                      heap_break := (max_end + 4095) AND NOT 4095,
                      heap_max := STACK_BASE - 4096\<rparr>) (k\<lparr>mem := m3\<rparr>))))"

lemma unat_phnum_less: "unat (e_phnum m elf) < 65536"
  by (rule order_less_le_trans [OF unsigned_less]) simp

text \<open>The loop over the program headers, which reads \<open>e_phnum\<close> each time around.\<close>

function load_segments ::
  "layout \<Rightarrow> nat \<Rightarrow> u64 \<Rightarrow> u64 \<Rightarrow> nat \<Rightarrow> u64 \<times> kernel \<Rightarrow> (stop + kernel) + u64 \<times> kernel" where
  "load_segments L i elf phdr idx s =
     (if idx < unat (e_phnum (mem (snd s)) elf)
      then bind_stop (load_segment L i elf phdr idx s) (\<lambda>s1. load_segments L i elf phdr (Suc idx) s1)
      else Inr s)"
  by pat_completeness auto
termination
proof (relation "measure (\<lambda>(L, i, elf, phdr, idx, s). 65536 - idx)")
  fix L :: layout and i :: nat and elf phdr :: u64 and idx :: nat and s s1 :: "u64 \<times> kernel"
  assume "idx < unat (e_phnum (mem (snd s)) elf)"
  then have "idx < 65536" using unat_phnum_less less_trans by blast
  then show "((L, i, elf, phdr, Suc idx, s1), L, i, elf, phdr, idx, s) \<in> measure (\<lambda>(L, i, elf, phdr, idx, s). 65536 - idx)"
    by simp
qed simp

declare load_segments.simps [simp del]

definition load_elf :: "layout \<Rightarrow> nat \<Rightarrow> u64 \<Rightarrow> kernel \<Rightarrow> stop + int \<times> kernel" where
  "load_elf L i elf k =
     (if load32 (mem k) elf \<noteq> ELF_NUM then Inr (-1, say nl (say ''PANIC: Invalid ELF format!'' k))
      else
        (case load_segments L i elf (elf + e_phoff (mem k) elf) 0 (0, k) of
           Inl (Inl z) \<Rightarrow> Inl z
         | Inl (Inr k1) \<Rightarrow> Inr (-1, k1)
         | Inr (max_end, k1) \<Rightarrow>
             Inr (user_stack L i max_end
               (upd_proc i (\<lambda>p. p\<lparr>frame := (frame p)\<lparr>tf_sepc := e_entry (mem k1) elf\<rparr>\<rparr>) k1))))"

text \<open>
  What becomes of \<open>load_elf\<close> on a null process (\<open>kmain\<close> does not look at what \<open>alloc_proc\<close> returned):
  a bad magic number is noticed first; then the page table of the first page to map, or at the
  latest \<open>sepc\<close>, is looked for at an address near 0, which the kernel half does not map.
\<close>

function null_segments :: "layout \<Rightarrow> u64 \<Rightarrow> u64 \<Rightarrow> nat \<Rightarrow> kernel \<Rightarrow> stop" where
  "null_segments L elf phdr idx k =
     (if idx < unat (e_phnum (mem k) elf) then
        (let ph = phdr + of_nat (56 * idx) in
         if p_type (mem k) ph = PT_LOAD \<and> p_memsz (mem k) ph > 0
         then (if fst (pmm_alloc_page L (mem k)) = 0 then Panic ''PANIC: Out of memory loading ELF!'' else KernelFault 0)
         else null_segments L elf phdr (Suc idx) k)
      else KernelFault 0)"
  by pat_completeness auto
termination
proof (relation "measure (\<lambda>(L, elf, phdr, idx, k). 65536 - idx)")
  fix L :: layout and elf phdr :: u64 and idx :: nat and k :: kernel and x :: u64
  assume "idx < unat (e_phnum (mem k) elf)"
  then have "idx < 65536" using unat_phnum_less less_trans by blast
  then show "((L, elf, phdr, Suc idx, k), L, elf, phdr, idx, k) \<in> measure (\<lambda>(L, elf, phdr, idx, k). 65536 - idx)"
    by simp
qed simp

declare null_segments.simps [simp del]

definition load_elf_null :: "layout \<Rightarrow> u64 \<Rightarrow> kernel \<Rightarrow> stop + int \<times> kernel" where
  "load_elf_null L elf k =
     (if load32 (mem k) elf \<noteq> ELF_NUM then Inr (-1, say nl (say ''PANIC: Invalid ELF format!'' k))
      else Inl (null_segments L elf (elf + e_phoff (mem k) elf) 0 k))"

end
