(* ===== verification/Cstring.thy ===== *)
theory Cstring
  imports Prelude
begin

text \<open>
  C strings as the kernel reads them: a byte at an address, or a fault. \<open>streq\<close> is the
  comparison both \<open>trap_handler.c\<close> and \<open>main.c\<close> define; the loop gets fuel because two
  equal strings without an end would keep it running.
\<close>

section \<open>Readers\<close>

type_synonym reader = "u64 \<Rightarrow> stop + u8"

text \<open>The kernel's own memory is mapped at its physical addresses and never faults.\<close>

definition kread :: "memory \<Rightarrow> reader" where
  "kread m a = Inr (m a)"

fun streq_loop :: "nat \<Rightarrow> reader \<Rightarrow> reader \<Rightarrow> u64 \<Rightarrow> u64 \<Rightarrow> stop + bool" where
  "streq_loop 0 ra rb a b = Inl Diverge"
| "streq_loop (Suc n) ra rb a b =
     bind_stop (ra a) (\<lambda>x. bind_stop (rb b) (\<lambda>y.
       if x \<noteq> 0 \<and> y \<noteq> 0 then
         if x \<noteq> y then Inr False else streq_loop n ra rb (a + 1) (b + 1)
       else Inr (x = y)))"

text \<open>Names are compared only after \<open>user_str_ok(name, 256)\<close>, so 256 rounds are enough.\<close>

definition streq :: "reader \<Rightarrow> reader \<Rightarrow> u64 \<Rightarrow> u64 \<Rightarrow> stop + bool" where
  "streq ra rb a b = streq_loop 256 ra rb a b"

section \<open>Reading a string\<close>

text \<open>\<open>cstring rd a s\<close>: the bytes from \<open>a\<close> on are \<open>s\<close> and a terminating zero.\<close>

fun cstring :: "reader \<Rightarrow> u64 \<Rightarrow> u8 list \<Rightarrow> bool" where
  "cstring rd a [] \<longleftrightarrow> rd a = Inr 0"
| "cstring rd a (c # s) \<longleftrightarrow> c \<noteq> 0 \<and> rd a = Inr c \<and> cstring rd (a + 1) s"

lemma cstring_unique: "cstring rd a s \<Longrightarrow> cstring rd a t \<Longrightarrow> s = t"
proof (induction s arbitrary: a t)
  case Nil
  then show ?case by (cases t) auto
next
  case (Cons c s)
  then show ?case by (cases t) auto
qed

lemma kread_apply: "kread m a = Inr (m a)"
  by (simp add: kread_def)

text \<open>A string laid out in memory, followed by a zero.\<close>

lemma cstring_kread_iff:
  "cstring (kread m) a s \<longleftrightarrow> 0 \<notin> set s \<and> (\<forall>i < length s. m (a + of_nat i) = s ! i) \<and> m (a + of_nat (length s)) = 0"
proof (induction s arbitrary: a)
  case (Cons c s)
  have all: "(\<forall>i < Suc (length s). m (a + of_nat i) = (c # s) ! i) \<longleftrightarrow>
      m a = c \<and> (\<forall>i < length s. m (a + 1 + of_nat i) = s ! i)"
    unfolding All_less_Suc2 by (simp add: add.assoc)
  have ends: "m (a + 1 + of_nat (length s)) = m (a + of_nat (length (c # s)))" by (simp add: add.assoc)
  have "cstring (kread m) a (c # s) \<longleftrightarrow> c \<noteq> 0 \<and> m a = c \<and> cstring (kread m) (a + 1) s"
    using kread_apply [of m a] by auto
  then show ?case unfolding Cons.IH using all ends by auto
qed (simp add: kread_apply)

section \<open>The comparison\<close>

lemma streq_loop_kernel:
  "cstring rb b t \<Longrightarrow> length t < n \<Longrightarrow> streq_loop n (kread m) rb a b = Inr (cstring (kread m) a t)"
proof (induction t arbitrary: a b n)
  case Nil
  then show ?case by (cases n) (auto simp: kread_apply [of m a])
next
  case (Cons c t)
  then obtain n' where n: "n = Suc n'" by (cases n) auto
  have "streq_loop n' (kread m) rb (a + 1) (b + 1) = Inr (cstring (kread m) (a + 1) t)"
    using Cons.prems n by (intro Cons.IH) auto
  then show ?case using Cons.prems n kread_apply [of m a] by auto
qed

lemma streq_kernel:
  "cstring rb b t \<Longrightarrow> length t < 256 \<Longrightarrow> streq (kread m) rb a b = Inr (cstring (kread m) a t)"
  unfolding streq_def by (rule streq_loop_kernel)

text \<open>
  \<open>streq\<close> ends and decides equality: when the bytes at \<open>a\<close> are the string \<open>s\<close>, the
  bytes at \<open>b\<close> the string \<open>t\<close>, and one of them is shorter than 256, the result is true
  exactly when the strings are the same.
\<close>
theorem streq_decides_equality:
  assumes "cstring ra a s" "cstring rb b t" "min (length s) (length t) < 256"
  shows "streq ra rb a b = Inr (s = t)"
proof -
  have "streq_loop n ra rb a b = Inr (s = t)"
    if "cstring ra a s" "cstring rb b t" "min (length s) (length t) < n" for n s t
    using that
  proof (induction n arbitrary: a b s t)
    case (Suc n)
    show ?case
    proof (cases s)
      case Nil
      then show ?thesis using Suc.prems by (cases t) auto
    next
      case (Cons x s')
      show ?thesis
      proof (cases t)
        case Nil
        then show ?thesis using Suc.prems Cons by auto
      next
        case (Cons y t')
        then show ?thesis using Suc.prems Suc.IH [of "a + 1" s' "b + 1" t'] \<open>s = x # s'\<close> by auto
      qed
    qed
  qed simp
  from this [of s t 256] assms show ?thesis by (simp add: streq_def)
qed

lemma streq_decides_equality_witness:
  "streq (kread (\<lambda>a. if a = 0x10 then 65 else 0)) (kread (\<lambda>a. if a = 0x20 then 65 else 0)) 0x10 0x20
     = Inr ([65] = [65 :: u8])"
  by (rule streq_decides_equality) (simp_all add: kread_apply)

end
