(* ===== verification/Ramdisk.thy ===== *)
theory Ramdisk
  imports Cstring Pmm Sbi
begin

text \<open>
  The ramdisk: the directory lookups of the kernel (\<open>ramdisk_get_entry\<close> in
  \<open>kernel/arch/riscv/trap_handler.c\<close>, \<open>ramdisk_find\<close> in \<open>kernel/main.c\<close>) and the host tool
  that builds the image (\<open>tools/mkramdisk.c\<close>), over the layout of
  \<open>kernel/include/mkramdisk.h\<close>: an 8-byte header, then 40-byte entries, then the files.
\<close>

section \<open>Lookups in the kernel\<close>

abbreviation RAMDISK_MAGIC :: u32 where "RAMDISK_MAGIC \<equiv> 0x4C415A55"

text \<open>The loop over the entries, at the entry address \<open>e\<close> with \<open>n\<close> entries to go.\<close>

fun find_entry :: "memory \<Rightarrow> reader \<Rightarrow> u64 \<Rightarrow> u64 \<Rightarrow> nat \<Rightarrow> stop + u64 option" where
  "find_entry m rd name e 0 = Inr None"
| "find_entry m rd name e (Suc n) =
     bind_stop (streq (kread m) rd e name)
       (\<lambda>eq. if eq then Inr (Some e) else find_entry m rd name (e + 40) n)"

definition ramdisk_get_entry :: "layout \<Rightarrow> memory \<Rightarrow> reader \<Rightarrow> u64 \<Rightarrow> stop + u64" where
  "ramdisk_get_entry L m rd name =
     (let hdr = ramdisk_start L in
      if load32 m hdr \<noteq> RAMDISK_MAGIC then Inr 0
      else bind_stop (find_entry m rd name (hdr + 8) (unat (load32 m (hdr + 4))))
        (\<lambda>r. Inr (case r of None \<Rightarrow> 0 | Some e \<Rightarrow> e)))"

definition entry_offset :: "memory \<Rightarrow> u64 \<Rightarrow> u32" where
  "entry_offset m e = load32 m (e + 32)"

definition entry_size :: "memory \<Rightarrow> u64 \<Rightarrow> u32" where
  "entry_size m e = load32 m (e + 36)"

text \<open>A string literal of the kernel, read from its first byte at 0.\<close>

definition lit :: "u8 list \<Rightarrow> reader" where
  "lit s a = Inr (if unat a < length s then s ! unat a else 0)"

definition ramdisk_find :: "layout \<Rightarrow> memory \<Rightarrow> u8 list \<Rightarrow> stop + u64" where
  "ramdisk_find L m name =
     (let hdr = ramdisk_start L in
      if load32 m hdr \<noteq> RAMDISK_MAGIC then Inr 0
      else
        bind_stop (find_entry m (lit name) 0 (hdr + 8) (unat (load32 m (hdr + 4))))
          (\<lambda>r. Inr (case r of None \<Rightarrow> 0 | Some e \<Rightarrow> ramdisk_start L + ucast (entry_offset m e))))"

section \<open>Building the image\<close>

text \<open>\<open>get_filename\<close>: walk back from the end of the path to the last slash.\<close>

fun filename_at :: "u8 list \<Rightarrow> nat \<Rightarrow> nat" where
  "filename_at path 0 = 0"
| "filename_at path (Suc p) = (if path ! p \<noteq> of_char (CHR ''/'') then filename_at path p else Suc p)"

definition get_filename :: "u8 list \<Rightarrow> u8 list" where
  "get_filename path = drop (filename_at path (length path)) path"

definition le32 :: "u32 \<Rightarrow> u8 list" where
  "le32 x = [ucast x, ucast (drop_bit 8 x), ucast (drop_bit 16 x), ucast (drop_bit 24 x)]"

text \<open>\<open>strncpy(name, s, 31); name[31] = 0;\<close>\<close>

definition name_field :: "u8 list \<Rightarrow> u8 list" where
  "name_field s = take 31 s @ replicate (32 - length (take 31 s)) 0"

text \<open>The entry loop of \<open>main\<close>; a file is its path and its contents.\<close>

fun image_entries :: "u32 \<Rightarrow> (u8 list \<times> u8 list) list \<Rightarrow> u8 list" where
  "image_entries off [] = []"
| "image_entries off ((path, data) # fs) =
     name_field (get_filename path) @ le32 off @ le32 (of_nat (length data)) @
     image_entries (off + of_nat (length data)) fs"

definition mkramdisk :: "(u8 list \<times> u8 list) list \<Rightarrow> u8 list" where
  "mkramdisk fs =
     le32 RAMDISK_MAGIC @ le32 (of_nat (length fs)) @
     image_entries (of_nat (8 + length fs * 40)) fs @ concat (map snd fs)"

section \<open>Reading an image back\<close>

text \<open>The bytes \<open>bs\<close> are in memory from \<open>a\<close> on.\<close>

definition bytes_at :: "memory \<Rightarrow> u64 \<Rightarrow> u8 list \<Rightarrow> bool" where
  "bytes_at m a bs \<longleftrightarrow> (\<forall>i < length bs. m (a + of_nat i) = bs ! i)"

lemma bytes_at_append:
  "bytes_at m a (xs @ ys) \<longleftrightarrow> bytes_at m a xs \<and> bytes_at m (a + of_nat (length xs)) ys"
proof (intro iffI conjI)
  assume h: "bytes_at m a (xs @ ys)"
  show "bytes_at m a xs" unfolding bytes_at_def
  proof (intro allI impI)
    fix i assume "i < length xs"
    then show "m (a + of_nat i) = xs ! i" using h by (auto simp: bytes_at_def nth_append dest: spec [of _ i])
  qed
  show "bytes_at m (a + of_nat (length xs)) ys" unfolding bytes_at_def
  proof (intro allI impI)
    fix i assume "i < length ys"
    then show "m (a + of_nat (length xs) + of_nat i) = ys ! i"
      using h by (auto simp: bytes_at_def nth_append add.assoc dest: spec [of _ "length xs + i"])
  qed
next
  assume h: "bytes_at m a xs \<and> bytes_at m (a + of_nat (length xs)) ys"
  show "bytes_at m a (xs @ ys)" unfolding bytes_at_def
  proof (intro allI impI)
    fix i assume i: "i < length (xs @ ys)"
    show "m (a + of_nat i) = (xs @ ys) ! i"
    proof (cases "i < length xs")
      case True
      then show ?thesis using h by (simp add: bytes_at_def nth_append)
    next
      case False
      then obtain j where j: "i = length xs + j" using le_Suc_ex not_less by blast
      then have "m (a + of_nat (length xs) + of_nat j) = ys ! j" using h i by (auto simp: bytes_at_def)
      then show ?thesis using j by (simp add: nth_append add.assoc)
    qed
  qed
qed

lemma bytes_at_Cons: "bytes_at m a (x # xs) \<longleftrightarrow> m a = x \<and> bytes_at m (a + 1) xs"
  using bytes_at_append [of m a "[x]" xs] by (simp add: bytes_at_def)

lemma load32_le32:
  assumes "bytes_at m a (le32 x)"
  shows "load32 m a = x"
proof (rule bit_word_eqI)
  fix i assume "i < LENGTH(32)"
  then have i: "i < 32" by simp
  have b: "m a = ucast x" "m (a + 1) = ucast (drop_bit 8 x)" "m (a + 2) = ucast (drop_bit 16 x)"
    "m (a + 3) = ucast (drop_bit 24 x)"
    using assms by (simp_all add: le32_def bytes_at_Cons add.assoc)
  have k: "bit (ucast (drop_bit (8 * k) x) :: u8) (i mod 8) \<longleftrightarrow> bit x i" if "i div 8 = k" for k
  proof -
    have "8 * k + i mod 8 = i" using that by (metis add.commute mod_mult_div_eq mult.commute)
    then show ?thesis by (simp add: bit_ucast_iff bit_drop_bit_eq)
  qed
  have "i div 8 < 4" using i by auto
  then consider "i div 8 = 0" | "i div 8 = 1" | "i div 8 = 2" | "i div 8 = 3" by linarith
  then have "bit (m (a + of_nat (i div 8))) (i mod 8) \<longleftrightarrow> bit x i"
    by cases (use b k [of 0] k [of 1] k [of 2] k [of 3] in simp_all)
  then show "bit (load32 m a) i \<longleftrightarrow> bit x i" using i by (simp add: bit_ucast_iff bit_load_le)
qed

lemma length_le32 [simp]: "length (le32 x) = 4"
  by (simp add: le32_def)

lemma length_name_field [simp]: "length (name_field s) = 32"
  by (simp add: name_field_def)

lemma length_image_entries [simp]: "length (image_entries off fs) = 40 * length fs"
  by (induction off fs rule: image_entries.induct) simp_all

text \<open>A name field holds the first 31 bytes of the name and no other string.\<close>

lemma name_field_string:
  assumes "bytes_at m e (name_field s)" "0 \<notin> set s"
  shows "cstring (kread m) e t \<longleftrightarrow> t = take 31 s"
proof -
  let ?t = "take 31 s"
  obtain z where z: "name_field s = (?t @ [0]) @ z" 
    by (cases "32 - length ?t") (auto simp: name_field_def)
  have "bytes_at m e (?t @ [0])" using assms(1) unfolding z by (simp only: bytes_at_append)
  then have "bytes_at m e ?t" "bytes_at m (e + of_nat (length ?t)) [0]"
    by (simp_all only: bytes_at_append)
  moreover from this(2) have "m (e + of_nat (length ?t)) = 0" by (simp add: bytes_at_def)
  moreover have "0 \<notin> set ?t" using assms(2) by (auto dest: in_set_takeD)
  ultimately have "cstring (kread m) e ?t" unfolding cstring_kread_iff bytes_at_def by blast
  then show ?thesis using cstring_unique by blast
qed

lemma image_entry_at:
  assumes "bytes_at m a (image_entries off fs)" "i < length fs"
  shows "bytes_at m (a + of_nat (40 * i))
    (name_field (get_filename (fst (fs ! i))) @
     le32 (off + of_nat (length (concat (map snd (take i fs))))) @ le32 (of_nat (length (snd (fs ! i)))))"
  using assms
proof (induction off fs arbitrary: a i rule: image_entries.induct)
  case (2 off path data fs)
  show ?case
  proof (cases i)
    case 0
    with 2 show ?thesis by (simp add: bytes_at_append)
  next
    case (Suc j)
    have "bytes_at m (a + 40) (image_entries (off + of_nat (length data)) fs)"
      using "2.prems"(1) by (simp add: bytes_at_append add.assoc)
    from "2.IH" [OF this, of j] "2.prems"(2) Suc show ?thesis by (simp add: add.assoc)
  qed
qed simp

lemma concat_at:
  assumes "bytes_at m a (concat xss)" "i < length xss"
  shows "bytes_at m (a + of_nat (length (concat (take i xss)))) (xss ! i)"
  using assms
proof (induction xss arbitrary: a i)
  case (Cons xs xss)
  show ?case
  proof (cases i)
    case 0
    with Cons show ?thesis by (simp add: bytes_at_append)
  next
    case (Suc j)
    with Cons.prems Cons.IH [of "a + of_nat (length xs)" j] show ?thesis
      by (simp add: bytes_at_append add.assoc)
  qed
qed simp

text \<open>The loop stops at the first entry with the name.\<close>

lemma find_entry_spec:
  assumes "cstring rd p name" "length name < 256"
  shows "find_entry m rd p e n =
    Inr (map_option (\<lambda>i. e + of_nat (40 * i)) (find (\<lambda>i. cstring (kread m) (e + of_nat (40 * i)) name) [0..<n]))"
proof (induction n arbitrary: e)
  case (Suc n)
  have up: "[0..<Suc n] = 0 # map Suc [0..<n]" by (simp add: map_Suc_upt upt_conv_Cons)
  have sh: "e + of_nat (40 * Suc i) = e + 40 + of_nat (40 * i)" for i by (simp add: add.assoc)
  show ?case unfolding up find_entry.simps streq_kernel [OF assms] bind_stop.simps Suc.IH
    by (simp only: find.simps find_map_Suc sh) (auto simp: option.map_comp comp_def sh add.assoc simp del: of_nat_mult of_nat_Suc)
qed simp

lemma length_concat_member: "xs \<in> set xss \<Longrightarrow> length xs \<le> length (concat xss)"
  by (induction xss) auto

lemma ucast_of_nat_u32: "k < 2 ^ 32 \<Longrightarrow> (ucast (of_nat k :: u32) :: u64) = of_nat k"
  by (rule word_unat_eq_iff [THEN iffD2]) (simp add: unat_of_nat unsigned_ucast_eq take_bit_nat_eq_self)

text \<open>The parts of an image in memory.\<close>

lemma image_parts:
  assumes "bytes_at m b (mkramdisk fs)" "length (mkramdisk fs) < 0x80000000"
  shows "length (mkramdisk fs) = 8 + 40 * length fs + length (concat (map snd fs))"
    "load32 m b = RAMDISK_MAGIC" "unat (load32 m (b + 4)) = length fs"
    "bytes_at m (b + 8) (image_entries (of_nat (8 + length fs * 40)) fs)"
    "bytes_at m (b + of_nat (8 + 40 * length fs)) (concat (map snd fs))"
proof -
  show len: "length (mkramdisk fs) = 8 + 40 * length fs + length (concat (map snd fs))"
    by (simp add: mkramdisk_def)
  have n: "length fs < 2 ^ 32" using assms(2) len by simp
  have img: "bytes_at m b (le32 RAMDISK_MAGIC)" "bytes_at m (b + 4) (le32 (of_nat (length fs)))"
    "bytes_at m (b + 8) (image_entries (of_nat (8 + length fs * 40)) fs)"
    "bytes_at m (b + of_nat (8 + 40 * length fs)) (concat (map snd fs))"
    using assms(1) unfolding mkramdisk_def bytes_at_append length_le32 length_image_entries
    by (simp_all add: add.assoc)
  show "load32 m b = RAMDISK_MAGIC" by (rule load32_le32 [OF img(1)])
  show "unat (load32 m (b + 4)) = length fs"
    unfolding load32_le32 [OF img(2)] using n by (simp add: unat_of_nat)
  show "bytes_at m (b + 8) (image_entries (of_nat (8 + length fs * 40)) fs)"
    "bytes_at m (b + of_nat (8 + 40 * length fs)) (concat (map snd fs))" by (fact img)+
qed

lemma image_entry_nonnull:
  assumes L: "layout_ok L" and n: "8 + 40 * n < 0x80000000" "i < n"
  shows "ramdisk_start L + 8 + of_nat (40 * i) \<noteq> 0"
proof -
  let ?b = "ramdisk_start L"
  have "?b \<le> rodata_end L" "rodata_end L \<le> image_end L" using L by (simp_all add: layout_ok_def)
  then have "unat ?b \<le> unat (image_end L)" by (simp add: word_le_nat_alt)
  then have "unat ?b + (8 + 40 * i) < 18446744073709551616"
    using n layout_okD(3) [OF L] by linarith
  then have "unat (?b + of_nat (8 + 40 * i)) = unat ?b + (8 + 40 * i)" by (rule unat_add_of_nat)
  then have "unat (?b + of_nat (8 + 40 * i)) \<noteq> unat (0 :: u64)" unfolding unat_0 by linarith
  then have "?b + of_nat (8 + 40 * i) \<noteq> 0" by metis
  moreover have "?b + 8 + of_nat (40 * i) = ?b + of_nat (8 + 40 * i)" by simp
  ultimately show ?thesis by metis
qed

text \<open>An entry says where its file lies and how long it is.\<close>

lemma image_entry_file:
  assumes m: "bytes_at m b (mkramdisk fs)" "length (mkramdisk fs) < 0x80000000"
    and i: "i < length fs" and pd: "fs ! i = (path, data)"
  defines "e \<equiv> b + 8 + of_nat (40 * i)"
  shows "unat (entry_size m e) = length data" "bytes_at m (b + ucast (entry_offset m e)) data"
proof -
  let ?n = "length fs" and ?l = "length (concat (map snd (take i fs)))"
  note len = image_parts(1) [OF m] and img = image_parts(4,5) [OF m]
  note at = image_entry_at [OF img(1) i, unfolded bytes_at_append]
  have dmem: "data \<in> set (map snd fs)" using pd i by (force simp: in_set_conv_nth)
  have "concat (map snd fs) = concat (map snd (take i fs)) @ concat (map snd (drop i fs))"
    by (metis append_take_drop_id concat_append map_append)
  then have l: "?l \<le> length (concat (map snd fs))" by simp
  have dl: "length data \<le> length (concat (map snd fs))" using dmem by (rule length_concat_member)
  have off: "entry_offset m e = of_nat (8 + ?n * 40) + of_nat ?l"
    unfolding entry_offset_def e_def using at by (intro load32_le32) simp
  have size: "entry_size m e = of_nat (length data)"
    unfolding entry_size_def e_def using at pd by (intro load32_le32) (simp add: add.assoc)
  show "unat (entry_size m e) = length data"
    unfolding size using dl m(2) len by (simp add: unat_of_nat)
  have "entry_offset m e = of_nat (8 + 40 * ?n + ?l)" unfolding off by simp
  moreover have "8 + 40 * ?n + ?l < 2 ^ 32" using l m(2) len by simp
  ultimately have "ucast (entry_offset m e) = (of_nat (8 + 40 * ?n + ?l) :: u64)"
    by (simp only: ucast_of_nat_u32)
  then show "bytes_at m (b + ucast (entry_offset m e)) data"
    using concat_at [OF img(2), of i] i pd by (simp add: take_map add.assoc)
qed

text \<open>
  C35: what \<open>mkramdisk\<close> packs, \<open>ramdisk_get_entry\<close> finds. With the image in memory and a
  C string \<open>name\<close> to look for, the result is 0 exactly when no packed file has that name (the
  last path component, cut to 31 bytes); otherwise it is the entry of the first such file, whose
  size is the file's and whose offset leads to the file's bytes.
\<close>
theorem ramdisk_roundtrip:
  assumes "layout_ok L" "bytes_at m (ramdisk_start L) (mkramdisk fs)"
    and "length (mkramdisk fs) < 0x80000000" "\<forall>(path, data) \<in> set fs. 0 \<notin> set path"
    and "cstring rd p name" "length name < 256"
  shows "case find (\<lambda>(path, data). take 31 (get_filename path) = name) fs of
      None \<Rightarrow> ramdisk_get_entry L m rd p = Inr 0
    | Some (path, data) \<Rightarrow> \<exists>e. ramdisk_get_entry L m rd p = Inr e \<and> e \<noteq> 0 \<and>
        unat (entry_size m e) = length data \<and>
        bytes_at m (ramdisk_start L + ucast (entry_offset m e)) data"
proof -
  let ?b = "ramdisk_start L" and ?n = "length fs"
  let ?key = "\<lambda>i. take 31 (get_filename (fst (fs ! i)))" and ?e = "\<lambda>i. ramdisk_start L + 8 + of_nat (40 * i)"
  note ip = image_parts [OF assms(2,3)]
  have n: "8 + 40 * ?n < 0x80000000" using assms(3) ip(1) by simp
  have nz: "0 \<notin> set (get_filename (fst (fs ! i)))" if "i < ?n" for i
  proof -
    have "0 \<notin> set (fst (fs ! i))" using assms(4) nth_mem [OF that] by (auto simp: case_prod_beta)
    then show ?thesis by (auto simp: get_filename_def dest: in_set_dropD)
  qed
  note at = image_entry_at [OF ip(4), unfolded bytes_at_append]
  have "cstring (kread m) (?e i) name \<longleftrightarrow> ?key i = name" if "i < ?n" for i
    using name_field_string [OF conjunct1 [OF at [OF that]] nz [OF that], of name] by auto
  then have fe: "find (\<lambda>i. cstring (kread m) (?e i) name) [0..<?n] = find (\<lambda>i. ?key i = name) [0..<?n]"
    by (intro find_cong) auto
  have ge: "ramdisk_get_entry L m rd p = Inr (case find (\<lambda>i. ?key i = name) [0..<?n] of None \<Rightarrow> 0 | Some i \<Rightarrow> ?e i)"
    unfolding ramdisk_get_entry_def Let_def ip(2,3) find_entry_spec [OF assms(5,6)] fe
    by (cases "find (\<lambda>i. ?key i = name) [0..<?n]") simp_all
  have fs: "find (\<lambda>(path, data). take 31 (get_filename path) = name) fs =
      map_option ((!) fs) (find (\<lambda>i. ?key i = name) [0..<?n])"
    unfolding case_prod_beta by (rule find_nth [unfolded find_index_def])
  show ?thesis
  proof (cases "find (\<lambda>i. ?key i = name) [0..<?n]")
    case (Some i)
    then have i: "i < ?n" by (auto simp: find_Some_iff)
    obtain path data where pd: "fs ! i = (path, data)" by (cases "fs ! i")
    have "ramdisk_get_entry L m rd p = Inr (?e i)" unfolding ge Some by simp
    then show ?thesis
      using image_entry_nonnull [OF assms(1) n i] image_entry_file [OF assms(2,3) i pd] pd
      unfolding fs Some option.map(2) by (simp only: option.case prod.case) blast
  qed (simp add: fs ge)
qed

text \<open>One file \<open>bin/init\<close> with two bytes, at the ramdisk of the sample layout.\<close>

definition sample_files :: "(u8 list \<times> u8 list) list" where
  "sample_files = [(bytes_of ''bin/init'', [7, 9])]"

definition sample_image :: memory where
  "sample_image a =
     (let i = unat (a - ramdisk_start sample_layout) in
      if i < 50 then mkramdisk sample_files ! i else 0)"

lemma sample_image_at: "bytes_at sample_image (ramdisk_start sample_layout) (mkramdisk sample_files)"
proof -
  have len: "length (mkramdisk sample_files) = 50" by (simp add: mkramdisk_def sample_files_def)
  show ?thesis unfolding bytes_at_def len sample_image_def
    by (auto simp: Let_def unat_of_nat)
qed

lemma ramdisk_roundtrip_witness:
  "\<exists>e. ramdisk_get_entry sample_layout sample_image (lit (bytes_of ''init'')) 0 = Inr e \<and> e \<noteq> 0 \<and>
     unat (entry_size sample_image e) = 2 \<and>
     bytes_at sample_image (ramdisk_start sample_layout + ucast (entry_offset sample_image e)) [7, 9]"
proof -
  have "length (mkramdisk sample_files) < 0x80000000" by (simp add: mkramdisk_def sample_files_def)
  moreover have "\<forall>(path, data) \<in> set sample_files. 0 \<notin> set path" by (simp add: sample_files_def bytes_of_def)
  moreover have "cstring (lit (bytes_of ''init'')) 0 (bytes_of ''init'')" by (simp add: lit_def bytes_of_def)
  moreover have "length (bytes_of ''init'') < 256" by (simp add: bytes_of_def)
  moreover have "get_filename (bytes_of ''bin/init'') = bytes_of ''init''" by code_simp
  then have "find (\<lambda>(path, data). take 31 (get_filename path) = bytes_of ''init'') sample_files =
      Some (bytes_of ''bin/init'', [7, 9])"
    by (simp add: sample_files_def bytes_of_def)
  ultimately show ?thesis
    using ramdisk_roundtrip [OF sample_layout_ok sample_image_at] by fastforce
qed

end
