(* ===== verification/User_Mem.thy ===== *)
theory User_Mem
  imports Cstring Page_Supply
begin

text \<open>
  The kernel's accesses to user memory (\<open>user_range_ok\<close> and \<open>user_str_ok\<close> of
  \<open>kernel/arch/riscv/trap_handler.c\<close>) and what the hardware does with the accesses they
  guard. While a system call runs, a load or store at a user address goes through the Sv39
  walk of the table \<open>satp\<close> names, in S-mode with \<open>SUM\<close> set; when the walk fails the kernel
  itself traps, which \<open>trap_handler\<close> answers with an endless loop (\<open>KernelFault\<close>). The
  accessed and dirty bits of an entry, which the machine sets on its own, are not modelled,
  and neither are the reserved bits above bit 53, which the kernel never sets.
\<close>

section \<open>The hardware walk\<close>

datatype access = Load | Store

fun allows :: "access \<Rightarrow> u64 \<Rightarrow> bool" where
  "allows Load pte = has pte PTE_R"
| "allows Store pte = has pte PTE_W"

text \<open>The physical page number is the 44 bits above the flags.\<close>

definition hw_page :: "u64 \<Rightarrow> u64" where
  "hw_page pte = push_bit 12 (take_bit 44 (drop_bit 10 pte))"

text \<open>
  One level of the walk: \<open>None\<close> is a page fault. A leaf above level 0 maps a large page,
  which must be aligned to its size.
\<close>

definition hw_leaf :: "access \<Rightarrow> u64 \<Rightarrow> u64 \<Rightarrow> nat \<Rightarrow> u64 option" where
  "hw_leaf acc va pte level =
     (if allows acc pte \<and> take_bit (12 + 9 * level) (hw_page pte) = 0
      then Some (hw_page pte OR take_bit (12 + 9 * level) va)
      else None)"

fun hw_walk :: "memory \<Rightarrow> access \<Rightarrow> u64 \<Rightarrow> u64 \<Rightarrow> nat \<Rightarrow> u64 option" where
  "hw_walk m acc va t 0 =
     (let pte = load64 m (slot t (VPN va 0)) in
      if \<not> has pte PTE_V \<or> \<not> has pte PTE_R \<and> has pte PTE_W then None
      else if has pte PTE_R \<or> has pte PTE_X then hw_leaf acc va pte 0
      else None)"
| "hw_walk m acc va t (Suc level) =
     (let pte = load64 m (slot t (VPN va (Suc level))) in
      if \<not> has pte PTE_V \<or> \<not> has pte PTE_R \<and> has pte PTE_W then None
      else if has pte PTE_R \<or> has pte PTE_X then hw_leaf acc va pte (Suc level)
      else hw_walk m acc va (hw_page pte) level)"

text \<open>An Sv39 address repeats bit 38 in all the bits above it.\<close>

definition canonical :: "u64 \<Rightarrow> bool" where
  "canonical va \<longleftrightarrow> signed_take_bit 38 va = va"

definition satp_root :: "u64 \<Rightarrow> u64" where
  "satp_root s = push_bit 12 (take_bit 44 s)"

definition translate :: "memory \<Rightarrow> u64 \<Rightarrow> access \<Rightarrow> u64 \<Rightarrow> u64 option" where
  "translate m satp_val acc va =
     (if canonical va then hw_walk m acc va (satp_root satp_val) 2 else None)"

definition user_load :: "memory \<Rightarrow> u64 \<Rightarrow> reader" where
  "user_load m satp_val va =
     (case translate m satp_val Load va of None \<Rightarrow> Inl (KernelFault va) | Some pa \<Rightarrow> Inr (m pa))"

definition user_store :: "u64 \<Rightarrow> u64 \<Rightarrow> u8 \<Rightarrow> memory \<Rightarrow> stop + memory" where
  "user_store satp_val va b m =
     (case translate m satp_val Store va of None \<Rightarrow> Inl (KernelFault va) | Some pa \<Rightarrow> Inr (m(pa := b)))"

section \<open>The checks before an access\<close>

definition user_page_ok :: "memory \<Rightarrow> u64 \<Rightarrow> u64 \<Rightarrow> u64 \<Rightarrow> bool" where
  "user_page_ok m pt need p =
     (let pte = vmm_lookup m pt p in
      \<not> (pte = 0 \<or> \<not> has (load64 m pte) PTE_V \<or> \<not> has (load64 m pte) PTE_U) \<and>
      \<not> has (need AND NOT (load64 m pte)) (PTE_R OR PTE_W))"

text \<open>The loop of \<open>user_range_ok\<close> leaves with 0 at the first page that fails.\<close>

definition user_range_ok :: "memory \<Rightarrow> u64 \<Rightarrow> u64 \<Rightarrow> u64 \<Rightarrow> u64 \<Rightarrow> bool" where
  "user_range_ok m pt va len need =
     (if va = 0 then False
      else
        (let start = page_base va; stop_at = page_up (va + len) in
         for_pages () (\<lambda>p s. if user_page_ok m pt need p then Inr () else Inl ()) start stop_at ()
           = Inr ()))"

fun user_str_ok :: "memory \<Rightarrow> u64 \<Rightarrow> u64 \<Rightarrow> u64 \<Rightarrow> nat \<Rightarrow> stop + bool" where
  "user_str_ok m satp_val pt s 0 = Inr False"
| "user_str_ok m satp_val pt s (Suc n) =
     (if \<not> user_range_ok m pt s 1 PTE_R then Inr False
      else bind_stop (user_load m satp_val s)
        (\<lambda>c. if c = 0 then Inr True else user_str_ok m satp_val pt (s + 1) n))"

section \<open>What the checks establish\<close>

text \<open>The loop ends whatever the arguments, and visits every page of the range.\<close>

lemma page_aligned_up [simp]: "page_aligned (page_up a)"
  unfolding page_up_def page_base_def [symmetric] by simp

lemma for_pages_empty: "\<not> a < e \<Longrightarrow> for_pages d body a e s = Inr s"
  by (subst for_pages.simps) simp

lemma for_pages_check:
  assumes "page_aligned a" "page_aligned e"
  shows "for_pages () (\<lambda>p s. if P p then Inr () else Inl ()) a e () = Inr ()
    \<longleftrightarrow> (\<forall>p \<in> pages_in a e. P p)"
proof (cases "a < e")
  case False
  then have "pages_in a e = {}" by (auto simp: pages_in_def)
  then show ?thesis using False by (simp add: for_pages_empty)
next
  case True
  let ?body = "\<lambda>p (s :: unit). if P p then Inr () else (Inl () :: unit + unit)"
  let ?I = "\<lambda>p (s :: unit). page_aligned p \<and> a \<le> p \<and> (\<forall>q \<in> pages_in a p. P q)"
  have "case for_pages () ?body a e () of Inl r \<Rightarrow> \<exists>p \<in> pages_in a e. \<not> P p | Inr s \<Rightarrow> ?I e s"
  proof (rule for_pages_aligned [where I = ?I])
    show "page_aligned a \<and> a \<le> a \<and> (\<forall>q \<in> pages_in a a. P q)" using assms by simp
  next
    fix p :: u64 and s r assume "page_aligned p" "a \<le> p" "p < e" "?body p s = Inl r"
    then show "\<exists>p \<in> pages_in a e. \<not> P p" by (auto simp: pages_in_def split: if_splits)
  next
    fix p :: u64 and s s'
    assume I: "page_aligned p \<and> a \<le> p \<and> (\<forall>q \<in> pages_in a p. P q)" and p: "p < e" and b: "?body p s = Inr s'"
    note st = page_aligned_step [OF conjunct1 [OF I] assms(2) p]
    have "pages_in a (p + 4096) = insert p (pages_in a p)" using I st(2) by (intro pages_in_step) simp_all
    moreover have "a \<le> p + 4096" using I st(2) by (meson not_less order_trans)
    ultimately show "page_aligned (p + 4096) \<and> a \<le> p + 4096 \<and> (\<forall>q \<in> pages_in a (p + 4096). P q)"
      using I b st(3) by (auto split: if_splits)
  qed (use assms True in auto)
  then show ?thesis by (auto split: sum.splits)
qed

text \<open>
  \<open>user_range_ok\<close> always ends, and accepts exactly when the address is not null and every
  page from the one that holds \<open>va\<close> up to the rounded end, both computed modulo \<open>2 ^ 64\<close>,
  has a valid user entry with the needed permissions.
\<close>

lemma user_range_ok_iff:
  "user_range_ok m pt va len need \<longleftrightarrow>
     va \<noteq> 0 \<and> (\<forall>p \<in> pages_in (page_base va) (page_up (va + len)). user_page_ok m pt need p)"
  using for_pages_check [of "page_base va" "page_up (va + len)" "user_page_ok m pt need"]
  by (simp add: user_range_ok_def Let_def)

lemma unat_page_up:
  assumes "unat a + 4095 < 18446744073709551616"
  shows "unat (page_up a) = (unat a + 4095) div 4096 * 4096"
proof -
  have "unat (a + 0xFFF) = unat a + 4095" using unat_add_of_nat [of a 4095] assms by simp
  then show ?thesis unfolding page_up_def page_base_def [symmetric] by (simp add: unat_page_base)
qed

lemma page_in_range:
  assumes "unat va + unat len + 4095 < 18446744073709551616" "i < unat len"
  shows "page_base (va + of_nat i) \<in> pages_in (page_base va) (page_up (va + len))"
proof -
  note b = assms(1)
  have l: "unat (va + len) = unat va + unat len"
    using unat_add_of_nat [of va "unat len"] b by simp
  have i: "unat (va + of_nat i) = unat va + i" using b assms(2) by (intro unat_add_of_nat) linarith
  have up: "unat (page_up (va + len)) = (unat va + unat len + 4095) div 4096 * 4096"
    using unat_page_up [of "va + len"] b l by simp
  have "unat va div 4096 \<le> (unat va + i) div 4096" by (rule div_le_mono) simp
  then have lo: "unat va div 4096 * 4096 \<le> (unat va + i) div 4096 * 4096" by simp
  have "(unat va + i) div 4096 * 4096 \<le> unat va + i" by simp
  moreover have "unat va + unat len \<le> (unat va + unat len + 4095) div 4096 * 4096"
    using div_mult_mod_eq [of "unat va + unat len + 4095" 4096]
      mod_less_divisor [of 4096 "unat va + unat len + 4095"] by linarith
  ultimately have hi: "(unat va + i) div 4096 * 4096 < (unat va + unat len + 4095) div 4096 * 4096"
    using assms(2) by linarith
  show ?thesis using lo hi by (simp add: pages_in_def word_le_nat_alt word_less_nat_alt unat_page_base i up)
qed

lemma page_in_low_range:
  "unat va + unat len \<le> 2 ^ 38 \<Longrightarrow> i < unat len \<Longrightarrow>
     page_base (va + of_nat i) \<in> pages_in (page_base va) (page_up (va + len))"
  by (rule page_in_range) simp_all

lemma VPN_page_base [simp]: "VPN (page_base va) level = VPN va level"
proof -
  have "unat va div 4096 * 4096 div (4096 * 2 ^ (9 * level)) = unat va div (4096 * 2 ^ (9 * level))"
    by (simp add: div_mult2_eq)
  moreover have "(2 :: nat) ^ (12 + 9 * level) = 4096 * 2 ^ (9 * level)" by (simp add: power_add)
  ultimately show ?thesis by (simp add: VPN_unat unat_page_base)
qed

lemma path_leaf_page_base [simp]: "path_leaf m r (page_base va) = path_leaf m r va"
  by (simp add: path_leaf_def)

lemma slot_nonzero: "t \<in> ram_frames \<Longrightarrow> i < 512 \<Longrightarrow> slot t i \<noteq> 0"
proof
  assume t: "t \<in> ram_frames" "i < 512" and z: "slot t i = 0"
  have "page_base (slot t i) = t" using frame_aligned [OF t(1)] t(2) by (rule page_base_slot)
  then have "t = 0" unfolding z by (simp add: page_base_def)
  then show False using frame_nonzero t(1) by blast
qed

text \<open>In a well-formed forest the check reads the permissions off the leaf of the path.\<close>

lemma user_page_ok_iff:
  assumes wf: "wf_forest L m R" and r: "r \<in> R"
  shows "user_page_ok m r need p \<longleftrightarrow>
    has (path_leaf m r p) PTE_V \<and> has (path_leaf m r p) PTE_U \<and>
    (has need PTE_R \<longrightarrow> has (path_leaf m r p) PTE_R) \<and> (has need PTE_W \<longrightarrow> has (path_leaf m r p) PTE_W)"
proof -
  have bits: "\<not> has (need AND NOT e) (PTE_R OR PTE_W) \<longleftrightarrow>
      (has need PTE_R \<longrightarrow> has e PTE_R) \<and> (has need PTE_W \<longrightarrow> has e PTE_W)" for e
  proof -
    have "has x (PTE_R OR PTE_W) \<longleftrightarrow> has x PTE_R \<or> has x PTE_W" for x
      by (simp add: has_def bit.conj_disj_distrib or_eq_0_iff)
    then show ?thesis by (auto simp: has_flags bit_and_iff bit_not_iff)
  qed
  show ?thesis
  proof (cases "tree m r [VPN p 2, VPN p 1]")
    case None
    then have "vmm_lookup m r p = 0" "path_leaf m r p = 0"
      using vmm_lookup_eq [OF wf r, of p] by (simp_all add: path_leaf_def leaf_at_def)
    then show ?thesis by (simp add: user_page_ok_def has_def)
  next
    case (Some t)
    then have "vmm_lookup m r p = slot t (VPN p 0)" "path_leaf m r p = load64 m (slot t (VPN p 0))"
      using vmm_lookup_eq [OF wf r, of p] by (simp_all add: path_leaf_def leaf_at_def)
    moreover have "slot t (VPN p 0) \<noteq> 0"
      using wf_used [OF wf r Some] used_subset by (intro slot_nonzero) auto
    ultimately show ?thesis by (simp add: user_page_ok_def bits Let_def)
  qed
qed

section \<open>Accesses that the walk allows\<close>

lemma bit_hw_page: "bit (hw_page pte) k \<longleftrightarrow> 12 \<le> k \<and> k < 56 \<and> bit pte (k - 2)"
  by (auto simp: hw_page_def bit_simps)

lemma small_bits: "unat (a :: u64) < 2 ^ n \<Longrightarrow> n \<le> k \<Longrightarrow> \<not> bit a k"
proof -
  assume "unat a < 2 ^ n" "n \<le> k"
  then have "take_bit n (unat a) = unat a" by (simp add: take_bit_nat_eq_self)
  then have "bit (unat a) k = bit (take_bit n (unat a)) k" by simp
  then show ?thesis using \<open>n \<le> k\<close> by (simp add: bit_take_bit_iff bit_unsigned_iff)
qed

lemma hw_page_eq:
  assumes "unat (PTE_TO_PA e) < 2 ^ 56"
  shows "hw_page e = PTE_TO_PA e"
proof (rule bit_word_eqI)
  fix k assume k: "k < LENGTH(64)"
  have "\<not> bit (PTE_TO_PA e) k" if "56 \<le> k" using small_bits [OF assms that] .
  then show "bit (hw_page e) k = bit (PTE_TO_PA e) k" using k
    by (cases "56 \<le> k") (simp_all add: bit_hw_page bit_PTE_TO_PA)
qed

lemma satp_root_MAKE:
  assumes "page_aligned r" "unat r < 2 ^ 56"
  shows "satp_root (MAKE_SATP r) = r"
proof (rule bit_word_eqI)
  fix k assume k: "k < LENGTH(64)"
  have hi: "\<not> bit r k" if "56 \<le> k" using small_bits [OF assms(2) that] .
  have eight: "bit (8 :: u64) j \<longleftrightarrow> j = 3" for j using bit_flags(4) [of j] by (simp add: PTE_X_def)
  consider "k < 12" | j where "k = 12 + j" "j < 44" | "56 \<le> k" 
    using le_Suc_ex [of 12 k] by (cases "k < 12"; cases "56 \<le> k") auto
  then show "bit (satp_root (MAKE_SATP r)) k = bit r k"
    by cases (use k hi assms(1) page_aligned_bits [of r] in
        \<open>auto simp: satp_root_def MAKE_SATP_def bit_simps eight\<close>)
qed

lemma canonical_low: "unat va < 2 ^ 38 \<Longrightarrow> canonical va"
proof -
  assume "unat va < 2 ^ 38"
  then have "\<not> bit va k" if "38 \<le> k" for k using small_bits that by blast
  then have "signed_take_bit 38 va = va"
    by (intro bit_word_eqI) (auto simp: bit_signed_take_bit_iff min_def)
  then show ?thesis by (simp add: canonical_def)
qed

text \<open>Where a virtual address lands.\<close>

definition user_addr :: "memory \<Rightarrow> u64 \<Rightarrow> u64 \<Rightarrow> u64" where
  "user_addr m r va = PTE_TO_PA (path_leaf m r va) + of_nat (unat va mod 4096)"

lemma or_page_offset:
  assumes "page_aligned p"
  shows "p OR take_bit 12 va = p + of_nat (unat va mod 4096)"
proof -
  have "p AND take_bit 12 va = 0"
    by (rule bit_word_eqI) (use assms in \<open>auto simp: page_aligned_bits bit_simps\<close>)
  then have "p OR take_bit 12 va = p + take_bit 12 va" by (simp add: disjunctive_add_eq_or)
  moreover have "take_bit 12 va = of_nat (unat va mod 4096)"
    by (rule word_unat_eq_iff [THEN iffD2])
      (simp add: unsigned_take_bit_eq take_bit_eq_mod unat_of_nat unat_mod)
  ultimately show ?thesis by simp
qed

lemma frame_small: "p \<in> ram_frames \<Longrightarrow> unat p < 2 ^ 56"
  using frame_bounds [of p] by (simp add: word_less_nat_alt)

text \<open>An inner entry of a well-formed tree leads the hardware to the table the code uses.\<close>

lemma hw_walk_inner:
  assumes wf: "wf_forest L m R" and r: "r \<in> R" and t: "tree m r q = Some t" "length q < 2"
    and c: "tree m r (q @ [VPN va (Suc level)]) = Some t'"
  shows "hw_walk m acc va t (Suc level) = hw_walk m acc va t' level"
proof -
  let ?e = "load64 m (slot t (VPN va (Suc level)))"
  have "child m (2 - length q) t (VPN va (Suc level)) = Some t'"
    using tree_snoc [OF t(1), of "VPN va (Suc level)"] t(2) c by simp
  then have v: "has ?e PTE_V" and t': "t' = PTE_TO_PA ?e"
    using wf_child [OF wf r t, of "VPN va (Suc level)"] by (auto split: if_splits)
  have nl: "\<not> is_leaf ?e" using wf_inner [OF wf r t(1,2) _ v] by simp
  have "t' \<in> ram_frames" using wf_used [OF wf r c] used_subset by blast
  then have "hw_page ?e = t'" unfolding t' by (intro hw_page_eq frame_small)
  then show ?thesis using v nl by (simp add: is_leaf_def)
qed

lemma translate_table:
  assumes wf: "wf_forest L m R" and r: "r \<in> R" and va: "unat va < 2 ^ 38" and e: "has (path_leaf m r va) PTE_V"
  obtains t where "path_leaf m r va = load64 m (slot t (VPN va 0))"
    "\<forall>acc. translate m (MAKE_SATP r) acc va = hw_walk m acc va t 0"
proof -
  have rt: "tree m r [] = Some r" by simp
  have r_al: "page_aligned r" "r \<in> ram_frames"
    using wf_page [OF wf r rt] wf_used [OF wf r rt] used_subset by auto
  have root: "satp_root (MAKE_SATP r) = r" by (rule satp_root_MAKE [OF r_al(1) frame_small [OF r_al(2)]])
  obtain t where t: "tree m r ([VPN va 2] @ [VPN va 1]) = Some t"
    using e by (cases "tree m r ([VPN va 2] @ [VPN va 1])") (auto simp: path_leaf_def leaf_at_def has_def)
  obtain t1 where t1: "tree m r ([] @ [VPN va 2]) = Some t1"
    using tree_prefix [OF t] by auto
  have two: "(2 :: nat) = Suc 1" "(1 :: nat) = Suc 0" by simp_all
  have w2: "hw_walk m acc va r 2 = hw_walk m acc va t1 1" for acc
    unfolding two(1) using t1 unfolding two(1) by (intro hw_walk_inner [OF wf r rt]) simp_all
  have w1: "hw_walk m acc va t1 1 = hw_walk m acc va t 0" for acc
    unfolding two(2) using t t1 unfolding two(2)
    by (intro hw_walk_inner [OF wf r, of "[VPN va 2]"]) simp_all
  show thesis
  proof (rule that)
    show "path_leaf m r va = load64 m (slot t (VPN va 0))" using t by (simp add: path_leaf_def leaf_at_def)
    show "\<forall>acc. translate m (MAKE_SATP r) acc va = hw_walk m acc va t 0"
      unfolding translate_def root w2 w1 using canonical_low [OF va] by simp
  qed
qed

lemma translate_leaf:
  assumes wf: "wf_forest L m R" and r: "r \<in> R" and va: "unat va < 2 ^ 38"
    and e: "has (path_leaf m r va) PTE_V" "user_frame (path_leaf m r va) \<noteq> None"
      "has (path_leaf m r va) PTE_R" "allows acc (path_leaf m r va)"
  shows "translate m (MAKE_SATP r) acc va = Some (user_addr m r va)"
proof -
  obtain t where leaf: "path_leaf m r va = load64 m (slot t (VPN va 0))"
    and tr: "\<forall>acc. translate m (MAKE_SATP r) acc va = hw_walk m acc va t 0"
    by (rule translate_table [OF wf r va e(1)])
  let ?e = "load64 m (slot t (VPN va 0))"
  have "tree m r [VPN va 2, VPN va 1, VPN va 0] = user_frame (path_leaf m r va)"
    unfolding path_leaf_def by (rule tree_leaf) simp_all
  moreover have "user_frame (path_leaf m r va) = Some (PTE_TO_PA ?e)"
    using e(2) leaf by (auto simp: user_frame_def split: if_splits)
  ultimately have "tree m r (vpath va) = Some (PTE_TO_PA ?e)" by simp
  then have "PTE_TO_PA ?e \<in> ram_frames" using wf_used [OF wf r] used_subset by blast
  then have page: "hw_page ?e = PTE_TO_PA ?e" "page_aligned (PTE_TO_PA ?e)"
    using hw_page_eq [OF frame_small] frame_aligned by blast+
  have "take_bit 12 (PTE_TO_PA ?e) = 0"
    using page(2) by (simp add: page_aligned_def mask12 take_bit_eq_mask)
  then have "hw_walk m acc va t 0 = Some (user_addr m r va)"
    using e leaf page or_page_offset [OF page(2), of va]
    by (simp add: hw_leaf_def user_addr_def)
  then show ?thesis by (simp add: tr)
qed

text \<open>The hardware refuses an entry that is writable but not readable.\<close>

lemma translate_unreadable:
  assumes "wf_forest L m R" "r \<in> R" "unat va < 2 ^ 38"
    and "has (path_leaf m r va) PTE_V" "\<not> has (path_leaf m r va) PTE_R" "has (path_leaf m r va) PTE_W"
  shows "translate m (MAKE_SATP r) acc va = None"
proof -
  obtain t where "path_leaf m r va = load64 m (slot t (VPN va 0))"
    "\<forall>acc. translate m (MAKE_SATP r) acc va = hw_walk m acc va t 0"
    by (rule translate_table [OF assms(1-4)])
  then show ?thesis using assms(5,6) by simp
qed

text \<open>
  C11: the check is sound. Below the canonical half of the address space, in a well-formed
  address space whose writable entries are readable, when \<open>user_range_ok\<close> accepts
  \<open>[va, va + len)\<close> no access inside the range faults: a load with \<open>PTE_R\<close> checked, and a
  store with \<open>PTE_W\<close> checked, reach a byte of a frame of the process itself.
\<close>
theorem user_range_ok_sound:
  assumes "wf_forest L m R" "r \<in> R" "user_range_ok m r va len need"
    and "unat va + unat len \<le> 2 ^ 38" "i < unat len"
    and "\<forall>p. has (path_leaf m r p) PTE_W \<longrightarrow> has (path_leaf m r p) PTE_R"
    and "has need PTE_R \<or> has need PTE_W"
  shows "(has need PTE_R \<longrightarrow>
       user_load m (MAKE_SATP r) (va + of_nat i) = Inr (m (user_addr m r (va + of_nat i)))) \<and>
     (has need PTE_W \<longrightarrow>
       user_store (MAKE_SATP r) (va + of_nat i) b m = Inr (m(user_addr m r (va + of_nat i) := b))) \<and>
     tree m r (vpath (va + of_nat i)) = Some (page_base (user_addr m r (va + of_nat i)))"
proof -
  let ?a = "va + of_nat i"
  let ?e = "path_leaf m r ?a"
  have "user_page_ok m r need (page_base ?a)"
    using assms(3) page_in_low_range [OF assms(4,5)] unfolding user_range_ok_iff by blast
  then have e: "has ?e PTE_V" "has ?e PTE_U" "has need PTE_R \<longrightarrow> has ?e PTE_R" "has need PTE_W \<longrightarrow> has ?e PTE_W"
    using user_page_ok_iff [OF assms(1,2)] by simp_all
  have rd: "has ?e PTE_R" using e assms(6,7) by blast
  have uf: "user_frame ?e = Some (PTE_TO_PA ?e)" using e rd by (simp add: user_frame_def is_leaf_def)
  have "unat ?a = unat va + i" using assms(4,5) by (intro unat_add_of_nat) simp
  then have low: "unat ?a < 2 ^ 38" using assms(4,5) by simp
  have tr: "translate m (MAKE_SATP r) acc ?a = Some (user_addr m r ?a)" if "allows acc ?e" for acc
    using translate_leaf [OF assms(1,2) low e(1) _ rd that] uf by simp
  have "page_base (user_addr m r ?a) = PTE_TO_PA ?e"
    unfolding user_addr_def by (rule page_base_add) simp_all
  moreover have "tree m r (vpath ?a) = user_frame ?e"
    unfolding path_leaf_def by (rule tree_leaf) simp_all
  ultimately show ?thesis using uf e tr [of Load] tr [of Store]
    by (simp add: user_load_def user_store_def)
qed

lemma sample_user_read_write:
  "has (path_leaf sample_user sample_root p) PTE_W \<Longrightarrow> has (path_leaf sample_user sample_root p) PTE_R"
proof -
  have "path_leaf sample_user sample_root p = path_leaf sample_user sample_root 0x1000 \<or>
      path_leaf sample_user sample_root p = 0"
    using sample_user_space(3) [of p] by (cases "vpath p = vpath 0x1000") (auto simp: path_leaf_def)
  moreover have "has (path_leaf sample_user sample_root 0x1000) PTE_R"
    unfolding sample_user_space(2) using has_entry(2) [OF user_rw_flags] by (simp add: has_flags bit_or_iff bit_flags)
  moreover assume "has (path_leaf sample_user sample_root p) PTE_W"
  ultimately show ?thesis by (auto simp: has_def)
qed

lemma sample_range_ok: "user_range_ok sample_user sample_root 0x1004 16 PTE_W"
proof -
  have "page_base 0x1004 = 0x1000" "page_up (0x1004 + 16) = 0x2000"
    by (simp_all add: page_base_def page_up_def)
  moreover have "pages_in 0x1000 0x2000 = {0x1000}"
    using pages_in_step [of "0x1000" "0x1000"] by (simp add: page_aligned_def)
  moreover have "user_page_ok sample_user sample_root PTE_W 0x1000"
    unfolding user_page_ok_iff [OF sample_user_space(1) singletonI] sample_user_space(2)
    using has_entry [OF user_rw_flags] by (simp add: has_flags bit_or_iff bit_flags)
  ultimately show ?thesis by (simp add: user_range_ok_iff)
qed

lemma user_range_ok_sound_witness:
  "user_store (MAKE_SATP sample_root) (0x1004 + of_nat 3) 65 sample_user =
     Inr (sample_user(user_addr sample_user sample_root (0x1004 + of_nat 3) := 65))"
  using user_range_ok_sound [OF sample_user_space(1) singletonI sample_range_ok, of 3 65] sample_user_read_write
  by (simp add: has_flags bit_flags)

text \<open>
  C38: the check wraps. The last byte of the address space passes \<open>user_range_ok\<close> in every
  address space, because \<open>va + len\<close> is 0; where no page table entry covers it, the access
  the check was to guard faults in the kernel.
\<close>
theorem user_range_ok_wraps:
  "user_range_ok m r (-1) 1 need \<and>
   (\<not> has (load64 m (slot (satp_root s) 511)) PTE_V \<longrightarrow>
      user_load m s (-1) = Inl (KernelFault (-1)) \<and> user_store s (-1) b m = Inl (KernelFault (-1)))"
proof -
  have "page_up (-1 + 1) = 0" by (simp add: page_up_def)
  moreover have "pages_in a 0 = {}" for a by (simp add: pages_in_def)
  ultimately have "user_range_ok m r (-1) 1 need" by (simp add: user_range_ok_iff)
  moreover have "VPN (-1) 2 = 511" by (simp add: VPN_unat unsigned_minus_1_eq_mask mask_eq_exp_minus_1)
  then have "hw_walk m acc (-1) (satp_root s) 2 = None" if "\<not> has (load64 m (slot (satp_root s) 511)) PTE_V" for acc
    using that by (simp add: numeral_2_eq_2 del: One_nat_def)
  then have "translate m s acc (-1) = None" if "\<not> has (load64 m (slot (satp_root s) 511)) PTE_V" for acc
    using that by (simp add: translate_def)
  ultimately show ?thesis by (simp add: user_load_def user_store_def)
qed

lemma user_range_ok_wraps_witness:
  "user_range_ok (\<lambda>_. 0) 0x80400000 (-1) 1 PTE_W \<and>
   user_load (\<lambda>_. 0) (MAKE_SATP 0x80400000) (-1) = Inl (KernelFault (-1))"
proof -
  have "load64 (\<lambda>_. 0) a = 0" for a by (simp add: numeral_eq_Suc)
  then show ?thesis
    using user_range_ok_wraps [of "\<lambda>_. 0" "0x80400000" PTE_W "MAKE_SATP 0x80400000" 0] by (simp add: has_def)
qed

section \<open>Single bytes and strings\<close>

lemma user_byte_ok_iff:
  assumes "unat va < 2 ^ 63"
  shows "user_range_ok m r va 1 need \<longleftrightarrow> va \<noteq> 0 \<and> user_page_ok m r need (page_base va)"
proof -
  have lt: "unat va + 1 < 18446744073709551616" using assms by simp
  have l: "unat (va + 1) = unat va + 1" using unat_add_of_nat [of va 1] lt by simp
  have "unat (page_up (va + 1)) = (unat va + 1 + 4095) div 4096 * 4096"
    using unat_page_up [of "va + 1"] l assms by simp
  also have "unat va + 1 + 4095 = unat va + 4096" by simp
  also have "(unat va + 4096) div 4096 * 4096 = unat (page_base va) + 4096"
    by (simp only: div_add_self2 [OF zero_neq_numeral [symmetric]] unat_page_base add_mult_distrib mult_1)
  also have "\<dots> = unat (page_base va + 4096)"
  proof -
    have "unat (page_base va) \<le> unat va" by (simp add: unat_page_base)
    then show ?thesis using unat_add_of_nat [of "page_base va" 4096] assms by simp
  qed
  finally have up: "page_up (va + 1) = page_base va + 4096" by (rule word_unat_eq_iff [THEN iffD2])
  have "\<not> page_base va + 4096 < page_base va"
  proof -
    have "unat (page_base va) \<le> unat va" by (simp add: unat_page_base)
    then have "unat (page_base va + 4096) = unat (page_base va) + 4096"
      using unat_add_of_nat [of "page_base va" 4096] assms by simp
    then show ?thesis by (simp add: word_less_nat_alt)
  qed
  then have "pages_in (page_base va) (page_up (va + 1)) = {page_base va}"
    unfolding up using pages_in_step [of "page_base va" "page_base va"] by simp
  then show ?thesis by (simp add: user_range_ok_iff)
qed

text \<open>\<open>vmm_lookup\<close> reads 27 bits of the address; the bits above bit 38 do not matter to it.\<close>

lemma VPN_high:
  assumes "unat va < 2 ^ 38" "level \<le> 2"
  shows "VPN (va + 2 ^ 39) level = VPN va level"
proof -
  have u: "unat (va + 2 ^ 39) = unat va + 2 ^ 39"
    using unat_add_of_nat [of va "2 ^ 39"] assms by simp
  define d where "d = (2 :: nat) ^ (12 + 9 * level)"
  define c where "c = (2 :: nat) ^ (9 * (2 - level))"
  have "(2 :: nat) ^ 39 = d * (512 * c)"
  proof -
    have "(12 + 9 * level) + (9 + 9 * (2 - level)) = 39" using assms(2) by linarith
    then have "(2 :: nat) ^ 39 = 2 ^ (12 + 9 * level) * (2 ^ 9 * 2 ^ (9 * (2 - level)))"
      by (metis power_add)
    then show ?thesis by (simp add: d_def c_def)
  qed
  moreover have "d \<noteq> 0" by (simp add: d_def)
  then have "(unat va + d * (512 * c)) div d = 512 * c + unat va div d" by (rule div_mult_self2)
  ultimately have "unat (va + 2 ^ 39) div d = 512 * c + unat va div d" unfolding u by (simp only:)
  then have "unat (va + 2 ^ 39) div d mod 512 = unat va div d mod 512" by simp
  then show ?thesis by (simp add: VPN_unat d_def)
qed

text \<open>
  The check looks at too few bits. An address that is accepted is also accepted with
  bit 39 set; that address is not canonical, and the access faults in the kernel.
\<close>
theorem user_range_ok_not_canonical:
  assumes "wf_forest L m R" "r \<in> R" "unat va < 2 ^ 38" "user_range_ok m r va 1 need"
  shows "user_range_ok m r (va + 2 ^ 39) 1 need \<and>
    user_load m (MAKE_SATP r) (va + 2 ^ 39) = Inl (KernelFault (va + 2 ^ 39))"
proof -
  let ?v = "va + 2 ^ 39 :: u64"
  have u: "unat ?v = unat va + 2 ^ 39" using unat_add_of_nat [of va "2 ^ 39"] assms(3) by simp
  have lt: "unat va < 2 ^ 63" "unat ?v < 2 ^ 63" using assms(3) u by simp_all
  have "?v \<noteq> 0" using u by (metis add_is_0 power_eq_0_iff unat_0 zero_neq_numeral)
  moreover have "path_leaf m r ?v = path_leaf m r va"
    using VPN_high [OF assms(3), of 0] VPN_high [OF assms(3), of 1] VPN_high [OF assms(3), of 2]
    unfolding path_leaf_def by (simp only: one_le_numeral le_refl zero_le)
  ultimately have "user_range_ok m r ?v 1 need"
    using assms(4) unfolding user_byte_ok_iff [OF lt(1)] user_byte_ok_iff [OF lt(2)]
      user_page_ok_iff [OF assms(1,2)] path_leaf_page_base by simp
  moreover have "\<not> canonical ?v"
  proof
    assume "canonical ?v"
    then have s: "signed_take_bit 38 ?v = ?v" by (simp add: canonical_def)
    have low: "\<not> bit va k" if "38 \<le> k" for k using small_bits [OF assms(3) that] .
    define h :: u64 where "h = 2 ^ 39"
    have e: "bit h k \<longleftrightarrow> k = 39" for k unfolding h_def bit_exp_iff by auto
    have "va AND h = 0" by (intro bit_word_eqI) (use low e in \<open>auto simp: bit_and_iff\<close>)
    then have v: "?v = va OR h" unfolding h_def [symmetric] by (simp add: disjunctive_add_eq_or)
    have "bit (signed_take_bit 38 ?v) 39 = bit ?v 38" by (simp add: bit_signed_take_bit_iff)
    moreover have "bit ?v 39" "\<not> bit ?v 38" unfolding v using low e by (simp_all add: bit_or_iff)
    ultimately show False using s by simp
  qed
  then have "translate m (MAKE_SATP r) Load ?v = None" by (simp add: translate_def)
  ultimately show ?thesis by (simp add: user_load_def)
qed

lemma sample_byte_ok: "user_range_ok sample_user sample_root 0x1004 1 PTE_R"
proof -
  have lt: "unat (0x1004 :: u64) < 2 ^ 63" by simp
  have "path_leaf sample_user sample_root 0x1004 = path_leaf sample_user sample_root 0x1000"
    by (simp add: path_leaf_def VPN_def)
  then show ?thesis
    unfolding user_byte_ok_iff [OF lt] user_page_ok_iff [OF sample_user_space(1) singletonI] path_leaf_page_base
    using has_entry [OF user_rw_flags, of "fst sample_page"]
    by (simp add: sample_user_space(2) has_flags bit_or_iff bit_flags)
qed

lemma user_range_ok_not_canonical_witness:
  "user_load sample_user (MAKE_SATP sample_root) (0x1004 + 2 ^ 39) = Inl (KernelFault (0x1004 + 2 ^ 39))"
  using user_range_ok_not_canonical [OF sample_user_space(1) singletonI _ sample_byte_ok] by simp

text \<open>A byte that was checked can be read.\<close>

lemma checked_byte:
  assumes "wf_forest L m R" "r \<in> R" "unat s < 2 ^ 38" "user_range_ok m r s 1 PTE_R"
  shows "user_load m (MAKE_SATP r) s = Inr (m (user_addr m r s))"
proof -
  have lt: "unat s < 2 ^ 63" using assms(3) by simp
  have e: "has (path_leaf m r s) PTE_V" "has (path_leaf m r s) PTE_U" "has (path_leaf m r s) PTE_R"
    using assms(4) unfolding user_byte_ok_iff [OF lt] user_page_ok_iff [OF assms(1,2)]
    by (simp_all add: has_flags bit_flags)
  then have "user_frame (path_leaf m r s) \<noteq> None" by (simp add: user_frame_def is_leaf_def)
  then show ?thesis using translate_leaf [OF assms(1-3) e(1) _ e(3), of Load] e(3) by (simp add: user_load_def)
qed

text \<open>Where the check succeeds there is a string, in any address space.\<close>

lemma user_str_ok_string:
  "user_str_ok m sv pt s n = Inr True \<Longrightarrow> \<exists>t. length t < n \<and> cstring (user_load m sv) s t"
proof (induction n arbitrary: s)
  case (Suc n)
  then have r: "user_range_ok m pt s 1 PTE_R" by (auto split: if_splits)
  with Suc.prems obtain c where c: "user_load m sv s = Inr c"
    "(if c = 0 then Inr True else user_str_ok m sv pt (s + 1) n) = Inr True"
    by (auto simp: bind_stop_Inr_iff)
  show ?case
  proof (cases "c = 0")
    case True
    then show ?thesis using c(1) by (intro exI [of _ "[]"]) simp
  next
    case False
    then obtain t where "length t < n" "cstring (user_load m sv) (s + 1) t" using Suc.IH [of "s + 1"] c(2) by auto
    then show ?thesis using c(1) False by (intro exI [of _ "c # t"]) simp
  qed
qed simp

text \<open>A string of readable bytes from \<open>s\<close> on that ends within \<open>n\<close> bytes.\<close>

definition readable_string :: "memory \<Rightarrow> u64 \<Rightarrow> u64 \<Rightarrow> nat \<Rightarrow> u8 list \<Rightarrow> bool" where
  "readable_string m r s n t \<longleftrightarrow> length t < n \<and> cstring (user_load m (MAKE_SATP r)) s t \<and>
     (\<forall>i \<le> length t. user_range_ok m r (s + of_nat i) 1 PTE_R)"

lemma readable_string_bad: "\<not> user_range_ok m r s 1 PTE_R \<Longrightarrow> \<not> readable_string m r s n t"
  by (auto simp: readable_string_def intro!: exI [of _ 0])

lemma readable_string_end:
  "user_range_ok m r s 1 PTE_R \<Longrightarrow> user_load m (MAKE_SATP r) s = Inr 0 \<Longrightarrow> readable_string m r s (Suc n) []"
  by (simp add: readable_string_def)

lemma readable_string_Cons:
  assumes "user_range_ok m r s 1 PTE_R" "user_load m (MAKE_SATP r) s = Inr c" "c \<noteq> 0"
  shows "(\<exists>t. readable_string m r s (Suc n) t) \<longleftrightarrow> (\<exists>t. readable_string m r (s + 1) n t)"
proof -
  have cons: "readable_string m r s (Suc n) (d # t) \<longleftrightarrow> d = c \<and> readable_string m r (s + 1) n t" for d t
  proof -
    have "(\<forall>i \<le> length (d # t). user_range_ok m r (s + of_nat i) 1 PTE_R) \<longleftrightarrow>
        user_range_ok m r s 1 PTE_R \<and> (\<forall>i \<le> length t. user_range_ok m r (s + 1 + of_nat i) 1 PTE_R)"
      by (simp add: less_Suc_eq_le [symmetric] All_less_Suc2 add.assoc)
    then show ?thesis using assms by (auto simp: readable_string_def)
  qed
  have "\<not> readable_string m r s (Suc n) []" using assms(2,3) by (simp add: readable_string_def)
  then have "readable_string m r s (Suc n) t \<Longrightarrow> readable_string m r (s + 1) n (tl t)" for t
    using cons by (cases t) auto
  then show ?thesis using cons by blast
qed

text \<open>
  C39: below the canonical half, \<open>user_str_ok\<close> never faults, and it accepts exactly when
  a C string of fewer than \<open>n\<close> bytes starts at \<open>s\<close> all of whose bytes, the final zero
  included, are readable user memory.
\<close>
theorem user_str_ok_exact:
  assumes "wf_forest L m R" "r \<in> R" "unat s + n \<le> 2 ^ 38"
  shows "user_str_ok m (MAKE_SATP r) r s n =
    Inr (\<exists>t. length t < n \<and> cstring (user_load m (MAKE_SATP r)) s t \<and>
      (\<forall>i \<le> length t. user_range_ok m r (s + of_nat i) 1 PTE_R))"
  unfolding readable_string_def [symmetric]
  using assms(3)
proof (induction n arbitrary: s)
  case 0
  show ?case by (simp add: readable_string_def)
next
  case (Suc n)
  let ?c = "m (user_addr m r s)"
  have low: "unat s < 2 ^ 38" using Suc.prems by simp
  show ?case
  proof (cases "user_range_ok m r s 1 PTE_R")
    case False
    then show ?thesis using readable_string_bad by simp
  next
    case True
    have c: "user_load m (MAKE_SATP r) s = Inr ?c" by (rule checked_byte [OF assms(1,2) low True])
    have "unat (s + 1) = unat s + 1" using unat_add_of_nat [of s 1] low by simp
    then have IH: "user_str_ok m (MAKE_SATP r) r (s + 1) n = Inr (\<exists>t. readable_string m r (s + 1) n t)"
      using Suc.prems by (intro Suc.IH) simp
    show ?thesis
      using readable_string_end [OF True, of n] readable_string_Cons [OF True c, of n] IH True c
      by (cases "?c = 0") auto
  qed
qed

lemma user_str_ok_exact_witness:
  "\<exists>b. user_str_ok sample_user (MAKE_SATP sample_root) sample_root 0x1004 256 = Inr b"
  using user_str_ok_exact [OF sample_user_space(1) singletonI, of "0x1004" 256] by simp

end
