(* ===== verification/Syscall.thy ===== *)
theory Syscall
  imports Elf Ramdisk User_Mem
begin

text \<open>
  The system calls: the cases of the inner \<open>switch\<close> of \<open>trap_handler\<close>
  (\<open>kernel/arch/riscv/trap_handler.c\<close>), with the numbers of \<open>kernel/include/syscall.h\<close> and
  the error codes of \<open>kernel/include/errno.h\<close>. Each case is a function of the trap frame
  pointer and the kernel; it returns the frame to resume with, or the way the kernel stopped.
  The caller has already advanced \<open>sepc\<close> past the \<open>ecall\<close>.
\<close>

section \<open>Common parts\<close>

abbreviation E_NOENT :: u64 where "E_NOENT \<equiv> -1"
abbreviation E_BADF :: u64 where "E_BADF \<equiv> -2"
abbreviation E_FAULT :: u64 where "E_FAULT \<equiv> -3"
abbreviation E_NOMEM :: u64 where "E_NOMEM \<equiv> -4"
abbreviation E_PERM :: u64 where "E_PERM \<equiv> -5"
abbreviation E_AGAIN :: u64 where "E_AGAIN \<equiv> -6"

text \<open>\<open>tf->a0 = v; return tf;\<close>\<close>

definition ret :: "tf_ptr \<Rightarrow> u64 \<Rightarrow> kernel \<Rightarrow> stop + tf_ptr \<times> kernel" where
  "ret tf v k = Inr (tf, upd_frame tf (\<lambda>f. f\<lparr>tf_a0 := v\<rparr>) k)"

text \<open>\<open>current_proc\<close> dereferenced; a null pointer faults.\<close>

definition with_current :: "kernel \<Rightarrow> (nat \<Rightarrow> stop + 'a) \<Rightarrow> stop + 'a" where
  "with_current k f = (case current k of None \<Rightarrow> Inl (KernelFault 0) | Some c \<Rightarrow> f c)"

text \<open>Sleep on \<open>ch\<close>, rewind \<open>sepc\<close> so that the \<open>ecall\<close> runs again, and give up the CPU.\<close>

definition block_on :: "wake list \<Rightarrow> chan \<Rightarrow> tf_ptr \<Rightarrow> kernel \<Rightarrow> stop + tf_ptr \<times> kernel" where
  "block_on ws ch tf k =
     schedule ws tf (upd_frame tf (\<lambda>f. f\<lparr>tf_sepc := tf_sepc f - 4\<rparr>) (sleep_on ch k))"

section \<open>Processes\<close>

definition sys_putchar :: "tf_ptr \<Rightarrow> kernel \<Rightarrow> stop + tf_ptr \<times> kernel" where
  "sys_putchar tf k = ret tf 0 (say_byte (ucast (tf_a0 (get_frame k tf))) k)"

definition sys_fork :: "layout \<Rightarrow> tf_ptr \<Rightarrow> kernel \<Rightarrow> stop + tf_ptr \<times> kernel" where
  "sys_fork L tf k =
     with_current k (\<lambda>c.
       let f = get_frame k tf;
           k1 = upd_proc c (\<lambda>p. p\<lparr>frame := f\<rparr>) k
       in bind_stop (alloc_proc L k1) (\<lambda>(child, k2).
            case child of
              None \<Rightarrow> ret tf E_AGAIN k2
            | Some n \<Rightarrow>
                let parent = procs k2 ! c;
                    f2 = get_frame k2 tf;
                    k3 = upd_proc n
                      (\<lambda>p. p\<lparr>parent_pid := pid parent, heap_break := heap_break parent,
                             heap_max := heap_max parent, open_files := open_files parent,
                             frame := f2\<lparr>tf_kernel_sp := tf_kernel_sp (frame p)\<rparr>\<rparr>) k2;
                    k4 = upd_frame tf (\<lambda>f. f\<lparr>tf_a0 := scast (pid (procs k3 ! n))\<rparr>) k3;
                    k5 = upd_proc n (\<lambda>p. p\<lparr>frame := (frame p)\<lparr>tf_a0 := 0\<rparr>\<rparr>) k4
                in bind_stop
                     (vmm_copy_uvm L (page_table (procs k5 ! c)) (page_table (procs k5 ! n)) 2 (mem k5))
                     (\<lambda>m. Inr (tf, upd_proc n (\<lambda>p. p\<lparr>state := PROC_READY\<rparr>) (k5\<lparr>mem := m\<rparr>)))))"

definition sys_exec :: "layout \<Rightarrow> tf_ptr \<Rightarrow> kernel \<Rightarrow> stop + tf_ptr \<times> kernel" where
  "sys_exec L tf k =
     with_current k (\<lambda>c.
       let filename = tf_a0 (get_frame k tf)
       in bind_stop (user_str_ok (mem k) (satp k) (page_table (procs k ! c)) filename 256) (\<lambda>ok.
          if \<not> ok then ret tf E_FAULT k
          else bind_stop (ramdisk_get_entry L (mem k) (user_load (mem k) (satp k)) filename) (\<lambda>entry.
            if entry = 0 then ret tf E_NOENT k
            else
              (let elf_data = ramdisk_start L + ucast (entry_offset (mem k) entry);
                   old_pt = page_table (procs k ! c);
                   (new_pt, m1) = pmm_alloc_page L (mem k)
               in if new_pt = 0 then Inl (Panic ''PANIC: exec OOM'')
                  else bind_stop (vmm_map_kernel L new_pt (memset m1 new_pt 0 4096)) (\<lambda>m2.
                    let k2 = upd_proc c (\<lambda>p. p\<lparr>page_table := new_pt\<rparr>) (k\<lparr>mem := m2\<rparr>)
                    in bind_stop (load_elf L c elf_data k2) (\<lambda>(r, k3).
                         if r \<noteq> 0 then Inl (Panic ''PANIC: exec failed to load ELF'')
                         else Inr (tf, k3\<lparr>satp := MAKE_SATP new_pt,
                                          mem := vmm_free_pt L (mem k3) old_pt\<rparr>)))))))"

text \<open>The scan of \<open>SYS_WAIT\<close>: the first zombie child, else whether there is a child at all.\<close>

definition child_of :: "u32 \<Rightarrow> process \<Rightarrow> bool" where
  "child_of me p \<longleftrightarrow> parent_pid p = me \<and> state p \<noteq> PROC_UNUSED"

definition sys_wait :: "layout \<Rightarrow> wake list \<Rightarrow> tf_ptr \<Rightarrow> kernel \<Rightarrow> stop + tf_ptr \<times> kernel" where
  "sys_wait L ws tf k =
     with_current k (\<lambda>c.
       let me = pid (procs k ! c)
       in case find_index (\<lambda>p. child_of me p \<and> state p = PROC_ZOMBIE) (procs k) of
            Some i \<Rightarrow> ret tf (scast (pid (procs k ! i))) (free_proc L i k)
          | None \<Rightarrow>
              if \<not> (\<exists>p \<in> set (procs k). child_of me p) then ret tf E_NOENT k
              else block_on ws (ProcChan c) tf k)"

section \<open>Memory\<close>

text \<open>One page of \<open>SYS_SBRK\<close>; a failure unmaps what the call mapped so far.\<close>

definition sbrk_page :: "layout \<Rightarrow> u64 \<Rightarrow> u64 \<Rightarrow> u64 \<Rightarrow> memory \<Rightarrow> (stop + memory) + memory" where
  "sbrk_page L pt first addr m =
     (let (phys_page, m1) = pmm_alloc_page L m in
      if phys_page = 0 then Inl (vmm_unmap_range L m1 pt first addr)
      else
        (let (r, m2) = map_page L (memset m1 phys_page 0 4096) pt addr phys_page (PTE_U OR PTE_R OR PTE_W) in
         if r \<noteq> 0 then Inl (vmm_unmap_range L (pmm_free_page L m2 phys_page) pt first addr)
         else Inr m2))"

definition sys_sbrk :: "layout \<Rightarrow> tf_ptr \<Rightarrow> kernel \<Rightarrow> stop + tf_ptr \<times> kernel" where
  "sys_sbrk L tf k =
     with_current k (\<lambda>c.
       let increment = tf_a0 (get_frame k tf);
           old_break = heap_break (procs k ! c);
           new_break = old_break + increment
       in if increment = 0 then ret tf old_break k
          else if sint increment < 0 then ret tf E_PERM k
          else if new_break > heap_max (procs k ! c) then ret tf E_NOMEM k
          else
            (let old_page_end = (old_break + 4095) AND NOT 4095;
                 new_page_end = (new_break + 4095) AND NOT 4095
             in case for_pages (Inl Diverge) (sbrk_page L (page_table (procs k ! c)) old_page_end)
                       old_page_end new_page_end (mem k) of
                  Inl (Inl z) \<Rightarrow> Inl z
                | Inl (Inr m) \<Rightarrow> ret tf E_NOMEM (k\<lparr>mem := m\<rparr>)
                | Inr m \<Rightarrow> ret tf old_break (upd_proc c (\<lambda>p. p\<lparr>heap_break := new_break\<rparr>) (k\<lparr>mem := m\<rparr>))))"

section \<open>Files\<close>

definition upd_file :: "nat \<Rightarrow> nat \<Rightarrow> (file_t \<Rightarrow> file_t) \<Rightarrow> kernel \<Rightarrow> kernel" where
  "upd_file c fd g k =
     upd_proc c (\<lambda>p. p\<lparr>open_files := (open_files p)[fd := g (open_files p ! fd)]\<rparr>) k"

definition sys_open :: "layout \<Rightarrow> tf_ptr \<Rightarrow> kernel \<Rightarrow> stop + tf_ptr \<times> kernel" where
  "sys_open L tf k =
     with_current k (\<lambda>c.
       let filename = tf_a0 (get_frame k tf)
       in bind_stop (user_str_ok (mem k) (satp k) (page_table (procs k ! c)) filename 256) (\<lambda>ok.
          if \<not> ok then ret tf E_FAULT k
          else
            (case find (\<lambda>i. f_type (open_files (procs k ! c) ! i) = FILE_TYPE_NONE) [3..<FD_MAX] of
               None \<Rightarrow> ret tf E_NOMEM k
             | Some fd \<Rightarrow>
                 bind_stop (ramdisk_get_entry L (mem k) (user_load (mem k) (satp k)) filename) (\<lambda>entry.
                   if entry = 0 then ret tf E_NOENT k
                   else ret tf (of_nat fd)
                     (upd_file c fd
                       (\<lambda>_. \<lparr>f_type = FILE_TYPE_RAMDISK, f_offset = 0, f_size = entry_size (mem k) entry,
                             f_data = ramdisk_start L + ucast (entry_offset (mem k) entry)\<rparr>) k)))))"

text \<open>\<open>(int)tf->a0\<close>, and the two tests of a descriptor that READ, WRITE and CLOSE share.\<close>

definition fd_arg :: "trap_frame \<Rightarrow> int" where
  "fd_arg f = sint (ucast (tf_a0 f) :: u32)"

definition the_file :: "kernel \<Rightarrow> nat \<Rightarrow> int \<Rightarrow> file_t option" where
  "the_file k c fd =
     (if fd < 0 \<or> fd \<ge> int FD_MAX then None
      else
        (let fl = open_files (procs k ! c) ! nat fd
         in if f_type fl = FILE_TYPE_NONE then None else Some fl))"

text \<open>The loop of a console read that holds its first byte; \<open>left\<close> is \<open>size - n\<close>.\<close>

fun console_more :: "u64 \<Rightarrow> nat \<Rightarrow> u32 \<Rightarrow> kernel \<Rightarrow> stop + u32 \<times> kernel" where
  "console_more buf 0 n k = Inr (n, k)"
| "console_more buf (Suc left) n k =
     bind_stop (user_load (mem k) (satp k) (buf + ucast (n - 1))) (\<lambda>last.
       if last = newline then Inr (n, k)
       else
         (case uart_getc (rx k) of (c, u) \<Rightarrow>
            if c = -1 then Inr (n, k\<lparr>rx := u\<rparr>)
            else bind_stop (user_store (satp k) (buf + ucast n) (of_int c) (mem k)) (\<lambda>m.
              console_more buf left (n + 1) (k\<lparr>rx := u, mem := m\<rparr>))))"

definition console_read :: "wake list \<Rightarrow> tf_ptr \<Rightarrow> u64 \<Rightarrow> u32 \<Rightarrow> kernel \<Rightarrow> stop + tf_ptr \<times> kernel" where
  "console_read ws tf buf count k =
     (if count = 0 then ret tf 0 k
      else
        (case uart_getc (rx k) of (c, u) \<Rightarrow>
           if c = -1 then block_on ws UartChan tf (k\<lparr>rx := u\<rparr>)
           else bind_stop (user_store (satp k) buf (of_int c) (mem k)) (\<lambda>m.
             bind_stop (console_more buf (unat count - 1) 1 (k\<lparr>rx := u, mem := m\<rparr>)) (\<lambda>(n, k1).
               ret tf (ucast n) k1))))"

text \<open>\<open>memcpy\<close> from kernel memory into user memory, one byte at a time.\<close>

definition copy_to_user :: "u64 \<Rightarrow> u64 \<Rightarrow> nat \<Rightarrow> kernel \<Rightarrow> stop + kernel" where
  "copy_to_user dest src n k =
     for_each
       (\<lambda>i k. bind_stop (user_store (satp k) (dest + of_nat i) (mem k (src + of_nat i)) (mem k))
          (\<lambda>m. Inr (k\<lparr>mem := m\<rparr>)))
       [0..<n] k"

definition ramdisk_read :: "tf_ptr \<Rightarrow> nat \<Rightarrow> nat \<Rightarrow> u64 \<Rightarrow> u32 \<Rightarrow> kernel \<Rightarrow> stop + tf_ptr \<times> kernel" where
  "ramdisk_read tf c fd buf count k =
     (let fl = open_files (procs k ! c) ! fd;
          bytes_left = f_size fl - f_offset fl
      in if bytes_left = 0 then ret tf 0 k
         else
           (let read_size = (if count > bytes_left then bytes_left else count)
            in bind_stop (copy_to_user buf (f_data fl + ucast (f_offset fl)) (unat read_size) k) (\<lambda>k1.
                 ret tf (ucast read_size)
                   (upd_file c fd (\<lambda>g. g\<lparr>f_offset := f_offset g + read_size\<rparr>) k1))))"

definition sys_read :: "wake list \<Rightarrow> tf_ptr \<Rightarrow> kernel \<Rightarrow> stop + tf_ptr \<times> kernel" where
  "sys_read ws tf k =
     with_current k (\<lambda>c.
       let f = get_frame k tf; fd = fd_arg f; buf = tf_a1 f; count = (ucast (tf_a2 f) :: u32)
       in if \<not> user_range_ok (mem k) (page_table (procs k ! c)) buf (ucast count) PTE_W
          then ret tf E_FAULT k
          else
            (case the_file k c fd of
               None \<Rightarrow> ret tf E_BADF k
             | Some fl \<Rightarrow>
                 if f_type fl = FILE_TYPE_CONSOLE then console_read ws tf buf count k
                 else if f_type fl = FILE_TYPE_RAMDISK then ramdisk_read tf c (nat fd) buf count k
                 else ret tf E_BADF k))"

definition console_write :: "u64 \<Rightarrow> nat \<Rightarrow> kernel \<Rightarrow> stop + kernel" where
  "console_write buf n k =
     for_each
       (\<lambda>i k. bind_stop (user_load (mem k) (satp k) (buf + of_nat i)) (\<lambda>b. Inr (say_byte b k)))
       [0..<n] k"

definition sys_write :: "tf_ptr \<Rightarrow> kernel \<Rightarrow> stop + tf_ptr \<times> kernel" where
  "sys_write tf k =
     with_current k (\<lambda>c.
       let f = get_frame k tf; fd = fd_arg f; buf = tf_a1 f; count = (ucast (tf_a2 f) :: u32)
       in if \<not> user_range_ok (mem k) (page_table (procs k ! c)) buf (ucast count) PTE_R
          then ret tf E_FAULT k
          else
            (case the_file k c fd of
               None \<Rightarrow> ret tf E_BADF k
             | Some fl \<Rightarrow>
                 if f_type fl = FILE_TYPE_CONSOLE
                 then bind_stop (console_write buf (unat count) k) (ret tf (ucast count))
                 else if f_type fl = FILE_TYPE_RAMDISK then ret tf E_PERM k
                 else ret tf E_BADF k))"

definition sys_close :: "tf_ptr \<Rightarrow> kernel \<Rightarrow> stop + tf_ptr \<times> kernel" where
  "sys_close tf k =
     with_current k (\<lambda>c.
       let fd = fd_arg (get_frame k tf)
       in case the_file k c fd of
            None \<Rightarrow> ret tf E_BADF k
          | Some _ \<Rightarrow> ret tf 0 (upd_file c (nat fd) (\<lambda>_. closed_file) k))"

end
