(* ===== verification/Trap.thy ===== *)
theory Trap
  imports Syscall
begin

text \<open>
  \<open>trap_handler\<close> (\<open>kernel/arch/riscv/trap_handler.c\<close>): the dispatch on the cause. The result
  is the trap frame to resume with and the kernel after the trap, or the way it stopped. What
  the devices deliver during the trap is the record \<open>input\<close>.
\<close>

record input =
  in_time :: u64
  in_irq :: u32
  in_fifo :: "u8 list"
  in_wakes :: "wake list"

definition syscall :: "layout \<Rightarrow> input \<Rightarrow> tf_ptr \<Rightarrow> kernel \<Rightarrow> stop + tf_ptr \<times> kernel" where
  "syscall L inp tf k =
     (let num = tf_a7 (get_frame k tf) in
      if num = 1 then sys_putchar tf k
      else if num = 2 then exit_current (in_wakes inp) tf k
      else if num = 3 then sys_fork L tf k
      else if num = 4 then sys_exec L tf k
      else if num = 5 then sys_wait L (in_wakes inp) tf k
      else if num = 6 then sys_sbrk L tf k
      else if num = 7 then sys_open L tf k
      else if num = 8 then sys_read (in_wakes inp) tf k
      else if num = 9 then sys_write tf k
      else if num = 10 then sys_close tf k
      else Inl UnknownSyscall)"

definition from_supervisor :: "trap_frame \<Rightarrow> bool" where
  "from_supervisor f \<longleftrightarrow> drop_bit 8 (tf_sstatus f) AND 1 \<noteq> 0"

text \<open>The three registers a fault report prints.\<close>

definition say_fault :: "trap_frame \<Rightarrow> kernel \<Rightarrow> kernel" where
  "say_fault f k =
     say nl (say_hex (tf_stval f) (say (nl @ ''  stval =0x'')
       (say_hex (tf_sepc f) (say (nl @ ''  sepc  =0x'') (say_hex (tf_scause f) (say ''  scause=0x'' k))))))"

definition interrupt :: "input \<Rightarrow> u64 \<Rightarrow> tf_ptr \<Rightarrow> kernel \<Rightarrow> stop + tf_ptr \<times> kernel" where
  "interrupt inp code tf k =
     (if code = 5 then schedule (in_wakes inp) tf (k\<lparr>timer := in_time inp + TIMER_INTERVAL\<rparr>)
      else if code = 9 then Inr (tf, plic_dispatch (in_irq inp) (in_fifo inp) k)
      else Inl UnexpectedInterrupt)"

text \<open>A trap taken in S-mode: a breakpoint is stepped over, anything else stops the kernel.\<close>

definition s_mode_trap :: "tf_ptr \<Rightarrow> kernel \<Rightarrow> stop + tf_ptr \<times> kernel" where
  "s_mode_trap tf k =
     (let f = get_frame k tf in
      if tf_scause f = 3 then
        (let k1 = say nl (say_hex (tf_sepc f) (say ''  sepc  =0x''
                    (say (nl @ ''[TRAP] S-mode ebreak'' @ nl) k)));
             h = load16 (mem k1) (tf_sepc f);
             step = (if h AND 3 \<noteq> 3 then 2 else 4)
         in Inr (tf, upd_frame tf (\<lambda>f. f\<lparr>tf_sepc := tf_sepc f + step\<rparr>) k1))
      else Inl (KernelFault (tf_stval f)))"

definition trap_handler :: "layout \<Rightarrow> input \<Rightarrow> tf_ptr \<Rightarrow> kernel \<Rightarrow> stop + tf_ptr \<times> kernel" where
  "trap_handler L inp tf k =
     (let f = get_frame k tf; scause = tf_scause f in
      if bit scause 63 then interrupt inp (scause AND 0x7FFFFFFFFFFFFFFF) tf k
      else if from_supervisor f then s_mode_trap tf k
      else if scause = 8 then
        syscall L inp tf (upd_frame tf (\<lambda>f. f\<lparr>tf_sepc := tf_sepc f + 4\<rparr>) k)
      else exit_current (in_wakes inp) tf
        (say_fault f (say (nl @ ''[TRAP] U-mode fault (kill)'' @ nl) k)))"

end
