(* ===== verification/Dispatch.thy ===== *)
theory Dispatch
  imports Trap
begin

text \<open>
  The dispatcher of \<open>trap_handler\<close>, gone through once. What a client wants to know of every trap
  (the kernel invariant, W^X, the process tree, who sleeps) is a pair of a precondition and a
  postcondition; \<open>trap_contract\<close> asks for it at each handler and delivers it for the whole trap.
\<close>

text \<open>
  Before a handler runs the dispatcher only advances \<open>sepc\<close> in the trap frame of the process and
  prints; \<open>pre_entered\<close> and \<open>post_entered\<close> say that the contract does not mind. A handler that
  wants to know what was asked for (\<open>on_read\<close>) is told the cause and the number of the call.
\<close>

definition keeps_request :: "(trap_frame \<Rightarrow> trap_frame) \<Rightarrow> bool" where
  "keeps_request g \<longleftrightarrow> (\<forall>f. \<exists>v. g f = f\<lparr>tf_sepc := v\<rparr>)"

lemma keeps_request_sepc [simp]: "keeps_request (\<lambda>f. f)" "keeps_request (\<lambda>f. f\<lparr>tf_sepc := v f\<rparr>)"
proof -
  have "\<exists>v. f = f\<lparr>tf_sepc := v\<rparr>" for f :: trap_frame by (rule exI [of _ "tf_sepc f"]) simp
  then show "keeps_request (\<lambda>f. f)" by (simp only: keeps_request_def simp_thms)
  show "keeps_request (\<lambda>f. f\<lparr>tf_sepc := v f\<rparr>)" by (auto simp: keeps_request_def)
qed

lemma keeps_request_args:
  assumes "keeps_request g"
  shows "tf_scause (g f) = tf_scause f" "tf_a7 (g f) = tf_a7 f" "tf_a0 (g f) = tf_a0 f"
proof -
  obtain v where "g f = f\<lparr>tf_sepc := v\<rparr>" using assms by (auto simp: keeps_request_def)
  then show "tf_scause (g f) = tf_scause f" "tf_a7 (g f) = tf_a7 f" "tf_a0 (g f) = tf_a0 f" by simp_all
qed

lemma upd_frame_args:
  assumes "keeps_request g"
  shows "tf_scause (frame (procs (upd_frame (ProcFrame c) g k) ! c)) = tf_scause (frame (procs k ! c))"
    "tf_a7 (frame (procs (upd_frame (ProcFrame c) g k) ! c)) = tf_a7 (frame (procs k ! c))"
    "tf_a0 (frame (procs (upd_frame (ProcFrame c) g k) ! c)) = tf_a0 (frame (procs k ! c))"
proof -
  have "frame (procs (upd_frame (ProcFrame c) g k) ! c) =
      (if c < length (procs k) then g (frame (procs k ! c)) else frame (procs k ! c))"
    by (simp add: upd_proc_def list_update_beyond)
  then show "tf_scause (frame (procs (upd_frame (ProcFrame c) g k) ! c)) = tf_scause (frame (procs k ! c))"
    "tf_a7 (frame (procs (upd_frame (ProcFrame c) g k) ! c)) = tf_a7 (frame (procs k ! c))"
    "tf_a0 (frame (procs (upd_frame (ProcFrame c) g k) ! c)) = tf_a0 (frame (procs k ! c))"
    using keeps_request_args [OF assms] by presburger+
qed

locale trap_contract =
  fixes L :: layout
    and pre :: "nat \<Rightarrow> kernel \<Rightarrow> bool"
    and post :: "nat \<Rightarrow> kernel \<Rightarrow> stop + tf_ptr \<times> kernel \<Rightarrow> bool"
  assumes pre_entered: "pre c k \<Longrightarrow> keeps_request f \<Longrightarrow> pre c ((upd_frame (ProcFrame c) f k)\<lparr>console := out\<rparr>)"
    and post_entered: "pre c k \<Longrightarrow> keeps_request f \<Longrightarrow> post c ((upd_frame (ProcFrame c) f k)\<lparr>console := out\<rparr>) res \<Longrightarrow> post c k res"
    and on_putchar: "pre c k \<Longrightarrow> post c k (sys_putchar (ProcFrame c) k)"
    and on_exit: "pre c k \<Longrightarrow> post c k (exit_current ws (ProcFrame c) k)"
    and on_fork: "pre c k \<Longrightarrow> post c k (sys_fork L (ProcFrame c) k)"
    and on_exec: "pre c k \<Longrightarrow> post c k (sys_exec L (ProcFrame c) k)"
    and on_wait: "pre c k \<Longrightarrow> post c k (sys_wait L ws (ProcFrame c) k)"
    and on_sbrk: "pre c k \<Longrightarrow> post c k (sys_sbrk L (ProcFrame c) k)"
    and on_open: "pre c k \<Longrightarrow> post c k (sys_open L (ProcFrame c) k)"
    and on_read: "pre c k \<Longrightarrow> tf_scause (frame (procs k ! c)) = 8 \<Longrightarrow> tf_a7 (frame (procs k ! c)) = 8 \<Longrightarrow>
        post c k (sys_read ws (ProcFrame c) k)"
    and on_write: "pre c k \<Longrightarrow> post c k (sys_write (ProcFrame c) k)"
    and on_close: "pre c k \<Longrightarrow> post c k (sys_close (ProcFrame c) k)"
    and on_unknown: "pre c k \<Longrightarrow> post c k (Inl UnknownSyscall)"
    and on_interrupt: "pre c k \<Longrightarrow> post c k (interrupt inp code (ProcFrame c) k)"
begin

lemmas handlers =
  on_putchar on_exit on_fork on_exec on_wait on_sbrk on_open on_read on_write on_close on_unknown

lemma dispatch:
  "pre c k \<Longrightarrow> tf_scause (frame (procs k ! c)) = 8 \<Longrightarrow> post c k (syscall L inp (ProcFrame c) k)"
  using handlers by (simp add: syscall_def Let_def)

lemma advanced:
  assumes "pre c k" "keeps_request f" "tf_scause (frame (procs k ! c)) = 8"
  shows "post c k (syscall L inp (ProcFrame c) (upd_frame (ProcFrame c) f k))"
proof -
  let ?k = "(upd_frame (ProcFrame c) f k)\<lparr>console := console k\<rparr>"
  have k: "?k = upd_frame (ProcFrame c) f k" by (simp add: upd_proc_def)
  have "tf_scause (frame (procs ?k ! c)) = 8" unfolding k using upd_frame_args [OF assms(2)] assms(3) by simp
  then have "post c ?k (syscall L inp (ProcFrame c) ?k)" by (rule dispatch [OF pre_entered [OF assms(1,2)]])
  then have "post c k (syscall L inp (ProcFrame c) ?k)" by (rule post_entered [OF assms(1,2)])
  then show ?thesis by (simp only: k)
qed

lemma killed:
  assumes "pre c k"
  shows "post c k (exit_current ws (ProcFrame c) (say_fault f (say s k)))"
proof -
  obtain out where out: "say_fault f (say s k) = k\<lparr>console := out\<rparr>"
    by (simp add: say_fault_def say_def say_hex_def)
  let ?k = "(upd_frame (ProcFrame c) (\<lambda>f. f) k)\<lparr>console := out\<rparr>"
  have k: "?k = k\<lparr>console := out\<rparr>" by (simp add: upd_proc_def)
  have "post c ?k (exit_current ws (ProcFrame c) ?k)" by (rule on_exit [OF pre_entered [OF assms keeps_request_sepc(1)]])
  then have "post c k (exit_current ws (ProcFrame c) ?k)" by (rule post_entered [OF assms keeps_request_sepc(1)])
  then show ?thesis by (simp only: k out)
qed

lemma trap: 
  "pre c k \<Longrightarrow> \<not> from_supervisor (frame (procs k ! c)) \<Longrightarrow> post c k (trap_handler L inp (ProcFrame c) k)"
  using on_interrupt advanced killed by (simp add: trap_handler_def Let_def del: upd_frame.simps)

end

end
