(* ===== verification/Boot.thy ===== *)
theory Boot
  imports Trap
begin

text \<open>
  Booting: \<open>kmain\<close> of \<open>kernel/main.c\<close>, from the state the loader leaves (memory with the
  kernel image and the ramdisk, zeroed kernel variables) to the first \<open>switch_to_user\<close>. The
  device set-up (\<open>plic_init\<close>, \<open>uart_init\<close>, the trap vector and the \<open>sie\<close> bits) writes device
  and control registers that the model does not keep.
\<close>

text \<open>The kernel's variables as \<open>.bss\<close> and \<open>.data\<close> initialise them.\<close>

definition power_on :: "memory \<Rightarrow> kernel" where
  "power_on m =
     \<lparr>mem = m, procs = replicate MAX_PROCS empty_process, next_pid = 1, current = None,
      g_tf = zero_frame,
      rx = uart_reset,
      console = [], satp = 0, timer = 0, irqs_done = []\<rparr>"

text \<open>From \<open>init_pmm\<close> to the MMU being on.\<close>

definition boot_memory :: "layout \<Rightarrow> kernel \<Rightarrow> stop + kernel" where
  "boot_memory L k =
     (let k1 = say nl (say ''Setting up Virtual Memory...'' (k\<lparr>mem := init_pmm L (mem k)\<rparr>));
          (root_pt, m) = pmm_alloc_page L (mem k1)
      in if root_pt = 0 then Inl (Panic ''PANIC: Failed to allocate root page table!'')
         else bind_stop (vmm_map_kernel L root_pt (memset m root_pt 0 4096)) (\<lambda>m2.
           let k2 = say nl (say ''Kernel mapped successfully!'' (k1\<lparr>mem := m2\<rparr>));
               k3 = say nl (say ''Flipping the MMU switch...'' k2)
           in Inr (say nl (say ''MMU IS ON! Welcome to Sv39 Virtual Memory.''
                (k3\<lparr>satp := MAKE_SATP root_pt\<rparr>)))))"

text \<open>
  The first process. What \<open>alloc_proc\<close> returned is not looked at: a null \<open>proc_A\<close> (memory
  exhausted at boot) is handed to \<open>load_elf\<close>.
\<close>

definition kmain :: "layout \<Rightarrow> u64 \<Rightarrow> kernel \<Rightarrow> stop + tf_ptr \<times> kernel" where
  "kmain L now k =
     bind_stop (boot_memory L k) (\<lambda>k1.
     let k2 = proc_init (say nl (say ''Initializing Process Subsystem...'' k1)) in
     bind_stop (alloc_proc L k2) (\<lambda>(proc_A, k3).
     bind_stop (ramdisk_find L (mem k3) (bytes_of ''init.elf'')) (\<lambda>init_elf.
     if init_elf = 0 then Inl (Panic ''Failed to load ELF!'')
     else
       (case proc_A of
          None \<Rightarrow> bind_stop (load_elf_null L init_elf k3) (\<lambda>_. Inl (Panic ''Failed to load ELF!''))
        | Some a \<Rightarrow>
            bind_stop (load_elf L a init_elf k3) (\<lambda>(r, k4).
              if r \<noteq> 0 then Inl (Panic ''Failed to load ELF!'')
              else
                (let k5 = (upd_proc a (\<lambda>p. p\<lparr>state := PROC_RUNNING\<rparr>) k4)\<lparr>current := Some a\<rparr>;
                     k6 = say nl (say ''Timer interrupt armed for 10ms in the future!''
                            (k5\<lparr>timer := now + 100000\<rparr>));
                     k7 = say nl (say ''Jumping to isolated user space at 0x400000...'' k6)
                 in Inr (ProcFrame a, k7\<lparr>satp := MAKE_SATP (page_table (procs k7 ! a))\<rparr>)))))))"

end
