(* ===== verification/Page_Copy.thy ===== *)
theory Page_Copy
  imports Page_Extend
begin

text \<open>
  \<open>vmm_copy_uvm\<close>: copying the user half of one address space into another one. The result
  says of every user page of the parent that the child has, at the same address and with the
  same flags, a frame of its own with the same bytes.
\<close>

section \<open>The specification\<close>

text \<open>The child's entry \<open>e'\<close> is a private copy of the parent's entry \<open>e\<close>.\<close>

definition private_copy :: "layout \<Rightarrow> memory \<Rightarrow> memory \<Rightarrow> u64 \<Rightarrow> u64 \<Rightarrow> bool" where
  "private_copy L m m' e e' \<longleftrightarrow>
     (\<exists>n. e' = PA_TO_PTE n OR (e AND 0x3FF) \<and> user_frame e' = Some n \<and>
        n \<in> used L m' - used L m \<and> (\<forall>k < 4096. m' (n + of_nat k) = m (PTE_TO_PA e + of_nat k)))"

text \<open>The index paths (of three indices) below \<open>q\<close> in the user half.\<close>

definition user_paths :: "nat list \<Rightarrow> nat list set" where
  "user_paths q = {p. (\<exists>s. p = q @ s) \<and> length p = 3 \<and> hd p < 2}"

definition copied :: "layout \<Rightarrow> u64 set \<Rightarrow> u64 \<Rightarrow> u64 \<Rightarrow> nat list set \<Rightarrow> memory \<Rightarrow> memory \<Rightarrow> bool" where
  "copied L R p c D m m' \<longleftrightarrow>
     extends L R c m m' \<and>
     (\<forall>i j k. i < 512 \<longrightarrow> j < 512 \<longrightarrow> k < 512 \<longrightarrow>
        (if [i, j, k] \<in> D \<and> user_frame (leaf_at m p i j k) \<noteq> None
         then private_copy L m m' (leaf_at m p i j k) (leaf_at m' c i j k)
         else leaf_at m' c i j k = leaf_at m c i j k))"

lemma copiedD:
  assumes "copied L R p c D m m'"
  shows "extends L R c m m'"
    "\<And>i j k. i < 512 \<Longrightarrow> j < 512 \<Longrightarrow> k < 512 \<Longrightarrow> [i, j, k] \<in> D \<Longrightarrow>
       user_frame (leaf_at m p i j k) \<noteq> None \<Longrightarrow>
       private_copy L m m' (leaf_at m p i j k) (leaf_at m' c i j k)"
    "\<And>i j k. i < 512 \<Longrightarrow> j < 512 \<Longrightarrow> k < 512 \<Longrightarrow>
       [i, j, k] \<notin> D \<or> user_frame (leaf_at m p i j k) = None \<Longrightarrow>
       leaf_at m' c i j k = leaf_at m c i j k"
  using assms unfolding copied_def by auto

lemma copied_refl: "wf_forest L m R \<Longrightarrow> copied L R p c {} m m"
  by (simp add: copied_def extends_refl)

text \<open>Paths without a user page may be added to what was copied.\<close>

lemma copied_mono:
  assumes c: "copied L R p c D m m'" and D: "D \<subseteq> D'"
    and none: "\<And>i j k. i < 512 \<Longrightarrow> j < 512 \<Longrightarrow> k < 512 \<Longrightarrow> [i, j, k] \<in> D' - D \<Longrightarrow>
      user_frame (leaf_at m p i j k) = None"
  shows "copied L R p c D' m m'"
  unfolding copied_def
proof (intro conjI allI impI)
  show "extends L R c m m'" using c by (rule copiedD)
  fix i j k :: nat assume i: "i < 512" "j < 512" "k < 512"
  show "if [i, j, k] \<in> D' \<and> user_frame (leaf_at m p i j k) \<noteq> None
      then private_copy L m m' (leaf_at m p i j k) (leaf_at m' c i j k)
      else leaf_at m' c i j k = leaf_at m c i j k"
    using copiedD(2,3) [OF c i] none [OF i] D by (cases "[i, j, k] \<in> D") auto
qed

text \<open>Copying one part of the parent and then another one.\<close>

lemma copied_trans:
  assumes wf: "wf_forest L m R" and R: "p \<in> R" "c \<in> R" "p \<noteq> c"
    and a: "copied L R p c D m m1" and b: "copied L R p c D' m1 m2" and disj: "D \<inter> D' = {}"
  shows "copied L R p c (D \<union> D') m m2"
  unfolding copied_def
proof (intro conjI allI impI)
  note xa = copiedD(1) [OF a] and xb = copiedD(1) [OF b]
  have wf1: "wf_forest L m1 R" by (rule extendsD(1) [OF xa])
  show "extends L R c m m2" using xa xb by (rule extends_trans)
  fix i j k :: nat assume i: "i < 512" "j < 512" "k < 512"
  have parent: "leaf_at m1 p i j k = leaf_at m p i j k"
    by (rule extends_other_leaf [OF wf xa R(2,1,3) i(3)])
  let ?e = "leaf_at m p i j k"
  show "if [i, j, k] \<in> D \<union> D' \<and> user_frame ?e \<noteq> None
      then private_copy L m m2 ?e (leaf_at m2 c i j k) else leaf_at m2 c i j k = leaf_at m c i j k"
  proof (cases "user_frame ?e")
    case None
    then show ?thesis using copiedD(3) [OF a i] copiedD(3) [OF b i] parent by simp
  next
    case (Some f)
    then have f: "PTE_TO_PA ?e = f" by (simp add: user_frame_def split: if_splits)
    consider "[i, j, k] \<in> D" | "[i, j, k] \<in> D'" "[i, j, k] \<notin> D" | "[i, j, k] \<notin> D \<union> D'" by blast
    then show ?thesis
    proof cases
      case 1
      then obtain n where n: "leaf_at m1 c i j k = PA_TO_PTE n OR (?e AND 0x3FF)"
          "user_frame (leaf_at m1 c i j k) = Some n" "n \<in> used L m1 - used L m"
          "\<And>l. l < 4096 \<Longrightarrow> m1 (n + of_nat l) = m (PTE_TO_PA ?e + of_nat l)"
        using copiedD(2) [OF a i] Some by (auto simp: private_copy_def)
      have same: "leaf_at m2 c i j k = leaf_at m1 c i j k" using copiedD(3) [OF b i] 1 disj by blast
      have node: "tree m1 c [i, j, k] = Some n" using n(2) i by (simp only: tree_leaf)
      have "page_aligned n" by (rule wf_page [OF wf1 R(2) node])
      then have "m2 (n + of_nat l) = m1 (n + of_nat l)" if "l < 4096" for l
        using extends_own_frame [OF wf1 xb R(2) node] that by simp
      then have "private_copy L m m2 ?e (leaf_at m2 c i j k)"
        unfolding private_copy_def same using n extendsD(2) [OF xb] by auto
      then show ?thesis using 1 Some by simp
    next
      case 2
      then obtain n where n: "leaf_at m2 c i j k = PA_TO_PTE n OR (?e AND 0x3FF)"
          "user_frame (leaf_at m2 c i j k) = Some n" "n \<in> used L m2 - used L m1"
          "\<And>l. l < 4096 \<Longrightarrow> m2 (n + of_nat l) = m1 (PTE_TO_PA ?e + of_nat l)"
        using copiedD(2) [OF b i] Some parent by (auto simp: private_copy_def)
      have node: "tree m p [i, j, k] = Some f" using Some i by (simp only: tree_leaf)
      have "page_aligned f" by (rule wf_page [OF wf R(1) node])
      then have "m1 (f + of_nat l) = m (f + of_nat l)" if "l < 4096" for l
        using extends_other_node [OF wf xa R(2,1,3) node] that by simp
      then have "private_copy L m m2 ?e (leaf_at m2 c i j k)"
        unfolding private_copy_def using n f extendsD(2) [OF xa] by auto
      then show ?thesis using 2 Some by simp
    next
      case 3
      then show ?thesis using copiedD(3) [OF a i] copiedD(3) [OF b i] by simp
    qed
  qed
qed

section \<open>One entry\<close>

lemma flags_of_entry:
  "has (PA_TO_PTE n OR (e AND 0x3FF)) PTE_V = has e PTE_V"
  "has (PA_TO_PTE n OR (e AND 0x3FF)) PTE_U = has e PTE_U"
  "is_leaf (PA_TO_PTE n OR (e AND 0x3FF)) = is_leaf e"
proof -
  have m: "(0x3FF :: u64) = mask 10" by (simp add: mask_eq_exp_minus_1)
  have "bit (PA_TO_PTE n OR (e AND 0x3FF)) k = bit e k" if "k < 10" for k
    using that by (auto simp: m bit_or_iff bit_and_iff bit_mask_iff bit_PA_TO_PTE)
  then show "has (PA_TO_PTE n OR (e AND 0x3FF)) PTE_V = has e PTE_V"
    "has (PA_TO_PTE n OR (e AND 0x3FF)) PTE_U = has e PTE_U"
    "is_leaf (PA_TO_PTE n OR (e AND 0x3FF)) = is_leaf e"
    unfolding is_leaf_def has_flags by simp_all
qed

lemma PTE_TO_PA_copy: "page_aligned n \<Longrightarrow> PTE_TO_PA (PA_TO_PTE n OR (e AND 0x3FF)) = n"
proof (rule PTE_TO_PA_entry)
  have m: "(0x3FF :: u64) = mask 10" by (simp add: mask_eq_exp_minus_1)
  show "flag_word (e AND 0x3FF)" by (simp add: flag_word_def m bit_and_iff bit_mask_iff)
qed

abbreviation copy_oom :: stop where
  "copy_oom \<equiv> Panic ''PANIC: vmm_copy_uvm out of memory!''"

lemma copy_leaf_spec:
  assumes wf: "wf_forest L m R" and R: "p \<in> R" "c \<in> R" "p \<noteq> c"
    and t: "tree m c [i, j] = Some t" and i: "i < 512" "j < 512" "k < 512"
    and e: "leaf_at m p i j k = e" "has e PTE_V" "is_leaf e"
  shows "case copy_leaf L t k e m of Inl r \<Rightarrow> r = copy_oom | Inr m' \<Rightarrow> copied L R p c {[i, j, k]} m m'"
proof (cases "has e PTE_U")
  case False
  then have "user_frame (leaf_at m p i j k) = None" using e by (simp add: user_frame_def)
  then have "copied L R p c {[i, j, k]} m m"
    using copied_mono [OF copied_refl [OF wf], of "{[i, j, k]}" p c] by auto
  with False show ?thesis by (simp add: copy_leaf_def)
next
  case u: True
  obtain n m1 where al: "pmm_alloc_page L m = (n, m1)" by fastforce
  show ?thesis
  proof (cases "n = 0")
    case True
    then show ?thesis using u al by (simp add: copy_leaf_def)
  next
    case n0: False
    let ?f = "PTE_TO_PA e" and ?e = "PA_TO_PTE n OR (e AND 0x3FF)"
    let ?m2 = "memcpy m1 n ?f 4096"
    have n_al: "page_aligned n" using pmm.al_page [OF al n0] frame_aligned by blast
    have fill: "same_except {n} m1 ?m2" using n_al by (intro same_except_memcpy) simp_all
    note fr = fresh_frame [OF wf al n0 fill]
    have frame: "user_frame ?e = Some n"
      using e(2,3) u PTE_TO_PA_copy [OF n_al] by (simp add: user_frame_def flags_of_entry)
    have ok: "leaf_ok L ?m2 R ?e" by (rule fresh_leaf_ok [OF wf al n0 fill]) (simp add: frame)
    have t2: "tree ?m2 c [i, j] = Some t" using fr(6) [OF R(2)] t by simp
    let ?m3 = "store64 ?m2 (slot t k) ?e"
    note lw = leaf_write [OF fr(1) R(2) t2 i(3) ok]
    have ext: "extends L R c m ?m3"
      using fresh_extends [OF wf al n0 fill R(2)] grows_extends [OF lw(1)] by (rule extends_trans)
    have node: "tree m p [i, j, k] = Some ?f"
      using i e u by (simp add: tree_leaf user_frame_def)
    have f_al: "page_aligned ?f" by simp
    have content: "?m3 (n + of_nat l) = m (?f + of_nat l)" if l: "l < 4096" for l
    proof -
      have "tree ?m3 c [i, j, k] = Some n" using lw(2) [OF R(2) i] i frame by (simp add: tree_leaf)
      then have "n \<noteq> t" using t2 growsD(6) [OF lw(1) t2] wf_inj [OF growsD(1) [OF lw(1)] R(2) R(2)] by force
      moreover have "page_aligned t" using wf_page [OF wf R(2) t] .
      ultimately have "?m3 (n + of_nat l) = ?m2 (n + of_nat l)"
        using same_exceptD [OF same_except_store64_slot] i(3) page_base_add [OF n_al l] by simp
      also have "\<dots> = m1 (?f + of_nat l)"
      proof -
        have "page_base (?f + of_nat q) \<noteq> n" if "q < unat (4096 :: u64)" for q
          using fr(7) [OF R(1), of "[i, j, k]"] node that by simp
        then show ?thesis
          using memcpy_page_outside [OF n_al, of 4096 ?f m1 "n + of_nat l"] l by (simp add: unat_of_nat)
      qed
      also have "\<dots> = m (?f + of_nat l)"
      proof (rule same_exceptD [OF same_except_alloc [OF wf_aligned [OF wf] al]])
        show "page_base (?f + of_nat l) \<notin> {image_end L}"
          using wf_not_bitmap [OF wf R(1) node] l by simp
      qed
      finally show ?thesis .
    qed
    have "copied L R p c {[i, j, k]} m ?m3"
      unfolding copied_def
    proof (intro conjI allI impI)
      fix a b d :: nat assume abd: "a < 512" "b < 512" "d < 512"
      note leaf = lw(2) [OF R(2) abd]
      show "if [a, b, d] \<in> {[i, j, k]} \<and> user_frame (leaf_at m p a b d) \<noteq> None
        then private_copy L m ?m3 (leaf_at m p a b d) (leaf_at ?m3 c a b d)
        else leaf_at ?m3 c a b d = leaf_at m c a b d"
      proof (cases "[a, b, d] = [i, j, k]")
        case True
        have "n \<in> used L ?m3 - used L m" using growsD(2) [OF lw(1)] fr(2,3) by blast
        then show ?thesis using True leaf frame content e u
          by (auto simp: private_copy_def user_frame_def)
      next
        case False
        then show ?thesis using leaf fr(8) [OF R(2) abd(3)] by auto
      qed
    qed (rule ext)
    then show ?thesis using u al n0 by (simp add: copy_leaf_def Let_def)
  qed
qed

section \<open>The recursion\<close>

text \<open>The ways in which the copy can stop the kernel; a tree over 4KB pages excludes the third one.\<close>

definition copy_stop :: "memory \<Rightarrow> u64 \<Rightarrow> stop \<Rightarrow> bool" where
  "copy_stop m p r \<longleftrightarrow> r = copy_oom \<or>
     r = Panic ''PANIC: vmm_copy_uvm: invalid non-leaf PTE at level 0!'' \<and>
     (\<exists>i j k. i < 2 \<and> j < 512 \<and> k < 512 \<and> has (leaf_at m p i j k) PTE_V \<and> \<not> is_leaf (leaf_at m p i j k))"

abbreviation copy_result :: "layout \<Rightarrow> u64 set \<Rightarrow> u64 \<Rightarrow> u64 \<Rightarrow> nat list set \<Rightarrow> memory \<Rightarrow> stop + memory \<Rightarrow> bool" where
  "copy_result L R p c D m x \<equiv>
     (case x of Inl r \<Rightarrow> copy_stop m p r | Inr m' \<Rightarrow> copied L R p c D m m')"

lemma tree_None_extend: "tree m r q = None \<Longrightarrow> tree m r (q @ s) = None"
proof (induction s rule: rev_induct)
  case (snoc x s)
  then have "tree m r ((q @ s) @ [x]) = None" by (subst node_snoc) simp
  then show ?case by simp
qed simp

lemma no_user_page:
  assumes "tree m r q = None" "[i, j, k] \<in> user_paths q" "i < 512" "j < 512" "k < 512"
  shows "user_frame (leaf_at m r i j k) = None"
proof -
  obtain s where "[i, j, k] = q @ s" using assms(2) by (auto simp: user_paths_def)
  then have "tree m r [i, j, k] = None" using tree_None_extend [OF assms(1), of s] by simp
  then show ?thesis using assms(3-5) by (simp add: tree_leaf)
qed

lemma copied_none:
  assumes "wf_forest L m R" "tree m p q = None"
  shows "copied L R p c (user_paths q) m m"
  using copied_mono [OF copied_refl [OF assms(1)], of "user_paths q" p c] no_user_page [OF assms(2)]
  by simp

lemma grows_copied:
  assumes "grows L R c m m'" "c \<in> R"
    and "\<And>r a b d. r \<in> R \<Longrightarrow> a < 512 \<Longrightarrow> b < 512 \<Longrightarrow> d < 512 \<Longrightarrow> leaf_at m' r a b d = leaf_at m r a b d"
  shows "copied L R p c {} m m'"
  using grows_extends [OF assms(1)] assms(2,3) by (simp add: copied_def)

lemma child_table_next:
  assumes wf: "wf_forest L m R" and r: "r \<in> R" and t: "tree m r q = Some t" "length q < 2" "i < 512"
  shows "child_table L t i m =
    (case next_table L m t i of (t', m') \<Rightarrow> if t' = 0 then Inl copy_oom else Inr (t', m'))"
proof (cases "has (load64 m (slot t i)) PTE_V")
  case True
  then have "\<not> is_leaf (load64 m (slot t i))" using wf_inner [OF wf r t] by simp
  moreover have "tree m r (q @ [i]) = Some (PTE_TO_PA (load64 m (slot t i)))"
    using wf_child [OF wf r t] t True by (simp add: tree_snoc)
  then have "PTE_TO_PA (load64 m (slot t i)) \<noteq> 0"
    using wf_used [OF wf r] used_subset frame_nonzero by blast
  ultimately show ?thesis using True by (simp add: child_table_def next_table_def Let_def)
qed (auto simp: child_table_def next_table_def Let_def split: prod.splits)

lemma copy_stop_mono:
  assumes "copy_stop m1 p r" "wf_forest L m R" "copied L R p c D m m1" "p \<in> R" "c \<in> R" "p \<noteq> c"
  shows "copy_stop m p r"
proof -
  have "leaf_at m1 p i j k = leaf_at m p i j k" if "k < 512" for i j k
    using extends_other_leaf [OF assms(2) copiedD(1) [OF assms(3)] assms(5,4,6) that] .
  with assms(1) show ?thesis unfolding copy_stop_def by (elim disjE conjE exE) auto
qed

text \<open>One round of the loop, given the specification of the recursive call.\<close>

definition copy_entry :: "layout \<Rightarrow> (u64 \<Rightarrow> u64 \<Rightarrow> memory \<Rightarrow> stop + memory) \<Rightarrow> u64 \<Rightarrow> u64 \<Rightarrow> nat \<Rightarrow> nat \<Rightarrow> memory \<Rightarrow> stop + memory" where
  "copy_entry L rec parent_pt child_pt level i m =
     (if level = 2 \<and> 2 \<le> i then Inr m
      else
        (let pte = load64 m (slot parent_pt i) in
         if \<not> has pte PTE_V then Inr m
         else if is_leaf pte then copy_leaf L child_pt i pte m
         else if level = 0 then
           Inl (Panic ''PANIC: vmm_copy_uvm: invalid non-leaf PTE at level 0!'')
         else
           (case child_table L child_pt i m of
              Inl r \<Rightarrow> Inl r
            | Inr (next_child, m1) \<Rightarrow> rec (PTE_TO_PA pte) next_child m1)))"

lemma vmm_copy_uvm_loop:
  "vmm_copy_uvm L parent_pt child_pt level m =
     for_each (copy_entry L (\<lambda>pp cc. vmm_copy_uvm L pp cc (level - 1)) parent_pt child_pt level) [0..<512] m"
  by (subst vmm_copy_uvm.simps) (simp only: copy_entry_def [abs_def])

lemma copy_entry_spec:
  assumes wf: "wf_forest L m R" and R: "p \<in> R" "c \<in> R" "p \<noteq> c"
    and q: "length q + level = 2" "q \<noteq> [] \<longrightarrow> hd q < 2" "\<forall>x \<in> set q. x < 512" and i: "i < 512"
    and pt: "tree m p q = Some pt" and ct: "tree m c q = Some ct"
    and rec: "\<And>m1 pp cc. 0 < level \<Longrightarrow> wf_forest L m1 R \<Longrightarrow> i < 2 \<or> q \<noteq> [] \<Longrightarrow>
      tree m1 p (q @ [i]) = Some pp \<Longrightarrow> tree m1 c (q @ [i]) = Some cc \<Longrightarrow>
      copy_result L R p c (user_paths (q @ [i])) m1 (rec pp cc m1)"
  shows "copy_result L R p c (user_paths (q @ [i])) m (copy_entry L rec pt ct level i m)"
proof -
  let ?e = "load64 m (slot pt i)"
  have below: "tree m p (q @ [i]) = child m level pt i"
    using q(1) tree_snoc [OF pt _ i] by (metis add_diff_cancel_left' le_add1)
  consider (kernel) "level = 2" "2 \<le> i" | (none) "\<not> has ?e PTE_V" "\<not> (level = 2 \<and> 2 \<le> i)"
    | (leaf) "has ?e PTE_V" "is_leaf ?e" "level = 0"
    | (bad) "has ?e PTE_V" "\<not> is_leaf ?e" "level = 0"
    | (table) "has ?e PTE_V" "\<not> is_leaf ?e" "0 < level" "\<not> (level = 2 \<and> 2 \<le> i)"
    using wf_inner [OF wf R(1) pt _ i] q(1) by fastforce
  then show ?thesis
  proof cases
    case kernel
    then have "user_paths (q @ [i]) = {}" using q(1) by (auto simp: user_paths_def)
    then show ?thesis using kernel copied_refl [OF wf] by (simp add: copy_entry_def)
  next
    case none
    then have "tree m p (q @ [i]) = None" using below by (simp add: child_def)
    then show ?thesis using none copied_none [OF wf] by (simp add: copy_entry_def)
  next
    case leaf
    then obtain a b where ab: "q = [a, b]" "a < 2" "a < 512" "b < 512"
      using q by (auto simp: length_Suc_conv numeral_2_eq_2)
    have "user_paths (q @ [i]) = {[a, b, i]}" using ab by (auto simp: user_paths_def)
    moreover have "leaf_at m p a b i = ?e" using pt ab by (simp add: leaf_at_def)
    then have "case copy_leaf L ct i ?e m of Inl r \<Rightarrow> r = copy_oom | Inr m' \<Rightarrow> copied L R p c {[a, b, i]} m m'"
      using copy_leaf_spec [OF wf R _ ab(3,4) i] ct ab(1) leaf by simp
    ultimately show ?thesis using leaf by (auto simp: copy_entry_def copy_stop_def Let_def split: sum.splits)
  next
    case bad
    then obtain a b where ab: "q = [a, b]" "a < 2" "a < 512" "b < 512"
      using q by (auto simp: length_Suc_conv numeral_2_eq_2)
    then have "leaf_at m p a b i = ?e" using pt by (simp add: leaf_at_def)
    then have "copy_stop m p (Panic ''PANIC: vmm_copy_uvm: invalid non-leaf PTE at level 0!'')"
      using bad ab i unfolding copy_stop_def by metis
    then show ?thesis using bad by (simp add: copy_entry_def)
  next
    case table
    obtain t' m1 where nt: "next_table L m ct i = (t', m1)" by fastforce
    have lq: "length q < 2" using table q(1) by simp
    have "child_table L ct i m = (if t' = 0 then Inl copy_oom else Inr (t', m1))"
      using child_table_next [OF wf R(2) ct lq i] nt by simp
    then have entry: "copy_entry L rec pt ct level i m =
        (if t' = 0 then Inl copy_oom else rec (PTE_TO_PA ?e) t' m1)"
      using table by (auto simp: copy_entry_def Let_def)
    from wf R(2) ct lq i nt show ?thesis
    proof (cases rule: next_table_cases)
      case oom
      then show ?thesis using entry by (simp add: copy_stop_def)
    next
      case down
      have c1: "copied L R p c {} m m1" by (rule grows_copied [OF down(2) R(2)]) (rule down(4))
      have "tree m p (q @ [i]) = Some (PTE_TO_PA ?e)" using below table by (simp add: child_def)
      then have pp: "tree m1 p (q @ [i]) = Some (PTE_TO_PA ?e)"
        using grows_other [OF down(2) R(1,3)] by simp
      have "i < 2 \<or> q \<noteq> []" using table(4) q(1) by auto
      then have r: "copy_result L R p c (user_paths (q @ [i])) m1 (rec (PTE_TO_PA ?e) t' m1)"
        using rec [OF table(3) grows_wf [OF down(2)] _ pp down(3)] by blast
      show ?thesis
      proof (cases "rec (PTE_TO_PA ?e) t' m1")
        case (Inl x)
        then show ?thesis using r entry down(1) copy_stop_mono [OF _ wf c1 R] by simp
      next
        case (Inr m2)
        then have "copied L R p c ({} \<union> user_paths (q @ [i])) m m2"
          using r by (intro copied_trans [OF wf R c1]) simp_all
        then show ?thesis using Inr entry down(1) by simp
      qed
    qed
  qed
qed

lemma copy_level:
  assumes R: "p \<in> R" "c \<in> R" "p \<noteq> c"
  shows "wf_forest L m R \<Longrightarrow> length q + level = 2 \<Longrightarrow> q \<noteq> [] \<longrightarrow> hd q < 2 \<Longrightarrow> \<forall>x \<in> set q. x < 512 \<Longrightarrow>
    tree m p q = Some pt \<Longrightarrow> tree m c q = Some ct \<Longrightarrow>
    copy_result L R p c (user_paths q) m (vmm_copy_uvm L pt ct level m)"
proof (induction level arbitrary: q pt ct m rule: less_induct)
  case (less level)
  note wf = less.prems(1)
  let ?body = "copy_entry L (\<lambda>pp cc. vmm_copy_uvm L pp cc (level - 1)) pt ct level"
  let ?D = "\<lambda>ys. \<Union>i \<in> set ys. user_paths (q @ [i])"
  let ?I = "\<lambda>ys m'. copied L R p c (?D ys) m m'"
  have step: "copy_result L R p c (user_paths (q @ [i])) m1 (?body i m1)"
    if I: "?I ys m1" and i: "i < 512" for ys m1 i
  proof (rule copy_entry_spec [OF extendsD(1) [OF copiedD(1) [OF I]] R less.prems(2-4) i])
    show "tree m1 p q = Some pt" using extendsD(6) [OF copiedD(1) [OF I] R(1,3)] less.prems(5) by simp
    show "tree m1 c q = Some ct"
      using extendsD(5) [OF copiedD(1) [OF I] less.prems(6)] less.prems(2) by simp
    fix m2 pp cc
    assume "0 < level" "wf_forest L m2 R" "i < 2 \<or> q \<noteq> []" "tree m2 p (q @ [i]) = Some pp"
      "tree m2 c (q @ [i]) = Some cc"
    then show "copy_result L R p c (user_paths (q @ [i])) m2 (vmm_copy_uvm L pp cc (level - 1) m2)"
      using less.prems(2-4) i by (intro less.IH) (auto simp: hd_append)
  qed
  have loop: "case for_each ?body [0..<512] m of Inl r \<Rightarrow> copy_stop m p r | Inr m' \<Rightarrow> ?I [0..<512] m'"
  proof (rule for_each_rule)
    show "?I [] m" using copied_refl [OF wf] by simp
  next
    fix ys i zs m1 r
    assume xs: "[0..<512] = ys @ i # zs" and I: "?I ys m1" and b: "?body i m1 = Inl r"
    have "i \<in> set [0..<512]" unfolding xs by simp
    then have i: "i < 512" by simp
    then show "copy_stop m p r" using step [OF I i] b copy_stop_mono [OF _ wf I R] by simp
  next
    fix ys i zs m1 m2
    assume xs: "[0..<512] = ys @ i # zs" and I: "?I ys m1" and b: "?body i m1 = Inr m2"
    have "i \<in> set [0..<512]" unfolding xs by simp
    then have i: "i < 512" by simp
    have "distinct (ys @ i # zs)" unfolding xs [symmetric] by simp
    then have "i \<notin> set ys" by simp
    then have "?D ys \<inter> user_paths (q @ [i]) = {}" by (auto simp: user_paths_def)
    then have "copied L R p c (?D ys \<union> user_paths (q @ [i])) m m2"
      using step [OF I i] b by (intro copied_trans [OF wf R I]) simp_all
    then show "?I (ys @ [i]) m2" by (simp add: Un_commute)
  qed
  have all: "[i, j, k] \<in> ?D [0..<512]" if k: "[i, j, k] \<in> user_paths q" "i < 512" "j < 512" "k < 512" for i j k
  proof -
    obtain s where s: "[i, j, k] = q @ s" using k(1) by (auto simp: user_paths_def)
    then have "length s \<noteq> 0" using less.prems(2) by (auto dest: arg_cong [where f = length])
    then obtain x s' where x: "s = x # s'" by (cases s) auto
    then have "x \<in> set [i, j, k]" unfolding s by simp
    then have "x < 512" using k by auto
    moreover have "[i, j, k] \<in> user_paths (q @ [x])" using k(1) s x by (auto simp: user_paths_def)
    ultimately show ?thesis by auto
  qed
  show ?case
  proof (cases "for_each ?body [0..<512] m")
    case (Inl r)
    then show ?thesis using loop by (simp add: vmm_copy_uvm_loop)
  next
    case (Inr m')
    then have "?I [0..<512] m'" using loop by simp
    then have "copied L R p c (user_paths q) m m'"
    proof (rule copied_mono)
      show "?D [0..<512] \<subseteq> user_paths q" by (auto simp: user_paths_def)
    qed (use all in auto)
    then show ?thesis using Inr by (simp add: vmm_copy_uvm_loop)
  qed
qed

lemma vmm_copy_uvm_cases:
  assumes wf: "wf_forest L m R" and R: "p \<in> R" "c \<in> R" "p \<noteq> c"
  shows "copy_result L R p c (user_paths []) m (vmm_copy_uvm L p c 2 m)"
  by (rule copy_level [OF R wf]) simp_all

section \<open>Properties\<close>

text \<open>
  C12: \<open>vmm_copy_uvm\<close> from one address space to another one either stops the kernel (out of
  memory, or a corrupt level-0 entry of the parent), or afterwards every user page of the
  parent below 2GB has in the child, at the same address and with the same flags, a frame
  that was free before and now holds the same bytes; all other entries of the child, and
  every translation and user page of the other address spaces, are unchanged.
\<close>
theorem vmm_copy_uvm_private:
  assumes "wf_forest L m R" "p \<in> R" "c \<in> R" "p \<noteq> c"
  shows "case vmm_copy_uvm L p c 2 m of
      Inl r \<Rightarrow> copy_stop m p r
    | Inr m' \<Rightarrow> wf_forest L m' R \<and>
        (\<forall>i j k. i < 512 \<longrightarrow> j < 512 \<longrightarrow> k < 512 \<longrightarrow>
           (if i < 2 \<and> user_frame (leaf_at m p i j k) \<noteq> None
            then private_copy L m m' (leaf_at m p i j k) (leaf_at m' c i j k)
            else leaf_at m' c i j k = leaf_at m c i j k)) \<and>
        (\<forall>r \<in> R - {c}. \<forall>q. tree m' r q = tree m r q) \<and>
        (\<forall>r \<in> R - {c}. \<forall>q f b. tree m r q = Some f \<longrightarrow> page_base b = f \<longrightarrow> m' b = m b)"
proof (cases "vmm_copy_uvm L p c 2 m")
  case (Inl r)
  then show ?thesis using vmm_copy_uvm_cases [OF assms] by simp
next
  case (Inr m')
  then have c: "copied L R p c (user_paths []) m m'" using vmm_copy_uvm_cases [OF assms] by simp
  have path: "[i, j, k] \<in> user_paths [] \<longleftrightarrow> i < 2" for i j k by (simp add: user_paths_def)
  have "if i < 2 \<and> user_frame (leaf_at m p i j k) \<noteq> None
      then private_copy L m m' (leaf_at m p i j k) (leaf_at m' c i j k)
      else leaf_at m' c i j k = leaf_at m c i j k" if "i < 512" "j < 512" "k < 512" for i j k
    using copiedD(2,3) [OF c that] path [of i j k] by auto
  moreover note x = extendsD [OF copiedD(1) [OF c]]
  have "m' b = m b" if "r \<in> R - {c}" "tree m r q = Some f" "page_base b = f" for r q f b
    using extends_other_node [OF assms(1) copiedD(1) [OF c] assms(3) _ _ that(2,3)] that(1) by blast
  ultimately show ?thesis using Inr x(1,6) by simp
qed

text \<open>Two empty address spaces for the witness.\<close>

lemma sample_pair:
  "\<exists>m c. wf_forest sample_layout m {c, sample_root} \<and> c \<noteq> sample_root"
proof -
  obtain n m1 where al: "pmm_alloc_page sample_layout sample_memory = (n, m1)" by fastforce
  have n0: "n \<noteq> 0" using pmm.al_null [of sample_layout sample_memory m1] al sample_wf(3) by auto
  have n_al: "page_aligned n" using pmm.al_page [OF al n0] frame_aligned by blast
  have fill: "same_except {n} m1 (memset m1 n 0 4096)" by (rule same_except_memset [OF n_al]) simp
  have "wf_forest sample_layout (memset m1 n 0 4096) (insert n {sample_root})"
    by (rule new_root [OF sample_wf(1) al n0 fill]) (use n_al in simp)
  moreover have "n \<notin> {sample_root}"
    by (rule new_root(3) [OF sample_wf(1) al n0 fill]) (use n_al in simp)
  ultimately show ?thesis by auto
qed

lemma vmm_copy_uvm_private_witness:
  "\<exists>m c. c \<noteq> sample_root \<and> (case vmm_copy_uvm sample_layout sample_root c 2 m of
      Inl r \<Rightarrow> copy_stop m sample_root r
    | Inr m' \<Rightarrow> wf_forest sample_layout m' {c, sample_root})"
proof -
  obtain m c where c: "wf_forest sample_layout m {c, sample_root}" "c \<noteq> sample_root"
    using sample_pair by blast
  have "sample_root \<in> {c, sample_root}" "c \<in> {c, sample_root}" "sample_root \<noteq> c" using c(2) by auto
  from vmm_copy_uvm_private [OF c(1) this] have "case vmm_copy_uvm sample_layout sample_root c 2 m of
      Inl r \<Rightarrow> copy_stop m sample_root r
    | Inr m' \<Rightarrow> wf_forest sample_layout m' {c, sample_root}"
    by (cases "vmm_copy_uvm sample_layout sample_root c 2 m") simp_all
  with c(2) show ?thesis by blast
qed

end
