(* ===== verification/Page_Free.thy ===== *)
theory Page_Free
  imports Page_Map
begin

text \<open>
  Freeing a whole address space: \<open>free_page_table\<close> gives back every node of a tree, which
  are its tables and its user frames, and writes nothing but the bitmap.
\<close>

section \<open>One subtree\<close>

text \<open>The nodes strictly below \<open>t\<close> and those below its entry \<open>i\<close>.\<close>

definition below :: "memory \<Rightarrow> nat \<Rightarrow> u64 \<Rightarrow> u64 set" where
  "below m n t = {x. \<exists>p. p \<noteq> [] \<and> node m n t p = Some x}"

definition below_entry :: "memory \<Rightarrow> nat \<Rightarrow> u64 \<Rightarrow> nat \<Rightarrow> u64 set" where
  "below_entry m level t i =
     (case child m level t i of None \<Rightarrow> {} | Some t' \<Rightarrow> insert t' (below m level t'))"

lemma below_Suc: "below m (Suc level) t = (\<Union>i \<in> {i. i < 512}. below_entry m level t i)"
proof (intro equalityI subsetI)
  fix x assume "x \<in> below m (Suc level) t"
  then obtain i p where n: "node m (Suc level) t (i # p) = Some x"
    by (auto simp: below_def neq_Nil_conv)
  then have i: "i < 512" by (simp split: if_splits)
  with n obtain t' where t': "child m level t i = Some t'" "node m level t' p = Some x"
    by (auto split: bind_splits)
  then have "x \<in> below_entry m level t i"
    by (cases p) (auto simp: below_entry_def below_def)
  with i show "x \<in> (\<Union>i \<in> {i. i < 512}. below_entry m level t i)" by blast
next
  fix x assume "x \<in> (\<Union>i \<in> {i. i < 512}. below_entry m level t i)"
  then obtain i where i: "i < 512" "x \<in> below_entry m level t i" by blast
  then obtain t' where t': "child m level t i = Some t'" "x \<in> insert t' (below m level t')"
    by (auto simp: below_entry_def split: option.splits)
  then obtain p where "node m level t' p = Some x"
    by (cases "x = t'") (use t' in \<open>auto simp: below_def intro: that [of "[]"]\<close>)
  then have "node m (Suc level) t (i # p) = Some x" using i t' by simp
  then show "x \<in> below m (Suc level) t" unfolding below_def by blast
qed

lemma below_0 [simp]: "below m 0 t = {}"
proof -
  have "node m 0 t p \<noteq> Some x" if "p \<noteq> []" for p x using that by (cases p) auto
  then show ?thesis by (auto simp: below_def)
qed

text \<open>
  What is needed of a subtree: its tables are pages other than the bitmap, and there are no
  large leaves.
\<close>

definition sound_tables :: "layout \<Rightarrow> memory \<Rightarrow> nat \<Rightarrow> u64 \<Rightarrow> bool" where
  "sound_tables L m level pt \<longleftrightarrow>
     (\<forall>p t. length p \<le> level \<longrightarrow> node m (Suc level) pt p = Some t \<longrightarrow>
        page_aligned t \<and> t \<noteq> image_end L \<and>
        (length p < level \<longrightarrow> (\<forall>i < 512. has (load64 m (slot t i)) PTE_V \<longrightarrow>
           \<not> is_leaf (load64 m (slot t i)))))"

lemma sound_tables_root:
  assumes "sound_tables L m level pt"
  shows "page_aligned pt" "pt \<noteq> image_end L"
    "0 < level \<Longrightarrow> i < 512 \<Longrightarrow> has (load64 m (slot pt i)) PTE_V \<Longrightarrow> \<not> is_leaf (load64 m (slot pt i))"
proof -
  have "page_aligned pt \<and> pt \<noteq> image_end L \<and> (0 < level \<longrightarrow>
      (\<forall>i < 512. has (load64 m (slot pt i)) PTE_V \<longrightarrow> \<not> is_leaf (load64 m (slot pt i))))"
    using assms [unfolded sound_tables_def, rule_format, of "[]" pt] by simp
  then show "page_aligned pt" "pt \<noteq> image_end L"
    "0 < level \<Longrightarrow> i < 512 \<Longrightarrow> has (load64 m (slot pt i)) PTE_V \<Longrightarrow> \<not> is_leaf (load64 m (slot pt i))"
    by blast+
qed

lemma sound_tables_child:
  assumes "sound_tables L m (Suc level) pt" "child m (Suc level) pt i = Some t" "i < 512"
  shows "sound_tables L m level t"
  unfolding sound_tables_def
proof (intro allI impI)
  fix p x assume "length p \<le> level" "node m (Suc level) t p = Some x"
  then have "node m (Suc (Suc level)) pt (i # p) = Some x" "length (i # p) \<le> Suc level"
    using assms by simp_all
  then show "page_aligned x \<and> x \<noteq> image_end L \<and>
      (length p < level \<longrightarrow> (\<forall>i < 512. has (load64 m (slot x i)) PTE_V \<longrightarrow> \<not> is_leaf (load64 m (slot x i))))"
    using assms(1) unfolding sound_tables_def by (metis Suc_less_eq length_Cons)
qed

lemma entry_bitmap:
  assumes "same_except {image_end L} m m'" "page_aligned t" "t \<noteq> image_end L" "i < 512"
  shows "load64 m' (slot t i) = load64 m (slot t i)"
  using assms by (intro load64_same_except) auto

lemma node_bitmap:
  assumes sound: "sound_tables L m level pt" and se: "same_except {image_end L} m m'"
  shows "node m' (Suc level) pt p = node m (Suc level) pt p"
proof (induction p rule: rev_induct)
  case (snoc i p)
  show ?case
  proof (cases "length p \<le> level \<and> i < 512")
    case True
    show ?thesis
    proof (cases "node m (Suc level) pt p")
      case (Some t)
      then have "page_aligned t" "t \<noteq> image_end L" using sound True by (auto simp: sound_tables_def)
      then have "load64 m' (slot t i) = load64 m (slot t i)" using entry_bitmap [OF se] True by blast
      then show ?thesis unfolding node_snoc using snoc Some by (simp add: child_def)
    qed (simp add: node_snoc snoc)
  next
    case False
    then show ?thesis unfolding node_snoc by auto
  qed
qed simp

lemma sound_tables_bitmap:
  assumes sound: "sound_tables L m level pt" and se: "same_except {image_end L} m m'"
  shows "sound_tables L m' level pt"
  unfolding sound_tables_def
proof (intro allI impI)
  fix p t assume p: "length p \<le> level" and "node m' (Suc level) pt p = Some t"
  then have t: "page_aligned t \<and> t \<noteq> image_end L \<and>
      (length p < level \<longrightarrow> (\<forall>i < 512. has (load64 m (slot t i)) PTE_V \<longrightarrow> \<not> is_leaf (load64 m (slot t i))))"
    using sound unfolding node_bitmap [OF assms] sound_tables_def by blast
  then show "page_aligned t \<and> t \<noteq> image_end L \<and>
      (length p < level \<longrightarrow> (\<forall>i < 512. has (load64 m' (slot t i)) PTE_V \<longrightarrow> \<not> is_leaf (load64 m' (slot t i))))"
    using entry_bitmap [OF se] by simp
qed

lemma below_bitmap:
  assumes "sound_tables L m level pt" "same_except {image_end L} m m'"
  shows "below m' (Suc level) pt = below m (Suc level) pt"
  unfolding below_def node_bitmap [OF assms] ..

section \<open>The loop\<close>

text \<open>The body of \<open>free_page_table\<close>'s loop, with the recursive call as a parameter.\<close>

definition free_entry :: "layout \<Rightarrow> (u64 \<Rightarrow> memory \<Rightarrow> memory) \<Rightarrow> nat \<Rightarrow> u64 \<Rightarrow> nat \<Rightarrow> memory \<Rightarrow> memory" where
  "free_entry L rec level pt i m =
     (let pte = load64 m (slot pt i) in
      if has pte PTE_V then
        if is_leaf pte then
          if has pte PTE_U then pmm_free_page L m (PTE_TO_PA pte) else m
        else if 0 < level then pmm_free_page L (rec (PTE_TO_PA pte) m) (PTE_TO_PA pte)
        else m
      else m)"

lemma free_page_table_fold:
  "free_page_table L pt level m =
     fold (free_entry L (\<lambda>t. free_page_table L t (level - 1)) level pt) [0..<512] m"
  by (subst free_page_table.simps) (simp only: free_entry_def [abs_def])

text \<open>A step that removes the frames \<open>A\<close> from the used ones and writes only the bitmap.\<close>

definition released :: "layout \<Rightarrow> u64 set \<Rightarrow> memory \<Rightarrow> memory \<Rightarrow> bool" where
  "released L A m m' \<longleftrightarrow> used L m' = used L m - A \<and> same_except {image_end L} m m'"

lemma released_empty [simp]: "released L {} m m"
  by (simp add: released_def)

lemma released_trans: "released L A m m1 \<Longrightarrow> released L B m1 m2 \<Longrightarrow> released L (A \<union> B) m m2"
  unfolding released_def by (auto intro: same_except_trans)

lemma released_free: "page_aligned (image_end L) \<Longrightarrow> released L {p} m (pmm_free_page L m p)"
  by (simp add: released_def same_except_free)

lemma free_entry_released:
  assumes al: "page_aligned (image_end L)" and sound: "sound_tables L m level pt" and i: "i < 512"
    and rec: "\<And>t m. 0 < level \<Longrightarrow> sound_tables L m (level - 1) t \<Longrightarrow> released L (below m level t) m (rec t m)"
  shows "released L (below_entry m level pt i) m (free_entry L rec level pt i m)"
proof -
  let ?e = "load64 m (slot pt i)"
  consider "\<not> has ?e PTE_V" | "has ?e PTE_V" "is_leaf ?e" "level = 0" | "has ?e PTE_V" "\<not> is_leaf ?e"
    using sound_tables_root(3) [OF sound _ i] by auto
  then show ?thesis
  proof cases
    case 1
    then show ?thesis by (simp add: free_entry_def below_entry_def child_def)
  next
    case 2
    then show ?thesis using released_free [OF al]
      by (simp add: free_entry_def below_entry_def child_def Let_def)
  next
    case 3
    show ?thesis
    proof (cases level)
      case 0
      with 3 show ?thesis by (simp add: free_entry_def below_entry_def child_def)
    next
      case (Suc l)
      then have c: "child m level pt i = Some (PTE_TO_PA ?e)" using 3 by (simp add: child_def)
      then have "sound_tables L m l (PTE_TO_PA ?e)" using sound_tables_child sound i Suc by blast
      then have "released L (below m level (PTE_TO_PA ?e)) m (rec (PTE_TO_PA ?e) m)"
        using rec Suc by simp
      from released_trans [OF this released_free [OF al]] show ?thesis
        using 3 Suc c by (simp add: free_entry_def below_entry_def Let_def)
    qed
  qed
qed

lemma free_page_table_released:
  assumes al: "page_aligned (image_end L)"
  shows "sound_tables L m level pt \<Longrightarrow> released L (below m (Suc level) pt) m (free_page_table L pt level m)"
proof (induction level arbitrary: pt m rule: less_induct)
  case (less level)
  let ?f = "free_entry L (\<lambda>t. free_page_table L t (level - 1)) level pt"
  have "released L (\<Union>i \<in> {i. i < n}. below_entry m level pt i) m (fold ?f [0..<n] m)" if "n \<le> 512" for n
    using that
  proof (induction n)
    case (Suc n)
    let ?m = "fold ?f [0..<n] m"
    have IH: "released L (\<Union>i \<in> {i. i < n}. below_entry m level pt i) m ?m" using Suc by simp
    then have se: "same_except {image_end L} m ?m" by (simp add: released_def)
    note sound = sound_tables_bitmap [OF less.prems se]
    have "released L (below_entry ?m level pt n) ?m (?f n ?m)"
    proof (rule free_entry_released [OF al sound])
      fix t m assume "0 < level" "sound_tables L m (level - 1) t"
      then show "released L (below m level t) m (free_page_table L t (level - 1) m)"
        using less.IH [of "level - 1" m t] by simp
    qed (use Suc.prems in simp)
    moreover have "below_entry ?m level pt n = below_entry m level pt n"
    proof -
      have n: "n < 512" using Suc.prems by simp
      have same: "child ?m level pt n = child m level pt n"
        using entry_bitmap [OF se sound_tables_root(1,2) [OF less.prems] n] by (simp add: child_def)
      have "below ?m level t = below m level t" if "child m level pt n = Some t" for t
      proof (cases level)
        case (Suc l)
        then show ?thesis
          using below_bitmap [OF sound_tables_child [OF _ _ n] se] less.prems that by blast
      qed simp
      then show ?thesis using same by (auto simp: below_entry_def split: option.splits)
    qed
    moreover have "{i. i < Suc n} = insert n {i. i < n}" by auto
    ultimately show ?case using released_trans [OF IH] by (simp add: Un_commute)
  qed simp
  from this [of 512] show ?case by (subst below_Suc, subst free_page_table_fold) simp
qed

section \<open>The address space of one root\<close>

definition nodes :: "memory \<Rightarrow> u64 \<Rightarrow> u64 set" where
  "nodes m r = {t. \<exists>p. tree m r p = Some t}"

lemma wf_sound_tables:
  assumes wf: "wf_forest L m R" and r: "r \<in> R"
  shows "sound_tables L m 2 r"
proof -
  have three: "Suc 2 = 3" by simp
  show ?thesis unfolding sound_tables_def three
    using wf_page [OF wf r] wf_not_bitmap [OF wf r] wf_inner [OF wf r] by blast
qed

text \<open>A step that writes only the bitmap keeps every tree.\<close>

lemma tree_bitmap:
  assumes "wf_forest L m R" "r \<in> R" "same_except {image_end L} m m'"
  shows "tree m' r p = tree m r p"
  using node_bitmap [OF wf_sound_tables [OF assms(1,2)] assms(3)] by simp

lemma wf_bitmap:
  assumes wf: "wf_forest L m R" and se: "same_except {image_end L} m m'" and S: "S \<subseteq> R"
    and keep: "\<And>r. r \<in> S \<Longrightarrow> nodes m r \<subseteq> used L m'"
    and low: "{p \<in> ram_frames. p \<le> image_end L} \<subseteq> used L m'"
  shows "wf_forest L m' S"
  unfolding wf_forest_def
proof (intro conjI ballI allI impI)
  note tree' = tree_bitmap [OF wf _ se]
  show "page_aligned (image_end L)" using wf by (rule wf_aligned)
  show "{p \<in> ram_frames. p \<le> image_end L} \<subseteq> used L m'" by (rule low)
  fix r p t assume r: "r \<in> S" and t: "tree m' r p = Some t"
  have rR: "r \<in> R" using r S by blast
  have old: "tree m r p = Some t" using t tree' [OF rR] by simp
  then show "t \<in> used L m'" using keep [OF r] by (auto simp: nodes_def)
  show "image_end L < t" using wf_above [OF wf rR old] .
  show "r = r'" "p = p'" if "r' \<in> S" "tree m' r' p' = Some t" for r' p'
    using wf_inj [OF wf rR _ old, of r' p'] that S tree' [of r'] by auto
  show "\<not> is_leaf (load64 m' (slot t i))"
    if "length p < 2" "i < 512" "has (load64 m' (slot t i)) PTE_V" for i
    using wf_inner [OF wf rR old that(1,2)] that(3)
      entry_bitmap [OF se wf_page [OF wf rR old] wf_not_bitmap [OF wf rR old] that(2)] by simp
qed

lemma nodes_disjoint:
  assumes "wf_forest L m R" "r \<in> R" "r' \<in> R" "r \<noteq> r'"
  shows "nodes m r \<inter> nodes m r' = {}"
  using wf_inj [OF assms(1-3)] assms(4) unfolding nodes_def by blast

lemma vmm_free_pt_spec:
  assumes wf: "wf_forest L m R" and r: "r \<in> R"
  shows "used L (vmm_free_pt L m r) = used L m - nodes m r"
    "same_except {image_end L} m (vmm_free_pt L m r)"
    "wf_forest L (vmm_free_pt L m r) (R - {r})"
    "\<And>r'. r' \<in> R \<Longrightarrow> tree (vmm_free_pt L m r) r' p = tree m r' p"
proof -
  note al = wf_aligned [OF wf]
  have "below m 3 r \<union> {r} = nodes m r"
  proof -
    have "(\<exists>p. p \<noteq> [] \<and> tree m r p = Some x) \<or> x = r \<longleftrightarrow> (\<exists>p. tree m r p = Some x)" for x
      by (metis node.simps(1) option.inject)
    then show ?thesis unfolding below_def nodes_def by blast
  qed
  moreover have "released L (below m 3 r \<union> {r}) m (vmm_free_pt L m r)"
    unfolding vmm_free_pt_def
    using released_trans [OF free_page_table_released [OF al wf_sound_tables [OF wf r]] released_free [OF al]]
    by simp
  ultimately have rel: "released L (nodes m r) m (vmm_free_pt L m r)" by simp
  then show used': "used L (vmm_free_pt L m r) = used L m - nodes m r"
    and se: "same_except {image_end L} m (vmm_free_pt L m r)"
    by (simp_all add: released_def)
  show "wf_forest L (vmm_free_pt L m r) (R - {r})"
  proof (rule wf_bitmap [OF wf se])
    fix r' assume r': "r' \<in> R - {r}"
    have "nodes m r' \<subseteq> used L m" using wf_used [OF wf, of r'] r' by (auto simp: nodes_def)
    then show "nodes m r' \<subseteq> used L (vmm_free_pt L m r)"
      using nodes_disjoint [OF wf, of r' r] r r' unfolding used' by blast
  next
    have "x \<notin> nodes m r" if "x \<le> image_end L" for x
    proof
      assume "x \<in> nodes m r"
      then have "image_end L < x" using wf_above [OF wf r] by (auto simp: nodes_def)
      with that show False by simp
    qed
    then show "{p \<in> ram_frames. p \<le> image_end L} \<subseteq> used L (vmm_free_pt L m r)"
      unfolding used' using wf_reserved [OF wf] by blast
  qed blast
  show "tree (vmm_free_pt L m r) r' p = tree m r' p" if "r' \<in> R" for r'
    by (rule tree_bitmap [OF wf that se])
qed

section \<open>Properties\<close>

text \<open>
  C23: \<open>vmm_free_pt\<close> gives back every frame of an address space, tables and user pages, and
  nothing else; the other address spaces keep all their translations and stay well formed,
  and no memory but the bitmap is written.
\<close>
theorem vmm_free_pt_returns_all:
  assumes "wf_forest L m R" "r \<in> R"
  shows "used L (vmm_free_pt L m r) = used L m - nodes m r \<and>
    wf_forest L (vmm_free_pt L m r) (R - {r}) \<and>
    (\<forall>r' \<in> R - {r}. \<forall>p. tree (vmm_free_pt L m r) r' p = tree m r' p) \<and>
    same_except {image_end L} m (vmm_free_pt L m r)"
  using vmm_free_pt_spec [OF assms] by blast

lemma vmm_free_pt_returns_all_witness:
  "used sample_layout (vmm_free_pt sample_layout sample_memory sample_root)
     = used sample_layout sample_memory - {sample_root}"
proof -
  have "nodes sample_memory sample_root = {sample_root}"
    using sample_wf(2) by (auto simp: nodes_def split: if_splits)
  then show ?thesis using vmm_free_pt_returns_all [OF sample_wf(1), of sample_root] by simp
qed

end
