(* ===== verification/Spaces.thy ===== *)
theory Spaces
  imports Page_Copy Page_Free Page_Supply
begin

text \<open>
  What the operations on address spaces have in common, as the system calls use them. \<open>gains\<close>
  strengthens \<open>extends\<close>: the space of \<open>r\<close> only takes frames that were free. \<open>owned\<close> adds to
  a well-formed forest a set of frames in use outside every tree (the kernel stacks).
\<close>

section \<open>Gaining pages\<close>

definition gains :: "layout \<Rightarrow> u64 set \<Rightarrow> u64 \<Rightarrow> memory \<Rightarrow> memory \<Rightarrow> bool" where
  "gains L R r m m' \<longleftrightarrow>
     extends L R r m m' \<and> (\<forall>p t. tree m' r p = Some t \<longrightarrow> t \<in> used L m \<longrightarrow> tree m r p = Some t)"

lemma gainsD:
  assumes "gains L R r m m'"
  shows "extends L R r m m'" "\<And>p t. tree m' r p = Some t \<Longrightarrow> t \<in> used L m \<Longrightarrow> tree m r p = Some t"
  using assms by (auto simp: gains_def)

lemma gains_refl: "wf_forest L m R \<Longrightarrow> gains L R r m m"
  by (simp add: gains_def extends_refl)

lemma gains_trans:
  assumes "gains L R r m m'" "gains L R r m' m''"
  shows "gains L R r m m''"
  unfolding gains_def
proof (intro conjI allI impI)
  note a = gainsD [OF assms(1)] and b = gainsD [OF assms(2)]
  show "extends L R r m m''" using a(1) b(1) by (rule extends_trans)
  fix p t assume "tree m'' r p = Some t" "t \<in> used L m"
  then show "tree m r p = Some t" using a b extendsD(2) [OF a(1)] by blast
qed

lemma gains_wf: "gains L R r m m' \<Longrightarrow> wf_forest L m' R"
  using gainsD(1) extendsD(1) by blast

text \<open>It is enough to look at the leaves.\<close>

lemma gains_leafI:
  assumes wf: "wf_forest L m R" and r: "r \<in> R" and x: "extends L R r m m'"
    and leaf: "\<And>i j k t. i < 512 \<Longrightarrow> j < 512 \<Longrightarrow> k < 512 \<Longrightarrow> user_frame (leaf_at m' r i j k) = Some t \<Longrightarrow>
      t \<in> used L m \<Longrightarrow> user_frame (leaf_at m r i j k) = Some t"
  shows "gains L R r m m'"
  unfolding gains_def
proof (intro conjI allI impI)
  fix p t assume t: "tree m' r p = Some t" and u: "t \<in> used L m"
  show "tree m r p = Some t"
  proof (cases "length p \<le> 2")
    case True
    then have "t \<in> tables m' r" using t by (auto simp: tables_def)
    then obtain q where q: "length q \<le> 2" "tree m r q = Some t"
      using extendsD(4) [OF x] u by (auto simp: tables_def)
    then have "tree m' r q = Some t" using extendsD(5) [OF x] by blast
    then have "p = q" using wf_inj [OF extendsD(1) [OF x] r r t] by blast
    with q show ?thesis by simp
  next
    case False
    with t obtain i j k where p: "p = [i, j, k]" "i < 512" "j < 512" "k < 512" using tree_path3 by blast
    then show ?thesis using leaf [OF p(2-4)] t u by (simp add: tree_leaf)
  qed
qed (rule x)

section \<open>Frames outside the trees\<close>

definition owned :: "layout \<Rightarrow> memory \<Rightarrow> u64 set \<Rightarrow> u64 set \<Rightarrow> bool" where
  "owned L m R S \<longleftrightarrow> wf_forest L m R \<and>
     (\<forall>s \<in> S. s \<in> used L m \<and> image_end L < s \<and> (\<forall>r \<in> R. \<forall>p. tree m r p \<noteq> Some s))"

lemma owned_wf: "owned L m R S \<Longrightarrow> wf_forest L m R"
  by (simp add: owned_def)

lemma gains_owned:
  assumes o: "owned L m R S" and g: "gains L R r m m'"
  shows "owned L m' R S"
  unfolding owned_def
proof (intro conjI ballI allI notI)
  note x = gainsD(1) [OF g]
  show "wf_forest L m' R" by (rule extendsD(1) [OF x])
  fix s assume s: "s \<in> S"
  then have os: "s \<in> used L m" "image_end L < s" "\<And>r p. r \<in> R \<Longrightarrow> tree m r p \<noteq> Some s"
    using o by (auto simp: owned_def)
  then show "s \<in> used L m'" "image_end L < s" using extendsD(2) [OF x] by auto
  fix r' p assume r': "r' \<in> R" and t: "tree m' r' p = Some s"
  show False
  proof (cases "r' = r")
    case True
    then show False using gainsD(2) [OF g] t os r' by blast
  next
    case False
    then show False using extendsD(6) [OF x r' False] t os(3) [OF r'] by simp
  qed
qed

lemma owned_mono: "owned L m R S \<Longrightarrow> R' \<subseteq> R \<Longrightarrow> S' \<subseteq> S \<Longrightarrow> owned L m R' S'"
  unfolding owned_def wf_forest_def by (elim conjE) (intro conjI; blast)

section \<open>Writes to the bitmap\<close>

lemma leaf_bitmap:
  assumes wf: "wf_forest L m R" and r: "r \<in> R" and se: "same_except {image_end L} m m'" and k: "k < 512"
  shows "leaf_at m' r i j k = leaf_at m r i j k"
proof (cases "tree m r [i, j]")
  case None
  then show ?thesis using tree_bitmap [OF wf r se] by (simp add: leaf_at_def)
next
  case (Some t)
  then show ?thesis
    using tree_bitmap [OF wf r se] entry_bitmap [OF se wf_page [OF wf r Some] wf_not_bitmap [OF wf r Some] k]
    by (simp add: leaf_at_def)
qed

text \<open>Giving back a frame that is in no tree.\<close>

lemma free_outside:
  assumes wf: "wf_forest L m R" and n: "\<And>r p. r \<in> R \<Longrightarrow> tree m r p \<noteq> Some n" and above: "image_end L < n"
  shows "wf_forest L (pmm_free_page L m n) R"
proof (rule wf_bitmap [OF wf same_except_free [OF wf_aligned [OF wf]] subset_refl])
  fix r assume "r \<in> R"
  then show "nodes m r \<subseteq> used L (pmm_free_page L m n)"
    using wf_used [OF wf] n by (auto simp: nodes_def)
next
  show "{p \<in> ram_frames. p \<le> image_end L} \<subseteq> used L (pmm_free_page L m n)"
    using wf_reserved [OF wf] above by auto
qed

lemma extends_free:
  assumes x: "extends L R r m m'" and r: "r \<in> R" and n: "n \<notin> used L m"
    and out: "\<And>r p. r \<in> R \<Longrightarrow> tree m' r p \<noteq> Some n" and above: "image_end L < n"
  shows "extends L R r m (pmm_free_page L m' n)"
proof -
  note xd = extendsD [OF x]
  note se = same_except_free [OF wf_aligned [OF xd(1)], of m' n]
  have tr: "tree (pmm_free_page L m' n) r' p = tree m' r' p" if "r' \<in> R" for r' p
    by (rule tree_bitmap [OF xd(1) that se])
  have tabs: "tables (pmm_free_page L m' n) r = tables m' r" using tr [OF r] by (simp add: tables_def)
  have "same_except (insert (image_end L) (tables m' r \<union> (ram_frames - used L m))) m (pmm_free_page L m' n)"
    using xd(7) se by (rule same_except_trans) simp
  moreover have "used L m \<subseteq> used L (pmm_free_page L m' n)" using xd(2) n by auto
  ultimately show ?thesis
    unfolding extends_def tabs using free_outside [OF xd(1) out above] xd(3-6) tr r by auto
qed

section \<open>Adding one user page\<close>

text \<open>
  Allocate a frame, fill it, map it: the step \<open>load_elf\<close> and \<open>SYS_SBRK\<close> repeat. When \<open>map_page\<close>
  fails, the frame is given back and nothing the process can see has changed.
\<close>

lemma add_user_page:
  assumes wf: "wf_forest L m R" and r: "r \<in> R" and al: "pmm_alloc_page L m = (n, m1)" and n0: "n \<noteq> 0"
    and fill: "same_except {n} m1 m2" and f: "flag_word f" and mp: "map_page L m2 r va n f = (x, m3)"
  obtains (oom) "x = -1" "gains L R r m (pmm_free_page L m3 n)"
      "\<And>r' a b c. r' \<in> R \<Longrightarrow> a < 512 \<Longrightarrow> b < 512 \<Longrightarrow> c < 512 \<Longrightarrow>
         leaf_at (pmm_free_page L m3 n) r' a b c = leaf_at m r' a b c"
      "gains L R r m m3" "\<And>a b c. a < 512 \<Longrightarrow> b < 512 \<Longrightarrow> c < 512 \<Longrightarrow> leaf_at m3 r a b c = leaf_at m r a b c"
      "used L (pmm_free_page L m3 n) \<subseteq> used L m \<union> tables (pmm_free_page L m3 n) r"
  | (mapped) "x = 0" "gains L R r m m3" "path_leaf m3 r va = PA_TO_PTE n OR f OR PTE_V"
      "\<And>r' a b c. r' \<in> R \<Longrightarrow> a < 512 \<Longrightarrow> b < 512 \<Longrightarrow> c < 512 \<Longrightarrow> \<not> (r' = r \<and> [a, b, c] = vpath va) \<Longrightarrow>
         leaf_at m3 r' a b c = leaf_at m r' a b c"
      "n \<in> used L m3" "n \<notin> used L m" "page_aligned n" "\<And>k. k < 4096 \<Longrightarrow> m3 (n + of_nat k) = m2 (n + of_nat k)"
      "used L m3 \<subseteq> insert n (used L m \<union> tables m3 r)"
proof -
  note fr = fresh_frame [OF wf al n0 fill]
  have n_al: "page_aligned n" using fr(3) frame_aligned by blast
  have x2: "extends L R r m m2" by (rule fresh_extends [OF wf al n0 fill r])
  let ?e = "PA_TO_PTE n OR f OR PTE_V"
  have uf: "user_frame ?e = None \<or> user_frame ?e = Some n"
    using PTE_TO_PA_map [OF n_al f] by (simp add: user_frame_def)
  then have ok: "leaf_ok L m2 R ?e" by (intro fresh_leaf_ok [OF wf al n0 fill]) auto
  have same2: "leaf_at m2 r' a b c = leaf_at m r' a b c" if "r' \<in> R" "c < 512" for r' a b c
    using fr(8) that by simp
  from fr(1) r ok mp show thesis
  proof (cases rule: map_page_cases)
    case o: oom
    let ?u = "PA_TO_PTE n OR (PTE_U OR PTE_R OR PTE_W) OR PTE_V" and ?m4 = "pmm_free_page L m3 n"
    have "user_frame ?u = Some n"
      using has_entry [OF user_rw_flags, of n] PTE_TO_PA_map [OF n_al user_rw_flags]
      by (simp add: user_frame_def is_leaf_def has_flags bit_or_iff bit_flags)
    moreover from this have "leaf_ok L m2 R ?u" by (intro fresh_leaf_ok [OF wf al n0 fill]) simp
    then have "leaf_ok L m3 R ?u" by (rule leaf_ok_grows [OF _ r o(2)]) (use o(4) r in simp)
    ultimately have out: "tree m3 r' p \<noteq> Some n" if "r' \<in> R" for r' p using that by (simp add: leaf_ok_def)
    have x3: "extends L R r m m3" using x2 grows_extends [OF o(2)] by (rule extends_trans)
    have n_new: "n \<notin> used L m" using fr(3) by simp
    have x4: "extends L R r m ?m4" by (rule extends_free [OF x3 r n_new out fr(4)])
    have same: "leaf_at ?m4 r' a b c = leaf_at m r' a b c" if "r' \<in> R" "a < 512" "b < 512" "c < 512" for r' a b c
      using leaf_bitmap [OF grows_wf [OF o(2)] that(1) same_except_free [OF wf_aligned [OF wf]] that(4)]
        o(4) [OF that] same2 [OF that(1,4)] by simp
    have g4: "gains L R r m ?m4" by (rule gains_leafI [OF wf r x4]) (use same r in simp)
    have same3: "leaf_at m3 r a b c = leaf_at m r a b c" if "a < 512" "b < 512" "c < 512" for a b c
      using o(4) [OF r that] same2 [OF r that(3)] by simp
    have g3: "gains L R r m m3" by (rule gains_leafI [OF wf r x3]) (use same3 in simp)
    have "tables ?m4 r = tables m3 r"
      using tree_bitmap [OF grows_wf [OF o(2)] r same_except_free [OF wf_aligned [OF wf]]] by (simp add: tables_def)
    then have u4: "used L ?m4 \<subseteq> used L m \<union> tables ?m4 r" using growsD(3) [OF o(2)] fr(2) by auto
    show thesis by (rule oom [OF o(1) g4 _ g3 _ u4]) (fact same same3)+
  next
    case mp0: mapped
    have x3: "extends L R r m m3" using x2 grows_extends [OF mp0(2)] by (rule extends_trans)
    have leafs: "leaf_at m3 r' a b c = (if r' = r \<and> [a, b, c] = vpath va then ?e else leaf_at m r' a b c)"
      if "r' \<in> R" "a < 512" "b < 512" "c < 512" for r' a b c using mp0(4) [OF that] same2 [OF that(1,4)] by simp
    have n_new: "n \<notin> used L m" using fr(3) by simp
    have "gains L R r m m3"
    proof (rule gains_leafI [OF wf r x3])
      fix i j k :: nat and t assume i: "i < 512" "j < 512" "k < 512"
        and t: "user_frame (leaf_at m3 r i j k) = Some t" "t \<in> used L m"
      have "[i, j, k] \<noteq> vpath va"
      proof
        assume "[i, j, k] = vpath va"
        then have "leaf_at m3 r i j k = ?e" using leafs [OF r i] by simp
        then show False using t n_new uf by auto
      qed
      then have "leaf_at m3 r i j k = leaf_at m r i j k" using leafs [OF r i] by (simp only: simp_thms if_False)
      then show "user_frame (leaf_at m r i j k) = Some t" using t by simp
    qed
    moreover have "path_leaf m3 r va = ?e" unfolding path_leaf_def using leafs [OF r] by simp
    moreover have n_used: "n \<in> used L m2" using fr(2) by simp
    then have "n \<in> used L m3" using growsD(2) [OF mp0(2)] by blast
    moreover have "m3 (n + of_nat k) = m2 (n + of_nat k)" if "k < 4096" for k
    proof (rule extends_frame [OF grows_extends [OF mp0(2)]])
      have pb: "page_base (n + of_nat k) = n" using n_al that by simp
      show "page_base (n + of_nat k) \<in> used L m2" "page_base (n + of_nat k) \<noteq> image_end L"
        "page_base (n + of_nat k) \<notin> tables m2 r"
        unfolding pb using n_used fr(4,6,7) r by (auto simp: tables_def)
    qed
    moreover have "used L m3 \<subseteq> insert n (used L m \<union> tables m3 r)" using growsD(3) [OF mp0(2)] fr(2) by auto
    ultimately show thesis using mp0(1) leafs n_new n_al by (intro mapped) auto
  qed
qed

text \<open>A frame nobody has yet: the root of a new space, or a kernel stack.\<close>

lemma owned_fresh:
  assumes o: "owned L m R S" and al: "pmm_alloc_page L m = (n, m1)" and n0: "n \<noteq> 0"
    and fill: "same_except {n} m1 m2"
  shows "owned L m2 R (insert n S)" "n \<notin> S" "\<And>r p. r \<in> R \<Longrightarrow> tree m2 r p = tree m r p"
proof -
  note fr = fresh_frame [OF owned_wf [OF o] al n0 fill]
  show "owned L m2 R (insert n S)" using o fr by (auto simp: owned_def)
  show "n \<notin> S" using o fr(3) by (auto simp: owned_def)
  show "tree m2 r p = tree m r p" if "r \<in> R" for r p by (rule fr(6) [OF that])
qed

lemma owned_new_root:
  assumes o: "owned L m R S" and al: "pmm_alloc_page L m = (n, m1)" and n0: "n \<noteq> 0"
    and fill: "same_except {n} m1 m2" and zero: "\<And>i. i < 512 \<Longrightarrow> load64 m2 (slot n i) = 0"
  shows "owned L m2 (insert n R) S" "n \<notin> R" "n \<notin> S" "\<And>r p. r \<in> R \<Longrightarrow> tree m2 r p = tree m r p"
    "tree m2 n p = (if p = [] then Some n else None)"
proof -
  note nr = new_root [OF owned_wf [OF o] al n0 fill zero]
  note fr = owned_fresh [OF o al n0 fill]
  show "n \<notin> S" "\<And>r p. r \<in> R \<Longrightarrow> tree m2 r p = tree m r p" by (fact fr)+
  show "tree m2 n p = (if p = [] then Some n else None)" by (rule nr(2))
  show "n \<notin> R" by (rule nr(3))
  have "tree m2 n p \<noteq> Some s" if "s \<in> S" for s p using nr(2) [of p] that fr(2) by auto
  then show "owned L m2 (insert n R) S" using nr(1) fr(1) by (auto simp: owned_def)
qed

text \<open>Releasing a space, or a frame outside all of them.\<close>

lemma owned_free_pt:
  assumes o: "owned L m R S" and r: "r \<in> R"
  shows "owned L (vmm_free_pt L m r) (R - {r}) S"
proof -
  note fp = vmm_free_pt_spec [OF owned_wf [OF o] r]
  have "s \<notin> nodes m r" if "s \<in> S" for s using o r that by (auto simp: owned_def nodes_def)
  then show ?thesis using o fp by (auto simp: owned_def)
qed

lemma owned_free_frame:
  assumes o: "owned L m R S" and s: "s \<in> S"
  shows "owned L (pmm_free_page L m s) R (S - {s})" "\<And>r p. r \<in> R \<Longrightarrow> tree (pmm_free_page L m s) r p = tree m r p"
proof -
  have out: "\<And>r p. r \<in> R \<Longrightarrow> tree m r p \<noteq> Some s" and above: "image_end L < s"
    using o s by (auto simp: owned_def)
  show tr: "tree (pmm_free_page L m s) r p = tree m r p" if "r \<in> R" for r p
    using tree_bitmap [OF owned_wf [OF o] that same_except_free [OF wf_aligned [OF owned_wf [OF o]]]] .
  show "owned L (pmm_free_page L m s) R (S - {s})"
    using o free_outside [OF owned_wf [OF o] out above] tr by (auto simp: owned_def)
qed

section \<open>The larger operations\<close>

lemma mapped_gains:
  assumes wf: "wf_forest L m R" and r: "r \<in> R" and m: "mapped L R r A g m m'"
    and none: "\<And>p. p \<in> A \<Longrightarrow> user_frame (g p) = None"
  shows "gains L R r m m'"
proof (rule gains_leafI [OF wf r grows_extends [OF mappedD(1) [OF m]]])
  fix i j k :: nat and t assume i: "i < 512" "j < 512" "k < 512"
    and t: "user_frame (leaf_at m' r i j k) = Some t" "t \<in> used L m"
  have "[i, j, k] \<notin> vpath ` A"
  proof
    assume "[i, j, k] \<in> vpath ` A"
    then obtain p where p: "p \<in> A" "i = VPN p 2" "j = VPN p 1" "k = VPN p 0" by blast
    then have "leaf_at m' r i j k = g p" using mappedD(2) [OF m p(1)] by (simp add: path_leaf_def)
    then show False using none [OF p(1)] t by simp
  qed
  then show "user_frame (leaf_at m r i j k) = Some t" using mappedD(3) [OF m r i] t by simp
qed

lemma copied_gains:
  assumes wf: "wf_forest L m R" and c: "c \<in> R" and cp: "copied L R p c D m m'"
  shows "gains L R c m m'"
proof (rule gains_leafI [OF wf c copiedD(1) [OF cp]])
  fix i j k :: nat and t assume i: "i < 512" "j < 512" "k < 512"
    and t: "user_frame (leaf_at m' c i j k) = Some t" "t \<in> used L m"
  show "user_frame (leaf_at m c i j k) = Some t"
  proof (cases "[i, j, k] \<in> D \<and> user_frame (leaf_at m p i j k) \<noteq> None")
    case True
    then have "private_copy L m m' (leaf_at m p i j k) (leaf_at m' c i j k)" using copiedD(2) [OF cp i] by blast
    then show ?thesis using t by (auto simp: private_copy_def)
  next
    case False
    then show ?thesis using copiedD(3) [OF cp i] t by simp
  qed
qed

text \<open>Unmapping pages that were gained since \<open>m\<close>.\<close>

lemma unmapped_gains:
  assumes wf: "wf_forest L m R" and r: "r \<in> R" and g: "gains L R r m m1" and u: "unmapped L R r A m1 m'"
    and new: "\<And>a n. a \<in> A \<Longrightarrow> user_frame (path_leaf m1 r a) = Some n \<Longrightarrow> n \<notin> used L m"
  shows "gains L R r m m'"
proof -
  note x = extendsD [OF gainsD(1) [OF g]] and ud = unmappedD [OF u]
  have other: "tree m' r' p = tree m1 r' p" if "r' \<in> R" "r' \<noteq> r" for r' p
  proof (cases "length p \<le> 2")
    case False
    show ?thesis
    proof (cases "\<exists>i j k. p = [i, j, k] \<and> i < 512 \<and> j < 512 \<and> k < 512")
      case True
      then obtain i j k where "p = [i, j, k]" "i < 512" "j < 512" "k < 512" by blast
      then show ?thesis using ud(4) [OF that(1), of i j k] that(2) by (simp add: tree_leaf)
    next
      case no: False
      have "tree m'' r' p = None" for m''
      proof (rule ccontr)
        assume "tree m'' r' p \<noteq> None"
        then obtain z where "tree m'' r' p = Some z" by blast
        then show False using no False tree_path3 by metis
      qed
      then show ?thesis by simp
    qed
  qed (use ud(3) that in blast)
  have tabs: "tables m' r = tables m1 r" using ud(3) [OF r] by (auto simp: tables_def)
  have "same_except (insert (image_end L) (tables m1 r \<union> (ram_frames - used L m))) m m'"
    using x(7) ud(5) by (rule same_except_trans) blast
  moreover have "used L m \<subseteq> used L m'" using x(2) ud(2) new by blast
  moreover have "\<forall>p t. tree m r p = Some t \<longrightarrow> length p \<le> 2 \<longrightarrow> tree m' r p = Some t"
    using x(5) ud(3) [OF r] by simp
  moreover have "\<forall>r' \<in> R - {r}. \<forall>p. tree m' r' p = tree m r' p" using x(6) other by simp
  ultimately have x': "extends L R r m m'" unfolding extends_def tabs using ud(1) x(3,4) by simp
  show ?thesis
  proof (rule gains_leafI [OF wf r x'])
    fix i j k :: nat and t assume i: "i < 512" "j < 512" "k < 512"
      and t: "user_frame (leaf_at m' r i j k) = Some t" "t \<in> used L m"
    have "leaf_at m' r i j k = leaf_at m1 r i j k"
      using ud(4) [OF r i] t(1) by (auto simp: user_frame_def has_def split: if_splits)
    then have "tree m1 r [i, j, k] = Some t" using t(1) i by (simp add: tree_leaf)
    then have "tree m r [i, j, k] = Some t" using gainsD(2) [OF g] t(2) by blast
    then show "user_frame (leaf_at m r i j k) = Some t" using i by (simp add: tree_leaf)
  qed
qed

text \<open>Writes into user frames of one space.\<close>

lemma user_writes:
  assumes o: "owned L m R S" and r: "r \<in> R" and se: "same_except F m m'"
    and F: "\<And>f. f \<in> F \<Longrightarrow> \<exists>i j k. tree m r [i, j, k] = Some f"
  shows "owned L m' R S" "used L m' = used L m" "\<And>r' p. r' \<in> R \<Longrightarrow> tree m' r' p = tree m r' p"
    "\<And>r' a b c. r' \<in> R \<Longrightarrow> c < 512 \<Longrightarrow> leaf_at m' r' a b c = leaf_at m r' a b c"
proof -
  note wf = owned_wf [OF o]
  have nt: "F \<inter> tables m r' = {}" if "r' \<in> R" for r'
  proof (rule ccontr)
    assume "F \<inter> tables m r' \<noteq> {}"
    then obtain f p where f: "f \<in> F" "length p \<le> 2" "tree m r' p = Some f" by (auto simp: tables_def)
    obtain i j k where "tree m r [i, j, k] = Some f" using F [OF f(1)] by blast
    then show False using wf_inj [OF wf r that _ f(3)] f(2) by fastforce
  qed
  have end_out: "image_end L \<notin> F" using F wf_not_bitmap [OF wf r] by blast
  show tr: "tree m' r' p = tree m r' p" if "r' \<in> R" for r' p
    by (rule node_same_except [OF wf that se]) (use nt [OF that] in blast)
  show us: "used L m' = used L m"
    by (rule used_same_except [OF se wf_aligned [OF wf]]) (use end_out in simp)
  have entry: "load64 m' (slot x c) = load64 m (slot x c)"
    if "r' \<in> R" "tree m r' p = Some x" "length p \<le> 2" "c < 512" for r' p x c
    using that nt [OF that(1)] by (intro load64_same_except [OF se wf_page [OF wf that(1,2)]]) (auto simp: tables_def)
  show "leaf_at m' r' a b c = leaf_at m r' a b c" if "r' \<in> R" "c < 512" for r' a b c
  proof (cases "tree m r' [a, b]")
    case None
    then show ?thesis using tr [OF that(1)] by (simp add: leaf_at_def)
  next
    case (Some x)
    then show ?thesis using tr [OF that(1)] entry [OF that(1) Some _ that(2)] by (simp add: leaf_at_def)
  qed
  have "wf_forest L m' R"
    unfolding wf_forest_def us
  proof (intro conjI ballI allI impI)
    fix r' p x assume r': "r' \<in> R" and "tree m' r' p = Some x"
    then have x: "tree m r' p = Some x" using tr by simp
    show "x \<in> used L m" "image_end L < x" using wf_used [OF wf r' x] wf_above [OF wf r' x] by auto
    show "r' = r''" "p = p'" if "r'' \<in> R" "tree m' r'' p' = Some x" for r'' p'
      using wf_inj [OF wf r' that(1) x, of p'] that tr by auto
    show "\<not> is_leaf (load64 m' (slot x i'))" if "length p < 2" "i' < 512" "has (load64 m' (slot x i')) PTE_V" for i'
      using wf_inner [OF wf r' x that(1,2)] that(3) entry [OF r' x _ that(2)] that(1) by simp
  qed (use wf_aligned [OF wf] wf_reserved [OF wf] in auto)
  then show "owned L m' R S" using o us tr by (auto simp: owned_def)
qed

lemma user_write:
  assumes "owned L m R S" "r \<in> R" "tree m r [i, j, k] = Some f" "same_except {f} m m'"
  shows "owned L m' R S" "used L m' = used L m" "\<And>r' p. r' \<in> R \<Longrightarrow> tree m' r' p = tree m r' p"
    "\<And>r' a b c. r' \<in> R \<Longrightarrow> c < 512 \<Longrightarrow> leaf_at m' r' a b c = leaf_at m r' a b c"
  using user_writes [OF assms(1,2,4)] assms(3) by blast+

section \<open>What stays\<close>

text \<open>Every frame in use, apart from the bitmap page, stays in use and keeps its bytes.\<close>

definition keeps :: "layout \<Rightarrow> memory \<Rightarrow> memory \<Rightarrow> bool" where
  "keeps L m m' \<longleftrightarrow> used L m \<subseteq> used L m' \<and>
     (\<forall>b. page_base b \<in> used L m \<longrightarrow> page_base b \<noteq> image_end L \<longrightarrow> m' b = m b)"

lemma keeps_refl [simp]: "keeps L m m"
  by (simp add: keeps_def)

lemma keeps_trans: "keeps L m m' \<Longrightarrow> keeps L m' m'' \<Longrightarrow> keeps L m m''"
  unfolding keeps_def by (metis subsetD subset_trans)

lemma keepsD: "keeps L m m' \<Longrightarrow> page_base b \<in> used L m \<Longrightarrow> page_base b \<noteq> image_end L \<Longrightarrow> m' b = m b"
  by (simp add: keeps_def)

lemma keeps_used: "keeps L m m' \<Longrightarrow> used L m \<subseteq> used L m'"
  by (simp add: keeps_def)

lemma keeps_fresh:
  assumes "wf_forest L m R" "pmm_alloc_page L m = (n, m1)" "n \<noteq> 0" "same_except {n} m1 m2"
  shows "keeps L m m2"
proof -
  note fr = fresh_frame [OF assms]
  show ?thesis unfolding keeps_def
  proof (intro conjI allI impI)
    show "used L m \<subseteq> used L m2" using fr(2) by blast
    fix b assume "page_base b \<in> used L m" "page_base b \<noteq> image_end L"
    then show "m2 b = m b" using fr(3) by (intro same_exceptD [OF fr(5)]) auto
  qed
qed

text \<open>Growing a space whose tables are all new keeps everything that was there before.\<close>

lemma keeps_gains:
  assumes k: "keeps L m0 m" and g: "gains L R r m m'" and t: "tables m r \<inter> used L m0 = {}"
  shows "keeps L m0 m'" "tables m' r \<inter> used L m0 = {}"
proof -
  note x = gainsD(1) [OF g]
  show "keeps L m0 m'" unfolding keeps_def
  proof (intro conjI allI impI)
    show "used L m0 \<subseteq> used L m'" using keeps_used [OF k] extendsD(2) [OF x] by blast
    fix b assume b: "page_base b \<in> used L m0" "page_base b \<noteq> image_end L"
    have "m' b = m b" by (rule extends_frame [OF x]) (use b t keeps_used [OF k] in auto)
    then show "m' b = m0 b" using keepsD [OF k b] by simp
  qed
  show "tables m' r \<inter> used L m0 = {}" using extendsD(4) [OF x] keeps_used [OF k] t by blast
qed

text \<open>What is kept includes the trees.\<close>

lemma keeps_leaf:
  assumes wf: "wf_forest L m R" and r: "r \<in> R" and k: "keeps L m m'" and tr: "\<And>p. tree m' r p = tree m r p"
    and c: "c < 512"
  shows "leaf_at m' r a b c = leaf_at m r a b c"
proof (cases "tree m r [a, b]")
  case None
  then show ?thesis using tr by (simp add: leaf_at_def)
next
  case (Some t)
  have "load64 m' (slot t c) = load64 m (slot t c)"
  proof (rule load_le_cong)
    fix l :: nat assume "l < 8"
    then have "page_base (slot t c + of_nat l) = t"
      unfolding slot_byte using wf_page [OF wf r Some] c by (intro page_base_add) simp_all
    then show "m' (slot t c + of_nat l) = m (slot t c + of_nat l)"
      using wf_used [OF wf r Some] wf_not_bitmap [OF wf r Some] by (intro keepsD [OF k]) simp_all
  qed
  then show ?thesis using Some tr by (simp add: leaf_at_def)
qed

section \<open>The kernel image\<close>

text \<open>An address inside the kernel image, where code, constants and the ramdisk live.\<close>

definition in_image :: "layout \<Rightarrow> u64 \<Rightarrow> bool" where
  "in_image L a \<longleftrightarrow> page_base a \<in> ram_frames \<and> page_base a < image_end L"

lemma image_frame:
  assumes "wf_forest L m R" "in_image L a"
  shows "page_base a \<in> used L m" "page_base a \<noteq> image_end L" "\<And>r. r \<in> R \<Longrightarrow> page_base a \<notin> tables m r"
proof -
  show "page_base a \<in> used L m" using wf_reserved [OF assms(1)] assms(2) by (auto simp: in_image_def)
  show "page_base a \<noteq> image_end L" using assms(2) by (auto simp: in_image_def)
  show "page_base a \<notin> tables m r" if "r \<in> R" for r
    using wf_above [OF assms(1) that] assms(2) by (fastforce simp: in_image_def tables_def)
qed

lemma image_gains: "wf_forest L m R \<Longrightarrow> r \<in> R \<Longrightarrow> gains L R r m m' \<Longrightarrow> in_image L a \<Longrightarrow> m' a = m a"
  using image_frame [of L m R a] by (intro extends_frame [OF gainsD(1)]) auto

lemma load_image:
  assumes "\<And>j. j < n \<Longrightarrow> in_image L (a + of_nat j)" "\<And>b. in_image L b \<Longrightarrow> m' b = m b"
  shows "load_le m' a n = load_le m a n"
  by (rule load_le_cong) (use assms in blast)

text \<open>Nothing of the image has changed.\<close>

definition same_image :: "layout \<Rightarrow> memory \<Rightarrow> memory \<Rightarrow> bool" where
  "same_image L m m' \<longleftrightarrow> (\<forall>a. in_image L a \<longrightarrow> m' a = m a)"

lemma same_image_refl [simp]: "same_image L m m"
  by (simp add: same_image_def)

lemma same_image_trans: "same_image L m m' \<Longrightarrow> same_image L m' m'' \<Longrightarrow> same_image L m m''"
  by (simp add: same_image_def)

lemma same_image_keeps: "wf_forest L m R \<Longrightarrow> keeps L m m' \<Longrightarrow> same_image L m m'"
  using image_frame(1,2) keepsD by (fastforce simp: same_image_def)

lemma same_image_gains: "wf_forest L m R \<Longrightarrow> r \<in> R \<Longrightarrow> gains L R r m m' \<Longrightarrow> same_image L m m'"
  using image_gains by (fastforce simp: same_image_def)

lemma same_image_bitmap: "same_except {image_end L} m m' \<Longrightarrow> same_image L m m'"
  by (auto simp: same_image_def in_image_def intro!: same_exceptD)

lemma same_image_user:
  assumes wf: "wf_forest L m R" and r: "r \<in> R" and se: "same_except F m m'"
    and F: "\<And>f. f \<in> F \<Longrightarrow> \<exists>p. tree m r p = Some f"
  shows "same_image L m m'"
  unfolding same_image_def
proof (intro allI impI same_exceptD [OF se])
  fix a assume a: "in_image L a"
  show "page_base a \<notin> F"
  proof
    assume "page_base a \<in> F"
    then obtain p where "tree m r p = Some (page_base a)" using F by blast
    with wf_above [OF wf r] have "image_end L < page_base a" by blast
    then show False using a by (auto simp: in_image_def)
  qed
qed

section \<open>A new address space\<close>

lemma kernel_entry_not_user: "layout_ok L \<Longrightarrow> p \<in> kernel_pages L \<Longrightarrow> user_frame (kernel_entry (kernel_flags L p) p) = None"
proof -
  assume L: "layout_ok L" and "p \<in> kernel_pages L"
  then obtain s e f where x: "(s, e, f) \<in> set (kernel_ranges L)" "p \<in> pages_in s e"
    by (auto simp: kernel_pages_def)
  have "kernel_flags L p = f" using kernel_flags_range [OF L x(1)] x(2) by (simp add: pages_in_def)
  then show ?thesis
    using has_entry(5) [OF flag_word_kernel [OF x(1)], of p] has_kernel(1) [OF x(1)]
    by (simp add: user_frame_def kernel_entry_def)
qed

text \<open>
  Where the supervisor's own pages lie: at or above the PLIC window (page number \<open>0xC000\<close>) and in
  the lower half of the address space. Whatever else a program has mapped is a user page.
\<close>

definition page_number :: "nat \<Rightarrow> nat \<Rightarrow> nat \<Rightarrow> nat" where
  "page_number i j l = (i * 512 + j) * 512 + l"

definition guarded :: "memory \<Rightarrow> u64 \<Rightarrow> bool" where
  "guarded m r \<longleftrightarrow>
     (\<forall>i j l. i < 512 \<longrightarrow> j < 512 \<longrightarrow> l < 512 \<longrightarrow> has (leaf_at m r i j l) PTE_V \<longrightarrow>
        has (leaf_at m r i j l) PTE_U \<or> 0xC000 \<le> page_number i j l \<and> i < 256)"

lemma page_number_VPN:
  assumes "unat va < 2 ^ 39"
  shows "page_number (VPN va 2) (VPN va 1) (VPN va 0) = unat va div 4096"
proof -
  have "unat va div 4096 div 512 div 512 < 512" using assms by (simp add: div_mult2_eq [symmetric] div_less_iff_less_mult)
  then show ?thesis
    by (simp add: page_number_def VPN_unat div_mult2_eq [of _ 4096 512, simplified] div_mult2_eq [of _ 4096 262144, simplified]
        div_mult2_eq [of _ 512 512, simplified])
qed

lemma guarded_leaves:
  assumes "guarded m r" and "\<And>i j l. i < 512 \<Longrightarrow> j < 512 \<Longrightarrow> l < 512 \<Longrightarrow>
      leaf_at m' r' i j l = leaf_at m r i j l \<or> \<not> has (leaf_at m' r' i j l) PTE_V \<or>
      has (leaf_at m' r' i j l) PTE_U \<or> 0xC000 \<le> page_number i j l \<and> i < 256"
  shows "guarded m' r'"
  unfolding guarded_def
proof (intro allI impI)
  fix i j l :: nat assume i: "i < 512" "j < 512" "l < 512" and v: "has (leaf_at m' r' i j l) PTE_V"
  show "has (leaf_at m' r' i j l) PTE_U \<or> 0xC000 \<le> page_number i j l \<and> i < 256"
    using assms(2) [OF i] v assms(1) [unfolded guarded_def, rule_format, OF i] by auto
qed

text \<open>The identity map of the kernel is such a set of pages.\<close>

definition kernel_half :: "u64 set" where
  "kernel_half = {p. 0xC000000 \<le> unat p \<and> unat p < 0x88000000}"

lemma kernel_half_path:
  assumes "p \<in> kernel_half"
  shows "0xC000 \<le> page_number (VPN p 2) (VPN p 1) (VPN p 0)" "VPN p 2 < 256"
proof -
  have p: "0xC000000 \<le> unat p" "unat p < 0x88000000" using assms by (simp_all add: kernel_half_def)
  have "0xC000 \<le> unat p div 4096" using p(1) div_le_mono [of "0xC000000" "unat p" 4096] by simp
  then show "0xC000 \<le> page_number (VPN p 2) (VPN p 1) (VPN p 0)" using p(2) by (subst page_number_VPN) simp_all
  show "VPN p 2 < 256" using p(2) by (simp add: VPN_unat less_mult_imp_div_less)
qed

lemma kernel_pages_half:
  assumes L: "layout_ok L" and p: "p \<in> kernel_pages L"
  shows "p \<in> kernel_half"
proof -
  have b: "text_start L = 0x80200000" "unat (text_end L) \<le> unat (rodata_start L)"
    "unat (rodata_start L) \<le> unat (rodata_end L)" "unat (rodata_end L) \<le> unat (image_end L)"
    "0x80200000 \<le> unat (rodata_start L)" "unat (image_end L) < 0x88000000"
    using L by (auto simp: layout_ok_def word_le_nat_alt word_less_nat_alt)
  then show ?thesis using p
    by (auto simp: kernel_pages_def kernel_ranges_def pages_in_def kernel_half_def word_le_nat_alt word_less_nat_alt)
qed

lemma frames_half: "p \<in> ram_frames \<Longrightarrow> p \<in> kernel_half"
  using frame_bounds [of p] by (simp add: kernel_half_def)

text \<open>
  Allocate a root, clear it, map the kernel: what \<open>alloc_proc\<close> and \<open>SYS_EXEC\<close> both do. The
  result is a space without user pages, made of frames that were free.
\<close>

definition new_space :: "layout \<Rightarrow> memory \<Rightarrow> u64 set \<Rightarrow> u64 set \<Rightarrow> u64 \<Rightarrow> memory \<Rightarrow> bool" where
  "new_space L m R S r m' \<longleftrightarrow>
     owned L m' (insert r R) S \<and> r \<notin> R \<and> r \<notin> S \<and> keeps L m m' \<and> tables m' r \<inter> used L m = {} \<and>
     (\<forall>r' \<in> R. \<forall>p. tree m' r' p = tree m r' p) \<and>
     (\<forall>i j k. i < 512 \<longrightarrow> j < 512 \<longrightarrow> k < 512 \<longrightarrow> user_frame (leaf_at m' r i j k) = None) \<and> guarded m' r"

lemma new_spaceD:
  assumes "new_space L m R S r m'"
  shows "owned L m' (insert r R) S" "r \<notin> R" "r \<notin> S" "keeps L m m'" "tables m' r \<inter> used L m = {}"
    "\<And>r' p. r' \<in> R \<Longrightarrow> tree m' r' p = tree m r' p"
    "\<And>i j k. i < 512 \<Longrightarrow> j < 512 \<Longrightarrow> k < 512 \<Longrightarrow> user_frame (leaf_at m' r i j k) = None" "guarded m' r"
  using assms unfolding new_space_def by (elim conjE; simp)+

lemma new_space_mapped:
  assumes L: "layout_ok L" and o: "owned L m R S" and al: "pmm_alloc_page L m = (r, m1)" and r0: "r \<noteq> 0"
  shows "case vmm_map_kernel L r (memset m1 r 0 4096) of
      Inl z \<Rightarrow> z = map_kernel_oom
    | Inr m' \<Rightarrow> new_space L m R S r m'"
proof (cases "vmm_map_kernel L r (memset m1 r 0 4096)")
  let ?m2 = "memset m1 r 0 4096"
  have r_al: "page_aligned r" using pmm.al_page [OF al r0] frame_aligned by blast
  have fill: "same_except {r} m1 ?m2" by (rule same_except_memset [OF r_al]) simp
  have zero: "load64 ?m2 (slot r i) = 0" if "i < 512" for i using r_al that by simp
  have nr: "owned L ?m2 (insert r R) S" "r \<notin> R" "r \<notin> S" "\<And>r' p. r' \<in> R \<Longrightarrow> tree ?m2 r' p = tree m r' p"
    "\<And>p. tree ?m2 r p = (if p = [] then Some r else None)"
    using owned_new_root [OF o al r0 fill zero] by blast+
  note mk = vmm_map_kernel_mapped [OF owned_wf [OF nr(1)] insertI1 L]
  {
    case (Inl z)
    then show ?thesis using mk by simp
  next
    case (Inr m')
    then have mp: "mapped L (insert r R) r (kernel_pages L) (\<lambda>p. kernel_entry (kernel_flags L p) p) ?m2 m'"
      using mk by simp
    have g: "gains L (insert r R) r ?m2 m'"
      by (rule mapped_gains [OF owned_wf [OF nr(1)] insertI1 mp]) (rule kernel_entry_not_user [OF L])
    have r_new: "r \<notin> used L m" using pmm.al_page [OF al r0] by blast
    have "tables ?m2 r = {r}" using nr(5) by (auto simp: tables_def split: if_splits)
    then have t: "tables ?m2 r \<inter> used L m = {}" using r_new by simp
    note kg = keeps_gains [OF keeps_fresh [OF owned_wf [OF o] al r0 fill] g t]
    have tr: "tree m' r' p = tree m r' p" if "r' \<in> R" for r' p
      using extendsD(6) [OF gainsD(1) [OF g], of r' p] nr(2,4) that by auto
    have outside: "leaf_at m' r i j k = 0" if i: "i < 512" "j < 512" "k < 512" "[i, j, k] \<notin> vpath ` kernel_pages L" for i j k
      using mappedD(3) [OF mp insertI1 i(1-3)] nr(5) i(4) by (simp add: leaf_at_def)
    have no_user: "user_frame (leaf_at m' r i j k) = None" if i: "i < 512" "j < 512" "k < 512" for i j k
    proof (cases "[i, j, k] \<in> vpath ` kernel_pages L")
      case True
      then obtain p where p: "p \<in> kernel_pages L" "i = VPN p 2" "j = VPN p 1" "k = VPN p 0" by blast
      then show ?thesis using mappedD(2) [OF mp p(1)] kernel_entry_not_user [OF L p(1)] by (simp add: path_leaf_def)
    next
      case False
      then show ?thesis using outside [OF i] by (simp add: user_frame_def has_def)
    qed
    have gd: "guarded m' r"
      unfolding guarded_def
    proof (intro allI impI)
      fix i j k :: nat assume i: "i < 512" "j < 512" "k < 512" and v: "has (leaf_at m' r i j k) PTE_V"
      have "leaf_at m' r i j k \<noteq> 0" using v by (auto simp: has_def)
      then have "[i, j, k] \<in> vpath ` kernel_pages L" using outside [OF i] by blast
      then obtain p where p: "p \<in> kernel_pages L" "i = VPN p 2" "j = VPN p 1" "k = VPN p 0" by blast
      show "has (leaf_at m' r i j k) PTE_U \<or> 0xC000 \<le> page_number i j k \<and> i < 256"
        unfolding p(2-4) using kernel_half_path [OF kernel_pages_half [OF L p(1)]] by blast
    qed
    show ?thesis unfolding Inr new_space_def
      using gains_owned [OF nr(1) g] nr(2,3) kg tr no_user gd by simp
  }
qed

end
