(* ===== verification/Kernel_Inv.thy ===== *)
theory Kernel_Inv
  imports Boot Spaces
begin

text \<open>
  The invariant of the whole kernel, \<open>kernel_ok\<close>: the process table has its size, every
  process in use has an address space of its own (page tables, user frames and a kernel stack
  nobody else has), the heap limits stay below the stack, and exactly the current process is
  running, with its page table installed. The lemmas say which changes keep it.
\<close>

section \<open>The address spaces of the process table\<close>

definition live :: "process list \<Rightarrow> nat set" where
  "live ps = {i. i < length ps \<and> state (ps ! i) \<noteq> PROC_UNUSED}"

definition roots :: "process list \<Rightarrow> u64 set" where
  "roots ps = (\<lambda>i. page_table (ps ! i)) ` live ps"

definition stacks :: "process list \<Rightarrow> u64 set" where
  "stacks ps = (\<lambda>i. kernel_stack (ps ! i)) ` live ps"

definition spaces_ok :: "layout \<Rightarrow> memory \<Rightarrow> process list \<Rightarrow> bool" where
  "spaces_ok L m ps \<longleftrightarrow> owned L m (roots ps) (stacks ps) \<and>
     inj_on (\<lambda>i. page_table (ps ! i)) (live ps) \<and> inj_on (\<lambda>i. kernel_stack (ps ! i)) (live ps)"

definition process_ok :: "process \<Rightarrow> bool" where
  "process_ok p \<longleftrightarrow> length (open_files p) = FD_MAX \<and> heap_max p \<le> STACK_BASE - 4096"

definition table_ok :: "layout \<Rightarrow> kernel \<Rightarrow> bool" where
  "table_ok L k \<longleftrightarrow> length (procs k) = MAX_PROCS \<and> (\<forall>p \<in> set (procs k). process_ok p) \<and>
     spaces_ok L (mem k) (procs k)"

text \<open>
  \<open>parked\<close> is the invariant while a handler has put the current process aside (blocked or
  dead) and not yet chosen the next one.
\<close>

definition parked :: "layout \<Rightarrow> nat \<Rightarrow> kernel \<Rightarrow> bool" where
  "parked L c k \<longleftrightarrow> table_ok L k \<and> current k = Some c \<and> c < MAX_PROCS \<and>
     (\<forall>i < MAX_PROCS. state (procs k ! i) = PROC_RUNNING \<longrightarrow> i = c)"

definition kernel_ok :: "layout \<Rightarrow> nat \<Rightarrow> kernel \<Rightarrow> bool" where
  "kernel_ok L c k \<longleftrightarrow> parked L c k \<and> state (procs k ! c) = PROC_RUNNING \<and>
     satp k = MAKE_SATP (page_table (procs k ! c))"

lemma kernel_okD:
  assumes "kernel_ok L c k"
  shows "length (procs k) = 64" "c < 64" "current k = Some c" "state (procs k ! c) = PROC_RUNNING"
    "satp k = MAKE_SATP (page_table (procs k ! c))" "spaces_ok L (mem k) (procs k)"
    "\<And>i. i < 64 \<Longrightarrow> process_ok (procs k ! i)" "c \<in> live (procs k)"
    "\<And>i. i < 64 \<Longrightarrow> state (procs k ! i) = PROC_RUNNING \<Longrightarrow> i = c" "table_ok L k" "parked L c k"
  using assms by (auto simp: kernel_ok_def parked_def table_ok_def live_def)

lemma spaces_okD:
  assumes "spaces_ok L m ps"
  shows "owned L m (roots ps) (stacks ps)" "wf_forest L m (roots ps)"
    "inj_on (\<lambda>i. page_table (ps ! i)) (live ps)" "inj_on (\<lambda>i. kernel_stack (ps ! i)) (live ps)"
    "\<And>i. i \<in> live ps \<Longrightarrow> page_table (ps ! i) \<in> roots ps" "\<And>i. i \<in> live ps \<Longrightarrow> kernel_stack (ps ! i) \<in> stacks ps"
  using assms by (auto simp: spaces_ok_def roots_def stacks_def owned_def)

text \<open>Only liveness, page tables and kernel stacks matter to \<open>spaces_ok\<close>.\<close>

lemma spaces_ok_cong:
  assumes "spaces_ok L m ps" "length ps' = length ps"
    and "\<And>i. i < length ps \<Longrightarrow> (state (ps' ! i) = PROC_UNUSED) = (state (ps ! i) = PROC_UNUSED)"
    and "\<And>i. i < length ps \<Longrightarrow> state (ps ! i) \<noteq> PROC_UNUSED \<Longrightarrow>
      page_table (ps' ! i) = page_table (ps ! i) \<and> kernel_stack (ps' ! i) = kernel_stack (ps ! i)"
  shows "spaces_ok L m ps'"
proof -
  have l: "live ps' = live ps" using assms(2,3) by (auto simp: live_def)
  have pt: "page_table (ps' ! i) = page_table (ps ! i)" "kernel_stack (ps' ! i) = kernel_stack (ps ! i)"
    if "i \<in> live ps" for i using assms(4) that by (auto simp: live_def)
  have "roots ps' = roots ps" "stacks ps' = stacks ps" unfolding roots_def stacks_def l using pt by auto
  moreover have "inj_on (\<lambda>i. page_table (ps' ! i)) (live ps) = inj_on (\<lambda>i. page_table (ps ! i)) (live ps)"
    "inj_on (\<lambda>i. kernel_stack (ps' ! i)) (live ps) = inj_on (\<lambda>i. kernel_stack (ps ! i)) (live ps)"
    using pt by (auto intro!: inj_on_cong)
  ultimately show ?thesis using assms(1) by (simp add: spaces_ok_def l)
qed

lemma table_ok_cong:
  assumes "table_ok L k" "mem k' = mem k" "length (procs k') = length (procs k)"
    and "\<And>i. i < 64 \<Longrightarrow> same_process (procs k ! i) (procs k' ! i) \<and>
      (state (procs k' ! i) = PROC_UNUSED) = (state (procs k ! i) = PROC_UNUSED)"
  shows "table_ok L k'"
proof -
  have len: "length (procs k) = 64" using assms(1) by (simp add: table_ok_def)
  have "process_ok (procs k' ! i)" if "i < 64" for i
  proof -
    have "process_ok (procs k ! i)" using assms(1) that len by (simp add: table_ok_def)
    then show ?thesis using assms(4) [OF that] by (simp add: process_ok_def same_process_def)
  qed
  then have "\<forall>p \<in> set (procs k'). process_ok p" using assms(3) len by (auto simp: in_set_conv_nth)
  moreover have "spaces_ok L (mem k) (procs k)" using assms(1) by (simp add: table_ok_def)
  then have "spaces_ok L (mem k') (procs k')" unfolding assms(2)
    by (rule spaces_ok_cong) (use assms(3,4) len in \<open>simp_all add: same_process_def\<close>)
  ultimately show ?thesis using assms(3) len by (simp add: table_ok_def)
qed

section \<open>Scheduling\<close>

lemma schedule_ok:
  assumes p: "parked L c k" and run: "schedule ws tf k = Inr (q, k')"
  shows "\<exists>n. q = ProcFrame n \<and> kernel_ok L n k'"
proof -
  have len: "length (procs k) = 64" "current k = Some c" "c < 64"
    using p by (simp_all add: parked_def table_ok_def)
  obtain n where n: "q = ProcFrame n" "scheduled (get_frame k tf) c k n k'"
    using schedule_spec [OF len run] by blast
  note s = n(2) [unfolded scheduled_def]
  have st: "(state (procs k' ! i) = PROC_UNUSED) = (state (procs k ! i) = PROC_UNUSED)" if "i < 64" for i
    using s that by (cases "i = n") auto
  have "table_ok L k" using p by (simp add: parked_def)
  then have "table_ok L k'" by (rule table_ok_cong) (use s st len in simp_all)
  moreover have "state (procs k' ! i) = PROC_RUNNING \<longrightarrow> i = n" if "i < 64" for i
  proof (intro impI, rule ccontr)
    assume r: "state (procs k' ! i) = PROC_RUNNING" and ne: "i \<noteq> n"
    then have "state (procs k ! i) = PROC_RUNNING" "i = c \<longrightarrow> state (procs k ! i) \<noteq> PROC_RUNNING"
      using s that by auto
    then show False using p that by (auto simp: parked_def)
  qed
  moreover have "page_table (procs k' ! n) = page_table (procs k ! n)"
    using s by (simp add: same_process_def)
  ultimately have "kernel_ok L n k'" using s by (simp add: kernel_ok_def parked_def)
  with n(1) show ?thesis by blast
qed

end
