(* ===== verification/Process_Life.thy ===== *)
theory Process_Life
  imports Kernel_Inv
begin

text \<open>
  What \<open>alloc_proc\<close> and \<open>free_proc\<close> guarantee: a new process gets an address space and a
  kernel stack of its own, made of frames that were free, and nothing that exists is touched;
  a reaped process gives back exactly its own frames.
\<close>

section \<open>Updating one process\<close>

lemma upd_proc_twice [simp]: "i < length (procs k) \<Longrightarrow> upd_proc i f (upd_proc i g k) = upd_proc i (\<lambda>p. f (g p)) k"
  by (simp add: upd_proc_def)

lemma upd_proc_mem [simp]: "upd_proc i f (k\<lparr>mem := m\<rparr>) = (upd_proc i f k)\<lparr>mem := m\<rparr>"
  by (simp add: upd_proc_def)

section \<open>\<open>alloc_proc\<close>\<close>

text \<open>The parts of the kernel that allocating a process leaves alone.\<close>

definition same_rest :: "kernel \<Rightarrow> kernel \<Rightarrow> bool" where
  "same_rest k k' \<longleftrightarrow> current k' = current k \<and> g_tf k' = g_tf k \<and> rx k' = rx k \<and> satp k' = satp k \<and>
     timer k' = timer k \<and> irqs_done k' = irqs_done k"

lemma new_page_table_cases:
  assumes L: "layout_ok L" and o: "owned L (mem k) R S"
  obtains (stop) "new_page_table L i k = Inl map_kernel_oom"
  | (oom) "new_page_table L i k = Inr (False, upd_proc i (\<lambda>p. p\<lparr>state := PROC_UNUSED\<rparr>)
        (upd_proc i (\<lambda>p. p\<lparr>page_table := 0\<rparr>) k))"
  | (space) pt m where "new_page_table L i k = Inr (True, (upd_proc i (\<lambda>p. p\<lparr>page_table := pt\<rparr>) k)\<lparr>mem := m\<rparr>)"
      "new_space L (mem k) R S pt m"
proof -
  obtain pt m1 where al: "pmm_alloc_page L (mem k) = (pt, m1)" by fastforce
  show thesis
  proof (cases "pt = 0")
    case True
    then have "m1 = mem k" using pmm.al_null al by blast
    then show thesis using True al by (intro oom) (simp add: new_page_table_def)
  next
    case False
    note ns = new_space_mapped [OF L o al False]
    show thesis
    proof (cases "vmm_map_kernel L pt (memset m1 pt 0 4096)")
      case (Inl z)
      then show thesis using ns al False by (intro stop) (simp add: new_page_table_def)
    next
      case (Inr m)
      then show thesis using ns al False by (intro space) (simp_all add: new_page_table_def)
    qed
  qed
qed

lemma new_kernel_stack_cases:
  assumes o: "owned L (mem k) R S" and i: "i < length (procs k)" and r: "page_table (procs k ! i) = r" "r \<in> R"
  obtains (oom) "new_kernel_stack L i k = (False, upd_proc i (\<lambda>p. p\<lparr>kernel_stack := 0, state := PROC_UNUSED\<rparr>) k)"
  | (stack) st m1 m2 m3 where
      "new_kernel_stack L i k = (True, (upd_proc i (\<lambda>p. p\<lparr>kernel_stack := st,
          frame := zero_frame\<lparr>tf_kernel_sp := st + 4096\<rparr>\<rparr>) k)\<lparr>mem := m3\<rparr>)"
      "pmm_alloc_page L (mem k) = (st, m1)" "st \<noteq> 0" "same_except {st} m1 m2" "gains L R r m2 m3"
      "\<And>i j k. i < 512 \<Longrightarrow> j < 512 \<Longrightarrow> k < 512 \<Longrightarrow>
         user_frame (leaf_at m3 r i j k) = None \<or> leaf_at m3 r i j k = leaf_at m2 r i j k"
      "guarded m2 r \<Longrightarrow> guarded m3 r"
proof -
  obtain st m1 where al: "pmm_alloc_page L (mem k) = (st, m1)" by fastforce
  show thesis
  proof (cases "st = 0")
    case True
    then have "m1 = mem k" using pmm.al_null al by blast
    then show thesis using True al i by (intro oom) (simp add: new_kernel_stack_def)
  next
    case False
    let ?m2 = "memset m1 st 0 4096" and ?f = "PTE_R OR PTE_W"
    have st_al: "page_aligned st" using pmm.al_page [OF al False] frame_aligned by blast
    have fill: "same_except {st} m1 ?m2" by (rule same_except_memset [OF st_al]) simp
    note fr = owned_fresh [OF o al False fill]
    obtain x m3 where mp: "map_page L ?m2 r st st ?f = (x, m3)" by fastforce
    have fw: "flag_word ?f" by (auto simp: flag_word_def bit_or_iff bit_flags)
    have none: "user_frame (PA_TO_PTE st OR ?f OR PTE_V) = None"
      using has_entry(5) [OF fw, of st] by (simp add: user_frame_def has_flags bit_or_iff bit_flags)
    then have ok: "leaf_ok L ?m2 R (PA_TO_PTE st OR ?f OR PTE_V)" by (simp add: leaf_ok_def)
    have leaf: "user_frame (leaf_at m3 r a b c) = None \<or> leaf_at m3 r a b c = leaf_at ?m2 r a b c"
      if "a < 512" "b < 512" "c < 512" for a b c
      using owned_wf [OF fr(1)] r(2) ok mp
    proof (cases rule: map_page_cases)
      case oom
      then show ?thesis using r(2) that by simp
    next
      case mapped
      then show ?thesis using none r(2) that by simp
    qed
    have "leaf_at m3 r a b c = leaf_at ?m2 r a b c \<or> 0xC000 \<le> page_number a b c \<and> a < 256"
      if "a < 512" "b < 512" "c < 512" for a b c
      using owned_wf [OF fr(1)] r(2) ok mp
    proof (cases rule: map_page_cases)
      case oom
      then show ?thesis using r(2) that by simp
    next
      case mapped
      have "st \<in> kernel_half" using pmm.al_page [OF al False] frames_half by blast
      then show ?thesis using mapped(4) [OF r(2) that] kernel_half_path [of st] by auto
    qed
    then have gd: "guarded m3 r" if "guarded ?m2 r" using guarded_leaves [OF that] by blast
    have x: "extends L R r ?m2 m3"
      using owned_wf [OF fr(1)] r(2) ok mp by (cases rule: map_page_cases) (auto intro: grows_extends)
    have g: "gains L R r ?m2 m3"
      by (rule gains_leafI [OF owned_wf [OF fr(1)] r(2) x]) (use leaf in fastforce)
    show thesis
    proof (rule stack [OF _ al False fill g leaf gd])
      show "new_kernel_stack L i k = (True, (upd_proc i (\<lambda>p. p\<lparr>kernel_stack := st,
          frame := zero_frame\<lparr>tf_kernel_sp := st + 4096\<rparr>\<rparr>) k)\<lparr>mem := m3\<rparr>)"
        using al False i mp r(1) by (simp add: new_kernel_stack_def Let_def nth_list_update)
    qed
  qed
qed

text \<open>The table when slot \<open>n\<close> comes into use.\<close>

lemma live_insert:
  assumes "n < length ps" "state (ps ! n) = PROC_UNUSED" "state p \<noteq> PROC_UNUSED"
  shows "live (ps[n := p]) = insert n (live ps)" "n \<notin> live ps"
    "roots (ps[n := p]) = insert (page_table p) (roots ps)" "stacks (ps[n := p]) = insert (kernel_stack p) (stacks ps)"
proof -
  show l: "live (ps[n := p]) = insert n (live ps)" and n: "n \<notin> live ps"
    using assms by (auto simp: live_def nth_list_update)
  have "(\<lambda>i. f (ps[n := p] ! i)) ` live ps = (\<lambda>i. f (ps ! i)) ` live ps" for f :: "process \<Rightarrow> u64"
    by (rule image_cong) (use n nth_list_update_neq in metis)+
  then show "roots (ps[n := p]) = insert (page_table p) (roots ps)" "stacks (ps[n := p]) = insert (kernel_stack p) (stacks ps)"
    unfolding roots_def stacks_def l using assms(1) by simp_all
qed

lemma inj_on_insert_slot:
  assumes "inj_on (\<lambda>i. f (ps ! i)) A" "n \<notin> A" "f p \<notin> (\<lambda>i. f (ps ! i)) ` A" "n < length ps"
  shows "inj_on (\<lambda>i. f (ps[n := p] ! i)) (insert n A)"
proof -
  have eq: "f (ps[n := p] ! i) = f (ps ! i)" if "i \<in> A" for i
    using assms(2) that nth_list_update_neq by metis
  then have "inj_on (\<lambda>i. f (ps[n := p] ! i)) A" using assms(1) by (auto simp: inj_on_def)
  moreover have "f (ps[n := p] ! n) \<notin> (\<lambda>i. f (ps[n := p] ! i)) ` (A - {n})"
    using assms(3,4) eq by (auto simp: image_iff)
  ultimately show ?thesis by simp
qed

lemma spaces_ok_insert:
  assumes s: "spaces_ok L m ps" and n: "n < length ps" "state (ps ! n) = PROC_UNUSED" "state p \<noteq> PROC_UNUSED"
    and o: "owned L m' (insert (page_table p) (roots ps)) (insert (kernel_stack p) (stacks ps))"
    and new: "page_table p \<notin> roots ps" "kernel_stack p \<notin> stacks ps"
  shows "spaces_ok L m' (ps[n := p])"
proof -
  note l = live_insert [OF n]
  have "inj_on (\<lambda>i. page_table (ps[n := p] ! i)) (insert n (live ps))"
    "inj_on (\<lambda>i. kernel_stack (ps[n := p] ! i)) (insert n (live ps))"
    by (rule inj_on_insert_slot; use spaces_okD(3,4) [OF s] l(2) new n(1) in \<open>simp add: roots_def stacks_def\<close>)+
  then show ?thesis using o unfolding spaces_ok_def l by simp
qed

lemma table_ok_update:
  assumes t: "table_ok L k" and k': "procs k' = (procs k)[n := p]" and p: "process_ok p"
    and s: "spaces_ok L (mem k') (procs k')"
  shows "table_ok L k'"
  using assms set_update_subset_insert [of "procs k" n p] unfolding table_ok_def by auto

text \<open>A process as \<open>alloc_proc\<close> hands it out, in a kernel that otherwise did not change.\<close>

definition fresh_process :: "layout \<Rightarrow> kernel \<Rightarrow> nat \<Rightarrow> kernel \<Rightarrow> bool" where
  "fresh_process L k n k' \<longleftrightarrow>
     n < 64 \<and> state (procs k ! n) = PROC_UNUSED \<and> same_rest k k' \<and> console k' = console k \<and>
     next_pid k' = next_pid k + 1 \<and> keeps L (mem k) (mem k') \<and>
     (\<forall>r \<in> roots (procs k). \<forall>p. tree (mem k') r p = tree (mem k) r p) \<and>
     (let p = procs k' ! n in
        procs k' = (procs k)[n := p] \<and> pid p = next_pid k \<and> state p = PROC_READY \<and>
        open_files p = open_files (init_process_fds empty_process) \<and>
        frame p = zero_frame\<lparr>tf_kernel_sp := kernel_stack p + 4096\<rparr> \<and>
        page_table p \<notin> roots (procs k) \<and> kernel_stack p \<notin> stacks (procs k) \<and>
        tables (mem k') (page_table p) \<inter> used L (mem k) = {} \<and>
        (\<forall>i j k. i < 512 \<longrightarrow> j < 512 \<longrightarrow> k < 512 \<longrightarrow>
           user_frame (leaf_at (mem k') (page_table p) i j k) = None) \<and>
        guarded (mem k') (page_table p))"

text \<open>Failing to allocate a process changes no process in use.\<close>

definition no_process :: "layout \<Rightarrow> kernel \<Rightarrow> kernel \<Rightarrow> bool" where
  "no_process L k k' \<longleftrightarrow>
     same_rest k k' \<and> keeps L (mem k) (mem k') \<and> length (procs k') = length (procs k) \<and>
     (\<forall>i < 64. if state (procs k ! i) = PROC_UNUSED then state (procs k' ! i) = PROC_UNUSED
        else procs k' ! i = procs k ! i) \<and>
     (\<forall>r \<in> roots (procs k). \<forall>p. tree (mem k') r p = tree (mem k) r p)"

lemma table_ok_no_process:
  assumes t: "table_ok L k" and n: "no_process L k k'" and o: "owned L (mem k') (roots (procs k)) (stacks (procs k))"
    and ok: "\<forall>p \<in> set (procs k'). process_ok p"
  shows "table_ok L k'"
proof -
  have len: "length (procs k) = 64" using t by (simp add: table_ok_def)
  have "spaces_ok L (mem k') (procs k)" using t o by (simp add: table_ok_def spaces_ok_def)
  then have "spaces_ok L (mem k') (procs k')"
    by (rule spaces_ok_cong) (use n len in \<open>auto simp: no_process_def split: if_splits\<close>)
  then show ?thesis using n len ok by (simp add: table_ok_def no_process_def)
qed

lemma process_ok_fds: "process_ok p \<Longrightarrow> process_ok (init_process_fds p)"
  by (simp add: process_ok_def init_process_fds_def)

lemma alloc_proc_cases:
  assumes L: "layout_ok L" and t: "table_ok L k"
  obtains (stop) "alloc_proc L k = Inl map_kernel_oom"
  | (none) k' where "alloc_proc L k = Inr (None, k')" "no_process L k k'" "table_ok L k'"
  | (proc) n k' where "alloc_proc L k = Inr (Some n, k')" "fresh_process L k n k'" "table_ok L k'"
proof -
  let ?R = "roots (procs k)" and ?S = "stacks (procs k)"
  have len: "length (procs k) = 64" and sp: "spaces_ok L (mem k) (procs k)"
    and pok: "\<And>p. p \<in> set (procs k) \<Longrightarrow> process_ok p"
    using t by (simp_all add: table_ok_def)
  note o = spaces_okD(1) [OF sp]
  show thesis
  proof (cases "find_index (\<lambda>p. state p = PROC_UNUSED) (procs k)")
    case None
    let ?k' = "say nl (say ''alloc_proc: Process table is full!'' k)"
    have "no_process L k ?k'"
      using None len by (simp add: no_process_def same_rest_def find_index_None)
    moreover have "table_ok L ?k'" using t by (simp add: table_ok_def)
    ultimately show thesis using None by (intro none) (simp_all add: alloc_proc_def)
  next
    case (Some n)
    then have n: "n < length (procs k)" "state (procs k ! n) = PROC_UNUSED"
      using find_index_Some [of _ "procs k" n] by auto
    let ?g = "\<lambda>p. init_process_fds (p\<lparr>pid := next_pid k, state := PROC_READY\<rparr>)"
    let ?k1 = "(upd_proc n ?g k)\<lparr>next_pid := next_pid k + 1\<rparr>"
    have ap: "alloc_proc L k = bind_stop (new_page_table L n ?k1)
        (\<lambda>(ok, k2). if \<not> ok then Inr (None, k2)
           else (let (ok', k3) = new_kernel_stack L n k2 in Inr (if ok' then Some n else None, k3)))"
      using Some by (simp add: alloc_proc_def Let_def)
    have gp: "process_ok (procs k ! n)" using pok n(1) by simp
    have slot_ok: "\<forall>p \<in> set ((procs k)[n := p']). process_ok p" if "process_ok p'" for p'
      using that pok set_update_subset_insert [of "procs k" n p'] by auto
    have o1: "owned L (mem ?k1) ?R ?S" using o by simp
    show thesis using L o1
    proof (cases rule: new_page_table_cases [where i = n and k = ?k1])
      case s: stop
      show thesis by (rule stop) (simp add: ap s)
    next
      case oom
      let ?k' = "upd_proc n (\<lambda>p. p\<lparr>state := PROC_UNUSED\<rparr>) (upd_proc n (\<lambda>p. p\<lparr>page_table := 0\<rparr>) ?k1)"
      have np: "no_process L k ?k'"
        using n len by (auto simp: no_process_def same_rest_def nth_list_update)
      have "process_ok ((?g (procs k ! n))\<lparr>page_table := 0, state := PROC_UNUSED\<rparr>)"
        using gp by (simp add: process_ok_def init_process_fds_def)
      then have "table_ok L ?k'"
        using n slot_ok o by (intro table_ok_no_process [OF t np]) auto
      with np show thesis by (intro none) (simp_all add: ap oom)
    next
      case (space pt m)
      note ns = new_spaceD [OF space(2), simplified]
      let ?k2 = "(upd_proc n (\<lambda>p. p\<lparr>page_table := pt\<rparr>) ?k1)\<lparr>mem := m\<rparr>"
      have o2: "owned L (mem ?k2) (insert pt ?R) ?S" using ns(1) by simp
      have i2: "n < length (procs ?k2)" "page_table (procs ?k2 ! n) = pt" "pt \<in> insert pt ?R" using n by simp_all
      show thesis using o2 i2
      proof (cases rule: new_kernel_stack_cases)
        case oom
        let ?k' = "upd_proc n (\<lambda>p. p\<lparr>kernel_stack := 0, state := PROC_UNUSED\<rparr>) ?k2"
        have np: "no_process L k ?k'"
          using n len ns(4,6) by (auto simp: no_process_def same_rest_def nth_list_update)
        have "process_ok ((?g (procs k ! n))\<lparr>page_table := pt, kernel_stack := 0, state := PROC_UNUSED\<rparr>)"
          using gp by (simp add: process_ok_def init_process_fds_def)
        then have "table_ok L ?k'"
          using n slot_ok owned_mono [OF ns(1), of ?R ?S] by (intro table_ok_no_process [OF t np]) auto
        with np show thesis by (intro none) (simp_all add: ap space oom)
      next
        case (stack st m1 m2 m3)
        let ?k' = "(upd_proc n (\<lambda>p. p\<lparr>kernel_stack := st,
            frame := zero_frame\<lparr>tf_kernel_sp := st + 4096\<rparr>\<rparr>) ?k2)\<lparr>mem := m3\<rparr>"
        let ?p = "(?g (procs k ! n))\<lparr>page_table := pt, kernel_stack := st,
            frame := zero_frame\<lparr>tf_kernel_sp := st + 4096\<rparr>\<rparr>"
        have al: "pmm_alloc_page L m = (st, m1)" using stack(2) by simp
        note fr = owned_fresh [OF ns(1) al stack(3,4)]
        note o3 = gains_owned [OF fr(1) stack(5)]
        have "tables m2 pt = tables m pt" using fr(3) by (simp add: tables_def)
        then have t2: "tables m2 pt \<inter> used L (mem k) = {}" using ns(5) by simp
        have "keeps L (mem k) m2"
          using ns(4) keeps_fresh [OF owned_wf [OF ns(1)] al stack(3,4)] by (rule keeps_trans)
        note kg = keeps_gains [OF this stack(5) t2]
        have tr: "tree m3 r p = tree (mem k) r p" if "r \<in> ?R" for r p
          using extendsD(6) [OF gainsD(1) [OF stack(5)], of r p] fr(3) ns(2,6) that by auto
        have no_user: "user_frame (leaf_at m3 pt a b c) = None" if "a < 512" "b < 512" "c < 512" for a b c
          using stack(6) [OF that] ns(7) [OF that]
            fresh_frame(8) [OF owned_wf [OF ns(1)] al stack(3,4) insertI1 that(3), of a b] by auto
        have gd: "guarded m3 pt"
          by (rule stack(7) [OF guarded_leaves [OF ns(8)]])
            (use fresh_frame(8) [OF owned_wf [OF ns(1)] al stack(3,4) insertI1] in simp)
        have ps: "procs ?k' = (procs k)[n := ?p]" using n by simp
        have st_new: "st \<notin> ?S" by (rule fr(2))
        have "fresh_process L k n ?k'"
          unfolding fresh_process_def Let_def ps
          using n len kg tr no_user gd ns(2) st_new
          by (simp add: same_rest_def init_process_fds_def)
        moreover have "spaces_ok L (mem ?k') (procs ?k')"
          unfolding ps using o3 ns(2) st_new n by (intro spaces_ok_insert [OF sp]) (simp_all add: init_process_fds_def)
        moreover have "process_ok ?p" using gp by (simp add: process_ok_def init_process_fds_def)
        ultimately show thesis
          using ap space(1) stack(1) table_ok_update [OF t ps] by (intro proc) simp_all
      qed
    qed
  qed
qed

section \<open>\<open>free_proc\<close>\<close>

definition scrubbed :: "process \<Rightarrow> process" where
  "scrubbed p = p\<lparr>kernel_stack := 0, page_table := 0, state := PROC_UNUSED, pid := 0, parent_pid := 0,
     chan := NoChan, heap_break := 0, heap_max := 0, open_files := replicate FD_MAX closed_file\<rparr>"

text \<open>The table when slot \<open>n\<close> goes out of use.\<close>

lemma live_remove:
  assumes "n < length ps" "state p = PROC_UNUSED"
  shows "live (ps[n := p]) = live ps - {n}"
  using assms by (auto simp: live_def nth_list_update)

lemma slot_image_remove:
  assumes "inj_on (\<lambda>i. f (ps ! i)) A" "n \<in> A"
  shows "(\<lambda>i. f (ps[n := p] ! i)) ` (A - {n}) = (\<lambda>i. f (ps ! i)) ` A - {f (ps ! n)}"
proof -
  have "(\<lambda>i. f (ps[n := p] ! i)) ` (A - {n}) = (\<lambda>i. f (ps ! i)) ` (A - {n})"
    by (rule image_cong) (use nth_list_update_neq in \<open>metis Diff_iff singletonI\<close>)+
  also have "\<dots> = (\<lambda>i. f (ps ! i)) ` A - (\<lambda>i. f (ps ! i)) ` {n}"
    using assms by (intro inj_on_image_set_diff) auto
  finally show ?thesis by simp
qed

lemma spaces_ok_remove:
  assumes s: "spaces_ok L m ps" and n: "n \<in> live ps" "state p = PROC_UNUSED"
    and o: "owned L m' (roots ps - {page_table (ps ! n)}) (stacks ps - {kernel_stack (ps ! n)})"
  shows "spaces_ok L m' (ps[n := p])"
proof -
  have len: "n < length ps" using n(1) by (simp add: live_def)
  note l = live_remove [OF len n(2)] and sd = spaces_okD [OF s]
  have "inj_on (\<lambda>i. page_table (ps[n := p] ! i)) (live ps - {n})"
    "inj_on (\<lambda>i. kernel_stack (ps[n := p] ! i)) (live ps - {n})"
    using sd(3,4) by (auto simp: inj_on_def)
  then show ?thesis
    using o slot_image_remove [OF sd(3) n(1), of p] slot_image_remove [OF sd(4) n(1), of p]
    unfolding spaces_ok_def roots_def stacks_def l by simp
qed

lemma scrubbed_state [simp]: "state (scrubbed p) = PROC_UNUSED"
  by (simp add: scrubbed_def)

lemma free_proc_reap:
  assumes "table_ok L k" "i < MAX_PROCS" "state (procs k ! i) \<noteq> PROC_UNUSED"
  shows "table_ok L (free_proc L i k)" "procs (free_proc L i k) = (procs k)[i := scrubbed (procs k ! i)]"
    "used L (mem (free_proc L i k)) =
       used L (mem k) - insert (kernel_stack (procs k ! i)) (nodes (mem k) (page_table (procs k ! i)))"
    "same_except {image_end L} (mem k) (mem (free_proc L i k))"
    "current (free_proc L i k) = current k" "satp (free_proc L i k) = satp k"
    "\<And>r q. r \<in> roots (procs k) \<Longrightarrow> tree (mem (free_proc L i k)) r q = tree (mem k) r q"
proof -
  let ?p = "procs k ! i" and ?R = "roots (procs k)" and ?S = "stacks (procs k)"
  let ?m1 = "pmm_free_page L (mem k) (kernel_stack ?p)"
  let ?m2 = "vmm_free_pt L ?m1 (page_table ?p)"
  have len: "length (procs k) = 64" and sp: "spaces_ok L (mem k) (procs k)" using assms(1) by (simp_all add: table_ok_def)
  have i: "i \<in> live (procs k)" "i < length (procs k)" using assms(2,3) len by (simp_all add: live_def)
  note sd = spaces_okD [OF sp]
  have st: "kernel_stack ?p \<in> ?S" and pt: "page_table ?p \<in> ?R" using sd(5,6) i(1) by simp_all
  have st0: "kernel_stack ?p \<noteq> 0"
    using sd(1) st used_subset frame_nonzero by (auto simp: owned_def)
  have "tree (mem k) (page_table ?p) [] = Some (page_table ?p)" by simp
  then have pt0: "page_table ?p \<noteq> 0" using wf_used [OF sd(2) pt] used_subset frame_nonzero by blast
  note f1 = owned_free_frame [OF sd(1) st]
  note f2 = vmm_free_pt_spec [OF owned_wf [OF f1(1)] pt]
  note o2 = owned_free_pt [OF f1(1) pt]
  have k': "free_proc L i k = (upd_proc i (\<lambda>_. scrubbed ?p) k)\<lparr>mem := ?m2\<rparr>"
    using assms(3) st0 pt0 i(2)
    by (simp add: free_proc_def release_stack_def release_space_def scrubbed_def Let_def nth_list_update upd_proc_def)
  have ps: "procs (free_proc L i k) = (procs k)[i := scrubbed ?p]" "mem (free_proc L i k) = ?m2"
    unfolding k' by simp_all
  have "spaces_ok L (mem (free_proc L i k)) (procs (free_proc L i k))"
    unfolding ps by (rule spaces_ok_remove [OF sp i(1) _ o2]) (simp add: scrubbed_def)
  moreover have "process_ok (scrubbed ?p)" by (simp add: process_ok_def scrubbed_def)
  ultimately have t: "table_ok L (free_proc L i k)" using table_ok_update [OF assms(1) ps(1)] by blast
  have nodes1: "nodes ?m1 (page_table ?p) = nodes (mem k) (page_table ?p)" using f1(2) [OF pt] by (simp add: nodes_def)
  have "used L ?m2 = used L (mem k) - insert (kernel_stack ?p) (nodes (mem k) (page_table ?p))"
    unfolding f2(1) nodes1 by auto
  moreover have "same_except {image_end L} (mem k) ?m2"
    using same_except_free [OF wf_aligned [OF sd(2)]] f2(2) by (rule same_except_trans) simp
  moreover have "tree ?m2 r q = tree (mem k) r q" if "r \<in> ?R" for r q using f2(4) [OF that] f1(2) [OF that] by simp
  ultimately show "table_ok L (free_proc L i k)" "procs (free_proc L i k) = (procs k)[i := scrubbed ?p]"
    "used L (mem (free_proc L i k)) = used L (mem k) - insert (kernel_stack ?p) (nodes (mem k) (page_table ?p))"
    "same_except {image_end L} (mem k) (mem (free_proc L i k))"
    "\<And>r q. r \<in> ?R \<Longrightarrow> tree (mem (free_proc L i k)) r q = tree (mem k) r q"
    using t ps by simp_all
  show "current (free_proc L i k) = current k" "satp (free_proc L i k) = satp k" unfolding k' by simp_all
qed

text \<open>
  C24: reaping a process is exact. Every frame of its address space and its kernel stack, and
  no other frame, becomes free; its slot is scrubbed, every other process and every other
  address space is unchanged, only the bitmap is written, and the table is well formed again.
\<close>
theorem free_proc_exact:
  assumes "table_ok L k" "i < MAX_PROCS" "state (procs k ! i) \<noteq> PROC_UNUSED"
  shows "let p = procs k ! i; k' = free_proc L i k in
    table_ok L k' \<and> procs k' = (procs k)[i := scrubbed p] \<and>
    used L (mem k') = used L (mem k) - insert (kernel_stack p) (nodes (mem k) (page_table p)) \<and>
    same_except {image_end L} (mem k) (mem k') \<and>
    (\<forall>r \<in> roots (procs k) - {page_table p}. \<forall>q. tree (mem k') r q = tree (mem k) r q)"
  using free_proc_reap [OF assms] by (simp add: Let_def)

section \<open>A concrete machine\<close>

text \<open>
  One running process over the sample address space (one user page at \<open>0x1000\<close>), used to
  evaluate the properties of the system calls.
\<close>

definition sample_stack :: u64 where
  "sample_stack = fst (pmm_alloc_page sample_layout sample_user)"

definition sample_process :: process where
  "sample_process = (init_process_fds empty_process)
     \<lparr>pid := 1, state := PROC_RUNNING, page_table := sample_root, kernel_stack := sample_stack,
      heap_break := 0x2000, heap_max := 0x3FFFE000\<rparr>"

definition sample_machine :: kernel where
  "sample_machine = (power_on (snd (pmm_alloc_page sample_layout sample_user)))
     \<lparr>procs := (replicate MAX_PROCS empty_process)[0 := sample_process], next_pid := 2,
      current := Some 0, satp := MAKE_SATP sample_root\<rparr>"

lemma sample_machine_procs:
  "procs sample_machine ! 0 = sample_process" "length (procs sample_machine) = 64"
  "current sample_machine = Some 0" "satp sample_machine = MAKE_SATP sample_root"
  by (simp_all add: sample_machine_def)

lemma sample_machine_ok: "kernel_ok sample_layout 0 sample_machine"
proof -
  let ?es = "replicate MAX_PROCS empty_process" and ?m = "mem sample_machine"
  obtain m1 where al: "pmm_alloc_page sample_layout sample_user = (sample_stack, m1)"
    by (cases "pmm_alloc_page sample_layout sample_user") (simp add: sample_stack_def)
  have m: "?m = m1" using al by (simp add: sample_machine_def power_on_def)
  have n0: "sample_stack \<noteq> 0" using frames_left_alloc(1) [OF al] sample_user_space(5) by auto
  have o: "owned sample_layout sample_user {sample_root} {}" using sample_user_space(1) by (simp add: owned_def)
  note fr = owned_fresh [OF o al n0 same_except_refl]
  have es: "state (?es ! i) = PROC_UNUSED" if "i < 64" for i using that by (simp add: empty_process_def)
  have none: "live ?es = {}" using es by (auto simp: live_def)
  have s0: "spaces_ok sample_layout sample_user ?es"
    using sample_user_space(1) by (simp add: spaces_ok_def roots_def stacks_def none owned_def wf_forest_def)
  have ps: "procs sample_machine = ?es[0 := sample_process]" by (simp add: sample_machine_def)
  have p: "page_table sample_process = sample_root" "kernel_stack sample_process = sample_stack"
    "state sample_process = PROC_RUNNING" "process_ok sample_process"
    by (simp_all add: sample_process_def process_ok_def init_process_fds_def)
  have "spaces_ok sample_layout ?m (?es[0 := sample_process])" unfolding m
    by (rule spaces_ok_insert [OF s0])
      (use fr p es [of 0] in \<open>simp_all add: roots_def stacks_def none\<close>)
  moreover have "process_ok empty_process" by (simp add: process_ok_def empty_process_def)
  then have "\<forall>q \<in> set (?es[0 := sample_process]). process_ok q"
    using p(4) set_update_subset_insert [of ?es 0 sample_process] by auto
  ultimately have "table_ok sample_layout sample_machine" unfolding table_ok_def ps by simp
  moreover have "state (procs sample_machine ! i) = PROC_RUNNING \<longrightarrow> i = 0" if "i < 64" for i
    unfolding ps using es [OF that] that by (cases "i = 0") simp_all
  ultimately have "parked sample_layout 0 sample_machine"
    unfolding parked_def sample_machine_procs(3) by simp
  then show ?thesis
    unfolding kernel_ok_def sample_machine_procs(1,4) p by blast
qed

lemma sample_machine_table: "table_ok sample_layout sample_machine"
  using kernel_okD(10) [OF sample_machine_ok] .

lemma free_proc_exact_witness:
  "table_ok sample_layout (free_proc sample_layout 0 sample_machine)"
proof -
  have "state (procs sample_machine ! 0) \<noteq> PROC_UNUSED"
    by (simp add: sample_machine_procs sample_process_def)
  then show ?thesis using free_proc_exact [OF sample_machine_table, of 0] by (simp add: Let_def)
qed

text \<open>
  C25: \<open>alloc_proc\<close> either stops the kernel because the kernel mappings do not fit, or returns
  null with every process in use as before, or returns a slot that was unused with a process
  whose page table and kernel stack were free frames, which can reach no user memory yet; in
  both cases no frame in use was written or freed, no other address space changed, and the
  process table is well formed.
\<close>
theorem alloc_proc_fresh:
  assumes "layout_ok L" "table_ok L k"
  shows "case alloc_proc L k of
      Inl z \<Rightarrow> z = Panic ''PANIC: vmm_map_kernel out of memory!''
    | Inr (None, k') \<Rightarrow> no_process L k k' \<and> table_ok L k'
    | Inr (Some n, k') \<Rightarrow> fresh_process L k n k' \<and> table_ok L k'"
  using assms by (cases rule: alloc_proc_cases) auto

lemma alloc_proc_fresh_witness:
  "case alloc_proc sample_layout sample_machine of
      Inl z \<Rightarrow> z = Panic ''PANIC: vmm_map_kernel out of memory!''
    | Inr (None, k') \<Rightarrow> no_process sample_layout sample_machine k' \<and> table_ok sample_layout k'
    | Inr (Some n, k') \<Rightarrow> fresh_process sample_layout sample_machine n k' \<and> table_ok sample_layout k'"
  by (rule alloc_proc_fresh [OF sample_layout_ok sample_machine_table])

end
