(* ===== verification/Isolation.thy ===== *)
theory Isolation
  imports Process_Life
begin

text \<open>
  The contract every trap keeps towards the processes it is not about: \<open>isolated\<close>. A process
  other than the current one that stays in use keeps its registers, its files, its heap
  limits, its page tables and every byte of its memory; at most its scheduling state changes.
  \<open>trap_ok\<close> adds that the kernel invariant holds for the process the trap resumes.
\<close>

section \<open>Address spaces left alone\<close>

definition untouched :: "memory \<Rightarrow> memory \<Rightarrow> u64 \<Rightarrow> bool" where
  "untouched m m' r \<longleftrightarrow>
     (\<forall>p. tree m' r p = tree m r p) \<and> (\<forall>b. page_base b \<in> nodes m r \<longrightarrow> m' b = m b)"

lemma untouched_refl [simp]: "untouched m m r"
  by (simp add: untouched_def)

lemma untouched_trans: "untouched m m' r \<Longrightarrow> untouched m' m'' r \<Longrightarrow> untouched m m'' r"
  by (simp add: untouched_def nodes_def)

lemma untouched_gains:
  assumes "wf_forest L m R" "r \<in> R" "r' \<in> R" "r' \<noteq> r" "gains L R r m m'"
  shows "untouched m m' r'"
  unfolding untouched_def
proof (intro conjI allI impI)
  note x = gainsD(1) [OF assms(5)]
  show "tree m' r' p = tree m r' p" for p by (rule extendsD(6) [OF x assms(3,4)])
  fix b assume "page_base b \<in> nodes m r'"
  then obtain p where p: "tree m r' p = Some (page_base b)" by (auto simp: nodes_def)
  have "page_base b \<notin> tables m r"
  proof
    assume "page_base b \<in> tables m r"
    then obtain q where "tree m r q = Some (page_base b)" by (auto simp: tables_def)
    then show False using wf_inj [OF assms(1,2,3)] p assms(4) by blast
  qed
  then show "m' b = m b"
    using wf_used [OF assms(1,3) p] wf_not_bitmap [OF assms(1,3) p] by (intro extends_frame [OF x])
qed

lemma untouched_keeps:
  assumes "wf_forest L m R" "r \<in> R" "keeps L m m'" "\<And>p. tree m' r p = tree m r p"
  shows "untouched m m' r"
  unfolding untouched_def nodes_def
  using assms(4) wf_used [OF assms(1,2)] wf_not_bitmap [OF assms(1,2)] keepsD [OF assms(3)] by blast

lemma untouched_bitmap:
  assumes "wf_forest L m R" "r \<in> R" "same_except {image_end L} m m'"
  shows "untouched m m' r"
  unfolding untouched_def nodes_def
  using tree_bitmap [OF assms] wf_not_bitmap [OF assms(1,2)] same_exceptD [OF assms(3)] by blast

text \<open>What the hardware finds there is the same.\<close>

lemma untouched_leaf:
  assumes wf: "wf_forest L m R" "r \<in> R" and u: "untouched m m' r" and c: "c < 512"
  shows "leaf_at m' r a b c = leaf_at m r a b c"
proof (cases "tree m r [a, b]")
  case None
  then show ?thesis using u by (simp add: leaf_at_def untouched_def)
next
  case (Some t)
  have "load64 m' (slot t c) = load64 m (slot t c)"
  proof (rule load_le_cong)
    fix l :: nat assume "l < 8"
    then have "page_base (slot t c + of_nat l) = t"
      unfolding slot_byte using wf_page [OF wf Some] c by (intro page_base_add) simp_all
    then have "page_base (slot t c + of_nat l) \<in> nodes m r" using Some by (auto simp: nodes_def)
    then show "m' (slot t c + of_nat l) = m (slot t c + of_nat l)"
      using u by (simp add: untouched_def)
  qed
  then show ?thesis using Some u by (simp add: leaf_at_def untouched_def)
qed

section \<open>Processes left alone\<close>

definition isolated :: "nat \<Rightarrow> kernel \<Rightarrow> kernel \<Rightarrow> bool" where
  "isolated c k k' \<longleftrightarrow>
     (\<forall>i < 64. i \<noteq> c \<longrightarrow> state (procs k ! i) \<noteq> PROC_UNUSED \<longrightarrow> state (procs k' ! i) \<noteq> PROC_UNUSED \<longrightarrow>
        same_process (procs k ! i) (procs k' ! i) \<and> frame (procs k' ! i) = frame (procs k ! i) \<and>
        untouched (mem k) (mem k') (page_table (procs k ! i)))"

lemma isolated_refl [simp]: "isolated c k k"
  by (simp add: isolated_def)

text \<open>Composition, when the second step neither frees nor allocates a slot.\<close>

lemma isolated_trans:
  assumes "isolated c k k'" "isolated c k' k''"
    and "\<And>i. i < 64 \<Longrightarrow> state (procs k'' ! i) \<noteq> PROC_UNUSED \<Longrightarrow> state (procs k' ! i) \<noteq> PROC_UNUSED"
  shows "isolated c k k''"
  unfolding isolated_def
proof (intro allI impI)
  fix i assume i: "i < (64 :: nat)" "i \<noteq> c" "state (procs k ! i) \<noteq> PROC_UNUSED" "state (procs k'' ! i) \<noteq> PROC_UNUSED"
  note b = assms(3) [OF i(1,4)]
  have 1: "same_process (procs k ! i) (procs k' ! i)" "frame (procs k' ! i) = frame (procs k ! i)"
    "untouched (mem k) (mem k') (page_table (procs k ! i))"
    using assms(1) i b by (auto simp: isolated_def)
  have 2: "same_process (procs k' ! i) (procs k'' ! i)" "frame (procs k'' ! i) = frame (procs k' ! i)"
    "untouched (mem k') (mem k'') (page_table (procs k' ! i))"
    using assms(2) i b by (auto simp: isolated_def)
  have "page_table (procs k' ! i) = page_table (procs k ! i)" using 1(1) by (simp add: same_process_def)
  then show "same_process (procs k ! i) (procs k'' ! i) \<and> frame (procs k'' ! i) = frame (procs k ! i) \<and>
      untouched (mem k) (mem k'') (page_table (procs k ! i))"
    using 1 2 same_process_trans [OF 1(1) 2(1)] untouched_trans [OF 1(3)] by simp
qed

text \<open>Steps that only change the current process and the memory.\<close>

lemma isolated_current:
  assumes "procs k' = (procs k)[c := p]" 
    and "\<And>i. i < 64 \<Longrightarrow> i \<noteq> c \<Longrightarrow> state (procs k ! i) \<noteq> PROC_UNUSED \<Longrightarrow>
      untouched (mem k) (mem k') (page_table (procs k ! i))"
  shows "isolated c k k'"
  unfolding isolated_def
proof (intro allI impI)
  fix i :: nat assume i: "i < 64" "i \<noteq> c" "state (procs k ! i) \<noteq> PROC_UNUSED"
  then have "procs k' ! i = procs k ! i" using assms(1) nth_list_update_neq by metis
  then show "same_process (procs k ! i) (procs k' ! i) \<and> frame (procs k' ! i) = frame (procs k ! i) \<and>
      untouched (mem k) (mem k') (page_table (procs k ! i))"
    using assms(2) [OF i] by simp
qed

section \<open>The contract of a trap\<close>

definition trap_ok :: "layout \<Rightarrow> nat \<Rightarrow> kernel \<Rightarrow> stop + tf_ptr \<times> kernel \<Rightarrow> bool" where
  "trap_ok L c k res \<longleftrightarrow>
     (case res of
        Inl _ \<Rightarrow> True
      | Inr (q, k') \<Rightarrow> (\<exists>n. q = ProcFrame n \<and> kernel_ok L n k') \<and> isolated c k k')"

lemma trap_ok_Inl [simp]: "trap_ok L c k (Inl z)"
  by (simp add: trap_ok_def)

lemma trap_ok_bind:
  assumes "\<And>x. r = Inr x \<Longrightarrow> trap_ok L c k (f x)"
  shows "trap_ok L c k (bind_stop r f)"
  using assms by (cases r) simp_all

text \<open>Changing registers or files of the current process, and its state, keeps the table.\<close>

lemma kernel_ok_current:
  assumes ok: "kernel_ok L c k" and k': "mem k' = mem k" "procs k' = (procs k)[c := p]" "current k' = current k" "satp k' = satp k"
    and p: "process_ok p" "state p = PROC_RUNNING" "page_table p = page_table (procs k ! c)"
      "kernel_stack p = kernel_stack (procs k ! c)"
  shows "kernel_ok L c k'"
proof -
  note o = kernel_okD [OF ok]
  have nth: "procs k' ! i = (if i = c then p else procs k ! i)" if "i < 64" for i
    using that o(1,2) k'(2) by simp
  have "spaces_ok L (mem k') (procs k')" unfolding k'(1)
  proof (rule spaces_ok_cong [OF o(6)])
    show "length (procs k') = length (procs k)" using k'(2) by simp
    fix i assume "i < length (procs k)"
    then have i: "i < 64" using o(1) by simp
    show "(state (procs k' ! i) = PROC_UNUSED) = (state (procs k ! i) = PROC_UNUSED)"
      unfolding nth [OF i] using o(4) p(2) by simp
    show "page_table (procs k' ! i) = page_table (procs k ! i) \<and> kernel_stack (procs k' ! i) = kernel_stack (procs k ! i)"
      unfolding nth [OF i] using p(3,4) by simp
  qed
  then have "table_ok L k'" by (rule table_ok_update [OF o(10) k'(2) p(1)])
  moreover have "\<forall>i < 64. state (procs k' ! i) = PROC_RUNNING \<longrightarrow> i = c"
    using nth o(9) by metis
  ultimately have "parked L c k'" using o(2,3) k'(3) by (simp only: parked_def)
  moreover have "procs k' ! c = p" using nth [OF o(2)] by simp
  ultimately show ?thesis using o(5) k'(4) p(2,3) by (simp only: kernel_ok_def)
qed

lemma upd_frame_procs:
  "procs (upd_frame (ProcFrame c) f k) = (procs k)[c := (procs k ! c)\<lparr>frame := f (frame (procs k ! c))\<rparr>]"
  by simp

lemma kernel_ok_frame:
  assumes "kernel_ok L c k"
  shows "kernel_ok L c (upd_frame (ProcFrame c) f k)"
  by (rule kernel_ok_current [OF assms _ upd_frame_procs])
    (use kernel_okD(4) [OF assms] kernel_okD(7) [OF assms kernel_okD(2) [OF assms]] in \<open>simp_all add: process_ok_def\<close>)

lemma isolated_frame: "isolated c k k' \<Longrightarrow> isolated c k (upd_frame (ProcFrame c) f k')"
  unfolding isolated_def upd_frame_procs by (simp add: nth_list_update_neq)

lemma trap_ok_ret:
  assumes "kernel_ok L c k'" "isolated c k k'"
  shows "trap_ok L c k (ret (ProcFrame c) v k')"
  using kernel_ok_frame [OF assms(1)] isolated_frame [OF assms(2)] by (simp add: trap_ok_def ret_def)

lemma trap_ok_resume:
  assumes "kernel_ok L c k'" "isolated c k k'"
  shows "trap_ok L c k (Inr (ProcFrame c, k'))"
  using assms by (simp add: trap_ok_def)

lemma trap_ok_schedule:
  assumes p: "parked L c k'" and iso: "isolated c k k'"
  shows "trap_ok L c k (schedule ws (ProcFrame c) k')"
proof (cases "schedule ws (ProcFrame c) k'")
  case (Inr y)
  obtain q k'' where y: "y = (q, k'')" by (cases y)
  have len: "length (procs k') = 64" "current k' = Some c" "c < 64"
    using p by (simp_all add: parked_def table_ok_def)
  obtain n where n: "scheduled (get_frame k' (ProcFrame c)) c k' n k''"
    using schedule_spec [OF len Inr [unfolded y]] by blast
  note s = n [unfolded scheduled_def]
  have "isolated c k' k''" using s by (auto simp: isolated_def)
  then have "isolated c k k''"
    by (rule isolated_trans [OF iso]) (use s in \<open>metis proc_state.distinct(1,3,5,7) insertE singletonD\<close>)
  then show ?thesis using schedule_ok [OF p Inr [unfolded y]] by (simp add: trap_ok_def Inr y)
qed simp

end
