(* ===== verification/User_Store.thy ===== *)
theory User_Store
  imports Isolation
begin

text \<open>
  Stores of the kernel into user memory (\<open>SYS_READ\<close>): after \<open>user_range_ok\<close> has accepted a
  buffer, every store that does not fault hits a user frame of the current process. \<open>written\<close>
  is what any number of such stores can do: only bytes of those frames change.
\<close>

section \<open>Writing user frames\<close>

definition user_frames :: "memory \<Rightarrow> u64 \<Rightarrow> u64 set" where
  "user_frames m r = {f. \<exists>i j k. tree m r [i, j, k] = Some f}"

definition written :: "layout \<Rightarrow> u64 set \<Rightarrow> u64 set \<Rightarrow> u64 \<Rightarrow> memory \<Rightarrow> memory \<Rightarrow> bool" where
  "written L R S r m m' \<longleftrightarrow> owned L m' R S \<and> used L m' = used L m \<and>
     (\<forall>r' \<in> R. \<forall>p. tree m' r' p = tree m r' p) \<and>
     (\<forall>r' \<in> R. \<forall>a b c. c < 512 \<longrightarrow> leaf_at m' r' a b c = leaf_at m r' a b c) \<and>
     same_except (user_frames m r) m m'"

lemma written_refl: "owned L m R S \<Longrightarrow> written L R S r m m"
  by (simp add: written_def)

lemma writtenD:
  assumes "written L R S r m m'"
  shows "owned L m' R S" "used L m' = used L m" "\<And>r' p. r' \<in> R \<Longrightarrow> tree m' r' p = tree m r' p"
    "\<And>r' a b c. r' \<in> R \<Longrightarrow> c < 512 \<Longrightarrow> leaf_at m' r' a b c = leaf_at m r' a b c"
    "same_except (user_frames m r) m m'"
  using assms by (auto simp: written_def)

lemma written_leaf: "written L R S r m m' \<Longrightarrow> r' \<in> R \<Longrightarrow> path_leaf m' r' va = path_leaf m r' va"
  using writtenD(4) VPN_less by (simp add: path_leaf_def)

lemma written_addr: "written L R S r m m' \<Longrightarrow> r' \<in> R \<Longrightarrow> user_addr m' r' va = user_addr m r' va"
  by (simp add: user_addr_def written_leaf)

lemma written_range_ok:
  assumes "written L R S r m m'" "owned L m R S" "r' \<in> R"
  shows "user_range_ok m' r' va len need = user_range_ok m r' va len need"
  unfolding user_range_ok_iff
  using user_page_ok_iff [OF owned_wf [OF assms(2)] assms(3)]
    user_page_ok_iff [OF owned_wf [OF writtenD(1) [OF assms(1)]] assms(3)] written_leaf [OF assms(1,3)] by simp

lemma written_step:
  assumes w: "written L R S r m m1" and r: "r \<in> R" and t: "tree m r [i, j, k] = Some (page_base a)"
  shows "written L R S r m (m1(a := b))"
proof -
  note wd = writtenD [OF w]
  have t1: "tree m1 r [i, j, k] = Some (page_base a)" using wd(3) [OF r] t by simp
  have se: "same_except {page_base a} m1 (m1(a := b))" by (auto simp: same_except_def)
  note u = user_write [OF wd(1) r t1 se]
  have "page_base a \<in> user_frames m r" using t by (auto simp: user_frames_def)
  then have "same_except (user_frames m r) m (m1(a := b))"
    using same_except_trans [OF wd(5) se] by simp
  then show ?thesis using u wd by (simp add: written_def)
qed

lemma untouched_written:
  assumes "owned L m R S" "written L R S r m m'" "r \<in> R" "r' \<in> R" "r' \<noteq> r"
  shows "untouched m m' r'"
  unfolding untouched_def
proof (intro conjI allI impI)
  show "tree m' r' p = tree m r' p" for p by (rule writtenD(3) [OF assms(2,4)])
  fix b assume "page_base b \<in> nodes m r'"
  then obtain p where "tree m r' p = Some (page_base b)" by (auto simp: nodes_def)
  then have "page_base b \<notin> user_frames m r"
    using wf_inj [OF owned_wf [OF assms(1)] assms(3,4)] assms(5) by (fastforce simp: user_frames_def)
  then show "m' b = m b" by (rule same_exceptD [OF writtenD(5) [OF assms(2)]])
qed

section \<open>A checked store\<close>

lemma store_checked:
  assumes wf: "wf_forest L m R" and r: "r \<in> R" and chk: "user_range_ok m r va len PTE_W"
    and low: "unat va + unat len \<le> 2 ^ 38" and i: "i < unat len"
  shows "tree m r (vpath (va + of_nat i)) = Some (page_base (user_addr m r (va + of_nat i)))"
    "user_store (MAKE_SATP r) (va + of_nat i) b m = Inr m' \<Longrightarrow> m' = m(user_addr m r (va + of_nat i) := b)"
proof -
  let ?a = "va + of_nat i"
  let ?e = "path_leaf m r ?a"
  have "user_page_ok m r PTE_W (page_base ?a)"
    using chk page_in_low_range [OF low i] unfolding user_range_ok_iff by blast
  then have e: "has ?e PTE_V" "has ?e PTE_U" "has ?e PTE_W"
    using user_page_ok_iff [OF wf r] by (simp_all add: has_flags bit_flags)
  have uf: "user_frame ?e = Some (PTE_TO_PA ?e)" using e by (simp add: user_frame_def is_leaf_def)
  have "page_base (user_addr m r ?a) = PTE_TO_PA ?e"
    unfolding user_addr_def by (rule page_base_add) simp_all
  moreover have "tree m r (vpath ?a) = user_frame ?e"
    unfolding path_leaf_def by (rule tree_leaf) simp_all
  ultimately show "tree m r (vpath ?a) = Some (page_base (user_addr m r ?a))" using uf by simp
  have "unat ?a = unat va + i" using low i by (intro unat_add_of_nat) simp
  then have a_low: "unat ?a < 2 ^ 38" using low i by simp
  assume st: "user_store (MAKE_SATP r) ?a b m = Inr m'"
  show "m' = m(user_addr m r ?a := b)"
  proof (cases "has ?e PTE_R")
    case True
    then have "translate m (MAKE_SATP r) Store ?a = Some (user_addr m r ?a)"
      using translate_leaf [OF wf r a_low e(1)] uf e(3) by simp
    then show ?thesis using st by (simp add: user_store_def)
  next
    case False
    then show ?thesis using translate_unreadable [OF wf r a_low e(1) _ e(3)] st by (simp add: user_store_def)
  qed
qed

text \<open>Different bytes of the buffer lie at different physical addresses.\<close>

lemma user_addr_inj:
  assumes wf: "wf_forest L m R" and r: "r \<in> R"
    and x: "unat x < 2 ^ 38" "tree m r (vpath x) = Some (page_base (user_addr m r x))"
    and y: "unat y < 2 ^ 38" "tree m r (vpath y) = Some (page_base (user_addr m r y))"
    and eq: "user_addr m r x = user_addr m r y"
  shows "x = y"
proof -
  have "tree m r (vpath y) = Some (page_base (user_addr m r x))" using y(2) eq by (simp only:)
  from wf_inj [OF wf r r x(2) this] have "vpath x = vpath y" by blast
  then have "vpath (page_base x) = vpath (page_base y)" by simp
  moreover have "unat (page_base x) < 2 ^ 39" "unat (page_base y) < 2 ^ 39"
    using x(1) y(1) div_times_less_eq_dividend [of "unat x" 4096] div_times_less_eq_dividend [of "unat y" 4096]
    by (simp_all add: unat_page_base)
  ultimately have base: "page_base x = page_base y" by (intro VPN_inj) simp_all
  have al: "page_aligned (page_base (user_addr m r z))" for z by simp
  have off: "user_addr m r z = page_base (user_addr m r z) + of_nat (unat z mod 4096)" for z
  proof -
    have "page_base (user_addr m r z) = PTE_TO_PA (path_leaf m r z)"
      unfolding user_addr_def by (rule page_base_add) simp_all
    then show ?thesis by (simp add: user_addr_def)
  qed
  have "(of_nat (unat x mod 4096) :: u64) = of_nat (unat y mod 4096)"
  proof -
    have "page_base (user_addr m r x) + of_nat (unat x mod 4096) = page_base (user_addr m r x) + of_nat (unat y mod 4096)"
      using off [of x] off [of y] eq by metis
    then show ?thesis by simp
  qed
  then have "unat (of_nat (unat x mod 4096) :: u64) = unat (of_nat (unat y mod 4096) :: u64)" by simp
  then have "unat x mod 4096 = unat y mod 4096" by (simp add: unat_of_nat)
  moreover have "unat x div 4096 * 4096 = unat y div 4096 * 4096" using arg_cong [OF base, of unat] by (simp add: unat_page_base)
  ultimately have "unat x = unat y" by (metis div_mult_mod_eq)
  then show ?thesis by (simp add: word_unat_eq_iff)
qed

section \<open>Copying into a buffer\<close>

text \<open>
  \<open>copied_out\<close>: the first \<open>i\<close> bytes of the buffer at \<open>dest\<close> have been written, with the bytes \<open>f\<close>,
  and no other byte.
\<close>

definition copied_out ::
  "layout \<Rightarrow> u64 set \<Rightarrow> u64 set \<Rightarrow> u64 \<Rightarrow> memory \<Rightarrow> u64 \<Rightarrow> (nat \<Rightarrow> u8) \<Rightarrow> nat \<Rightarrow> memory \<Rightarrow> bool" where
  "copied_out L R S r m dest f i m' \<longleftrightarrow> written L R S r m m' \<and>
     (\<forall>j < i. m' (user_addr m r (dest + of_nat j)) = f j) \<and>
     (\<forall>b. b \<notin> (\<lambda>j. user_addr m r (dest + of_nat j)) ` {..<i} \<longrightarrow> m' b = m b)"

lemma copied_out_0: "owned L m R S \<Longrightarrow> copied_out L R S r m dest f 0 m"
  by (simp add: copied_out_def written_refl)

lemma copied_outD:
  assumes "copied_out L R S r m dest f i m'"
  shows "written L R S r m m'" "\<And>j. j < i \<Longrightarrow> m' (user_addr m r (dest + of_nat j)) = f j"
    "\<And>b. (\<And>j. j < i \<Longrightarrow> b \<noteq> user_addr m r (dest + of_nat j)) \<Longrightarrow> m' b = m b"
  using assms by (auto simp: copied_out_def)

lemma copied_out_store:
  assumes o: "owned L m R S" and r: "r \<in> R" and chk: "user_range_ok m r dest len PTE_W"
    and low: "unat dest + unat len \<le> 2 ^ 38" and i: "i < unat len"
    and c: "copied_out L R S r m dest f i m1"
    and st: "user_store (MAKE_SATP r) (dest + of_nat i) b m1 = Inr m2"
  shows "copied_out L R S r m dest (f(i := b)) (Suc i) m2"
proof -
  note w = copied_outD(1) [OF c]
  let ?a = "\<lambda>j. user_addr m r (dest + of_nat j)"
  have chk1: "user_range_ok m1 r dest len PTE_W" using written_range_ok [OF w o r] chk by simp
  have m2: "m2 = m1(?a i := b)"
    using store_checked(2) [OF owned_wf [OF writtenD(1) [OF w]] r chk1 low i st] written_addr [OF w r] by simp
  have t: "tree m r (vpath (dest + of_nat j)) = Some (page_base (?a j))" if "j < unat len" for j
    by (rule store_checked(1) [OF owned_wf [OF o] r chk low that])
  have un: "unat (dest + of_nat j) = unat dest + j" if "j < unat len" for j
    using low that by (intro unat_add_of_nat) simp
  have ne: "?a j \<noteq> ?a i" if j: "j < i" for j
  proof
    assume "?a j = ?a i"
    moreover have jl: "j < unat len" using i j by linarith
    have "unat (dest + of_nat j) < 2 ^ 38" "unat (dest + of_nat i) < 2 ^ 38"
      unfolding un [OF jl] un [OF i] using low i jl by linarith+
    ultimately have "dest + of_nat j = dest + of_nat i"
      using user_addr_inj [OF owned_wf [OF o] r _ t [OF jl] _ t [OF i]] by blast
    then have "unat (dest + of_nat j) = unat (dest + of_nat i)" by simp
    then show False using un [of j] un [of i] i j by simp
  qed
  show ?thesis
    unfolding copied_out_def m2
  proof (intro conjI allI impI)
    show "written L R S r m (m1(?a i := b))" by (rule written_step [OF w r t [OF i]])
    fix j assume "j < Suc i"
    then show "(m1(?a i := b)) (?a j) = (f(i := b)) j" using ne copied_outD(2) [OF c] by (cases "j = i") auto
  next
    fix x assume "x \<notin> ?a ` {..<Suc i}"
    then show "(m1(?a i := b)) x = m x" using copied_outD(3) [OF c, of x] by (auto simp: lessThan_Suc)
  qed
qed

lemma copy_to_user_out:
  assumes o: "owned L (mem k) R S" and r: "r \<in> R" "satp k = MAKE_SATP r"
    and chk: "user_range_ok (mem k) r dest len PTE_W"
    and low: "unat dest + unat len \<le> 2 ^ 38" and n: "n \<le> unat len"
    and run: "copy_to_user dest src n k = Inr k'"
  shows "\<exists>m f. k' = k\<lparr>mem := m\<rparr> \<and> copied_out L R S r (mem k) dest f n m \<and>
    ((\<forall>j < n. page_base (src + of_nat j) \<notin> user_frames (mem k) r) \<longrightarrow> (\<forall>j < n. f j = mem k (src + of_nat j)))"
proof -
  let ?I = "\<lambda>ys k'. \<exists>m f. k' = k\<lparr>mem := m\<rparr> \<and> copied_out L R S r (mem k) dest f (length ys) m \<and>
    ((\<forall>j < n. page_base (src + of_nat j) \<notin> user_frames (mem k) r) \<longrightarrow> (\<forall>j < length ys. f j = mem k (src + of_nat j)))"
  have "case copy_to_user dest src n k of Inl _ \<Rightarrow> True | Inr k' \<Rightarrow> ?I [0..<n] k'"
    unfolding copy_to_user_def
  proof (rule for_each_rule [where I = ?I])
    show "?I [] k" using copied_out_0 [OF o] by (intro exI [of _ "mem k"]) simp
  next
    fix ys i zs s s'
    assume xs: "[0..<n] = ys @ i # zs" and I: "?I ys s"
      and b: "bind_stop (user_store (satp s) (dest + of_nat i) (mem s (src + of_nat i)) (mem s)) (\<lambda>m. Inr (s\<lparr>mem := m\<rparr>)) = Inr s'"
    have "[0..<n] ! length ys = i" "length ys < length [0..<n]" unfolding xs by simp_all
    then have i: "i = length ys" "i < n" by simp_all
    obtain m f where s: "s = k\<lparr>mem := m\<rparr>" and c: "copied_out L R S r (mem k) dest f i m"
      and f: "(\<forall>j < n. page_base (src + of_nat j) \<notin> user_frames (mem k) r) \<longrightarrow> (\<forall>j < i. f j = mem k (src + of_nat j))"
      using I i(1) by blast
    obtain m2 where m2: "user_store (MAKE_SATP r) (dest + of_nat i) (m (src + of_nat i)) m = Inr m2" "s' = k\<lparr>mem := m2\<rparr>"
      using b s r(2) by (auto simp: bind_stop_Inr_iff)
    have c': "copied_out L R S r (mem k) dest (f(i := m (src + of_nat i))) (Suc i) m2"
      by (rule copied_out_store [OF o r(1) chk low _ c m2(1)]) (use i n in simp)
    have "m (src + of_nat i) = mem k (src + of_nat i)" if "\<forall>j < n. page_base (src + of_nat j) \<notin> user_frames (mem k) r"
      by (rule same_exceptD [OF writtenD(5) [OF copied_outD(1) [OF c]]]) (use that i in simp)
    then have "\<forall>j < Suc i. (f(i := m (src + of_nat i))) j = mem k (src + of_nat j)"
      if "\<forall>j < n. page_base (src + of_nat j) \<notin> user_frames (mem k) r"
      using f that by (auto simp: less_Suc_eq)
    then show "?I (ys @ [i]) s'" using m2(2) c' i(1) by (intro exI [of _ m2] exI [of _ "f(i := m (src + of_nat i))"]) simp
  qed simp
  then show ?thesis using run by simp
qed

section \<open>A console line\<close>

lemma load_checked:
  assumes wf: "wf_forest L m R" and r: "r \<in> R" and chk: "user_range_ok m r va len PTE_W"
    and low: "unat va + unat len \<le> 2 ^ 38" and i: "i < unat len"
    and ld: "user_load m (MAKE_SATP r) (va + of_nat i) = Inr x"
  shows "x = m (user_addr m r (va + of_nat i))"
proof -
  let ?a = "va + of_nat i"
  let ?e = "path_leaf m r ?a"
  have "user_page_ok m r PTE_W (page_base ?a)"
    using chk page_in_low_range [OF low i] unfolding user_range_ok_iff by blast
  then have e: "has ?e PTE_V" "has ?e PTE_U" "has ?e PTE_W"
    using user_page_ok_iff [OF wf r] by (simp_all add: has_flags bit_flags)
  have uf: "user_frame ?e \<noteq> None" using e by (simp add: user_frame_def is_leaf_def)
  have "unat ?a = unat va + i" using low i by (intro unat_add_of_nat) simp
  then have a_low: "unat ?a < 2 ^ 38" using low i by simp
  show ?thesis
  proof (cases "has ?e PTE_R")
    case True
    then show ?thesis using translate_leaf [OF wf r a_low e(1) uf True, of Load] ld by (simp add: user_load_def)
  next
    case False
    then show ?thesis using translate_unreadable [OF wf r a_low e(1) _ e(3)] ld by (simp add: user_load_def)
  qed
qed

lemma copied_out_cong: "copied_out L R S r m dest f i m' \<Longrightarrow> (\<And>j. j < i \<Longrightarrow> f j = g j) \<Longrightarrow> copied_out L R S r m dest g i m'"
  by (simp add: copied_out_def)

lemma console_more_spec:
  assumes o: "owned L m0 R S" and r: "r \<in> R" and chk: "user_range_ok m0 r buf len PTE_W"
    and low: "unat buf + unat len \<le> 2 ^ 38" and len: "unat len < 2 ^ 32"
  shows "console_more buf left n k1 = Inr (n', k') \<Longrightarrow> copied_out L R S r m0 buf f (unat n) (mem k1) \<Longrightarrow>
    1 \<le> unat n \<Longrightarrow> unat n + left \<le> unat len \<Longrightarrow> satp k1 = MAKE_SATP r \<Longrightarrow>
    \<exists>m u f'. k' = k1\<lparr>rx := u, mem := m\<rparr> \<and> unat n \<le> unat n' \<and> unat n' \<le> unat n + left \<and>
      copied_out L R S r m0 buf f' (unat n') m \<and> (\<forall>j < unat n. f' j = f j) \<and>
      (uart_ok (rx k1) \<longrightarrow>
         (let bs = map f' [unat n..<unat n'] in
          bs = (if f (unat n - 1) = newline then [] else first_line left (finished (rx k1))) \<and>
          finished (rx k1) = bs @ finished u \<and> uart_ok u))"
proof (induction left arbitrary: n k1 f)
  case 0
  then show ?case by (intro exI [of _ "mem k1"] exI [of _ "rx k1"] exI [of _ f]) simp
next
  case (Suc left)
  note run = Suc.prems(1) and c = Suc.prems(2) and n1 = Suc.prems(3) and nl = Suc.prems(4) and sat = Suc.prems(5)
  note w = copied_outD(1) [OF c]
  have n_len: "unat n < unat len" using nl by simp
  have un: "(ucast (n - 1) :: u64) = of_nat (unat n - 1)" "(ucast n :: u64) = of_nat (unat n)"
  proof -
    have "unat (n - 1) = unat n - 1" using n1 by (simp add: unat_sub_if_size)
    then show "(ucast (n - 1) :: u64) = of_nat (unat n - 1)" by (metis of_nat_unat)
  qed (simp add: of_nat_unat)
  have Sn: "unat (n + 1) = Suc (unat n)" using n_len len by (simp add: unat_word_ariths)
  obtain x where x: "user_load (mem k1) (satp k1) (buf + ucast (n - 1)) = Inr x"
    using run by (auto simp: bind_stop_Inr_iff)
  have "x = mem k1 (user_addr (mem k1) r (buf + of_nat (unat n - 1)))"
    by (rule load_checked [OF owned_wf [OF writtenD(1) [OF w]] r _ low])
      (use x sat un(1) written_range_ok [OF w o r] chk n_len in simp_all)
  then have last: "x = f (unat n - 1)"
    using written_addr [OF w r] copied_outD(2) [OF c, of "unat n - 1"] n1 by simp
  show ?case
  proof (cases "x = newline")
    case True
    then have "n' = n" "k' = k1" using run x by simp_all
    then show ?thesis using True last c by (intro exI [of _ "mem k1"] exI [of _ "rx k1"] exI [of _ f]) simp
  next
    case False
    obtain ch u where g: "uart_getc (rx k1) = (ch, u)" by fastforce
    show ?thesis
    proof (cases "ch = -1")
      case True
      then have e: "n' = n" "k' = k1\<lparr>rx := u\<rparr>" using run x False g by simp_all
      have "finished (rx k1) = [] \<and> u = rx k1" if ok: "uart_ok (rx k1)"
      proof (cases "finished (rx k1)")
        case Nil
        then show ?thesis using uart_getc_refines(1) [OF ok Nil] g by simp
      next
        case (Cons b q)
        have "uint b \<noteq> -1" using uint_ge_0 [of b] by linarith
        then show ?thesis using uart_getc_refines(2) [OF ok Cons] g True by auto
      qed
      then show ?thesis using e c by (intro exI [of _ "mem k1"] exI [of _ u] exI [of _ f]) auto
    next
      case ch: False
      obtain m where st: "user_store (satp k1) (buf + ucast n) (of_int ch) (mem k1) = Inr m"
        and rest: "console_more buf left (n + 1) (k1\<lparr>rx := u, mem := m\<rparr>) = Inr (n', k')"
        using run x False g ch by (auto simp: bind_stop_Inr_iff)
      define h where "h = f(unat n := of_int ch)"
      have h: "h (unat n) = of_int ch" "\<And>j. j < unat n \<Longrightarrow> h j = f j" by (simp_all add: h_def)
      have c': "copied_out L R S r m0 buf h (unat (n + 1)) m"
        unfolding Sn h_def by (rule copied_out_store [OF o r chk low n_len c st [unfolded un(2) sat]])
      obtain m' u' f' where IH: "k' = k1\<lparr>rx := u', mem := m'\<rparr>" "Suc (unat n) \<le> unat n'" "unat n' \<le> Suc (unat n) + left"
        "copied_out L R S r m0 buf f' (unat n') m'" "\<forall>j < Suc (unat n). f' j = h j"
        "uart_ok u \<longrightarrow> map f' [Suc (unat n)..<unat n'] =
           (if (of_int ch :: u8) = newline then [] else first_line left (finished u)) \<and>
           finished u = map f' [Suc (unat n)..<unat n'] @ finished u' \<and> uart_ok u'"
        using Suc.IH [OF rest, of h] c' sat nl Sn h(1) by (auto simp: Let_def cong: if_cong)
      have "f' j = f j" if "j < unat n" for j using IH(5) that h(2) by simp
      moreover have bs: "map f' [unat n..<unat n'] = of_int ch # map f' [Suc (unat n)..<unat n']"
        using IH(2,5) h(1) by (simp add: upt_conv_Cons)
      moreover have "map f' [unat n..<unat n'] = first_line (Suc left) (finished (rx k1)) \<and>
          finished (rx k1) = map f' [unat n..<unat n'] @ finished u' \<and> uart_ok u'" if ok: "uart_ok (rx k1)"
      proof (cases "finished (rx k1)")
        case Nil
        then show ?thesis using uart_getc_refines(1) [OF ok Nil] g ch by simp
      next
        case (Cons b q)
        have b: "ch = uint b" "uart_ok u" "finished u = q" using uart_getc_refines(2) [OF ok Cons] g by auto
        have ob: "(of_int ch :: u8) = b" using b(1) by simp
        have "map f' [Suc (unat n)..<unat n'] = (if b = newline then [] else first_line left q)"
          "q = map f' [Suc (unat n)..<unat n'] @ finished u'" "uart_ok u'"
          using mp [OF IH(6) b(2), unfolded b(3) ob] by blast+
        then show ?thesis unfolding bs ob Cons by simp
      qed
      ultimately show ?thesis using IH(1-4) False last
        by (intro exI [of _ m'] exI [of _ u'] exI [of _ f']) (auto simp: Let_def)
    qed
  qed
qed

section \<open>Accesses that cannot fault\<close>

text \<open>An address space without write-only pages, which the hardware would refuse.\<close>

definition readable :: "memory \<Rightarrow> u64 \<Rightarrow> bool" where
  "readable m r \<longleftrightarrow> (\<forall>va. has (path_leaf m r va) PTE_W \<longrightarrow> has (path_leaf m r va) PTE_R)"

lemma written_readable: "written L R S r m m' \<Longrightarrow> r \<in> R \<Longrightarrow> readable m' r = readable m r"
  by (simp add: readable_def written_leaf)

lemma access_total:
  assumes wf: "wf_forest L m R" and r: "r \<in> R" and chk: "user_range_ok m r va len PTE_W"
    and low: "unat va + unat len \<le> 2 ^ 38" and i: "i < unat len" and rd: "readable m r"
  shows "user_store (MAKE_SATP r) (va + of_nat i) b m = Inr (m(user_addr m r (va + of_nat i) := b))"
    "user_load m (MAKE_SATP r) (va + of_nat i) = Inr (m (user_addr m r (va + of_nat i)))"
proof -
  let ?a = "va + of_nat i"
  let ?e = "path_leaf m r ?a"
  have "user_page_ok m r PTE_W (page_base ?a)"
    using chk page_in_low_range [OF low i] unfolding user_range_ok_iff by blast
  then have e: "has ?e PTE_V" "has ?e PTE_U" "has ?e PTE_W"
    using user_page_ok_iff [OF wf r] by (simp_all add: has_flags bit_flags)
  then have e3: "has ?e PTE_R" using rd by (simp add: readable_def)
  have uf: "user_frame ?e \<noteq> None" using e by (simp add: user_frame_def is_leaf_def)
  have "unat ?a = unat va + i" using low i by (intro unat_add_of_nat) simp
  then have a_low: "unat ?a < 2 ^ 38" using low i by simp
  have "translate m (MAKE_SATP r) acc ?a = Some (user_addr m r ?a)" for acc
    using translate_leaf [OF wf r a_low e(1) uf e3, of acc] e(3) e3 by (cases acc) simp_all
  then show "user_store (MAKE_SATP r) ?a b m = Inr (m(user_addr m r ?a := b))"
    "user_load m (MAKE_SATP r) ?a = Inr (m (user_addr m r ?a))"
    by (simp_all add: user_store_def user_load_def)
qed

text \<open>The same after part of the buffer has been written.\<close>

lemma access_written:
  assumes o: "owned L m0 R S" and r: "r \<in> R" and chk: "user_range_ok m0 r buf len PTE_W"
    and low: "unat buf + unat len \<le> 2 ^ 38" and i: "i < unat len" and rd: "readable m0 r"
    and w: "written L R S r m0 m"
  shows "\<exists>m'. user_store (MAKE_SATP r) (buf + of_nat i) b m = Inr m'"
    "user_load m (MAKE_SATP r) (buf + of_nat i) = Inr (m (user_addr m0 r (buf + of_nat i)))"
proof -
  note wf = owned_wf [OF writtenD(1) [OF w]]
  have chk1: "user_range_ok m r buf len PTE_W" "readable m r"
    using written_range_ok [OF w o r] chk written_readable [OF w r] rd by simp_all
  note a = access_total [OF wf r chk1(1) low i chk1(2)]
  show "\<exists>m'. user_store (MAKE_SATP r) (buf + of_nat i) b m = Inr m'" using a(1) by blast
  show "user_load m (MAKE_SATP r) (buf + of_nat i) = Inr (m (user_addr m0 r (buf + of_nat i)))"
    using a(2) written_addr [OF w r] by simp
qed

lemma copy_to_user_returns:
  assumes o: "owned L (mem k) R S" and r: "r \<in> R" "satp k = MAKE_SATP r"
    and chk: "user_range_ok (mem k) r dest len PTE_W"
    and low: "unat dest + unat len \<le> 2 ^ 38" and n: "n \<le> unat len" and rd: "readable (mem k) r"
  shows "\<exists>k'. copy_to_user dest src n k = Inr k'"
proof -
  let ?I = "\<lambda>ys k'. \<exists>m f. k' = k\<lparr>mem := m\<rparr> \<and> copied_out L R S r (mem k) dest f (length ys) m"
  have "case copy_to_user dest src n k of Inl _ \<Rightarrow> False | Inr k' \<Rightarrow> ?I [0..<n] k'"
    unfolding copy_to_user_def
  proof (rule for_each_rule [where I = ?I])
    show "?I [] k" using copied_out_0 [OF o] by (intro exI [of _ "mem k"]) simp
  next
    fix ys i zs s x
    assume xs: "[0..<n] = ys @ i # zs" and I: "?I ys s"
      and b: "bind_stop (user_store (satp s) (dest + of_nat i) (mem s (src + of_nat i)) (mem s)) (\<lambda>m. Inr (s\<lparr>mem := m\<rparr>)) = Inl x"
    have "[0..<n] ! length ys = i" "length ys < length [0..<n]" unfolding xs by simp_all
    then have i: "i < unat len" using n by simp
    obtain m f where s: "s = k\<lparr>mem := m\<rparr>" and c: "copied_out L R S r (mem k) dest f (length ys) m" using I by blast
    show False
      using access_written(1) [OF o r(1) chk low i rd copied_outD(1) [OF c], of "m (src + of_nat i)"] b s r(2) by auto
  next
    fix ys i zs s s'
    assume xs: "[0..<n] = ys @ i # zs" and I: "?I ys s"
      and b: "bind_stop (user_store (satp s) (dest + of_nat i) (mem s (src + of_nat i)) (mem s)) (\<lambda>m. Inr (s\<lparr>mem := m\<rparr>)) = Inr s'"
    have "[0..<n] ! length ys = i" "length ys < length [0..<n]" unfolding xs by simp_all
    then have i: "i = length ys" "i < n" by simp_all
    obtain m f where s: "s = k\<lparr>mem := m\<rparr>" and c: "copied_out L R S r (mem k) dest f i m" using I i(1) by blast
    obtain m2 where m2: "user_store (MAKE_SATP r) (dest + of_nat i) (m (src + of_nat i)) m = Inr m2" "s' = k\<lparr>mem := m2\<rparr>"
      using b s r(2) by (auto simp: bind_stop_Inr_iff)
    have "copied_out L R S r (mem k) dest (f(i := m (src + of_nat i))) (Suc i) m2"
      by (rule copied_out_store [OF o r(1) chk low _ c m2(1)]) (use i n in simp)
    then show "?I (ys @ [i]) s'" using m2(2) i(1) by (intro exI [of _ m2] exI [of _ "f(i := m (src + of_nat i))"]) simp
  qed
  then show ?thesis by (auto split: sum.splits)
qed

lemma console_more_returns:
  assumes o: "owned L m0 R S" and r: "r \<in> R" and chk: "user_range_ok m0 r buf len PTE_W"
    and low: "unat buf + unat len \<le> 2 ^ 38" and len: "unat len < 2 ^ 32" and rd: "readable m0 r"
  shows "copied_out L R S r m0 buf f (unat n) (mem k1) \<Longrightarrow> 1 \<le> unat n \<Longrightarrow> unat n + left \<le> unat len \<Longrightarrow>
    satp k1 = MAKE_SATP r \<Longrightarrow> \<exists>y. console_more buf left n k1 = Inr y"
proof (induction left arbitrary: n k1 f)
  case (Suc left)
  note c = Suc.prems(1) and n1 = Suc.prems(2) and nl = Suc.prems(3) and sat = Suc.prems(4)
  note w = copied_outD(1) [OF c]
  have n_len: "unat n < unat len" using nl by simp
  have un: "(ucast (n - 1) :: u64) = of_nat (unat n - 1)" "(ucast n :: u64) = of_nat (unat n)"
  proof -
    have "unat (n - 1) = unat n - 1" using n1 by (simp add: unat_sub_if_size)
    then show "(ucast (n - 1) :: u64) = of_nat (unat n - 1)" by (metis of_nat_unat)
  qed (simp add: of_nat_unat)
  have Sn: "unat (n + 1) = Suc (unat n)" using n_len len by (simp add: unat_word_ariths)
  have "unat n - 1 < unat len" using n_len by linarith
  then have ld: "user_load (mem k1) (satp k1) (buf + ucast (n - 1)) = Inr (mem k1 (user_addr m0 r (buf + of_nat (unat n - 1))))"
    unfolding un sat by (rule access_written(2) [OF o r chk low _ rd w])
  obtain ch u where g: "uart_getc (rx k1) = (ch, u)" by fastforce
  obtain m where st: "user_store (MAKE_SATP r) (buf + of_nat (unat n)) (of_int ch) (mem k1) = Inr m"
    using access_written(1) [OF o r chk low n_len rd w] by blast
  then have st': "user_store (satp k1) (buf + ucast n) (of_int ch) (mem k1) = Inr m" unfolding sat un(2) .
  have c': "copied_out L R S r m0 buf (f(unat n := of_int ch)) (unat (n + 1)) (mem (k1\<lparr>rx := u, mem := m\<rparr>))"
    unfolding Sn using copied_out_store [OF o r chk low n_len c st] by simp
  have "\<exists>y. console_more buf left (n + 1) (k1\<lparr>rx := u, mem := m\<rparr>) = Inr y"
    by (rule Suc.IH [OF c']) (use Sn nl sat in simp_all)
  then show ?case using ld g st' by auto
qed simp

end
