(* ===== verification/User_Guard.thy ===== *)
theory User_Guard
  imports User_Store
begin

text \<open>
  Stores into a buffer anywhere in the address space. \<open>user_range_ok\<close> computes the end of the
  buffer modulo \<open>2 ^ 64\<close>, so a buffer in the last pages passes without any check; it is shown here
  that the stores of \<open>SYS_READ\<close> nevertheless only reach user frames of the caller before one of
  them faults: the supervisor's pages lie far from both ends of the address space (\<open>guarded\<close>),
  and RAM has too few frames to map everything below them.
\<close>

section \<open>What the hardware walk finds\<close>

lemma hw_walk_down:
  assumes wf: "wf_forest L m R" and r: "r \<in> R" and t: "tree m r q = Some t" "length q < 2"
    and w: "hw_walk m acc va t (Suc level) = Some pa"
  obtains t' where "tree m r (q @ [VPN va (Suc level)]) = Some t'" "hw_walk m acc va t' level = Some pa"
proof -
  let ?e = "load64 m (slot t (VPN va (Suc level)))"
  have v: "has ?e PTE_V" using w by (auto simp: Let_def split: if_splits)
  have "\<not> is_leaf ?e" by (rule wf_inner [OF wf r t VPN_less v])
  then have "child m (2 - length q) t (VPN va (Suc level)) = Some (PTE_TO_PA ?e)"
    using v t(2) by (simp add: child_def)
  then have c: "tree m r (q @ [VPN va (Suc level)]) = Some (PTE_TO_PA ?e)"
    using tree_snoc [OF t(1) less_imp_le [OF t(2)] VPN_less] by simp
  show thesis using that [OF c] w hw_walk_inner [OF wf r t c] by simp
qed

lemma translate_hit:
  assumes wf: "wf_forest L m R" and r: "r \<in> R" and tr: "translate m (MAKE_SATP r) acc va = Some pa"
  shows "has (path_leaf m r va) PTE_V" "allows acc (path_leaf m r va)"
    "user_frame (path_leaf m r va) \<noteq> None \<Longrightarrow> pa = user_addr m r va"
proof -
  have rt: "tree m r [] = Some r" by simp
  have "page_aligned r" "r \<in> ram_frames" using wf_page [OF wf r rt] wf_used [OF wf r rt] used_subset by auto
  then have root: "satp_root (MAKE_SATP r) = r" by (intro satp_root_MAKE frame_small)
  have w2: "hw_walk m acc va r (Suc 1) = Some pa"
    using tr unfolding translate_def root by (simp add: numeral_2_eq_2 split: if_splits)
  obtain t1 where t1: "tree m r ([] @ [VPN va (Suc 1)]) = Some t1" "hw_walk m acc va t1 1 = Some pa"
    by (rule hw_walk_down [OF wf r rt _ w2]) simp_all
  obtain t where t: "tree m r ([VPN va (Suc 1)] @ [VPN va (Suc 0)]) = Some t" "hw_walk m acc va t 0 = Some pa"
    using hw_walk_down [OF wf r, of "[VPN va (Suc 1)]" t1 acc va 0 pa] t1 by auto
  let ?e = "load64 m (slot t (VPN va 0))"
  have leaf: "path_leaf m r va = ?e" using t(1) by (simp add: path_leaf_def leaf_at_def numeral_2_eq_2)
  have e: "has ?e PTE_V" "hw_leaf acc va ?e 0 = Some pa" using t(2) by (auto simp: Let_def split: if_splits)
  then show "has (path_leaf m r va) PTE_V" "allows acc (path_leaf m r va)"
    unfolding leaf by (auto simp: hw_leaf_def split: if_splits)
  assume "user_frame (path_leaf m r va) \<noteq> None"
  then have "user_frame (path_leaf m r va) = Some (PTE_TO_PA ?e)" using leaf by (auto simp: user_frame_def split: if_splits)
  moreover have "tree m r (vpath va) = user_frame (path_leaf m r va)"
    unfolding path_leaf_def by (rule tree_leaf) simp_all
  ultimately have "PTE_TO_PA ?e \<in> ram_frames" using wf_used [OF wf r] used_subset by (metis subsetD)
  then have page: "hw_page ?e = PTE_TO_PA ?e" "page_aligned (PTE_TO_PA ?e)"
    using hw_page_eq [OF frame_small] frame_aligned by blast+
  then show "pa = user_addr m r va"
    using e(2) or_page_offset [OF page(2), of va] by (auto simp: hw_leaf_def user_addr_def leaf split: if_splits)
qed

section \<open>Too few frames\<close>

lemma card_ram_frames: "card ram_frames \<le> TOTAL_PAGES"
  unfolding ram_frames_def using card_image_le [of "{i. i < TOTAL_PAGES}" pmm_translator] by simp

text \<open>Not every page below the PLIC window can be mapped to a frame of its own.\<close>

lemma pages_run_out:
  assumes wf: "wf_forest L m R" and r: "r \<in> R"
  shows "\<exists>p < 0xC000. tree m r (vpath (of_nat (4096 * p))) = None"
proof (rule ccontr)
  assume "\<not> ?thesis"
  then have all: "tree m r (vpath (of_nat (4096 * p))) \<noteq> None" if "p < 0xC000" for p using that by auto
  define f where "f p = the (tree m r (vpath (of_nat (4096 * p))))" for p :: nat
  have f: "tree m r (vpath (of_nat (4096 * p))) = Some (f p)" if "p < 0xC000" for p
    using all [OF that] by (auto simp: f_def)
  have un: "unat (of_nat (4096 * p) :: u64) = 4096 * p" if "p < 0xC000" for p
    using that by (intro unat_of_nat_u64) simp
  have "inj_on f {..<0xC000}"
  proof (rule inj_onI)
    fix p q :: nat assume "p \<in> {..<0xC000}" "q \<in> {..<0xC000}" and eq: "f p = f q"
    then have p: "p < 0xC000" "q < 0xC000" by simp_all
    have "tree m r (vpath (of_nat (4096 * q))) = Some (f p)" using f [OF p(2)] eq by simp
    from wf_inj [OF wf r r f [OF p(1)] this] have "vpath (of_nat (4096 * p)) = vpath (of_nat (4096 * q))" by blast
    moreover have "page_aligned (of_nat (4096 * x) :: u64)" if "x < 0xC000" for x
      unfolding page_aligned_unat un [OF that] by simp
    ultimately have "(of_nat (4096 * p) :: u64) = of_nat (4096 * q)"
      using p un [OF p(1)] un [OF p(2)] by (intro VPN_inj) simp_all
    then have "4096 * p = 4096 * q" using un [OF p(1)] un [OF p(2)] by metis
    then show "p = q" by simp
  qed
  moreover have "f ` {..<0xC000} \<subseteq> ram_frames" using wf_used [OF wf r f] used_subset by auto
  ultimately have "card {..<0xC000 :: nat} \<le> card ram_frames" by (rule card_inj_on_le) simp
  then show False using card_ram_frames by simp
qed

section \<open>Every access hits a user frame\<close>

text \<open>The page of an address past the wrap, or before it, is a user page if it is mapped at all.\<close>

lemma wrapped_user_page:
  assumes wf: "wf_forest L m R" and r: "r \<in> R" and g: "guarded m r" and i: "i < n" "n < 2 ^ 32"
    and wrap: "18446744073709551616 \<le> unat va + n + 4095"
    and before: "\<And>j. j < i \<Longrightarrow> tree m r (vpath (va + of_nat j)) \<noteq> None"
    and v: "has (path_leaf m r (va + of_nat i)) PTE_V"
  shows "has (path_leaf m r (va + of_nat i)) PTE_U"
proof (rule ccontr)
  let ?a = "va + of_nat i :: u64"
  assume "\<not> has (path_leaf m r ?a) PTE_U"
  then have k: "0xC000 \<le> page_number (VPN ?a 2) (VPN ?a 1) (VPN ?a 0)" "VPN ?a 2 < 256"
    using g [unfolded guarded_def, rule_format, OF VPN_less VPN_less VPN_less, of "?a" 2 "?a" 1 "?a" 0] v
    unfolding path_leaf_def by blast+
  have a: "unat ?a = (unat va + i) mod 18446744073709551616"
    using i by (simp add: unat_word_ariths unat_of_nat)
  show False
  proof (cases "unat va + i < 18446744073709551616")
    case True
    then have u: "unat ?a = unat va + i" unfolding a by simp
    define q where "q = unat ?a div 1073741824"
    have "17179869179 * 1073741824 \<le> unat ?a" "unat ?a < 17179869184 * 1073741824"
      using True wrap i(1) i(2) [simplified] unfolding u by linarith+
    then have "17179869179 \<le> q" "q < 17179869184"
      unfolding q_def by (simp_all only: less_eq_div_iff_mult_less_eq div_less_iff_less_mult zero_less_numeral)
    then have q: "q = 33554431 * 512 + (q - 17179868672)" "q - 17179868672 < 512" "256 \<le> q - 17179868672" by simp_all
    have "q mod 512 = q - 17179868672" using q(1,2) by (metis mod_less mod_mult_self3)
    then have "256 \<le> VPN ?a 2" using q(3) by (simp add: VPN_unat q_def)
    then show False using k(2) by simp
  next
    case False
    have lt: "unat va < 18446744073709551616" using unsigned_less [of va] by simp
    then have u: "unat ?a = unat va + i - 18446744073709551616"
      unfolding a using False i by (subst le_mod_geq) simp_all
    then have "unat ?a < 2 ^ 39" using lt i by simp
    then have "0xC000 \<le> unat ?a div 4096" using k(1) page_number_VPN by simp
    then have big: "0xC000 * 4096 \<le> unat ?a" by (simp add: less_eq_div_iff_mult_less_eq)
    obtain p where p: "p < 0xC000" "tree m r (vpath (of_nat (4096 * p))) = None"
      using pages_run_out [OF wf r] by blast
    define j where "j = 18446744073709551616 - unat va + 4096 * p"
    have "j < i" using big p(1) lt False unfolding u j_def by linarith
    moreover have "va + of_nat j = of_nat (4096 * p)"
    proof -
      have "va + of_nat j = of_nat (unat va + j)" by simp
      also have "unat va + j = 18446744073709551616 + 4096 * p" using lt unfolding j_def by simp
      also have "(of_nat (18446744073709551616 + 4096 * p) :: u64) = of_nat (4096 * p)" by simp
      finally show ?thesis .
    qed
    ultimately show False using before [of j] p(2) by metis
  qed
qed

lemma guarded_access:
  assumes wf: "wf_forest L m R" and r: "r \<in> R" and g: "guarded m r"
    and chk: "user_range_ok m r va len need" and len: "unat len < 2 ^ 32" and i: "i < unat len"
    and before: "\<And>j. j < i \<Longrightarrow> tree m r (vpath (va + of_nat j)) \<noteq> None"
    and tr: "translate m (MAKE_SATP r) acc (va + of_nat i) = Some pa"
  shows "tree m r (vpath (va + of_nat i)) = Some (page_base pa)"
proof -
  let ?a = "va + of_nat i"
  let ?e = "path_leaf m r ?a"
  note h = translate_hit [OF wf r tr]
  have u: "has ?e PTE_U"
  proof (cases "unat va + unat len + 4095 < 18446744073709551616")
    case True
    then have "user_page_ok m r need (page_base ?a)"
      using chk page_in_range [OF True i] unfolding user_range_ok_iff by blast
    then show ?thesis using user_page_ok_iff [OF wf r] by simp
  next
    case False
    then show ?thesis using wrapped_user_page [OF wf r g i len _ before h(1)] by simp
  qed
  have "is_leaf ?e" using h(2) by (cases acc) (simp_all add: is_leaf_def)
  then have uf: "user_frame ?e = Some (PTE_TO_PA ?e)" using h(1) u by (simp add: user_frame_def)
  then have pa: "pa = user_addr m r ?a" using h(3) by simp
  have "page_base (user_addr m r ?a) = PTE_TO_PA ?e"
    unfolding user_addr_def by (rule page_base_add) simp_all
  moreover have "tree m r (vpath ?a) = user_frame ?e"
    unfolding path_leaf_def by (rule tree_leaf) simp_all
  ultimately show ?thesis using uf pa by simp
qed

section \<open>Sequences of stores\<close>

text \<open>The first \<open>i\<close> bytes of a buffer were stored, into user frames.\<close>

definition reached :: "layout \<Rightarrow> u64 set \<Rightarrow> u64 set \<Rightarrow> u64 \<Rightarrow> memory \<Rightarrow> u64 \<Rightarrow> nat \<Rightarrow> memory \<Rightarrow> bool" where
  "reached L R S r m dest i m' \<longleftrightarrow> written L R S r m m' \<and> (\<forall>j < i. tree m r (vpath (dest + of_nat j)) \<noteq> None)"

lemma reached_0: "owned L m R S \<Longrightarrow> reached L R S r m dest 0 m"
  by (simp add: reached_def written_refl)

lemma reached_written: "reached L R S r m dest i m' \<Longrightarrow> written L R S r m m'"
  by (simp add: reached_def)

lemma reached_store:
  assumes o: "owned L m R S" and r: "r \<in> R" and g: "guarded m r" and chk: "user_range_ok m r dest len need"
    and len: "unat len < 2 ^ 32" and i: "i < unat len" and c: "reached L R S r m dest i m1"
    and st: "user_store (MAKE_SATP r) (dest + of_nat i) b m1 = Inr m2"
  shows "reached L R S r m dest (Suc i) m2"
proof -
  note w = reached_written [OF c]
  note wd = writtenD [OF w]
  have t: "tree m1 r p = tree m r p" for p by (rule wd(3) [OF r])
  have before: "tree m1 r (vpath (dest + of_nat j)) \<noteq> None" if "j < i" for j
    using c that t by (simp add: reached_def)
  have g1: "guarded m1 r" by (rule guarded_leaves [OF g]) (use wd(4) [OF r] in simp)
  have chk1: "user_range_ok m1 r dest len need" using written_range_ok [OF w o r] chk by simp
  obtain pa where pa: "translate m1 (MAKE_SATP r) Store (dest + of_nat i) = Some pa" "m2 = m1(pa := b)"
    using st by (auto simp: user_store_def split: option.splits)
  have "tree m1 r (vpath (dest + of_nat i)) = Some (page_base pa)"
    by (rule guarded_access [OF owned_wf [OF wd(1)] r g1 chk1 len i before pa(1)])
  then have hit: "tree m r (vpath (dest + of_nat i)) = Some (page_base pa)" using t by simp
  have "written L R S r m m2" unfolding pa(2) by (rule written_step [OF w r hit])
  then show ?thesis using c hit by (auto simp: reached_def less_Suc_eq)
qed

lemma copy_to_user_reached:
  assumes o: "owned L (mem k) R S" and r: "r \<in> R" "satp k = MAKE_SATP r" and g: "guarded (mem k) r"
    and chk: "user_range_ok (mem k) r dest len need" and len: "unat len < 2 ^ 32" and n: "n \<le> unat len"
    and run: "copy_to_user dest src n k = Inr k'"
  shows "\<exists>m. k' = k\<lparr>mem := m\<rparr> \<and> reached L R S r (mem k) dest n m"
proof -
  let ?I = "\<lambda>ys k'. \<exists>m. k' = k\<lparr>mem := m\<rparr> \<and> reached L R S r (mem k) dest (length ys) m"
  have "case copy_to_user dest src n k of Inl _ \<Rightarrow> True | Inr k' \<Rightarrow> ?I [0..<n] k'"
    unfolding copy_to_user_def
  proof (rule for_each_rule [where I = ?I])
    show "?I [] k" using reached_0 [OF o] by (intro exI [of _ "mem k"]) simp
  next
    fix ys i zs s s'
    assume xs: "[0..<n] = ys @ i # zs" and I: "?I ys s"
      and b: "bind_stop (user_store (satp s) (dest + of_nat i) (mem s (src + of_nat i)) (mem s)) (\<lambda>m. Inr (s\<lparr>mem := m\<rparr>)) = Inr s'"
    have "[0..<n] ! length ys = i" "length ys < length [0..<n]" unfolding xs by simp_all
    then have i: "i = length ys" "i < unat len" using n by simp_all
    obtain m where s: "s = k\<lparr>mem := m\<rparr>" and c: "reached L R S r (mem k) dest i m" using I i(1) by blast
    obtain m2 where m2: "user_store (MAKE_SATP r) (dest + of_nat i) (m (src + of_nat i)) m = Inr m2" "s' = k\<lparr>mem := m2\<rparr>"
      using b s r(2) by (auto simp: bind_stop_Inr_iff)
    have "reached L R S r (mem k) dest (Suc i) m2" by (rule reached_store [OF o r(1) g chk len i(2) c m2(1)])
    then show "?I (ys @ [i]) s'" using m2(2) i(1) by (intro exI [of _ m2]) simp
  qed simp
  then show ?thesis using run by simp
qed

lemma console_more_reached:
  assumes o: "owned L m0 R S" and r: "r \<in> R" and g: "guarded m0 r"
    and chk: "user_range_ok m0 r buf len need" and len: "unat len < 2 ^ 32"
  shows "console_more buf left n k = Inr (v, k') \<Longrightarrow> satp k = MAKE_SATP r \<Longrightarrow> 
    reached L R S r m0 buf (unat n) (mem k) \<Longrightarrow> unat n + left \<le> unat len \<Longrightarrow>
    \<exists>m u. k' = k\<lparr>rx := u, mem := m\<rparr> \<and> written L R S r m0 m"
proof (induction left arbitrary: n k)
  case 0
  then have "k' = k\<lparr>rx := rx k, mem := mem k\<rparr>" by simp
  then show ?case using reached_written [OF "0.prems"(3)] by blast
next
  case (Suc left)
  obtain ch u where gc: "uart_getc (rx k) = (ch, u)" by fastforce
  have n: "unat n < unat len" "unat (n + 1) = Suc (unat n)"
    using Suc.prems(4) len by (simp_all add: unat_word_ariths)
  obtain l where l: "user_load (mem k) (satp k) (buf + ucast (n - 1)) = Inr l"
    using Suc.prems(1) by (auto simp: bind_stop_Inr_iff)
  consider "k' = k" | "k' = k\<lparr>rx := u\<rparr>" | m where "user_store (satp k) (buf + ucast n) (of_int ch) (mem k) = Inr m"
      "console_more buf left (n + 1) (k\<lparr>rx := u, mem := m\<rparr>) = Inr (v, k')"
    using Suc.prems(1) l gc by (auto simp: bind_stop_Inr_iff split: if_splits)
  then show ?case
  proof cases
    case 1
    then have "k' = k\<lparr>rx := rx k, mem := mem k\<rparr>" by simp
    then show ?thesis using reached_written [OF Suc.prems(3)] by blast
  next
    case 2
    then have "k' = k\<lparr>rx := u, mem := mem k\<rparr>" by simp
    then show ?thesis using reached_written [OF Suc.prems(3)] by blast
  next
    case (3 m)
    have un: "(of_nat (unat n) :: u64) = ucast n" by simp
    have "reached L R S r m0 buf (Suc (unat n)) m"
      by (rule reached_store [OF o r g chk len n(1) Suc.prems(3)]) (use 3(1) Suc.prems(2) un in simp)
    then have "\<exists>m' u'. k' = k\<lparr>rx := u, mem := m\<rparr>\<lparr>rx := u', mem := m'\<rparr> \<and> written L R S r m0 m'"
      using Suc.IH [OF 3(2)] Suc.prems(2,4) n(2) by simp
    then show ?thesis by auto
  qed
qed

end
