(* ===== verification/Trap_Inv.thy ===== *)
theory Trap_Inv
  imports Isolation
begin

text \<open>
  Every handler of the trap dispatcher keeps the kernel invariant and leaves the other
  processes alone (\<open>trap_ok\<close>): one lemma for each system call and interrupt.
\<close>

section \<open>Handlers that leave memory alone\<close>

lemma process_okD: "kernel_ok L c k \<Longrightarrow> process_ok (procs k ! c)"
  using kernel_okD(2,7) by blast

text \<open>A step of the current process that touches neither memory nor scheduling.\<close>

definition own_step :: "nat \<Rightarrow> kernel \<Rightarrow> kernel \<Rightarrow> bool" where
  "own_step c k k' \<longleftrightarrow> mem k' = mem k \<and> current k' = current k \<and> satp k' = satp k \<and>
     (\<exists>p. procs k' = (procs k)[c := p] \<and> process_ok p \<and> state p = PROC_RUNNING \<and>
        page_table p = page_table (procs k ! c) \<and> kernel_stack p = kernel_stack (procs k ! c))"

lemma own_step_ok:
  assumes "kernel_ok L c k" "own_step c k k'"
  shows "kernel_ok L c k'" "isolated c k k'"
proof -
  obtain p where p: "procs k' = (procs k)[c := p]" "process_ok p" "state p = PROC_RUNNING"
    "page_table p = page_table (procs k ! c)" "kernel_stack p = kernel_stack (procs k ! c)"
    and m: "mem k' = mem k" "current k' = current k" "satp k' = satp k"
    using assms(2) by (auto simp: own_step_def)
  show "kernel_ok L c k'" by (rule kernel_ok_current [OF assms(1) m(1) p(1) m(2,3) p(2-5)])
  show "isolated c k k'" by (rule isolated_current [OF p(1)]) (simp add: m(1))
qed

lemma own_step_same:
  assumes "kernel_ok L c k" "mem k' = mem k" "current k' = current k" "satp k' = satp k" "procs k' = procs k"
  shows "own_step c k k'"
  unfolding own_step_def
  using assms kernel_okD(4) [OF assms(1)] process_okD [OF assms(1)]
  by (intro conjI exI [of _ "procs k ! c"]) simp_all

lemma own_step_ret:
  assumes "kernel_ok L c k" "own_step c k k'"
  shows "trap_ok L c k (ret (ProcFrame c) v k')"
  using own_step_ok [OF assms] by (rule trap_ok_ret)

lemma ret_ok: "kernel_ok L c k \<Longrightarrow> trap_ok L c k (ret (ProcFrame c) v k)"
  by (rule trap_ok_ret) simp_all

lemma with_current_ok: "kernel_ok L c k \<Longrightarrow> with_current k f = f c"
  using kernel_okD(3) by (simp add: with_current_def)

lemma sys_putchar_ok: "kernel_ok L c k \<Longrightarrow> trap_ok L c k (sys_putchar (ProcFrame c) k)"
  unfolding sys_putchar_def by (rule own_step_ret [OF _ own_step_same]) simp_all

lemma own_step_files:
  assumes "kernel_ok L c k"
  shows "own_step c k (upd_file c fd g k)"
  unfolding own_step_def upd_file_def
  using kernel_okD(4) [OF assms] process_okD [OF assms]
  by (intro conjI exI [of _ "(procs k ! c)\<lparr>open_files := (open_files (procs k ! c))[fd := g (open_files (procs k ! c) ! fd)]\<rparr>"])
    (simp_all add: process_ok_def)

lemma sys_close_ok: "kernel_ok L c k \<Longrightarrow> trap_ok L c k (sys_close (ProcFrame c) k)"
  using ret_ok own_step_ret [OF _ own_step_files]
  by (auto simp: sys_close_def with_current_ok Let_def split: option.splits)

lemma sys_open_ok: "kernel_ok L c k \<Longrightarrow> trap_ok L c k (sys_open L (ProcFrame c) k)"
  using ret_ok own_step_ret [OF _ own_step_files]
  by (auto simp: sys_open_def with_current_ok Let_def intro!: trap_ok_bind split: option.splits)

text \<open>Printing the bytes of a buffer.\<close>

lemma console_write_same:
  "console_write buf n k = Inr k' \<Longrightarrow>
     mem k' = mem k \<and> current k' = current k \<and> satp k' = satp k \<and> procs k' = procs k"
proof -
  let ?I = "\<lambda>k'. mem k' = mem k \<and> current k' = current k \<and> satp k' = satp k \<and> procs k' = procs k"
  have "case console_write buf n k of Inl _ \<Rightarrow> True | Inr k' \<Rightarrow> ?I k'"
    unfolding console_write_def
    by (rule for_each_rule [where I = "\<lambda>_. ?I"]) (auto simp: bind_stop_Inr_iff)
  then show "console_write buf n k = Inr k' \<Longrightarrow> ?I k'" by simp
qed

lemma sys_write_ok:
  assumes "kernel_ok L c k"
  shows "trap_ok L c k (sys_write (ProcFrame c) k)"
proof -
  have "trap_ok L c k (bind_stop (console_write buf n k) (ret (ProcFrame c) v))" for buf n v
    by (rule trap_ok_bind, rule own_step_ret [OF assms own_step_same [OF assms]])
      (use console_write_same in blast)+
  then show ?thesis using ret_ok [OF assms] assms
    by (auto simp: sys_write_def with_current_ok Let_def split: option.splits)
qed

section \<open>Giving up the processor\<close>

text \<open>Blocking, dying and the timer: the current process is put aside, then \<open>schedule\<close>.\<close>

lemma parked_update:
  assumes ok: "kernel_ok L c k" and k': "mem k' = mem k" "current k' = current k" "length (procs k') = 64"
    and other: "\<And>i. i < 64 \<Longrightarrow> same_process (procs k ! i) (procs k' ! i) \<and>
      (state (procs k' ! i) = PROC_UNUSED) = (state (procs k ! i) = PROC_UNUSED) \<and>
      (i \<noteq> c \<longrightarrow> frame (procs k' ! i) = frame (procs k ! i) \<and>
         (state (procs k' ! i) = PROC_RUNNING \<longrightarrow> state (procs k ! i) = PROC_RUNNING))"
  shows "parked L c k'" "isolated c k k'"
proof -
  note o = kernel_okD [OF ok]
  have "table_ok L k'"
    by (rule table_ok_cong [OF o(10) k'(1)]) (use other o(1) k'(3) in auto)
  moreover have "\<forall>i < 64. state (procs k' ! i) = PROC_RUNNING \<longrightarrow> i = c" using other o(9) by blast
  ultimately show "parked L c k'" using o(2,3) k'(2) by (simp only: parked_def)
  show "isolated c k k'" using other k'(1) by (auto simp: isolated_def)
qed

lemma wake_one_state:
  "(state (wake_one ch p) = PROC_UNUSED) = (state p = PROC_UNUSED)"
  "state (wake_one ch p) = PROC_RUNNING \<longleftrightarrow> state p = PROC_RUNNING"
  by (simp_all add: wake_one_def)

lemma block_on_ok:
  assumes ok: "kernel_ok L c k" and k1: "mem k1 = mem k" "procs k1 = procs k" "current k1 = current k"
  shows "trap_ok L c k (block_on ws ch (ProcFrame c) k1)"
proof -
  let ?k' = "upd_frame (ProcFrame c) (\<lambda>f. f\<lparr>tf_sepc := tf_sepc f - 4\<rparr>) (sleep_on ch k1)"
  note o = kernel_okD [OF ok]
  have ps: "procs ?k' = (procs k)[c := (procs k ! c)\<lparr>state := PROC_BLOCKED, chan := ch,
      frame := (frame (procs k ! c))\<lparr>tf_sepc := tf_sepc (frame (procs k ! c)) - 4\<rparr>\<rparr>]"
    using o(1,2,3) k1 by (simp add: sleep_on_def)
  have rest: "mem ?k' = mem k" "current ?k' = current k" "length (procs ?k') = 64"
    using o(1,3) k1 by (simp_all add: sleep_on_def)
  have other: "same_process (procs k ! i) (procs ?k' ! i) \<and>
      (state (procs ?k' ! i) = PROC_UNUSED) = (state (procs k ! i) = PROC_UNUSED) \<and>
      (i \<noteq> c \<longrightarrow> frame (procs ?k' ! i) = frame (procs k ! i) \<and>
         (state (procs ?k' ! i) = PROC_RUNNING \<longrightarrow> state (procs k ! i) = PROC_RUNNING))" if "i < 64" for i
    unfolding ps using that o(1,2,4) by (cases "i = c") (simp_all add: same_process_def)
  show ?thesis unfolding block_on_def
    using trap_ok_schedule parked_update [OF ok rest other] by blast
qed

lemma exit_current_ok:
  assumes ok: "kernel_ok L c k"
  shows "trap_ok L c k (exit_current ws (ProcFrame c) k)"
proof -
  note o = kernel_okD [OF ok]
  let ?k1 = "upd_proc c (\<lambda>p. p\<lparr>state := PROC_ZOMBIE\<rparr>) k"
  let ?k2 = "case find_index (\<lambda>p. pid p = parent_pid (procs ?k1 ! c) \<and> state p \<noteq> PROC_UNUSED) (procs ?k1) of
      None \<Rightarrow> ?k1 | Some i \<Rightarrow> wakeup (ProcChan i) ?k1"
  have rest: "mem ?k2 = mem k" "current ?k2 = current k" "length (procs ?k2) = 64"
    using o(1) by (simp_all add: wakeup_def split: option.splits)
  have other: "same_process (procs k ! i) (procs ?k2 ! i) \<and>
      (state (procs ?k2 ! i) = PROC_UNUSED) = (state (procs k ! i) = PROC_UNUSED) \<and>
      (i \<noteq> c \<longrightarrow> frame (procs ?k2 ! i) = frame (procs k ! i) \<and>
         (state (procs ?k2 ! i) = PROC_RUNNING \<longrightarrow> state (procs k ! i) = PROC_RUNNING))" if i: "i < 64" for i
  proof -
    have 1: "procs ?k1 ! i = (if i = c then (procs k ! c)\<lparr>state := PROC_ZOMBIE\<rparr> else procs k ! i)"
      using i o(1) by simp
    have "procs ?k2 ! i = procs ?k1 ! i \<or> (\<exists>ch. procs ?k2 ! i = wake_one ch (procs ?k1 ! i))"
      using i o(1) by (auto simp: wakeup_def split: option.splits)
    then obtain ch where "procs ?k2 ! i = procs ?k1 ! i \<or> procs ?k2 ! i = wake_one ch (procs ?k1 ! i)" by blast
    then have w: "procs ?k2 ! i \<in> {procs ?k1 ! i, wake_one ch (procs ?k1 ! i)}" by blast
    define p where "p = procs ?k2 ! i"
    have "same_process (procs k ! i) p \<and>
      (state p = PROC_UNUSED) = (state (procs k ! i) = PROC_UNUSED) \<and>
      (i \<noteq> c \<longrightarrow> frame p = frame (procs k ! i) \<and> (state p = PROC_RUNNING \<longrightarrow> state (procs k ! i) = PROC_RUNNING))"
      using w [folded p_def] o(4) unfolding 1
      by (cases "i = c") (auto simp: wake_one_state same_process_def wake_one_def split: if_splits)
    then show ?thesis unfolding p_def .
  qed
  have "exit_current ws (ProcFrame c) k = schedule ws (ProcFrame c) ?k2"
    using o(3) by (simp add: exit_current_def Let_def)
  then show ?thesis
    using trap_ok_schedule [OF parked_update [OF ok rest other]] by simp
qed

lemma timer_ok:
  assumes ok: "kernel_ok L c k" 
  shows "trap_ok L c k (schedule ws (ProcFrame c) (k\<lparr>timer := t\<rparr>))"
proof -
  have "parked L c (k\<lparr>timer := t\<rparr>)" using kernel_okD(11) [OF ok] by (simp add: parked_def table_ok_def)
  moreover have "isolated c k (k\<lparr>timer := t\<rparr>)" by (simp add: isolated_def)
  ultimately show ?thesis by (rule trap_ok_schedule)
qed

lemma plic_ok:
  assumes ok: "kernel_ok L c k"
  shows "trap_ok L c k (Inr (ProcFrame c, plic_dispatch irq fifo k))"
proof -
  let ?k' = "plic_dispatch irq fifo k"
  note o = kernel_okD [OF ok]
  have f: "woken UartChan (procs k) (procs ?k')" "mem ?k' = mem k" "current ?k' = current k" "satp ?k' = satp k"
    using interrupt_frame_plic [of k irq fifo] by (simp_all add: interrupt_frame_def)
  have w: "procs ?k' ! i = procs k ! i \<or> procs ?k' ! i = wake_one UartChan (procs k ! i)" if "i < 64" for i
    using f(1) that o(1) by (simp add: woken_def)
  have len: "length (procs ?k') = 64" using f(1) o(1) by (simp add: woken_def)
  have other: "same_process (procs k ! i) (procs ?k' ! i) \<and>
      (state (procs ?k' ! i) = PROC_UNUSED) = (state (procs k ! i) = PROC_UNUSED) \<and>
      (i \<noteq> c \<longrightarrow> frame (procs ?k' ! i) = frame (procs k ! i) \<and>
         (state (procs ?k' ! i) = PROC_RUNNING \<longrightarrow> state (procs k ! i) = PROC_RUNNING))" if "i < 64" for i
    using w [OF that] by (auto simp: wake_one_state)
  note p = parked_update [OF ok f(2,3) len other]
  have "procs ?k' ! c = procs k ! c" using w [OF o(2)] o(4) by (auto simp: wake_one_def)
  then have "kernel_ok L c ?k'" using p(1) o(4,5) f(4) by (simp add: kernel_ok_def)
  then show ?thesis using p(2) by (rule trap_ok_resume)
qed

lemma interrupt_ok: "kernel_ok L c k \<Longrightarrow> trap_ok L c k (interrupt inp code (ProcFrame c) k)"
  by (simp add: interrupt_def timer_ok plic_ok)

section \<open>Reaping\<close>

lemma sys_wait_ok:
  assumes ok: "kernel_ok L c k"
  shows "trap_ok L c k (sys_wait L ws (ProcFrame c) k)"
proof -
  note o = kernel_okD [OF ok]
  let ?P = "\<lambda>p. child_of (pid (procs k ! c)) p \<and> state p = PROC_ZOMBIE"
  show ?thesis
  proof (cases "find_index ?P (procs k)")
    case None
    then show ?thesis
      using ret_ok [OF ok] block_on_ok [OF ok refl refl refl] by (simp add: sys_wait_def with_current_ok [OF ok] Let_def)
  next
    case (Some i)
    then have i: "i < 64" "?P (procs k ! i)" using find_index_Some [of ?P "procs k" i] o(1) by auto
    then have live: "state (procs k ! i) \<noteq> PROC_UNUSED" and ic: "i \<noteq> c" using o(4) by auto
    let ?k' = "free_proc L i k"
    note f = free_proc_reap [OF o(10) i(1) live]
    have nth: "procs ?k' ! j = (if j = i then scrubbed (procs k ! i) else procs k ! j)" if "j < 64" for j
      using f(2) that o(1) by simp
    have "\<forall>j < 64. state (procs ?k' ! j) = PROC_RUNNING \<longrightarrow> j = c"
      using nth o(9) by (metis proc_state.distinct(3) scrubbed_state)
    then have "parked L c ?k'" using f(1,5) o(2,3) by (simp only: parked_def)
    then have ok': "kernel_ok L c ?k'" using nth [OF o(2)] ic o(4,5) f(6) by (simp add: kernel_ok_def)
    have "isolated c k ?k'"
      unfolding isolated_def
    proof (intro allI impI)
      fix j :: nat assume j: "j < 64" "state (procs k ! j) \<noteq> PROC_UNUSED" "state (procs ?k' ! j) \<noteq> PROC_UNUSED"
      then have "j \<noteq> i" using nth [of i] i(1) scrubbed_state by metis
      then have "procs ?k' ! j = procs k ! j" using nth [OF j(1)] by simp
      moreover have "untouched (mem k) (mem ?k') (page_table (procs k ! j))"
        using j(1,2) o(1) by (intro untouched_bitmap [OF spaces_okD(2) [OF o(6)] spaces_okD(5) [OF o(6)] f(4)]) (simp add: live_def)
      ultimately show "same_process (procs k ! j) (procs ?k' ! j) \<and> frame (procs ?k' ! j) = frame (procs k ! j) \<and>
          untouched (mem k) (mem ?k') (page_table (procs k ! j))" by simp
    qed
    then show ?thesis
      using trap_ok_ret [OF ok'] Some by (simp add: sys_wait_def with_current_ok [OF ok] Let_def)
  qed
qed

end
