(* ===== verification/Read.thy ===== *)
theory Read
  imports User_Guard Trap_Inv
begin

text \<open>
  \<open>SYS_READ\<close>: a file read hands over the next bytes of the file and advances the offset, a
  console read hands over one finished line or blocks; nothing else in memory changes.
\<close>

section \<open>New memory contents\<close>

lemma kernel_ok_owned:
  assumes ok: "kernel_ok L c k" and o: "owned L (mem k') (roots (procs k)) (stacks (procs k))"
    and same: "procs k' = procs k" "current k' = current k" "satp k' = satp k"
  shows "kernel_ok L c k'"
proof -
  note k = kernel_okD [OF ok]
  have "spaces_ok L (mem k') (procs k)" using k(6) o by (simp add: spaces_ok_def)
  then show ?thesis using ok same by (simp add: kernel_ok_def parked_def table_ok_def)
qed

lemma other_root:
  assumes ok: "kernel_ok L c k" and i: "i < 64" "i \<noteq> c" "state (procs k ! i) \<noteq> PROC_UNUSED"
  shows "page_table (procs k ! i) \<in> roots (procs k)" "page_table (procs k ! i) \<noteq> page_table (procs k ! c)"
proof -
  note k = kernel_okD [OF ok]
  have l: "i \<in> live (procs k)" using i k(1) by (simp add: live_def)
  then show "page_table (procs k ! i) \<in> roots (procs k)" by (rule spaces_okD(5) [OF k(6)])
  show "page_table (procs k ! i) \<noteq> page_table (procs k ! c)"
    using spaces_okD(3) [OF k(6)] l k(8) i(2) by (auto simp: inj_on_def)
qed

lemma current_root: "kernel_ok L c k \<Longrightarrow> page_table (procs k ! c) \<in> roots (procs k)"
  using spaces_okD(5) kernel_okD(6,8) by blast

abbreviation written_by :: "layout \<Rightarrow> nat \<Rightarrow> kernel \<Rightarrow> memory \<Rightarrow> bool" where
  "written_by L c k m \<equiv> written L (roots (procs k)) (stacks (procs k)) (page_table (procs k ! c)) (mem k) m"

lemma written_by_ok:
  assumes ok: "kernel_ok L c k" and w: "written_by L c k (mem k')"
    and same: "procs k' = procs k" "current k' = current k" "satp k' = satp k"
  shows "kernel_ok L c k'" "isolated c k k'"
proof -
  note k = kernel_okD [OF ok]
  show "kernel_ok L c k'" by (rule kernel_ok_owned [OF ok writtenD(1) [OF w] same])
  have "procs k' = (procs k)[c := procs k ! c]" using same(1) by simp
  then show "isolated c k k'"
    by (rule isolated_current)
      (rule untouched_written [OF spaces_okD(1) [OF k(6)] w current_root [OF ok] other_root [OF ok]])
qed

text \<open>Growing the space of the current process.\<close>

lemma gains_ok:
  assumes ok: "kernel_ok L c k" and g: "gains L (roots (procs k)) (page_table (procs k ! c)) (mem k) (mem k')"
    and same: "procs k' = procs k" "current k' = current k" "satp k' = satp k"
  shows "kernel_ok L c k'" "isolated c k k'"
proof -
  note k = kernel_okD [OF ok]
  show "kernel_ok L c k'" by (rule kernel_ok_owned [OF ok gains_owned [OF spaces_okD(1) [OF k(6)] g] same])
  have "procs k' = (procs k)[c := procs k ! c]" using same(1) by simp
  then show "isolated c k k'"
    by (rule isolated_current)
      (rule untouched_gains [OF spaces_okD(2) [OF k(6)] current_root [OF ok] other_root [OF ok] g])
qed

lemma trap_ok_own_step:
  assumes "kernel_ok L c k1" "isolated c k k1" "own_step c k1 k2"
  shows "trap_ok L c k (ret (ProcFrame c) v k2)"
proof -
  note s = own_step_ok [OF assms(1,3)]
  have "isolated c k k2"
  proof (rule isolated_trans [OF assms(2) s(2)])
    fix i :: nat assume i: "i < 64" and used: "state (procs k2 ! i) \<noteq> PROC_UNUSED"
    obtain p where p: "procs k2 = (procs k1)[c := p]" using assms(3) by (auto simp: own_step_def)
    show "state (procs k1 ! i) \<noteq> PROC_UNUSED"
    proof (cases "i = c")
      case True
      then show ?thesis using kernel_okD(4) [OF assms(1)] by simp
    next
      case False
      then show ?thesis using used p by simp
    qed
  qed
  then show ?thesis using s(1) trap_ok_ret by blast
qed

section \<open>Preserving the invariant\<close>

lemma console_more_ok:
  assumes ok: "kernel_ok L c k" and chk: "user_range_ok (mem k) (page_table (procs k ! c)) buf len PTE_W"
    and low: "unat buf + unat len \<le> 2 ^ 38" and len: "unat len < 2 ^ 32" "0 < unat len"
    and st: "user_store (satp k) buf b (mem k) = Inr m"
    and run: "console_more buf (unat len - 1) 1 (k\<lparr>rx := u, mem := m\<rparr>) = Inr (n, k')"
  shows "\<exists>m' u' f. k' = k\<lparr>rx := u', mem := m'\<rparr> \<and> 1 \<le> unat n \<and> unat n \<le> unat len \<and>
    copied_out L (roots (procs k)) (stacks (procs k)) (page_table (procs k ! c)) (mem k) buf f (unat n) m' \<and>
    f 0 = b \<and>
    (uart_ok u \<longrightarrow> map f [1..<unat n] = (if b = newline then [] else first_line (unat len - 1) (finished u)) \<and>
       finished u = map f [1..<unat n] @ finished u' \<and> uart_ok u')"
proof -
  note o = kernel_okD [OF ok]
  note ow = spaces_okD(1) [OF o(6)]
  define h :: "nat \<Rightarrow> u8" where "h = (\<lambda>_. 0)(0 := b)"
  have h: "h 0 = b" by (simp add: h_def)
  let ?k1 = "k\<lparr>rx := u, mem := m\<rparr>"
  have c1: "copied_out L (roots (procs k)) (stacks (procs k)) (page_table (procs k ! c)) (mem k) buf
      h (unat (1 :: u32)) (mem ?k1)"
    unfolding unat_1 One_nat_def h_def
    using copied_out_store [OF ow current_root [OF ok] chk low len(2) copied_out_0 [OF ow]] st o(5) by simp
  have one: "1 \<le> unat (1 :: u32)" "unat (1 :: u32) + (unat len - 1) \<le> unat len" using len(2) by simp_all
  have sat: "satp ?k1 = MAKE_SATP (page_table (procs k ! c))" using o(5) by simp
  from console_more_spec [OF ow current_root [OF ok] chk low len(1) run c1 one sat] obtain m' u' f' where
    k': "k' = ?k1\<lparr>rx := u', mem := m'\<rparr>" "unat (1 :: u32) \<le> unat n" "unat n \<le> unat (1 :: u32) + (unat len - 1)"
    "copied_out L (roots (procs k)) (stacks (procs k)) (page_table (procs k ! c)) (mem k) buf f' (unat n) m'"
    "\<forall>j < unat (1 :: u32). f' j = h j"
    "uart_ok (rx ?k1) \<longrightarrow> (let bs = map f' [unat (1 :: u32)..<unat n] in
          bs = (if h (unat (1 :: u32) - 1) = newline then [] else first_line (unat len - 1) (finished (rx ?k1))) \<and>
          finished (rx ?k1) = bs @ finished u' \<and> uart_ok u')"
    by blast
  have "uart_ok u \<longrightarrow> map f' [1..<unat n] = (if b = newline then [] else first_line (unat len - 1) (finished u)) \<and>
       finished u = map f' [1..<unat n] @ finished u' \<and> uart_ok u'"
  proof -
    have "rx ?k1 = u" "h (unat (1 :: u32) - 1) = b" using h by simp_all
    then show ?thesis using k'(6) unfolding Let_def unat_1 by (simp only: simp_thms)
  qed
  then show ?thesis using k'(1-5) h len(2)
    by (intro exI [of _ m'] exI [of _ u'] exI [of _ f']) simp
qed

lemma unat_len [simp]: "unat (ucast (n :: u32) :: u64) = unat n"
  by (simp add: unsigned_ucast_eq take_bit_nat_eq_self less_trans [OF unsigned_less])

lemma len_small: "unat (ucast (n :: u32) :: u64) < 2 ^ 32"
  using unsigned_less [of n] by simp

text \<open>For the invariant no bound on the buffer is needed, only that the space is \<open>guarded\<close>.\<close>

lemma console_more_written:
  assumes ok: "kernel_ok L c k" and g: "guarded (mem k) (page_table (procs k ! c))"
    and chk: "user_range_ok (mem k) (page_table (procs k ! c)) buf (ucast (count :: u32)) PTE_W"
    and pos: "count \<noteq> 0" and st: "user_store (satp k) buf b (mem k) = Inr m"
    and run: "console_more buf (unat count - 1) 1 (k\<lparr>rx := u, mem := m\<rparr>) = Inr (n, k')"
  shows "\<exists>m' u'. k' = k\<lparr>rx := u', mem := m'\<rparr> \<and> written_by L c k m'"
proof -
  note o = kernel_okD [OF ok]
  note ow = spaces_okD(1) [OF o(6)] and r = current_root [OF ok]
  have "0 < unat count" using pos by (simp add: unat_gt_0)
  then have len: "0 < unat (ucast count :: u64)" unfolding unat_len .
  have "reached L (roots (procs k)) (stacks (procs k)) (page_table (procs k ! c)) (mem k) buf (Suc 0) m"
    using reached_store [OF ow r g chk len_small len reached_0 [OF ow]] st o(5) by simp
  then have "\<exists>m' u'. k' = k\<lparr>rx := u, mem := m\<rparr>\<lparr>rx := u', mem := m'\<rparr> \<and> written_by L c k m'"
    using len by (intro console_more_reached [OF ow r g chk len_small run]) (simp_all add: o(5))
  then show ?thesis by auto
qed

lemma copy_to_user_written:
  assumes ok: "kernel_ok L c k" and g: "guarded (mem k) (page_table (procs k ! c))"
    and chk: "user_range_ok (mem k) (page_table (procs k ! c)) buf (ucast (count :: u32)) PTE_W"
    and n: "n \<le> unat count" and run: "copy_to_user buf src n k = Inr k'"
  shows "\<exists>m. k' = k\<lparr>mem := m\<rparr> \<and> written_by L c k m"
proof -
  note o = kernel_okD [OF ok]
  have "n \<le> unat (ucast count :: u64)" using n by simp
  from copy_to_user_reached [OF spaces_okD(1) [OF o(6)] current_root [OF ok] o(5) g chk len_small this run]
  show ?thesis using reached_written by blast
qed

lemma console_read_ok:
  assumes ok: "kernel_ok L c k" and g: "guarded (mem k) (page_table (procs k ! c))"
    and chk: "user_range_ok (mem k) (page_table (procs k ! c)) buf (ucast count) PTE_W"
  shows "trap_ok L c k (console_read ws (ProcFrame c) buf count k)"
proof (cases "count = 0")
  case True
  then show ?thesis using ret_ok [OF ok] by (simp add: console_read_def)
next
  case False
  obtain ch u where gc: "uart_getc (rx k) = (ch, u)" by fastforce
  have "trap_ok L c k (block_on ws UartChan (ProcFrame c) (k\<lparr>rx := u\<rparr>))"
    by (rule block_on_ok [OF ok]) simp_all
  moreover have "trap_ok L c k (ret (ProcFrame c) (ucast n) k1)"
    if st: "user_store (satp k) buf (of_int ch) (mem k) = Inr m"
      and run: "console_more buf (unat count - 1) 1 (k\<lparr>rx := u, mem := m\<rparr>) = Inr (n, k1)" for m n k1
  proof -
    obtain m' u' where "k1 = k\<lparr>rx := u', mem := m'\<rparr>" "written_by L c k m'"
      using console_more_written [OF ok g chk False st run] by blast
    then show ?thesis using trap_ok_ret written_by_ok [OF ok, of k1] by simp
  qed
  ultimately show ?thesis using False gc
    by (auto simp: console_read_def intro!: trap_ok_bind)
qed

lemma ramdisk_read_ok:
  assumes ok: "kernel_ok L c k" and g: "guarded (mem k) (page_table (procs k ! c))"
    and chk: "user_range_ok (mem k) (page_table (procs k ! c)) buf (ucast count) PTE_W"
  shows "trap_ok L c k (ramdisk_read (ProcFrame c) c fd buf count k)"
proof -
  let ?fl = "open_files (procs k ! c) ! fd"
  let ?left = "f_size ?fl - f_offset ?fl"
  let ?n = "if count > ?left then ?left else count"
  have n: "unat ?n \<le> unat count" by (simp add: word_less_nat_alt)
  have "trap_ok L c k (ret (ProcFrame c) v (upd_file c fd h k1))"
    if run: "copy_to_user buf src (unat ?n) k = Inr k1" for src v h k1
  proof -
    obtain m where k1: "k1 = k\<lparr>mem := m\<rparr>" "written_by L c k m"
      using copy_to_user_written [OF ok g chk n run] by blast
    have ok1: "kernel_ok L c k1" "isolated c k k1" using written_by_ok [OF ok, of k1] k1 by simp_all
    show ?thesis by (rule trap_ok_own_step [OF ok1 own_step_files [OF ok1(1)]])
  qed
  then show ?thesis using ret_ok [OF ok]
    by (auto simp: ramdisk_read_def Let_def intro!: trap_ok_bind)
qed

lemma sys_read_ok:
  assumes ok: "kernel_ok L c k" and g: "guarded (mem k) (page_table (procs k ! c))"
  shows "trap_ok L c k (sys_read ws (ProcFrame c) k)"
  using ret_ok [OF ok] console_read_ok [OF ok g] ramdisk_read_ok [OF ok g]
  by (auto simp: sys_read_def with_current_ok [OF ok] Let_def split: option.splits)

end
