(* ===== verification/Heap.thy ===== *)
theory Heap
  imports Isolation
begin

text \<open>
  Growing the heap (\<open>SYS_SBRK\<close>): the pages of the range appear as zeroed, private, writable
  pages, or, when memory runs out half way, none of them stays mapped and only page tables
  remain allocated.
\<close>

section \<open>The loop\<close>

abbreviation heap_entry :: "u64 \<Rightarrow> u64" where
  "heap_entry n \<equiv> PA_TO_PTE n OR (PTE_U OR PTE_R OR PTE_W) OR PTE_V"

lemma heap_entry_frame: "page_aligned n \<Longrightarrow> user_frame (heap_entry n) = Some n"
  using has_entry [OF user_rw_flags, of n] PTE_TO_PA_map [OF _ user_rw_flags, of n]
  by (simp add: user_frame_def is_leaf_def has_flags bit_or_iff bit_flags)

text \<open>The pages of \<open>A\<close> have been added to the space of \<open>r\<close>, and nothing else.\<close>

definition zero_page :: "layout \<Rightarrow> memory \<Rightarrow> u64 \<Rightarrow> memory \<Rightarrow> u64 \<Rightarrow> bool" where
  "zero_page L m r m1 p \<longleftrightarrow> (\<exists>n. path_leaf m1 r p = heap_entry n \<and> n \<notin> used L m \<and> page_aligned n \<and>
     (\<forall>j < 4096. m1 (n + of_nat j) = 0))"

definition heap_frames :: "memory \<Rightarrow> u64 \<Rightarrow> u64 set \<Rightarrow> u64 set" where
  "heap_frames m r A = {n. \<exists>p \<in> A. user_frame (path_leaf m r p) = Some n}"

definition heap_grown :: "layout \<Rightarrow> u64 set \<Rightarrow> u64 \<Rightarrow> u64 set \<Rightarrow> memory \<Rightarrow> memory \<Rightarrow> bool" where
  "heap_grown L R r A m m1 \<longleftrightarrow> gains L R r m m1 \<and> (\<forall>p \<in> A. zero_page L m r m1 p) \<and>
     (\<forall>r' \<in> R. \<forall>a b c. a < 512 \<longrightarrow> b < 512 \<longrightarrow> c < 512 \<longrightarrow> \<not> (r' = r \<and> [a, b, c] \<in> vpath ` A) \<longrightarrow>
        leaf_at m1 r' a b c = leaf_at m r' a b c) \<and>
     used L m1 \<subseteq> used L m \<union> tables m1 r \<union> heap_frames m1 r A"

lemma heap_grown_refl: "wf_forest L m R \<Longrightarrow> heap_grown L R r {} m m"
  by (auto simp: heap_grown_def gains_refl)

lemma heap_grownD:
  assumes "heap_grown L R r A m m1"
  shows "gains L R r m m1" "\<And>p. p \<in> A \<Longrightarrow> zero_page L m r m1 p"
    "\<And>r' a b c. r' \<in> R \<Longrightarrow> a < 512 \<Longrightarrow> b < 512 \<Longrightarrow> c < 512 \<Longrightarrow> \<not> (r' = r \<and> [a, b, c] \<in> vpath ` A) \<Longrightarrow>
        leaf_at m1 r' a b c = leaf_at m r' a b c"
    "used L m1 \<subseteq> used L m \<union> tables m1 r \<union> heap_frames m1 r A"
  using assms unfolding heap_grown_def by blast+

lemma zero_page_frame:
  assumes "zero_page L m r m1 p" "user_frame (path_leaf m1 r p) = Some n"
  shows "n \<notin> used L m"
  using assms heap_entry_frame by (auto simp: zero_page_def)

lemma zero_page_kept:
  assumes wf: "wf_forest L m1 R" and r: "r \<in> R" and z: "zero_page L m r m1 p" and g: "gains L R r m1 m2"
    and leaf: "path_leaf m2 r p = path_leaf m1 r p"
  shows "zero_page L m r m2 p"
proof -
  obtain n where n: "path_leaf m1 r p = heap_entry n" "n \<notin> used L m" "page_aligned n"
    "\<forall>j < 4096. m1 (n + of_nat j) = 0" using z by (auto simp: zero_page_def)
  have "tree m1 r (vpath p) = Some n"
    using n(1,3) heap_entry_frame tree_leaf [of "VPN p 2" "VPN p 1" "VPN p 0" m1 r] unfolding path_leaf_def by simp
  then have "m2 (n + of_nat j) = 0" if "j < 4096" for j
    using extends_own_frame [OF wf gainsD(1) [OF g] r] page_base_add [OF n(3) that] n(4) that by metis
  then show ?thesis using n leaf by (auto simp: zero_page_def)
qed

lemma heap_grown_step:
  assumes h: "heap_grown L R r A m m1" and r: "r \<in> R" and p: "vpath p \<notin> vpath ` A"
    and al: "pmm_alloc_page L m1 = (n, m2)" and n0: "n \<noteq> 0"
    and mp: "map_page L (memset m2 n 0 4096) r p n (PTE_U OR PTE_R OR PTE_W) = (x, m3)"
  obtains (oom) "x \<noteq> 0" "heap_grown L R r A m (pmm_free_page L m3 n)"
  | (mapped) "x = 0" "heap_grown L R r (insert p A) m m3"
proof -
  note hd = heap_grownD [OF h]
  note wf1 = gains_wf [OF hd(1)]
  have n_al: "page_aligned n" using pmm.al_page [OF al n0] frame_aligned by blast
  have fill: "same_except {n} m2 (memset m2 n 0 4096)" by (rule same_except_memset [OF n_al]) simp
  have leaf_other: "path_leaf m' r q = path_leaf m1 r q"
    if "\<And>a b c. a < 512 \<Longrightarrow> b < 512 \<Longrightarrow> c < 512 \<Longrightarrow> [a, b, c] \<noteq> vpath p \<Longrightarrow> leaf_at m' r a b c = leaf_at m1 r a b c"
      "vpath q \<noteq> vpath p" for m' q
    unfolding path_leaf_def by (rule that(1) [OF VPN_less VPN_less VPN_less that(2)])
  show thesis using wf1 r al n0 fill user_rw_flags mp
  proof (cases rule: add_user_page)
    case o: oom
    let ?m4 = "pmm_free_page L m3 n"
    have same: "path_leaf ?m4 r q = path_leaf m1 r q" for q
      unfolding path_leaf_def by (rule o(3) [OF r VPN_less VPN_less VPN_less])
    have "gains L R r m ?m4" using hd(1) o(2) by (rule gains_trans)
    moreover have "zero_page L m r ?m4 q" if "q \<in> A" for q
      by (rule zero_page_kept [OF wf1 r hd(2) [OF that] o(2) same])
    moreover have "leaf_at ?m4 r' a b c = leaf_at m r' a b c"
      if "r' \<in> R" "a < 512" "b < 512" "c < 512" "\<not> (r' = r \<and> [a, b, c] \<in> vpath ` A)" for r' a b c
      using o(3) [OF that(1-4)] hd(3) [OF that] by simp
    moreover have "tables m1 r \<subseteq> tables ?m4 r" using extendsD(3) [OF gainsD(1) [OF o(2)]] .
    then have "used L ?m4 \<subseteq> used L m \<union> tables ?m4 r \<union> heap_frames ?m4 r A"
      using o(6) hd(4) same by (auto simp: heap_frames_def)
    ultimately show thesis using o(1) by (intro that(1)) (auto simp: heap_grown_def)
  next
    case mp0: mapped
    have same: "path_leaf m3 r q = path_leaf m1 r q" if "q \<in> A" for q
    proof (rule leaf_other)
      show "vpath q \<noteq> vpath p"
      proof
        assume "vpath q = vpath p"
        then have "vpath p \<in> vpath ` A" using that by (intro image_eqI [where x = q]) (simp only:)+
        then show False using p by (simp only: simp_thms)
      qed
    qed (use mp0(4) [OF r] in blast)
    have "zero_page L m r m3 q" if "q \<in> insert p A" for q
    proof (cases "q = p")
      case True
      have "n \<notin> used L m" using mp0(6) extendsD(2) [OF gainsD(1) [OF hd(1)]] by blast
      moreover have "m3 (n + of_nat j) = 0" if "j < 4096" for j
        using mp0(8) [OF that] memset_page_at [OF n_al that, of m2 0] by simp
      ultimately show ?thesis using True mp0(3) n_al by (auto simp: zero_page_def)
    next
      case False
      then show ?thesis using that zero_page_kept [OF wf1 r hd(2) mp0(2) same] by blast
    qed
    moreover have "gains L R r m m3" using hd(1) mp0(2) by (rule gains_trans)
    moreover have "leaf_at m3 r' a b c = leaf_at m r' a b c"
      if "r' \<in> R" "a < 512" "b < 512" "c < 512" "\<not> (r' = r \<and> [a, b, c] \<in> vpath ` insert p A)" for r' a b c
    proof -
      have 1: "\<not> (r' = r \<and> [a, b, c] = vpath p)" and 2: "\<not> (r' = r \<and> [a, b, c] \<in> vpath ` A)"
        using that(5) unfolding image_insert by blast+
      show ?thesis using mp0(4) [OF that(1-4) 1] hd(3) [OF that(1-4) 2] by (rule trans)
    qed
    moreover have "tables m1 r \<subseteq> tables m3 r" using extendsD(3) [OF gainsD(1) [OF mp0(2)]] .
    then have "used L m3 \<subseteq> used L m \<union> tables m3 r \<union> heap_frames m3 r (insert p A)"
      using mp0(9) hd(4) same heap_entry_frame [OF n_al] mp0(3) by (fastforce simp: heap_frames_def)
    ultimately show thesis using mp0(1) by (intro that(2)) (auto simp: heap_grown_def)
  qed
qed

text \<open>Giving up: the pages mapped so far are unmapped, and only page tables stay.\<close>

definition heap_restored :: "layout \<Rightarrow> u64 set \<Rightarrow> u64 \<Rightarrow> memory \<Rightarrow> memory \<Rightarrow> bool" where
  "heap_restored L R r m m' \<longleftrightarrow> gains L R r m m' \<and> used L m' \<subseteq> used L m \<union> tables m' r \<and>
     (\<forall>r' \<in> R. \<forall>a b c. a < 512 \<longrightarrow> b < 512 \<longrightarrow> c < 512 \<longrightarrow>
        leaf_at m' r' a b c = leaf_at m r' a b c \<or> r' = r \<and> leaf_at m' r' a b c = 0)"

lemma heap_unmapped:
  assumes wf: "wf_forest L m R" and r: "r \<in> R" and h: "heap_grown L R r (pages_in a p) m m1"
    and range: "page_aligned a" "unat p \<le> 2 ^ 39"
  shows "\<exists>m'. vmm_unmap_range L m1 r a p = Inr m' \<and> heap_restored L R r m m'"
proof -
  note hd = heap_grownD [OF h]
  note wf1 = gains_wf [OF hd(1)]
  have mapped: "user_frame (path_leaf m1 r q) \<noteq> None" if q: "q \<in> pages_in a p" for q
    using hd(2) [OF q] heap_entry_frame by (auto simp: zero_page_def)
  obtain m' where m': "vmm_unmap_range L m1 r a p = Inr m'" and u: "unmapped L R r (pages_in a p) m1 m'"
    by (rule vmm_unmap_range_eq [OF wf1 r range]) (use mapped in blast)
  note ud = unmappedD [OF u]
  have g: "gains L R r m m'"
    by (rule unmapped_gains [OF wf r hd(1) u]) (use hd(2) zero_page_frame in blast)
  have "tables m' r = tables m1 r" using ud(3) [OF r] by (auto simp: tables_def)
  then have "used L m' \<subseteq> used L m \<union> tables m' r"
    using hd(4) unfolding ud(2) heap_frames_def by auto
  moreover have "leaf_at m' r' x y z = leaf_at m r' x y z \<or> r' = r \<and> leaf_at m' r' x y z = 0"
    if i: "r' \<in> R" "x < 512" "y < 512" "z < 512" for r' x y z
  proof (cases "r' = r \<and> [x, y, z] \<in> vpath ` pages_in a p")
    case True
    then obtain q where q: "q \<in> pages_in a p" "x = VPN q 2" "y = VPN q 1" "z = VPN q 0" by blast
    have "has (path_leaf m1 r q) PTE_V" using mapped [OF q(1)] by (auto simp: user_frame_def split: if_splits)
    then have "has (leaf_at m1 r' x y z) PTE_V" using True q(2-4) by (simp add: path_leaf_def)
    then show ?thesis using ud(4) [OF i] True by (simp only: simp_thms if_True)
  next
    case False
    then have "leaf_at m' r' x y z = leaf_at m1 r' x y z"
      unfolding ud(4) [OF i] by (intro if_not_P) blast
    then show ?thesis using hd(3) [OF i False] by simp
  qed
  ultimately have "heap_restored L R r m m'" using g by (simp add: heap_restored_def)
  with m' show ?thesis by blast
qed

lemma sbrk_loop:
  assumes wf: "wf_forest L m R" and r: "r \<in> R" and range: "page_aligned a" "unat e \<le> 2 ^ 39"
  obtains (full) m' where "for_pages (Inl Diverge) (sbrk_page L r a) a e m = Inl (Inr m')" "heap_restored L R r m m'"
  | (grown) m' where "for_pages (Inl Diverge) (sbrk_page L r a) a e m = Inr m'" "heap_grown L R r (pages_in a e) m m'"
proof -
  have step: "case sbrk_page L r a p m1 of
      Inl x \<Rightarrow> \<exists>m'. x = Inr m' \<and> heap_restored L R r m m'
    | Inr m' \<Rightarrow> heap_grown L R r (insert p (pages_in a p)) m m'"
    if h: "heap_grown L R r (pages_in a p) m m1" and p: "p \<in> pages_in a e" for p m1
  proof -
    have "p < e" using p by (simp add: pages_in_def)
    then have p_low: "unat p \<le> 2 ^ 39" using range(2) by (simp add: word_less_nat_alt)
    obtain n m2 where al: "pmm_alloc_page L m1 = (n, m2)" by fastforce
    show ?thesis
    proof (cases "n = 0")
      case True
      then have "m2 = m1" using pmm.al_null al by blast
      then show ?thesis using True al heap_unmapped [OF wf r h range(1) p_low] by (auto simp: sbrk_page_def)
    next
      case n0: False
      obtain x m3 where mp: "map_page L (memset m2 n 0 4096) r p n (PTE_U OR PTE_R OR PTE_W) = (x, m3)" by fastforce
      from h r vpath_fresh [OF range p subset_refl] al n0 mp show ?thesis
      proof (cases rule: heap_grown_step)
        case oom
        then show ?thesis
          using al n0 mp heap_unmapped [OF wf r oom(2) range(1) p_low] by (auto simp: sbrk_page_def)
      next
        case mapped
        then show ?thesis using al n0 mp by (simp add: sbrk_page_def)
      qed
    qed
  qed
  have "case for_pages (Inl Diverge) (sbrk_page L r a) a e m of
      Inl x \<Rightarrow> \<exists>m'. x = Inr m' \<and> heap_restored L R r m m'
    | Inr m' \<Rightarrow> heap_grown L R r (pages_in a e) m m'"
  proof (rule for_pages_exact [OF range])
    show "heap_grown L R r {} m m" by (rule heap_grown_refl [OF wf])
  next
    fix p m1 x assume "heap_grown L R r (pages_in a p) m m1" "p \<in> pages_in a e" "sbrk_page L r a p m1 = Inl x"
    then show "\<exists>m'. x = Inr m' \<and> heap_restored L R r m m'" using step [of p m1] by simp
  next
    fix p m1 m' assume "heap_grown L R r (pages_in a p) m m1" "p \<in> pages_in a e" "sbrk_page L r a p m1 = Inr m'"
    then show "heap_grown L R r (insert p (pages_in a p)) m m'" using step [of p m1] by simp
  qed
  then show thesis using that by (auto split: sum.splits)
qed

text \<open>Three free frames for each page are enough.\<close>

lemma sbrk_page_supply:
  assumes wf: "wf_forest L m R" and r: "r \<in> R" and enough: "3 \<le> frames_left L m"
  shows "\<exists>m'. sbrk_page L r a p m = Inr m' \<and> frames_left L m \<le> frames_left L m' + 3"
proof -
  obtain n m1 where al: "pmm_alloc_page L m = (n, m1)" by fastforce
  let ?m2 = "memset m1 n 0 4096"
  have n0: "n \<noteq> 0" using frames_left_alloc(1) [OF al] enough by auto
  have n_al: "page_aligned n" using pmm.al_page [OF al n0] frame_aligned by blast
  have fill: "same_except {n} m1 ?m2" by (rule same_except_memset [OF n_al]) simp
  note fr = fresh_frame [OF wf al n0 fill]
  have left: "frames_left L m = Suc (frames_left L ?m2)" by (rule frames_left_insert [OF fr(2,3)])
  have ok: "leaf_ok L ?m2 R (heap_entry n)"
    by (rule fresh_leaf_ok [OF wf al n0 fill]) (simp add: heap_entry_frame [OF n_al])
  obtain x m3 where mp: "map_page L ?m2 r p n (PTE_U OR PTE_R OR PTE_W) = (x, m3)" by fastforce
  have x0: "x = 0" by (rule map_page_frames(2) [OF fr(1) r ok mp]) (use left enough in linarith)
  moreover have "frames_left L ?m2 \<le> frames_left L m3 + 2" by (rule map_page_frames(1) [OF fr(1) r ok mp])
  ultimately show ?thesis using al n0 mp left by (simp add: sbrk_page_def)
qed

lemma sbrk_loop_returns:
  assumes wf: "wf_forest L m R" and r: "r \<in> R" and range: "page_aligned a" "unat e \<le> 2 ^ 39"
    and enough: "3 * card (pages_in a e) \<le> frames_left L m"
  shows "\<exists>m'. for_pages (Inl Diverge) (sbrk_page L r a) a e m = Inr m'"
proof -
  let ?P = "pages_in a e"
  let ?J = "\<lambda>A s. gains L R r m s \<and> 3 * card (?P - A) \<le> frames_left L s"
  have key: "\<exists>s'. sbrk_page L r a p s = Inr s' \<and> ?J (insert p (pages_in a p)) s'"
    if J: "?J (pages_in a p) s" and p: "p \<in> ?P" for p s
  proof -
    have wfs: "wf_forest L s R" using J gains_wf by blast
    have "?P - insert p (pages_in a p) = (?P - pages_in a p) - {p}" "p \<in> ?P - pages_in a p"
      using p by (auto simp: pages_in_def)
    then have one: "card (?P - pages_in a p) = Suc (card (?P - insert p (pages_in a p)))"
      by (metis card.remove finite)
    then have "3 \<le> frames_left L s" using J by linarith
    from sbrk_page_supply [OF wfs r this] obtain s' where
      s': "sbrk_page L r a p s = Inr s'" "frames_left L s \<le> frames_left L s' + 3" by blast
    have "gains L R r s s'"
    proof -
      obtain n m1 where al: "pmm_alloc_page L s = (n, m1)" by fastforce
      have n0: "n \<noteq> 0" using frames_left_alloc(1) [OF al] \<open>3 \<le> frames_left L s\<close> by auto
      obtain x m3 where mp: "map_page L (memset m1 n 0 4096) r p n (PTE_U OR PTE_R OR PTE_W) = (x, m3)" by fastforce
      have "x = 0" "s' = m3" using s'(1) al n0 mp by (auto simp: sbrk_page_def split: if_splits)
      then have "heap_grown L R r {p} s s'"
        using heap_grown_step [OF heap_grown_refl [OF wfs] r _ al n0 mp] by auto
      then show ?thesis by (rule heap_grownD(1))
    qed
    then have "gains L R r m s'" using J gains_trans by blast
    moreover have "3 * card (?P - insert p (pages_in a p)) \<le> frames_left L s'"
      using J s'(2) one by linarith
    ultimately show ?thesis using s'(1) by blast
  qed
  have "case for_pages (Inl Diverge) (sbrk_page L r a) a e m of Inl x \<Rightarrow> False | Inr s \<Rightarrow> ?J ?P s"
  proof (rule for_pages_exact [where J = ?J, OF range])
    show "?J {} m" using gains_refl [OF wf] enough by simp
  next
    fix p s x assume "?J (pages_in a p) s" "p \<in> ?P" "sbrk_page L r a p s = Inl x"
    then show False using key by fastforce
  next
    fix p s s' assume "?J (pages_in a p) s" "p \<in> ?P" "sbrk_page L r a p s = Inr s'"
    then show "?J (insert p (pages_in a p)) s'" using key by fastforce
  qed
  then show ?thesis by (auto split: sum.splits)
qed

section \<open>The system call\<close>

text \<open>What \<open>sys_sbrk\<close> does, before the result goes into \<open>a0\<close>.\<close>

definition sbrk_outcome :: "layout \<Rightarrow> nat \<Rightarrow> kernel \<Rightarrow> u64 \<Rightarrow> kernel \<Rightarrow> bool" where
  "sbrk_outcome L c k v k' \<longleftrightarrow>
     (let p = procs k ! c; inc = tf_a0 (frame p); old = heap_break p; new = old + inc; R = roots (procs k)
      in if inc = 0 then v = old \<and> k' = k
         else if sint inc < 0 then v = E_PERM \<and> k' = k
         else if new > heap_max p then v = E_NOMEM \<and> k' = k
         else v = old \<and> (\<exists>m. k' = upd_proc c (\<lambda>p. p\<lparr>heap_break := new\<rparr>) (k\<lparr>mem := m\<rparr>) \<and>
                heap_grown L R (page_table p) (pages_in (page_up old) (page_up new)) (mem k) m) \<or>
              v = E_NOMEM \<and> (\<exists>m. k' = k\<lparr>mem := m\<rparr> \<and> heap_restored L R (page_table p) (mem k) m) \<and>
                frames_left L (mem k) < 3 * card (pages_in (page_up old) (page_up new)))"

lemma sys_sbrk_outcome:
  assumes ok: "kernel_ok L c k"
  shows "\<exists>v k'. sys_sbrk L (ProcFrame c) k = ret (ProcFrame c) v k' \<and> sbrk_outcome L c k v k'"
proof -
  note o = kernel_okD [OF ok]
  let ?p = "procs k ! c"
  let ?inc = "tf_a0 (frame ?p)"
  let ?new = "heap_break ?p + ?inc"
  let ?a = "page_up (heap_break ?p)" and ?e = "page_up ?new"
  note wf = spaces_okD(2) [OF o(6)]
  have r: "page_table ?p \<in> roots (procs k)" by (rule spaces_okD(5) [OF o(6,8)])
  show ?thesis
  proof (cases "?inc = 0 \<or> sint ?inc < 0 \<or> ?new > heap_max ?p")
    case True
    then show ?thesis
      using o(3) by (auto simp: sys_sbrk_def with_current_def sbrk_outcome_def Let_def)
  next
    case False
    have "?new \<le> 0x3FFFE000" using False o(7) [OF o(2)] by (auto simp: process_ok_def)
    then have "unat ?new \<le> 0x3FFFE000" by (simp add: word_le_nat_alt)
    then have e: "unat ?e \<le> 2 ^ 39" using unat_page_up [of ?new] by simp
    have eq: "sys_sbrk L (ProcFrame c) k =
        (case for_pages (Inl Diverge) (sbrk_page L (page_table ?p) ?a) ?a ?e (mem k) of
           Inl (Inl z) \<Rightarrow> Inl z
         | Inl (Inr m) \<Rightarrow> ret (ProcFrame c) E_NOMEM (k\<lparr>mem := m\<rparr>)
         | Inr m \<Rightarrow> ret (ProcFrame c) (heap_break ?p) (upd_proc c (\<lambda>p. p\<lparr>heap_break := ?new\<rparr>) (k\<lparr>mem := m\<rparr>)))"
      using False o(3) by (simp add: sys_sbrk_def with_current_def Let_def page_up_def)
    show ?thesis using wf r page_aligned_up [of "heap_break ?p"] e
    proof (cases rule: sbrk_loop)
      case (full m')
      have "frames_left L (mem k) < 3 * card (pages_in ?a ?e)"
      proof (rule ccontr)
        assume "\<not> ?thesis"
        then have "3 * card (pages_in ?a ?e) \<le> frames_left L (mem k)" by simp
        from sbrk_loop_returns [OF wf r page_aligned_up e this] show False using full(1) by simp
      qed
      then show ?thesis using eq full False
        by (intro exI [of _ E_NOMEM] exI [of _ "k\<lparr>mem := m'\<rparr>"]) (auto simp: sbrk_outcome_def Let_def)
    next
      case (grown m')
      then show ?thesis using eq False
        by (intro exI [of _ "heap_break ?p"] exI [of _ "upd_proc c (\<lambda>p. p\<lparr>heap_break := ?new\<rparr>) (k\<lparr>mem := m'\<rparr>)"])
          (auto simp: sbrk_outcome_def Let_def)
    qed
  qed
qed

section \<open>Properties\<close>

text \<open>
  C14: growing the heap is all or nothing. For a request within the limit, \<open>sys_sbrk\<close> returns,
  and either it answers the old break, the break has moved, and every page of the new range is
  a readable and writable, non-executable user page of zeros whose frame was free before, with
  every other translation of every process unchanged; or it answers \<open>E_NOMEM\<close>, no process has
  changed, no page of the range stays mapped that was not, and what was allocated are page
  tables of the process. With three free frames per page, it succeeds.
\<close>
theorem sbrk_all_or_nothing:
  assumes "kernel_ok L c k" "p = procs k ! c" "inc = tf_a0 (frame p)" "0 < sint inc"
    and "new = heap_break p + inc" "new \<le> heap_max p"
    and "A = pages_in (page_up (heap_break p)) (page_up new)"
  shows "\<exists>v k'. sys_sbrk L (ProcFrame c) k = ret (ProcFrame c) v k' \<and>
    (v = heap_break p \<and> procs k' = (procs k)[c := p\<lparr>heap_break := new\<rparr>] \<and>
       (\<forall>q \<in> A. \<exists>n. path_leaf (mem k') (page_table p) q = PA_TO_PTE n OR (PTE_U OR PTE_R OR PTE_W) OR PTE_V \<and>
          n \<notin> used L (mem k) \<and> page_aligned n \<and> (\<forall>j < 4096. mem k' (n + of_nat j) = 0)) \<and>
       (\<forall>r \<in> roots (procs k). \<forall>x y z. x < 512 \<longrightarrow> y < 512 \<longrightarrow> z < 512 \<longrightarrow> \<not> (r = page_table p \<and> [x, y, z] \<in> vpath ` A) \<longrightarrow>
          leaf_at (mem k') r x y z = leaf_at (mem k) r x y z)
     \<or> v = E_NOMEM \<and> frames_left L (mem k) < 3 * card A \<and> procs k' = procs k \<and>
       used L (mem k') \<subseteq> used L (mem k) \<union> tables (mem k') (page_table p) \<and>
       (\<forall>r \<in> roots (procs k). \<forall>x y z. x < 512 \<longrightarrow> y < 512 \<longrightarrow> z < 512 \<longrightarrow>
          leaf_at (mem k') r x y z = leaf_at (mem k) r x y z \<or> r = page_table p \<and> leaf_at (mem k') r x y z = 0))"
proof -
  obtain v k' where run: "sys_sbrk L (ProcFrame c) k = ret (ProcFrame c) v k'" and out: "sbrk_outcome L c k v k'"
    using sys_sbrk_outcome [OF assms(1)] by blast
  have inc: "inc \<noteq> 0" "\<not> sint inc < 0" "\<not> new > heap_max p" using assms(4,6) by auto
  from out inc consider
    (grown) m where "v = heap_break p" "k' = upd_proc c (\<lambda>p. p\<lparr>heap_break := new\<rparr>) (k\<lparr>mem := m\<rparr>)"
      "heap_grown L (roots (procs k)) (page_table p) A (mem k) m"
  | (full) m where "v = E_NOMEM" "k' = k\<lparr>mem := m\<rparr>" "heap_restored L (roots (procs k)) (page_table p) (mem k) m"
      "frames_left L (mem k) < 3 * card A"
    unfolding sbrk_outcome_def Let_def assms(2,3,5,7) by auto
  then show ?thesis
  proof cases
    case grown
    note h = grown(3) [unfolded heap_grown_def zero_page_def]
    have m: "mem k' = m" and p: "procs k' = (procs k)[c := p\<lparr>heap_break := new\<rparr>]" using grown(2) assms(2) by simp_all
    show ?thesis
      by (rule exI [of _ v], rule exI [of _ k'], unfold m, intro conjI disjI1)
        (rule run grown(1) p conjunct1 [OF conjunct2 [OF h]] conjunct1 [OF conjunct2 [OF conjunct2 [OF h]]])+
  next
    case full
    note h = full(3) [unfolded heap_restored_def]
    have m: "mem k' = m" and p: "procs k' = procs k" using full(2) by simp_all
    show ?thesis
      by (rule exI [of _ v], rule exI [of _ k'], unfold m, intro conjI disjI2)
        (rule run full(1,4) p conjunct1 [OF conjunct2 [OF h]] conjunct2 [OF conjunct2 [OF h]])+
  qed
qed

text \<open>The sample process asks for its first page.\<close>

lemma sbrk_all_or_nothing_witness:
  "\<exists>v k'. sys_sbrk sample_layout (ProcFrame 0) (upd_frame (ProcFrame 0) (\<lambda>f. f\<lparr>tf_a0 := 4096\<rparr>) sample_machine) =
      ret (ProcFrame 0) v k' \<and> (v = heap_break (procs sample_machine ! 0) \<or> v = E_NOMEM)"
proof -
  let ?k = "upd_frame (ProcFrame 0) (\<lambda>f. f\<lparr>tf_a0 := 4096\<rparr>) sample_machine"
  have p: "procs ?k ! 0 = (procs sample_machine ! 0)\<lparr>frame := (frame (procs sample_machine ! 0))\<lparr>tf_a0 := 4096\<rparr>\<rparr>"
    by (simp add: sample_machine_procs)
  have lim: "heap_break (procs ?k ! 0) + 4096 \<le> heap_max (procs ?k ! 0)"
    unfolding p by (simp add: sample_machine_procs sample_process_def)
  have inc: "tf_a0 (frame (procs ?k ! 0)) = 4096" unfolding p by simp
  have ok: "kernel_ok sample_layout 0 ?k" by (rule kernel_ok_frame [OF sample_machine_ok])
  from sbrk_all_or_nothing [OF ok refl refl _ refl _ refl] lim
  show ?thesis unfolding inc p by auto
qed

end
