(* ===== verification/Fork.thy ===== *)
theory Fork
  imports Isolation
begin

text \<open>
  \<open>SYS_FORK\<close>: the child is a copy of its parent in a slot that was unused, with private copies
  of all its user pages; a failure changes no process.
\<close>

section \<open>What a fork leaves\<close>

text \<open>The parent and the child in the process table.\<close>

definition forked_child :: "process \<Rightarrow> u32 \<Rightarrow> process \<Rightarrow> bool" where
  "forked_child parent new_pid kid \<longleftrightarrow>
     state kid = PROC_READY \<and> pid kid = new_pid \<and> parent_pid kid = pid parent \<and>
     heap_break kid = heap_break parent \<and> heap_max kid = heap_max parent \<and>
     open_files kid = open_files parent \<and>
     frame kid = (frame parent)\<lparr>tf_kernel_sp := kernel_stack kid + 4096, tf_a0 := 0\<rparr>"

definition forked :: "layout \<Rightarrow> nat \<Rightarrow> kernel \<Rightarrow> nat \<Rightarrow> kernel \<Rightarrow> bool" where
  "forked L c k n k' \<longleftrightarrow>
     n < 64 \<and> state (procs k ! n) = PROC_UNUSED \<and> next_pid k' = next_pid k + 1 \<and>
     current k' = current k \<and> satp k' = satp k \<and> rx k' = rx k \<and>
     keeps L (mem k) (mem k') \<and> (\<forall>r \<in> roots (procs k). \<forall>p. tree (mem k') r p = tree (mem k) r p) \<and>
     (let parent = procs k ! c; kid = procs k' ! n in
        procs k' = (procs k)[c := parent\<lparr>frame := (frame parent)\<lparr>tf_a0 := scast (next_pid k)\<rparr>\<rparr>, n := kid] \<and>
        forked_child parent (next_pid k) kid \<and>
        page_table kid \<notin> roots (procs k) \<and> kernel_stack kid \<notin> stacks (procs k) \<and>
        (\<forall>i j l. i < 512 \<longrightarrow> j < 512 \<longrightarrow> l < 512 \<longrightarrow>
           (if i < 2 \<and> user_frame (leaf_at (mem k) (page_table parent) i j l) \<noteq> None
            then private_copy L (mem k) (mem k') (leaf_at (mem k) (page_table parent) i j l)
                   (leaf_at (mem k') (page_table kid) i j l)
            else user_frame (leaf_at (mem k') (page_table kid) i j l) = None)) \<and>
        guarded (mem k') (page_table kid))"

abbreviation fork_stop :: "layout \<Rightarrow> nat \<Rightarrow> kernel \<Rightarrow> stop \<Rightarrow> bool" where
  "fork_stop L c k z \<equiv> z = map_kernel_oom \<or> copy_stop (mem k) (page_table (procs k ! c)) z"

section \<open>The system call\<close>

text \<open>A private copy made later is one relative to the memory before.\<close>

lemma private_copy_keeps:
  assumes wf: "wf_forest L m R" and r: "r \<in> R" and k: "keeps L m m1"
    and t: "user_frame (leaf_at m r i j l) \<noteq> None" "i < 512" "j < 512" "l < 512"
    and c: "private_copy L m1 m2 (leaf_at m r i j l) e'"
  shows "private_copy L m m2 (leaf_at m r i j l) e'"
proof -
  let ?e = "leaf_at m r i j l"
  have tr: "tree m r [i, j, l] = Some (PTE_TO_PA ?e)"
    using t tree_leaf [OF t(2-4), of m r] by (auto simp: user_frame_def split: if_splits)
  have "m1 (PTE_TO_PA ?e + of_nat x) = m (PTE_TO_PA ?e + of_nat x)" if "x < 4096" for x
  proof (rule keepsD [OF k])
    have "page_base (PTE_TO_PA ?e + of_nat x) = PTE_TO_PA ?e" using wf_page [OF wf r tr] that by (rule page_base_add)
    then show "page_base (PTE_TO_PA ?e + of_nat x) \<in> used L m" "page_base (PTE_TO_PA ?e + of_nat x) \<noteq> image_end L"
      using wf_used [OF wf r tr] wf_not_bitmap [OF wf r tr] by simp_all
  qed
  then show ?thesis using c keeps_used [OF k] by (auto simp: private_copy_def)
qed

lemma upd_proc_id [simp]: "upd_proc c (\<lambda>p. p\<lparr>frame := frame (procs k ! c)\<rparr>) k = k"
  by (simp add: upd_proc_def)

text \<open>The last part of the handler, from the point where \<open>alloc_proc\<close> has succeeded.\<close>

definition fork_child :: "nat \<Rightarrow> nat \<Rightarrow> kernel \<Rightarrow> kernel" where
  "fork_child c n k2 =
     (let parent = procs k2 ! c; kid = procs k2 ! n
      in k2\<lparr>procs := (procs k2)[c := parent\<lparr>frame := (frame parent)\<lparr>tf_a0 := scast (pid kid)\<rparr>\<rparr>,
           n := kid\<lparr>parent_pid := pid parent, heap_break := heap_break parent, heap_max := heap_max parent,
                  open_files := open_files parent,
                  frame := (frame parent)\<lparr>tf_kernel_sp := tf_kernel_sp (frame kid), tf_a0 := 0\<rparr>\<rparr>]\<rparr>)"

lemma sys_fork_child:
  assumes "alloc_proc L k = Inr (Some n, k2)" "current k = Some c" "n \<noteq> c" "n < length (procs k2)" "c < length (procs k2)"
  shows "sys_fork L (ProcFrame c) k =
    bind_stop (vmm_copy_uvm L (page_table (procs k2 ! c)) (page_table (procs k2 ! n)) 2 (mem k2))
      (\<lambda>m. Inr (ProcFrame c, upd_proc n (\<lambda>p. p\<lparr>state := PROC_READY\<rparr>) ((fork_child c n k2)\<lparr>mem := m\<rparr>)))"
  using assms
  by (simp add: sys_fork_def with_current_def Let_def fork_child_def upd_proc_def list_update_swap)

lemma sys_fork_cases:
  assumes L: "layout_ok L" and ok: "kernel_ok L c k"
  obtains (stop) z where "sys_fork L (ProcFrame c) k = Inl z" "fork_stop L c k z"
  | (again) k' where "sys_fork L (ProcFrame c) k = ret (ProcFrame c) E_AGAIN k'" "no_process L k k'" "table_ok L k'"
  | (forked) n k' where "sys_fork L (ProcFrame c) k = Inr (ProcFrame c, k')" "forked L c k n k'" "table_ok L k'"
proof -
  note o = kernel_okD [OF ok]
  show thesis using L o(10)
  proof (cases rule: alloc_proc_cases)
    case s: stop
    then show thesis using o(3) by (intro stop [of map_kernel_oom]) (simp_all add: sys_fork_def with_current_def)
  next
    case (none k')
    then show thesis using o(3) by (intro again [of k']) (simp_all add: sys_fork_def with_current_def)
  next
    case (proc n k2)
    note f = proc(2) [unfolded fresh_process_def Let_def]
    let ?r = "page_table (procs k ! c)" and ?r' = "page_table (procs k2 ! n)"
    have n: "n < 64" "state (procs k ! n) = PROC_UNUSED" "n \<noteq> c" using f o(4) by auto
    have ps2: "procs k2 = (procs k)[n := procs k2 ! n]" using f by blast
    have c2: "procs k2 ! c = procs k ! c" using ps2 n(3) nth_list_update_neq by metis
    have len2: "length (procs k2) = 64" using ps2 o(1) by (metis length_list_update)
    have eq: "sys_fork L (ProcFrame c) k =
      bind_stop (vmm_copy_uvm L ?r ?r' 2 (mem k2))
        (\<lambda>m. Inr (ProcFrame c, upd_proc n (\<lambda>p. p\<lparr>state := PROC_READY\<rparr>) ((fork_child c n k2)\<lparr>mem := m\<rparr>)))"
      using sys_fork_child [OF proc(1) o(3) n(3)] n(1) o(2) len2 c2 by simp
    have sp2: "spaces_ok L (mem k2) (procs k2)" using proc(3) by (simp add: table_ok_def)
    let ?R2 = "roots (procs k2)"
    note wf = spaces_okD(2) [OF o(6)] and wf2 = spaces_okD(2) [OF sp2]
    have r: "?r \<in> roots (procs k)" by (rule spaces_okD(5) [OF o(6,8)])
    have live2: "n \<in> live (procs k2)" "c \<in> live (procs k2)" using f o(2,4) len2 c2 by (auto simp: live_def)
    have r2: "?r \<in> ?R2" "?r' \<in> ?R2"
      using spaces_okD(5) [OF sp2 live2(2)] spaces_okD(5) [OF sp2 live2(1)] c2 by simp_all
    have ne: "?r \<noteq> ?r'" using f r by auto
    have kp: "keeps L (mem k) (mem k2)" and tr: "\<And>r p. r \<in> roots (procs k) \<Longrightarrow> tree (mem k2) r p = tree (mem k) r p"
      using f by blast+
    have leaf2: "leaf_at (mem k2) ?r i j l = leaf_at (mem k) ?r i j l" if "l < 512" for i j l
      by (rule keeps_leaf [OF wf r kp tr [OF r] that])
    note cp = vmm_copy_uvm_cases [OF wf2 r2 ne]
    show thesis
    proof (cases "vmm_copy_uvm L ?r ?r' 2 (mem k2)")
      case (Inl z)
      then have "copy_stop (mem k2) ?r z" using cp by simp
      then have "copy_stop (mem k) ?r z" using leaf2 by (auto simp: copy_stop_def)
      then show thesis using eq Inl by (intro stop [of z]) simp_all
    next
      case (Inr m)
      then have cd: "copied L ?R2 ?r ?r' (user_paths []) (mem k2) m" using cp by simp
      have g: "gains L ?R2 ?r' (mem k2) m" by (rule copied_gains [OF wf2 r2(2) cd])
      let ?k' = "upd_proc n (\<lambda>p. p\<lparr>state := PROC_READY\<rparr>) ((fork_child c n k2)\<lparr>mem := m\<rparr>)"
      let ?child = "procs ?k' ! n"
      have kp': "keeps L (mem k) m" by (rule keeps_gains(1) [OF kp g]) (use f in blast)
      have tr': "tree m r p = tree (mem k) r p" if "r \<in> roots (procs k)" for r p
      proof -
        have "r \<noteq> ?r'" using f that by auto
        moreover have "roots (procs k2) = insert ?r' (roots (procs k))"
          using live_insert(3) [of n "procs k" "procs k2 ! n"] n(1,2) o(1) f ps2 by simp
        ultimately show ?thesis using extendsD(6) [OF gainsD(1) [OF g], of r p] tr [OF that] that by simp
      qed
      have kid: "?child = (procs k2 ! n)\<lparr>state := PROC_READY, parent_pid := pid (procs k ! c),
          heap_break := heap_break (procs k ! c), heap_max := heap_max (procs k ! c),
          open_files := open_files (procs k ! c),
          frame := (frame (procs k ! c))\<lparr>tf_kernel_sp := tf_kernel_sp (frame (procs k2 ! n)), tf_a0 := 0\<rparr>\<rparr>"
        using n(1) len2 c2 by (simp add: fork_child_def Let_def)
      have ps': "procs ?k' = (procs k)[c := (procs k ! c)\<lparr>frame := (frame (procs k ! c))\<lparr>tf_a0 := scast (next_pid k)\<rparr>\<rparr>,
          n := ?child]"
      proof -
        have "pid (procs k2 ! n) = next_pid k" using f by blast
        then have "procs ?k' = (procs k2)[c := (procs k ! c)\<lparr>frame := (frame (procs k ! c))\<lparr>tf_a0 := scast (next_pid k)\<rparr>\<rparr>,
          n := ?child]"
          using n(1) len2 c2 by (simp add: fork_child_def Let_def)
        also have "\<dots> = ((procs k)[n := procs k2 ! n])[c := (procs k ! c)\<lparr>frame := (frame (procs k ! c))\<lparr>tf_a0 := scast (next_pid k)\<rparr>\<rparr>,
          n := ?child]"
          using ps2 by (rule arg_cong)
        also have "\<dots> = (procs k)[c := (procs k ! c)\<lparr>frame := (frame (procs k ! c))\<lparr>tf_a0 := scast (next_pid k)\<rparr>\<rparr>,
          n := ?child]"
          using n(3) by (subst list_update_swap) simp_all
        finally show ?thesis .
      qed
      have user: "if i < 2 \<and> user_frame (leaf_at (mem k) ?r i j l) \<noteq> None
            then private_copy L (mem k) m (leaf_at (mem k) ?r i j l) (leaf_at m ?r' i j l)
            else user_frame (leaf_at m ?r' i j l) = None"
        if i: "i < 512" "j < 512" "l < 512" for i j l
      proof (cases "i < 2 \<and> user_frame (leaf_at (mem k) ?r i j l) \<noteq> None")
        case True
        then have "private_copy L (mem k2) m (leaf_at (mem k) ?r i j l) (leaf_at m ?r' i j l)"
          using copiedD(2) [OF cd i] leaf2 [OF i(3)] by (simp add: user_paths_def)
        then show ?thesis using True private_copy_keeps [OF wf r kp _ i] by simp
      next
        case False
        then have "leaf_at m ?r' i j l = leaf_at (mem k2) ?r' i j l"
          using copiedD(3) [OF cd i] leaf2 [OF i(3)] by (auto simp: user_paths_def)
        moreover have "user_frame (leaf_at (mem k2) ?r' i j l) = None" using f i by blast
        ultimately show ?thesis unfolding if_not_P [OF False] by simp
      qed
      have gd: "guarded m ?r'"
      proof (rule guarded_leaves)
        show "guarded (mem k2) ?r'" using f by blast
        show "leaf_at m ?r' i j l = leaf_at (mem k2) ?r' i j l \<or> \<not> has (leaf_at m ?r' i j l) PTE_V \<or>
            has (leaf_at m ?r' i j l) PTE_U \<or> 0xC000 \<le> page_number i j l \<and> i < 256"
          if i: "i < 512" "j < 512" "l < 512" for i j l
        proof (cases "[i, j, l] \<in> user_paths [] \<and> user_frame (leaf_at (mem k2) ?r i j l) \<noteq> None")
          case True
          then have "user_frame (leaf_at m ?r' i j l) \<noteq> None" using copiedD(2) [OF cd i] by (auto simp: private_copy_def)
          then show ?thesis by (auto simp: user_frame_def split: if_splits)
        next
          case False
          then show ?thesis using copiedD(3) [OF cd i] by blast
        qed
      qed
      have "forked L c k n ?k'"
        unfolding forked_def Let_def
      proof (intro conjI)
        show "procs ?k' = (procs k)[c := (procs k ! c)\<lparr>frame := (frame (procs k ! c))\<lparr>tf_a0 := scast (next_pid k)\<rparr>\<rparr>,
          n := ?child]" by (rule ps')
        show "forked_child (procs k ! c) (next_pid k) ?child"
          unfolding forked_child_def kid using f by simp
        show "page_table ?child \<notin> roots (procs k)" "kernel_stack ?child \<notin> stacks (procs k)"
          unfolding kid using f by simp_all
        show "\<forall>i j l. i < 512 \<longrightarrow> j < 512 \<longrightarrow> l < 512 \<longrightarrow>
           (if i < 2 \<and> user_frame (leaf_at (mem k) ?r i j l) \<noteq> None
            then private_copy L (mem k) (mem ?k') (leaf_at (mem k) ?r i j l) (leaf_at (mem ?k') (page_table ?child) i j l)
            else user_frame (leaf_at (mem ?k') (page_table ?child) i j l) = None)"
          unfolding kid using user by simp
        show "guarded (mem ?k') (page_table ?child)" unfolding kid using gd by simp
        show "next_pid ?k' = next_pid k + 1" "current ?k' = current k" "satp ?k' = satp k" "rx ?k' = rx k"
          using f by (simp_all add: fork_child_def Let_def same_rest_def)
        show "keeps L (mem k) (mem ?k')" "\<forall>r \<in> roots (procs k). \<forall>p. tree (mem ?k') r p = tree (mem k) r p"
          using kp' tr' by simp_all
      qed (use n in simp_all)
      moreover have "table_ok L ?k'"
      proof -
        have nth: "procs ?k' ! i = (if i = n then ?child else if i = c
            then (procs k ! c)\<lparr>frame := (frame (procs k ! c))\<lparr>tf_a0 := scast (next_pid k)\<rparr>\<rparr> else procs k2 ! i)"
          if "i < 64" for i
          using that n(1,3) len2 c2 f by (simp add: fork_child_def Let_def nth_list_update)
        have "process_ok (procs ?k' ! i)" if i: "i < 64" for i
          unfolding nth [OF i] kid using o(7) [OF o(2)] proc(3) i len2
          by (auto simp: process_ok_def table_ok_def)
        then have all: "\<forall>p \<in> set (procs ?k'). process_ok p"
          using len2 by (auto simp: in_set_conv_nth fork_child_def Let_def)
        have "owned L m ?R2 (stacks (procs k2))" by (rule gains_owned [OF spaces_okD(1) [OF sp2] g])
        then have "spaces_ok L (mem ?k') (procs k2)" using sp2 by (simp add: spaces_ok_def)
        then have "spaces_ok L (mem ?k') (procs ?k')"
        proof (rule spaces_ok_cong)
          show "length (procs ?k') = length (procs k2)" by (simp add: fork_child_def Let_def)
          fix i assume "i < length (procs k2)"
          then have i: "i < 64" using len2 by simp
          show "(state (procs ?k' ! i) = PROC_UNUSED) = (state (procs k2 ! i) = PROC_UNUSED)"
            unfolding nth [OF i] kid using f c2 by simp
          show "page_table (procs ?k' ! i) = page_table (procs k2 ! i) \<and> kernel_stack (procs ?k' ! i) = kernel_stack (procs k2 ! i)"
            unfolding nth [OF i] kid using c2 by simp
        qed
        with all show ?thesis using len2 by (simp add: table_ok_def fork_child_def Let_def)
      qed
      ultimately show thesis using eq Inr by (intro forked [of ?k' n]) simp_all
    qed
  qed
qed

section \<open>The invariant\<close>

text \<open>The parent goes on in a kernel that is still well formed.\<close>

lemma no_process_ok:
  assumes ok: "kernel_ok L c k" and np: "no_process L k k'" and t: "table_ok L k'"
  shows "kernel_ok L c k'" "isolated c k k'"
proof -
  note o = kernel_okD [OF ok]
  note n = np [unfolded no_process_def same_rest_def]
  have rest: "current k' = current k" "satp k' = satp k" using n by blast+
  have nth: "procs k' ! i = procs k ! i" if "i < 64" "state (procs k ! i) \<noteq> PROC_UNUSED" for i
    using n that by auto
  have unused: "state (procs k' ! i) = PROC_UNUSED" if "i < 64" "state (procs k ! i) = PROC_UNUSED" for i
    using n that by auto
  have cur: "procs k' ! c = procs k ! c" using nth [OF o(2)] o(4) by simp
  have "\<forall>i < 64. state (procs k' ! i) = PROC_RUNNING \<longrightarrow> i = c"
  proof (intro allI impI)
    fix i :: nat assume i: "i < 64" "state (procs k' ! i) = PROC_RUNNING"
    then have "state (procs k ! i) \<noteq> PROC_UNUSED" using unused by fastforce
    then show "i = c" using o(9) [OF i(1)] nth [OF i(1)] i(2) by simp
  qed
  then have "parked L c k'" using t o(2,3) rest by (simp add: parked_def)
  then show "kernel_ok L c k'" using cur o(4,5) rest by (simp add: kernel_ok_def)
  show "isolated c k k'"
    unfolding isolated_def
  proof (intro allI impI)
    fix i :: nat assume i: "i < 64" "state (procs k ! i) \<noteq> PROC_UNUSED"
    then have "page_table (procs k ! i) \<in> roots (procs k)"
      using o(1) by (intro spaces_okD(5) [OF o(6)]) (simp add: live_def)
    then have "untouched (mem k) (mem k') (page_table (procs k ! i))"
      using n by (intro untouched_keeps [OF spaces_okD(2) [OF o(6)]]) blast+
    then show "same_process (procs k ! i) (procs k' ! i) \<and> frame (procs k' ! i) = frame (procs k ! i) \<and>
        untouched (mem k) (mem k') (page_table (procs k ! i))"
      using nth [OF i] by simp
  qed
qed

lemma forked_ok:
  assumes ok: "kernel_ok L c k" and fk: "forked L c k n k'" and t: "table_ok L k'"
  shows "kernel_ok L c k'" "isolated c k k'"
proof -
  note o = kernel_okD [OF ok]
  note f = fk [unfolded forked_def Let_def forked_child_def]
  let ?pc = "(procs k ! c)\<lparr>frame := (frame (procs k ! c))\<lparr>tf_a0 := scast (next_pid k)\<rparr>\<rparr>"
  have nc: "n \<noteq> c" using f o(4) by auto
  have ps: "procs k' = (procs k)[c := ?pc, n := procs k' ! n]" using f by blast
  have nth: "procs k' ! i = (if i = c then ?pc else procs k ! i)" if "i < 64" "i \<noteq> n" for i
  proof -
    have "procs k' ! i = (procs k)[c := ?pc, n := procs k' ! n] ! i" using ps by (rule arg_cong)
    then show ?thesis using that o(1) by simp
  qed
  have rest: "current k' = current k" "satp k' = satp k" "state (procs k' ! n) = PROC_READY" using f by blast+
  have "\<forall>i < 64. state (procs k' ! i) = PROC_RUNNING \<longrightarrow> i = c"
  proof (intro allI impI)
    fix i :: nat assume i: "i < 64" "state (procs k' ! i) = PROC_RUNNING"
    then have "i \<noteq> n" using rest(3) by auto
    then show "i = c" using nth [OF i(1)] o(9) [OF i(1)] i(2) by (cases "i = c") simp_all
  qed
  then have "parked L c k'" using t rest o(2,3) by (simp add: parked_def)
  then show "kernel_ok L c k'" using nth [OF o(2)] nc o(4,5) rest by (simp add: kernel_ok_def)
  show "isolated c k k'"
    unfolding isolated_def
  proof (intro allI impI)
    fix i :: nat assume i: "i < 64" "i \<noteq> c" "state (procs k ! i) \<noteq> PROC_UNUSED"
    then have "i \<noteq> n" using f by auto
    then have "procs k' ! i = procs k ! i" using nth i by simp
    moreover have "page_table (procs k ! i) \<in> roots (procs k)"
      using o(1) i by (intro spaces_okD(5) [OF o(6)]) (simp add: live_def)
    then have "untouched (mem k) (mem k') (page_table (procs k ! i))"
      using f by (intro untouched_keeps [OF spaces_okD(2) [OF o(6)]]) blast+
    ultimately show "same_process (procs k ! i) (procs k' ! i) \<and> frame (procs k' ! i) = frame (procs k ! i) \<and>
        untouched (mem k) (mem k') (page_table (procs k ! i))" by simp
  qed
qed

lemma sys_fork_ok:
  assumes L: "layout_ok L" and ok: "kernel_ok L c k"
  shows "trap_ok L c k (sys_fork L (ProcFrame c) k)"
  using assms
proof (cases rule: sys_fork_cases)
  case (again k')
  then show ?thesis using trap_ok_ret no_process_ok [OF ok again(2,3)] by simp
next
  case (forked n k')
  then show ?thesis using trap_ok_resume forked_ok [OF ok forked(2,3)] by simp
qed simp

section \<open>Properties\<close>

text \<open>
  C9: \<open>fork\<close> makes an independent copy. It stops the kernel only when memory runs out while
  tables are built (or on a corrupt entry), and returns \<open>E_AGAIN\<close> with every process in use
  unchanged; otherwise the child sits in a slot that was unused, ready to run with the
  parent's registers except \<open>a0\<close> = 0 and its own kernel stack, the parent's files and heap
  limits, and for each user page of the parent a frame of its own that was free before and
  holds the same bytes at the same address with the same permissions; the parent gets the new
  pid in \<open>a0\<close>, and no other process and no frame in use is touched.
\<close>
theorem fork_copies_process:
  assumes "layout_ok L" "kernel_ok L c k"
  shows "case sys_fork L (ProcFrame c) k of
      Inl z \<Rightarrow> fork_stop L c k z
    | Inr (q, k') \<Rightarrow> q = ProcFrame c \<and>
        ((\<exists>n. forked L c k n k') \<or>
         (\<exists>k1. no_process L k k1 \<and> k' = upd_frame (ProcFrame c) (\<lambda>f. f\<lparr>tf_a0 := E_AGAIN\<rparr>) k1))"
  using assms
proof (cases rule: sys_fork_cases)
  case (again k')
  then show ?thesis unfolding again(1) ret_def by auto
qed auto

lemma fork_copies_process_witness:
  "case sys_fork sample_layout (ProcFrame 0) sample_machine of
      Inl z \<Rightarrow> fork_stop sample_layout 0 sample_machine z
    | Inr (q, k') \<Rightarrow> q = ProcFrame 0 \<and>
        ((\<exists>n. forked sample_layout 0 sample_machine n k') \<or>
         (\<exists>k1. no_process sample_layout sample_machine k1 \<and>
            k' = upd_frame (ProcFrame 0) (\<lambda>f. f\<lparr>tf_a0 := E_AGAIN\<rparr>) k1))"
  by (rule fork_copies_process [OF sample_layout_ok sample_machine_ok])

end
