(* ===== verification/Elf_Spec.thy ===== *)
theory Elf_Spec
  imports Process_Life
begin

text \<open>
  What \<open>load_elf\<close> does to an address space: it only adds pages made of free frames, and never one
  that is both writable and executable.
\<close>

section \<open>Flags and sizes\<close>

lemma flag_word_small: "unat f < 2 ^ 10 \<Longrightarrow> flag_word f"
  unfolding flag_word_def using small_bits by blast

lemma segment_flags_bits:
  "flag_word (segment_flags pf)" "has (segment_flags pf) PTE_U"
  "has (segment_flags pf) PTE_R \<longleftrightarrow> pf AND PF_R \<noteq> 0" "has (segment_flags pf) PTE_W \<longleftrightarrow> pf AND PF_W \<noteq> 0"
  "has (segment_flags pf) PTE_X \<longleftrightarrow> pf AND PF_X \<noteq> 0 \<and> \<not> pf AND PF_W \<noteq> 0"
proof -
  note pte = PTE_U_def PTE_R_def PTE_W_def PTE_X_def
  have eq: "segment_flags pf = 16 + (if pf AND PF_R \<noteq> 0 then 2 else 0) + (if pf AND PF_W \<noteq> 0 then 4 else 0)
      + (if pf AND PF_X \<noteq> 0 \<and> \<not> pf AND PF_W \<noteq> 0 then 8 else 0)"
    by (simp add: segment_flags_def Let_def pte)
  show "flag_word (segment_flags pf)" by (rule flag_word_small) (simp add: eq)
  show "has (segment_flags pf) PTE_U" "has (segment_flags pf) PTE_R \<longleftrightarrow> pf AND PF_R \<noteq> 0"
    "has (segment_flags pf) PTE_W \<longleftrightarrow> pf AND PF_W \<noteq> 0"
    "has (segment_flags pf) PTE_X \<longleftrightarrow> pf AND PF_X \<noteq> 0 \<and> \<not> pf AND PF_W \<noteq> 0"
    unfolding eq by (simp_all add: has_def pte)
qed

lemma copy_size_le: "unat (copy_size f cur) \<le> 4096"
proof (cases "cur + 4096 > f \<and> f > cur")
  case True
  then have lt: "unat cur < unat f" "unat f < unat (cur + 4096)" by (simp_all add: word_less_nat_alt)
  then have "\<not> cur + 4096 < cur" by (simp add: word_less_nat_alt)
  then have "unat (cur + 4096) = unat cur + 4096" using unat_add_nowrap [of cur 4096] by simp
  moreover have "unat (f - cur) = unat f - unat cur" using lt by (simp add: unat_sub_if_size word_size)
  ultimately show ?thesis using True lt by (simp add: copy_size_def)
qed (auto simp: copy_size_def)

lemma copy_size_exact:
  assumes "unat cur + 4096 < 18446744073709551616"
  shows "unat (copy_size f cur) = min 4096 (unat f - unat cur)"
proof -
  have u: "unat (cur + 4096) = unat cur + 4096" using unat_add_of_nat [of cur 4096] assms by simp
  consider "unat f \<le> unat cur" | "unat cur < unat f" "unat f < unat cur + 4096" | "unat cur + 4096 \<le> unat f"
    by linarith
  then show ?thesis
  proof cases
    case 1
    then show ?thesis using u by (simp add: copy_size_def word_less_nat_alt)
  next
    case 2
    then have "unat (f - cur) = unat f - unat cur" by (simp add: unat_sub_if_size word_size)
    then show ?thesis using u 2 by (simp add: copy_size_def word_less_nat_alt)
  next
    case 3
    then show ?thesis using u by (simp add: copy_size_def word_less_nat_alt)
  qed
qed

section \<open>One page\<close>

definition loads :: "layout \<Rightarrow> u64 set \<Rightarrow> u64 \<Rightarrow> kernel \<Rightarrow> kernel \<Rightarrow> bool" where
  "loads L R r k k' \<longleftrightarrow> (\<exists>m c. k' = k\<lparr>mem := m, console := c\<rparr> \<and> gains L R r (mem k) m)"

lemma loads_refl: "wf_forest L (mem k) R \<Longrightarrow> loads L R r k k"
  unfolding loads_def by (intro exI [of _ "mem k"] exI [of _ "console k"]) (simp add: gains_refl)

lemma loads_trans: "loads L R r k k' \<Longrightarrow> loads L R r k' k'' \<Longrightarrow> loads L R r k k''"
  unfolding loads_def using gains_trans by fastforce

lemma loads_gains: "loads L R r k k' \<Longrightarrow> gains L R r (mem k) (mem k')"
  by (auto simp: loads_def)

lemma loads_same: "loads L R r k k' \<Longrightarrow> procs k' = procs k" "loads L R r k k' \<Longrightarrow> same_rest k k'"
  "loads L R r k k' \<Longrightarrow> next_pid k' = next_pid k"
  by (auto simp: loads_def same_rest_def)

text \<open>The bytes \<open>load_page\<close> puts into the frame \<open>n\<close> before it maps it.\<close>

definition page_filled :: "u64 \<Rightarrow> u64 \<Rightarrow> u64 \<Rightarrow> u64 \<Rightarrow> u64 \<Rightarrow> memory \<Rightarrow> memory" where
  "page_filled n elf ph offset cur m1 =
     (let m2 = memset m1 n 0 4096; c = copy_size (p_filesz m2 ph) cur
      in if c > 0 then memcpy m2 n (elf + offset + cur) c else m2)"

lemma page_filled_same: "page_aligned n \<Longrightarrow> same_except {n} m1 (page_filled n elf ph offset cur m1)"
proof -
  assume n: "page_aligned n"
  let ?m2 = "memset m1 n 0 4096"
  have a: "same_except {n} m1 ?m2" by (rule same_except_memset [OF n]) simp
  have "same_except {n} ?m2 (memcpy ?m2 n (elf + offset + cur) (copy_size (p_filesz ?m2 ph) cur))"
    by (rule same_except_memcpy [OF n copy_size_le])
  then have "same_except {n} m1 (memcpy ?m2 n (elf + offset + cur) (copy_size (p_filesz ?m2 ph) cur))"
    by (rule same_except_trans [OF a]) simp
  then show ?thesis using a by (simp add: page_filled_def Let_def)
qed

abbreviation elf_oom :: stop where
  "elf_oom \<equiv> Panic ''PANIC: Out of memory loading ELF!''"

lemma load_page_cases:
  assumes wf: "wf_forest L (mem k) R" and r: "page_table (procs k ! i) = r" "r \<in> R"
  obtains (stop) "load_page L i elf ph vaddr offset cur k = Inl (Inl elf_oom)"
  | (fail) k' where "load_page L i elf ph vaddr offset cur k = Inl (Inr k')" "loads L R r k k'"
      "\<And>r' a b c. r' \<in> R \<Longrightarrow> a < 512 \<Longrightarrow> b < 512 \<Longrightarrow> c < 512 \<Longrightarrow> leaf_at (mem k') r' a b c = leaf_at (mem k) r' a b c"
  | (page) n m1 m2 m3 where "load_page L i elf ph vaddr offset cur k = Inr (k\<lparr>mem := m3\<rparr>)"
      "pmm_alloc_page L (mem k) = (n, m1)" "n \<noteq> 0" "m2 = page_filled n elf ph offset cur m1"
      "gains L R r (mem k) m3"
      "path_leaf m3 r (vaddr + cur) = PA_TO_PTE n OR segment_flags (p_flags m2 ph) OR PTE_V"
      "\<And>r' a b c. r' \<in> R \<Longrightarrow> a < 512 \<Longrightarrow> b < 512 \<Longrightarrow> c < 512 \<Longrightarrow> \<not> (r' = r \<and> [a, b, c] = vpath (vaddr + cur)) \<Longrightarrow>
         leaf_at m3 r' a b c = leaf_at (mem k) r' a b c"
      "n \<in> used L m3" "n \<notin> used L (mem k)" "page_aligned n" "\<And>j. j < 4096 \<Longrightarrow> m3 (n + of_nat j) = m2 (n + of_nat j)"
proof -
  obtain n m1 where al: "pmm_alloc_page L (mem k) = (n, m1)" by fastforce
  show thesis
  proof (cases "n = 0")
    case True
    then show thesis using al by (intro stop) (simp add: load_page_def)
  next
    case n0: False
    let ?m2 = "page_filled n elf ph offset cur m1"
    let ?f = "segment_flags (p_flags ?m2 ph)"
    have n_al: "page_aligned n" using pmm.al_page [OF al n0] frame_aligned by blast
    obtain x m3 where mp: "map_page L ?m2 r (vaddr + cur) n ?f = (x, m3)" by fastforce
    have lp: "load_page L i elf ph vaddr offset cur k =
        (if x \<noteq> 0
         then Inl (Inr ((say nl (say ''PANIC: Out of memory mapping ELF segment!'' k))\<lparr>mem := pmm_free_page L m3 n\<rparr>))
         else Inr (k\<lparr>mem := m3\<rparr>))"
      using al n0 mp r(1) by (simp add: load_page_def page_filled_def Let_def)
    show thesis using wf r(2) al n0 page_filled_same [OF n_al] segment_flags_bits(1) mp
    proof (cases rule: add_user_page)
      case oom
      let ?k' = "(say nl (say ''PANIC: Out of memory mapping ELF segment!'' k))\<lparr>mem := pmm_free_page L m3 n\<rparr>"
      have "loads L R r k ?k'" unfolding loads_def using oom(2)
        by (intro exI [of _ "pmm_free_page L m3 n"] exI [of _ "console ?k'"]) (simp add: say_def)
      then show thesis using lp oom by (intro fail [of ?k']) simp_all
    next
      case mapped
      show thesis
      proof (rule page [OF _ al n0 refl mapped(2,3)])
        show "load_page L i elf ph vaddr offset cur k = Inr (k\<lparr>mem := m3\<rparr>)" using lp mapped(1) by simp
      qed (fact mapped)+
    qed
  qed
qed

section \<open>Writable or executable, never both\<close>

definition wx :: "u64 \<Rightarrow> bool" where
  "wx e \<longleftrightarrow> has e PTE_V \<and> has e PTE_U \<and> has e PTE_W \<and> has e PTE_X"

definition no_wx :: "memory \<Rightarrow> u64 \<Rightarrow> bool" where
  "no_wx m r \<longleftrightarrow> (\<forall>i j k. i < 512 \<longrightarrow> j < 512 \<longrightarrow> k < 512 \<longrightarrow> \<not> wx (leaf_at m r i j k))"

text \<open>Entries that were added or replaced are user entries, none of them writable and executable.\<close>

definition user_entries :: "u64 \<Rightarrow> memory \<Rightarrow> memory \<Rightarrow> bool" where
  "user_entries r m m' \<longleftrightarrow>
     (\<forall>i j l. i < 512 \<longrightarrow> j < 512 \<longrightarrow> l < 512 \<longrightarrow>
        leaf_at m' r i j l = leaf_at m r i j l \<or> has (leaf_at m' r i j l) PTE_U \<and> \<not> wx (leaf_at m' r i j l))"

lemma user_entries_refl [simp]: "user_entries r m m"
  by (simp add: user_entries_def)

lemma user_entries_trans: "user_entries r m m' \<Longrightarrow> user_entries r m' m'' \<Longrightarrow> user_entries r m m''"
  unfolding user_entries_def by metis

lemma user_entries_no_wx:
  assumes "user_entries r m m'" "no_wx m r"
  shows "no_wx m' r"
  unfolding no_wx_def
proof (intro allI impI)
  fix i j k :: nat assume i: "i < 512" "j < 512" "k < 512"
  show "\<not> wx (leaf_at m' r i j k)"
    using assms(1) [unfolded user_entries_def, rule_format, OF i] assms(2) [unfolded no_wx_def, rule_format, OF i] by auto
qed

lemma user_entries_guarded: "user_entries r m m' \<Longrightarrow> guarded m r \<Longrightarrow> guarded m' r"
  by (rule guarded_leaves) (auto simp: user_entries_def)

text \<open>What holds of every state the loader passes through.\<close>

definition loading :: "layout \<Rightarrow> u64 set \<Rightarrow> u64 \<Rightarrow> kernel \<Rightarrow> kernel \<Rightarrow> bool" where
  "loading L R r k k' \<longleftrightarrow> loads L R r k k' \<and> user_entries r (mem k) (mem k')"

lemma loading_refl: "wf_forest L (mem k) R \<Longrightarrow> loading L R r k k"
  by (simp add: loading_def loads_refl)

lemma loading_trans: "loading L R r k k' \<Longrightarrow> loading L R r k' k'' \<Longrightarrow> loading L R r k k''"
  unfolding loading_def using loads_trans user_entries_trans by blast

lemma loading_wf: "loading L R r k k' \<Longrightarrow> wf_forest L (mem k') R"
  unfolding loading_def using loads_gains gains_wf by blast

lemma loading_procs: "loading L R r k k' \<Longrightarrow> procs k' = procs k"
  unfolding loading_def using loads_same by blast

abbreviation loading_result ::
  "layout \<Rightarrow> u64 set \<Rightarrow> u64 \<Rightarrow> kernel \<Rightarrow> ('a \<Rightarrow> kernel) \<Rightarrow> (stop + kernel) + 'a \<Rightarrow> bool" where
  "loading_result L R r k f x \<equiv>
     (case x of
        Inl (Inl z) \<Rightarrow> z = elf_oom
      | Inl (Inr k') \<Rightarrow> loading L R r k k'
      | Inr y \<Rightarrow> loading L R r k (f y))"

lemma user_entries_leaf:
  assumes "has (path_leaf m' r va) PTE_U" "\<not> wx (path_leaf m' r va)"
    and "\<And>a b c. a < 512 \<Longrightarrow> b < 512 \<Longrightarrow> c < 512 \<Longrightarrow> [a, b, c] \<noteq> vpath va \<Longrightarrow> leaf_at m' r a b c = leaf_at m r a b c"
  shows "user_entries r m m'"
  unfolding user_entries_def
proof (intro allI impI)
  fix a b c :: nat assume i: "a < 512" "b < 512" "c < 512"
  show "leaf_at m' r a b c = leaf_at m r a b c \<or> has (leaf_at m' r a b c) PTE_U \<and> \<not> wx (leaf_at m' r a b c)"
  proof (cases "[a, b, c] = vpath va")
    case True
    then show ?thesis using assms(1,2) by (simp add: path_leaf_def)
  next
    case False
    then show ?thesis using assms(3) i by blast
  qed
qed

lemma load_page_loading:
  assumes wf: "wf_forest L (mem k) R" and r: "page_table (procs k ! i) = r" "r \<in> R"
  shows "loading_result L R r k (\<lambda>k'. k') (load_page L i elf ph vaddr offset cur k)"
  using assms
proof (cases rule: load_page_cases [where elf = elf and ph = ph and vaddr = vaddr and offset = offset and cur = cur])
  case (fail k')
  have "user_entries r (mem k) (mem k')" using fail(3) [OF r(2)] by (simp add: user_entries_def)
  then show ?thesis using fail(1,2) by (simp add: loading_def)
next
  case (page n m1 m2 m3)
  have "\<not> wx (path_leaf m3 r (vaddr + cur))" "has (path_leaf m3 r (vaddr + cur)) PTE_U"
    unfolding page(6) wx_def using has_entry [OF segment_flags_bits(1)] segment_flags_bits by auto
  then have "user_entries r (mem k) m3" using user_entries_leaf page(7) [OF r(2)] by blast
  moreover have "loads L R r k (k\<lparr>mem := m3\<rparr>)" unfolding loads_def using page(5)
    by (intro exI [of _ m3] exI [of _ "console k"]) simp
  ultimately show ?thesis using page(1) by (simp add: loading_def)
qed simp

section \<open>The whole loader\<close>

lemma load_segments_rule:
  assumes "I idx s"
    and "\<And>n y z. I n y \<Longrightarrow> n < unat (e_phnum (mem (snd y)) elf) \<Longrightarrow> load_segment L i elf phdr n y = Inl z \<Longrightarrow> Q z"
    and "\<And>n y y'. I n y \<Longrightarrow> n < unat (e_phnum (mem (snd y)) elf) \<Longrightarrow> load_segment L i elf phdr n y = Inr y' \<Longrightarrow> I (Suc n) y'"
  shows "case load_segments L i elf phdr idx s of
      Inl z \<Rightarrow> Q z | Inr y \<Rightarrow> \<exists>n. I n y \<and> \<not> n < unat (e_phnum (mem (snd y)) elf)"
  using assms
proof (induction L i elf phdr idx s rule: load_segments.induct)
  case (1 L i elf phdr idx s)
  show ?case
  proof (cases "idx < unat (e_phnum (mem (snd s)) elf)")
    case True
    show ?thesis
    proof (cases "load_segment L i elf phdr idx s")
      case (Inl z)
      then show ?thesis using True 1 by (simp add: load_segments.simps [of L i elf phdr idx s])
    next
      case (Inr y)
      have "I (Suc idx) y" by (rule "1.prems"(3)) (fact "1.prems"(1) True Inr)+
      with True Inr "1.IH" "1.prems" show ?thesis
        by (simp add: load_segments.simps [of L i elf phdr idx s])
    qed
  next
    case False
    then show ?thesis using "1.prems"(1) by (auto simp: load_segments.simps [of L i elf phdr idx s])
  qed
qed

text \<open>
  The loop over the pages of a segment always ends: each round takes a frame, and there are
  fewer of them than pages in the address space.
\<close>

lemma frames_left_le: "frames_left L m \<le> 32768"
proof -
  have "card ram_frames \<le> card {i. i < TOTAL_PAGES}" unfolding ram_frames_def by (rule card_image_le) simp
  then have "card ram_frames \<le> 32768" by simp
  moreover have "frames_left L m \<le> card ram_frames" unfolding frames_left_def by (intro card_mono) auto
  ultimately show ?thesis by linarith
qed

lemma load_page_takes_frame:
  assumes wf: "wf_forest L (mem k) R" and r: "page_table (procs k ! i) = r" "r \<in> R"
    and run: "load_page L i elf ph vaddr offset cur k = Inr k'"
  shows "frames_left L (mem k') < frames_left L (mem k)"
  using wf r
proof (cases rule: load_page_cases [where elf = elf and ph = ph and vaddr = vaddr and offset = offset and cur = cur])
  case (page n m1 m2 m3)
  have k': "mem k' = m3" using page(1) run by simp
  have "used L (mem k) \<subseteq> used L m3" using extendsD(2) [OF gainsD(1) [OF page(5)]] .
  then have "ram_frames - used L m3 \<subset> ram_frames - used L (mem k)"
    using page(8,9) used_subset [of L m3] by blast
  then show ?thesis unfolding frames_left_def k' by (intro psubset_card_mono) simp_all
qed (use run in simp_all)

lemma load_segment_loading:
  assumes wf: "wf_forest L (mem k) R" and r: "page_table (procs k ! i) = r" "r \<in> R"
  shows "loading_result L R r k snd (load_segment L i elf phdr idx (max_end, k))"
proof (cases "p_type (mem k) (phdr + of_nat (56 * idx)) = PT_LOAD")
  case False
  then show ?thesis using loading_refl [OF wf] by (simp add: load_segment_def Let_def)
next
  case True
  let ?ph = "phdr + of_nat (56 * idx)"
  let ?body = "load_page L i elf ?ph (p_vaddr (mem k) ?ph) (p_offset (mem k) ?ph)"
  let ?Q = "\<lambda>x. case x of Inl z \<Rightarrow> z = elf_oom | Inr k' \<Rightarrow> loading L R r k k'"
  let ?I = "\<lambda>p s. loading L R r k s \<and> unat p + 4096 * frames_left L (mem s) \<le> 134217728"
  have step: "?I (p + 4096) s' \<or> p + 4096 < p" "unat p < 134217728" "loading L R r k s'"
    if I: "?I p s" and b: "?body p s = Inr s'" for p s s'
  proof -
    have pt: "page_table (procs s ! i) = r" using loading_procs [OF conjunct1 [OF I]] r(1) by simp
    have wfs: "wf_forest L (mem s) R" using I loading_wf by blast
    from load_page_loading [OF wfs pt r(2), of elf ?ph "p_vaddr (mem k) ?ph" "p_offset (mem k) ?ph" p] b
    show l: "loading L R r k s'" using loading_trans I by auto
    have fewer: "frames_left L (mem s') < frames_left L (mem s)" by (rule load_page_takes_frame [OF wfs pt r(2) b])
    then show "unat p < 134217728" using I by linarith
    have "unat (p + 4096) = unat p + 4096" if "\<not> p + 4096 < p" using unat_add_nowrap [of p 4096] that by simp
    then show "?I (p + 4096) s' \<or> p + 4096 < p" using l I fewer by fastforce
  qed
  have "case for_pages (Inl Diverge) ?body 0 (p_memsz (mem k) ?ph) k of
      Inl x \<Rightarrow> ?Q x | Inr k' \<Rightarrow> \<exists>p. \<not> p < p_memsz (mem k) ?ph \<and> ?I p k'"
  proof (rule for_pages_rule)
    show "?I 0 k" using loading_refl [OF wf] frames_left_le [of L "mem k"] by simp
  next
    fix p s x assume I: "?I p s" and b: "?body p s = Inl x"
    have pt: "page_table (procs s ! i) = r" using loading_procs [OF conjunct1 [OF I]] r(1) by simp
    have wfs: "wf_forest L (mem s) R" using I loading_wf by blast
    from load_page_loading [OF wfs pt r(2), of elf ?ph "p_vaddr (mem k) ?ph" "p_offset (mem k) ?ph" p] b
    show "?Q x" using loading_trans I by (auto split: sum.splits)
  next
    fix p s s' assume "?I p s" "?body p s = Inr s'" "\<not> p + 4096 < p"
    then show "?I (p + 4096) s'" using step by blast
  next
    fix p s s' assume I: "?I p s" "?body p s = Inr s'" and w: "p + 4096 < p"
    have "unat p < 134217728" by (rule step(2) [OF I])
    then have "unat (p + 4096) = unat p + 4096" using unat_add_of_nat [of p 4096] by simp
    then show "?Q (Inl Diverge)" using w by (simp add: word_less_nat_alt)
  qed
  then show ?thesis using True
    by (auto simp: load_segment_def Let_def split: sum.splits)
qed

lemma load_segments_loading:
  assumes wf: "wf_forest L (mem k) R" and r: "page_table (procs k ! i) = r" "r \<in> R"
  shows "loading_result L R r k snd (load_segments L i elf phdr 0 (0, k))"
proof -
  let ?Q = "\<lambda>x. case x of Inl z \<Rightarrow> z = elf_oom | Inr k' \<Rightarrow> loading L R r k k'"
  have "case load_segments L i elf phdr 0 (0, k) of
      Inl x \<Rightarrow> ?Q x | Inr y \<Rightarrow> \<exists>n. loading L R r k (snd y) \<and> \<not> n < unat (e_phnum (mem (snd y)) elf)"
  proof (rule load_segments_rule [where I = "\<lambda>n y. loading L R r k (snd y)"])
    show "loading L R r k (snd (0 :: u64, k))" using loading_refl [OF wf] by simp
  next
    fix n and y :: "u64 \<times> kernel" and z
    assume I: "loading L R r k (snd y)" and b: "load_segment L i elf phdr n y = Inl z"
    then have "page_table (procs (snd y) ! i) = r" using loading_procs r(1) by simp
    from load_segment_loading [OF loading_wf [OF I] this r(2), of elf phdr n "fst y"] b
    show "?Q z" using loading_trans [OF I] by (auto split: sum.splits)
  next
    fix n and y y' :: "u64 \<times> kernel"
    assume I: "loading L R r k (snd y)" and b: "load_segment L i elf phdr n y = Inr y'"
    then have "page_table (procs (snd y) ! i) = r" using loading_procs r(1) by simp
    from load_segment_loading [OF loading_wf [OF I] this r(2), of elf phdr n "fst y"] b
    show "loading L R r k (snd y')" using loading_trans [OF I] by (auto split: sum.splits)
  qed
  then show ?thesis by (auto split: sum.splits)
qed

text \<open>What a successful load leaves in the process itself.\<close>

definition loaded_process :: "u64 \<Rightarrow> u64 \<Rightarrow> process \<Rightarrow> process" where
  "loaded_process entry brk p =
     p\<lparr>frame := (frame p)\<lparr>tf_sepc := entry, tf_sp := STACK_TOP\<rparr>, heap_break := brk,
       heap_max := STACK_BASE - 4096\<rparr>"

lemma STACK_rw:
  "\<not> wx (PA_TO_PTE n OR (PTE_U OR PTE_R OR PTE_W) OR PTE_V)" "has (PA_TO_PTE n OR (PTE_U OR PTE_R OR PTE_W) OR PTE_V) PTE_U"
  using has_entry(4,5) [OF user_rw_flags, of n] by (simp_all add: wx_def has_flags bit_or_iff bit_flags)

lemma load_elf_cases:
  assumes wf: "wf_forest L (mem k) R" and r: "page_table (procs k ! i) = r" "r \<in> R" and i: "i < length (procs k)"
  obtains (stop) "load_elf L i elf k = Inl elf_oom"
  | (fail) k' f where "load_elf L i elf k = Inr (-1, k')" "gains L R r (mem k) (mem k')" "same_rest k k'"
      "next_pid k' = next_pid k" "procs k' = (procs k)[i := (procs k ! i)\<lparr>frame := f\<rparr>]"
  | (ok) k' entry brk where "load_elf L i elf k = Inr (0, k')" "gains L R r (mem k) (mem k')" "same_rest k k'"
      "next_pid k' = next_pid k" "procs k' = (procs k)[i := loaded_process entry (page_up brk) (procs k ! i)]"
      "user_entries r (mem k) (mem k')"
proof -
  have same_i: "(procs k)[i := (procs k ! i)\<lparr>frame := frame (procs k ! i)\<rparr>] = procs k"
    by (simp add: list_update_same_conv i)
  show thesis
  proof (cases "load32 (mem k) elf = ELF_NUM")
    case False
    then show thesis using same_i gains_refl [OF wf]
      by (intro fail [of "say nl (say ''PANIC: Invalid ELF format!'' k)" "frame (procs k ! i)"])
        (simp_all add: load_elf_def same_rest_def)
  next
    case True
    let ?phdr = "elf + e_phoff (mem k) elf"
    let ?x = "load_segments L i elf ?phdr 0 (0, k)"
    note ls = load_segments_loading [OF wf r, of elf ?phdr]
    show thesis
    proof (cases ?x)
      case (Inl y)
      show thesis
      proof (cases y)
        case y: (Inl z)
        then show thesis using ls True Inl by (intro stop) (simp add: load_elf_def)
      next
        case y: (Inr k')
        then have l: "loads L R r k k'" using ls Inl by (simp add: loading_def)
        then show thesis using True Inl y same_i loads_same [OF l] loads_gains [OF l]
          by (intro fail [of k' "frame (procs k ! i)"]) (simp_all add: load_elf_def Let_def)
      qed
    next
      case (Inr y)
      obtain max_end k1 where y: "y = (max_end, k1)" by (cases y)
      have ld: "loading L R r k k1" using ls Inr y by simp
      then have l: "loads L R r k k1" and ue: "user_entries r (mem k) (mem k1)" by (simp_all add: loading_def)
      note ps1 = loads_same(1) [OF l] and wf1 = loading_wf [OF ld]
      let ?e = "e_entry (mem k1) elf"
      let ?k2 = "upd_proc i (\<lambda>p. p\<lparr>frame := (frame p)\<lparr>tf_sepc := ?e\<rparr>\<rparr>) k1"
      have le: "load_elf L i elf k = Inr (user_stack L i max_end ?k2)"
        using True Inr y by (simp add: load_elf_def Let_def)
      have sr: "same_rest k k1" "next_pid k1 = next_pid k" using loads_same [OF l] by simp_all
      obtain st m1 where al: "pmm_alloc_page L (mem k1) = (st, m1)" by fastforce
      show thesis
      proof (cases "st = 0")
        case True
        then have "m1 = mem k1" using pmm.al_null al by blast
        then have "load_elf L i elf k = Inr (-1, say nl (say ''PANIC: Failed to allocate user stack!'' (?k2\<lparr>mem := mem k1\<rparr>)))"
          using le al True by (simp add: user_stack_def)
        then show thesis
          by (rule fail [where f = "(frame (procs k ! i))\<lparr>tf_sepc := ?e\<rparr>"])
            (use sr loads_gains [OF l] ps1 i in \<open>simp_all add: same_rest_def\<close>)
      next
        case st0: False
        have st_al: "page_aligned st" using pmm.al_page [OF al st0] frame_aligned by blast
        have fill: "same_except {st} m1 (memset m1 st 0 4096)" by (rule same_except_memset [OF st_al]) simp
        obtain x m3 where mp: "map_page L (memset m1 st 0 4096) r STACK_BASE st (PTE_U OR PTE_R OR PTE_W) = (x, m3)"
          by fastforce
        let ?k3 = "(upd_proc i (loaded_process ?e (page_up max_end)) k1)\<lparr>mem := m3\<rparr>"
        have le': "load_elf L i elf k = Inr (0, ?k3)"
          using le al st0 mp i ps1 r(1)
          by (simp add: user_stack_def Let_def loaded_process_def page_up_def nth_list_update)
        have "gains L R r (mem k1) m3 \<and> user_entries r (mem k1) m3"
          using wf1 r(2) al st0 fill user_rw_flags mp
        proof (cases rule: add_user_page)
          case oom
          then show ?thesis by (simp add: user_entries_def)
        next
          case mapped
          have "\<not> wx (path_leaf m3 r STACK_BASE)" "has (path_leaf m3 r STACK_BASE) PTE_U"
            unfolding mapped(3) by (rule STACK_rw)+
          then show ?thesis using mapped(2) user_entries_leaf [of m3 r STACK_BASE "mem k1"] mapped(4) [OF r(2)] by blast
        qed
        then show thesis
          using le' sr gains_trans [OF loads_gains [OF l]] user_entries_trans [OF ue] ps1 i
          by (intro ok [of ?k3 ?e max_end]) (auto simp: same_rest_def)
      qed
    qed
  qed
qed

section \<open>Properties\<close>

text \<open>
  C10: \<open>load_elf\<close> is confined and enforces W^X, whatever the bytes of the image say. It hangs with
  its message when memory is exhausted (never in a loop of its own), or returns 0 or -1; then it has only added frames
  that were free to the address space of its process (\<open>gains\<close>: no other address space, no
  frame in use and no other process changed). On success no page the user can reach is both
  writable and executable if none was before, the heap starts on a page boundary and its
  limit lies below the guard page under the stack.
\<close>
theorem load_elf_confined:
  assumes "wf_forest L (mem k) R" "page_table (procs k ! i) = r" "r \<in> R" "i < length (procs k)"
  shows "case load_elf L i elf k of
      Inl z \<Rightarrow> z = elf_oom
    | Inr (x, k') \<Rightarrow> (x = 0 \<or> x = -1) \<and> gains L R r (mem k) (mem k') \<and>
        current k' = current k \<and> satp k' = satp k \<and>
        (\<forall>j < length (procs k). j \<noteq> i \<longrightarrow> procs k' ! j = procs k ! j) \<and>
        (x = 0 \<longrightarrow> (no_wx (mem k) r \<longrightarrow> no_wx (mem k') r) \<and>
           page_aligned (heap_break (procs k' ! i)) \<and> heap_max (procs k' ! i) = STACK_BASE - 4096 \<and>
           tf_sp (frame (procs k' ! i)) = STACK_TOP)"
  using assms
proof (cases rule: load_elf_cases [where elf = elf])
  case (ok k' entry brk)
  then show ?thesis using assms(4) user_entries_no_wx by (simp add: same_rest_def loaded_process_def)
qed (auto simp: same_rest_def)

lemma load_elf_confined_witness:
  "case load_elf sample_layout 0 0x80200000 sample_machine of
      Inl z \<Rightarrow> z = elf_oom
    | Inr (x, k') \<Rightarrow> (x = 0 \<or> x = -1) \<and>
        gains sample_layout (roots (procs sample_machine)) sample_root (mem sample_machine) (mem k')"
proof -
  note ok = kernel_okD [OF sample_machine_ok]
  have r: "page_table (procs sample_machine ! 0) = sample_root"
    by (simp add: sample_machine_procs sample_process_def)
  then have "sample_root \<in> roots (procs sample_machine)" using spaces_okD(5) [OF ok(6,8)] by simp
  from load_elf_confined [OF spaces_okD(2) [OF ok(6)] r this, of "0x80200000"] ok(1) show ?thesis
    by (auto split: sum.splits)
qed

end
