(* ===== verification/Elf_Contents.thy ===== *)
theory Elf_Contents
  imports Elf_Spec
begin

text \<open>
  What a program finds in its memory: a page-aligned segment of the image ends up at its
  virtual address as the bytes of the file followed by zeroes, in frames that were free.
\<close>

section \<open>The bytes of a page\<close>

text \<open>The bytes that a page at \<open>cur\<close> of a segment should hold.\<close>

definition segment_byte :: "memory \<Rightarrow> u64 \<Rightarrow> u64 \<Rightarrow> nat \<Rightarrow> u8" where
  "segment_byte m filesz src j = (if j < unat filesz then m (src + of_nat j) else 0)"

lemma page_filled_bytes:
  assumes n: "page_aligned n" "image_end L < n" and same: "\<And>b. in_image L b \<Longrightarrow> m1 b = m b"
    and ph: "\<And>j. j < 56 \<Longrightarrow> in_image L (ph + of_nat j)"
    and data: "\<And>j. j < unat (p_filesz m ph) \<Longrightarrow> in_image L (elf + offset + of_nat j)"
    and cur: "unat cur + 4096 < 18446744073709551616" and j: "j < 4096"
  shows "page_filled n elf ph offset cur m1 (n + of_nat j) = segment_byte m (p_filesz m ph) (elf + offset) (unat cur + j)"
    "p_flags (page_filled n elf ph offset cur m1) ph = p_flags m ph"
proof -
  let ?m2 = "memset m1 n 0 4096" and ?f = "p_filesz m ph"
  let ?m3 = "page_filled n elf ph offset cur m1"
  have out: "page_base b \<noteq> n" if "in_image L b" for b using that n(2) by (auto simp: in_image_def)
  have m2: "?m2 b = m b" if "in_image L b" for b
    using same [OF that] same_exceptD [OF same_except_memset [OF n(1), of 4096 m1 0], of b] out [OF that] by simp
  have m3: "?m3 b = m b" if "in_image L b" for b
    using same [OF that] same_exceptD [OF page_filled_same [OF n(1)], of b] out [OF that] by simp
  have hdr: "in_image L (ph + d + of_nat i)" if "i < 8" "d \<in> {4, 32}" for d i
  proof -
    have "ph + d + of_nat i = ph + of_nat (unat d + i)" by (simp add: add.assoc)
    moreover have "unat d + i < 56" using that by auto
    ultimately show ?thesis using ph by metis
  qed
  have fz: "p_filesz ?m2 ph = ?f" unfolding p_filesz_def by (rule load_image) (use hdr m2 in auto)
  show "p_flags ?m3 ph = p_flags m ph"
    unfolding p_flags_def by (rule arg_cong [where f = ucast], rule load_image) (use hdr m3 in auto)
  let ?c = "copy_size ?f cur"
  have c: "unat ?c = min 4096 (unat ?f - unat cur)" by (rule copy_size_exact [OF cur])
  have src: "elf + offset + cur + of_nat i = elf + offset + of_nat (unat cur + i)" for i by (simp add: add.assoc)
  have src_out: "page_base (elf + offset + cur + of_nat i) \<noteq> n" if "i < unat ?c" for i
    unfolding src by (rule out, rule data) (use that c in linarith)
  have mc: "memcpy ?m2 n (elf + offset + cur) ?c b =
      (if unat (b - n) < unat ?c then ?m2 (elf + offset + cur + (b - n)) else ?m2 b)" for b
    by (rule memcpy_page_outside [OF n(1) copy_size_le src_out])
  have jn: "unat (n + of_nat j - n) = j" using j by (simp add: unat_of_nat)
  have zero: "?m2 (n + of_nat j) = 0" using memset_page_at [OF n(1) j, of m1 0] by simp
  have "?m3 (n + of_nat j) = (if j < unat ?c then ?m2 (elf + offset + of_nat (unat cur + j)) else 0)"
  proof (cases "?c > 0")
    case True
    have "?m3 (n + of_nat j) = memcpy ?m2 n (elf + offset + cur) ?c (n + of_nat j)"
      using True by (simp add: page_filled_def Let_def fz)
    also have "\<dots> = (if j < unat ?c then ?m2 (elf + offset + cur + (n + of_nat j - n)) else ?m2 (n + of_nat j))"
      unfolding mc jn ..
    finally show ?thesis using zero by (simp add: add.assoc)
  next
    case False
    then have "?m3 (n + of_nat j) = 0" using zero by (simp add: page_filled_def Let_def fz)
    moreover have "unat ?c = 0" using False by (simp add: word_less_nat_alt)
    ultimately show ?thesis by simp
  qed
  moreover have "j < unat ?c \<longleftrightarrow> unat cur + j < unat ?f" using c j by auto
  moreover have "?m2 (elf + offset + of_nat (unat cur + j)) = m (elf + offset + of_nat (unat cur + j))"
    if "unat cur + j < unat ?f" using m2 data that by blast
  ultimately show "?m3 (n + of_nat j) = segment_byte m ?f (elf + offset) (unat cur + j)"
    by (simp add: segment_byte_def)
qed

text \<open>The pages of \<open>A\<close> (offsets in the segment) are in place.\<close>

definition pages_loaded ::
  "layout \<Rightarrow> memory \<Rightarrow> u64 \<Rightarrow> u64 \<Rightarrow> u64 \<Rightarrow> u64 \<Rightarrow> u64 set \<Rightarrow> memory \<Rightarrow> bool" where
  "pages_loaded L m r ph vaddr src A m' \<longleftrightarrow>
     (\<forall>cur \<in> A. \<exists>n. path_leaf m' r (vaddr + cur) = PA_TO_PTE n OR segment_flags (p_flags m ph) OR PTE_V \<and>
        n \<notin> used L m \<and> page_aligned n \<and>
        (\<forall>j < 4096. m' (n + of_nat j) = segment_byte m (p_filesz m ph) src (unat cur + j)))"

lemma segment_user_frame:
  assumes "page_aligned n" "pf AND PF_R \<noteq> 0 \<or> pf AND PF_W \<noteq> 0 \<or> pf AND PF_X \<noteq> 0"
  shows "user_frame (PA_TO_PTE n OR segment_flags pf OR PTE_V) = Some n"
proof -
  let ?e = "PA_TO_PTE n OR segment_flags pf OR PTE_V"
  note he = has_entry [OF segment_flags_bits(1), of n pf]
  have "is_leaf ?e" using assms(2) he segment_flags_bits(3-5) [of pf] by (auto simp: is_leaf_def)
  moreover have "has ?e PTE_U" using he(5) segment_flags_bits(2) by simp
  ultimately show ?thesis
    using he(1) PTE_TO_PA_map [OF assms(1) segment_flags_bits(1)] by (simp add: user_frame_def)
qed

lemma segment_pages_differ:
  assumes "page_aligned vaddr" "unat vaddr + unat memsz \<le> 2 ^ 38" "x \<in> pages_in 0 memsz" "y \<in> pages_in 0 memsz" "x \<noteq> y"
  shows "vpath (vaddr + x) \<noteq> vpath (vaddr + y)"
proof
  have low: "page_aligned (vaddr + z)" "unat (vaddr + z) < 2 ^ 39" if "z \<in> pages_in 0 memsz" for z
  proof -
    have z: "page_aligned z" "unat z < unat memsz" using that by (simp_all add: pages_in_def word_less_nat_alt)
    have u: "unat (vaddr + z) = unat vaddr + unat z"
      using unat_add_of_nat [of vaddr "unat z"] assms(2) z(2) by simp
    then show "unat (vaddr + z) < 2 ^ 39" using assms(2) z(2) by simp
    show "page_aligned (vaddr + z)" using assms(1) z(1) by (simp add: page_aligned_unat u)
  qed
  assume "vpath (vaddr + x) = vpath (vaddr + y)"
  then have "vaddr + x = vaddr + y" using VPN_inj [OF low [OF assms(3)] low [OF assms(4)]] by simp
  then show False using assms(5) by simp
qed

lemma segment_loop:
  fixes k :: kernel and ph elf offset vaddr :: u64
  defines "m \<equiv> mem k"
  assumes wf: "wf_forest L m R" and r: "page_table (procs k ! i) = r" "r \<in> R"
    and pf: "p_flags m ph AND PF_R \<noteq> 0 \<or> p_flags m ph AND PF_W \<noteq> 0 \<or> p_flags m ph AND PF_X \<noteq> 0"
    and va: "page_aligned vaddr" "unat vaddr + unat memsz \<le> 2 ^ 38"
    and ph: "\<And>j. j < 56 \<Longrightarrow> in_image L (ph + of_nat j)"
    and data: "\<And>j. j < unat (p_filesz m ph) \<Longrightarrow> in_image L (elf + offset + of_nat j)"
    and run: "for_pages (Inl Diverge) (load_page L i elf ph vaddr offset) 0 memsz k = Inr k'"
  shows "gains L R r m (mem k')" "pages_loaded L m r ph vaddr (elf + offset) (pages_in 0 memsz) (mem k')"
proof -
  let ?J = "\<lambda>A s. loads L R r k s \<and> A \<subseteq> pages_in 0 memsz \<and> pages_loaded L m r ph vaddr (elf + offset) A (mem s)"
  have "case for_pages (Inl Diverge) (load_page L i elf ph vaddr offset) 0 memsz k of
      Inl x \<Rightarrow> True | Inr k' \<Rightarrow> ?J (pages_in 0 memsz) k'"
  proof (rule for_pages_exact [where J = ?J])
    show "page_aligned (0 :: u64)" by simp
    show "unat memsz \<le> 2 ^ 39" using va(2) by simp
    show "?J {} k" using wf by (simp add: loads_refl pages_loaded_def m_def)
  next
    fix p s s' assume J: "?J (pages_in 0 p) s" and p: "p \<in> pages_in 0 memsz"
      and fresh: "p \<notin> pages_in 0 p" and b: "load_page L i elf ph vaddr offset p s = Inr s'"
    have l: "loads L R r k s" and old: "pages_in 0 p \<subseteq> pages_in 0 memsz"
      and prev: "pages_loaded L m r ph vaddr (elf + offset) (pages_in 0 p) (mem s)" using J by auto
    have g: "gains L R r m (mem s)" using loads_gains [OF l] by (simp add: m_def)
    note wfs = gains_wf [OF g]
    have rs: "page_table (procs s ! i) = r" using loads_same(1) [OF l] r(1) by simp
    from wfs rs r(2) show "?J (insert p (pages_in 0 p)) s'"
    proof (cases rule: load_page_cases [where elf = elf and ph = ph and vaddr = vaddr and offset = offset and cur = p])
      case stop
      then show ?thesis using b by simp
    next
      case (fail k')
      then show ?thesis using b by simp
    next
      case (page n m1 m2 m3)
      have s': "s' = s\<lparr>mem := m3\<rparr>" using b page(1) by simp
      have "loads L R r s s'" unfolding s' loads_def using page(5)
        by (intro exI [of _ m3] exI [of _ "console s"]) simp
      then have l': "loads L R r k s'" by (rule loads_trans [OF l])
      have n_above: "image_end L < n" using fresh_frame(4) [OF wfs page(2,3) same_except_refl] .
      have m1: "m1 b = m b" if "in_image L b" for b
      proof -
        have "page_base b \<notin> {image_end L}" using that by (auto simp: in_image_def)
        then have "m1 b = mem s b" by (rule same_exceptD [OF same_except_alloc [OF wf_aligned [OF wfs] page(2)]])
        then show ?thesis using image_gains [OF wf [folded m_def] r(2) g that] by simp
      qed
      have p_small: "unat p + 4096 < 18446744073709551616"
        using p va(2) by (simp add: pages_in_def word_less_nat_alt)
      have pb: "m2 (n + of_nat j) = segment_byte m (p_filesz m ph) (elf + offset) (unat p + j)"
        "p_flags m2 ph = p_flags m ph" if "j < 4096" for j
        unfolding page(4)
        by (rule page_filled_bytes [OF page(10) n_above _ _ _ p_small that]; fact m1 ph data)+
      have flags: "p_flags m2 ph = p_flags m ph" using pb(2) [of 0] by simp
      have used_s: "used L m \<subseteq> used L (mem s)" using extendsD(2) [OF gainsD(1) [OF g]] .
      have "pages_loaded L m r ph vaddr (elf + offset) (insert p (pages_in 0 p)) m3"
        unfolding pages_loaded_def
      proof
        fix cur assume "cur \<in> insert p (pages_in 0 p)"
        then consider "cur = p" | "cur \<in> pages_in 0 p" "cur \<noteq> p" using fresh by blast
        then show "\<exists>n. path_leaf m3 r (vaddr + cur) = PA_TO_PTE n OR segment_flags (p_flags m ph) OR PTE_V \<and>
            n \<notin> used L m \<and> page_aligned n \<and>
            (\<forall>j < 4096. m3 (n + of_nat j) = segment_byte m (p_filesz m ph) (elf + offset) (unat cur + j))"
        proof cases
          case 1
          have "m3 (n + of_nat j) = segment_byte m (p_filesz m ph) (elf + offset) (unat cur + j)" if "j < 4096" for j
            using page(11) [OF that] pb(1) [OF that] 1 by simp
          then show ?thesis using page(6,9,10) flags used_s 1 by (intro exI [of _ n]) auto
        next
          case 2
          then obtain n' where n': "path_leaf (mem s) r (vaddr + cur) = PA_TO_PTE n' OR segment_flags (p_flags m ph) OR PTE_V"
            "n' \<notin> used L m" "page_aligned n'"
            "\<forall>j < 4096. mem s (n' + of_nat j) = segment_byte m (p_filesz m ph) (elf + offset) (unat cur + j)"
            using prev by (auto simp: pages_loaded_def)
          have "vpath (vaddr + cur) \<noteq> vpath (vaddr + p)"
            by (rule segment_pages_differ [OF va _ p 2(2)]) (use old 2(1) in blast)
          then have leaf: "path_leaf m3 r (vaddr + cur) = path_leaf (mem s) r (vaddr + cur)"
            unfolding path_leaf_def using page(7) [OF r(2) VPN_less VPN_less VPN_less] by blast
          have "tree (mem s) r (vpath (vaddr + cur)) = Some n'"
            using n'(1,3) segment_user_frame [OF n'(3) pf] tree_leaf [of "VPN (vaddr + cur) 2" "VPN (vaddr + cur) 1" "VPN (vaddr + cur) 0" "mem s" r]
            unfolding path_leaf_def by simp
          then have "m3 (n' + of_nat j) = mem s (n' + of_nat j)" if "j < 4096" for j
            using extends_own_frame [OF wfs gainsD(1) [OF page(5)] r(2)] page_base_add [OF n'(3) that] by blast
          then show ?thesis using n' leaf by (intro exI [of _ n']) simp
        qed
      qed
      then show ?thesis using l' old p s' by simp
    qed
  qed simp
  then show "gains L R r m (mem k')" "pages_loaded L m r ph vaddr (elf + offset) (pages_in 0 memsz) (mem k')"
    unfolding run using loads_gains m_def by auto
qed

section \<open>The loader returns\<close>

text \<open>A page of a segment takes at most three frames: its own and two tables.\<close>

lemma load_page_supply:
  assumes wf: "wf_forest L (mem k) R" and r: "page_table (procs k ! i) = r" "r \<in> R"
    and enough: "3 \<le> frames_left L (mem k)"
  shows "\<exists>k'. load_page L i elf ph vaddr offset cur k = Inr k' \<and> frames_left L (mem k) \<le> frames_left L (mem k') + 3"
proof -
  obtain n m1 where al: "pmm_alloc_page L (mem k) = (n, m1)" by fastforce
  let ?m2 = "page_filled n elf ph offset cur m1"
  let ?f = "segment_flags (p_flags ?m2 ph)"
  have n0: "n \<noteq> 0" using frames_left_alloc(1) [OF al] enough by auto
  have n_al: "page_aligned n" using pmm.al_page [OF al n0] frame_aligned by blast
  note fill = page_filled_same [OF n_al, of m1 elf ph offset cur]
  note fr = fresh_frame [OF wf al n0 fill]
  have left: "frames_left L (mem k) = Suc (frames_left L ?m2)"
    by (rule frames_left_insert [OF fr(2,3)])
  have "user_frame (PA_TO_PTE n OR ?f OR PTE_V) = Some j \<Longrightarrow> j = n" for j
    using PTE_TO_PA_map [OF n_al segment_flags_bits(1)] by (auto simp: user_frame_def split: if_splits)
  then have ok: "leaf_ok L ?m2 R (PA_TO_PTE n OR ?f OR PTE_V)" by (rule fresh_leaf_ok [OF wf al n0 fill])
  obtain x m3 where mp: "map_page L ?m2 r (vaddr + cur) n ?f = (x, m3)" by fastforce
  have x0: "x = 0" by (rule map_page_frames(2) [OF fr(1) r(2) ok mp]) (use left enough in linarith)
  moreover have "load_page L i elf ph vaddr offset cur k =
      (if x \<noteq> 0
       then Inl (Inr ((say nl (say ''PANIC: Out of memory mapping ELF segment!'' k))\<lparr>mem := pmm_free_page L m3 n\<rparr>))
       else Inr (k\<lparr>mem := m3\<rparr>))"
    using al n0 mp r(1) by (simp add: load_page_def page_filled_def Let_def)
  moreover have "frames_left L ?m2 \<le> frames_left L m3 + 2" by (rule map_page_frames(1) [OF fr(1) r(2) ok mp])
  ultimately show ?thesis using left by (intro exI [of _ "k\<lparr>mem := m3\<rparr>"]) simp
qed

lemma segment_loop_returns:
  assumes wf: "wf_forest L (mem k) R" and r: "page_table (procs k ! i) = r" "r \<in> R"
    and low: "unat memsz \<le> 2 ^ 39" and enough: "3 * card (pages_in 0 memsz) \<le> frames_left L (mem k)"
  shows "\<exists>k'. for_pages (Inl Diverge) (load_page L i elf ph vaddr offset) 0 memsz k = Inr k' \<and>
    frames_left L (mem k) \<le> frames_left L (mem k') + 3 * card (pages_in 0 memsz)"
proof -
  let ?P = "pages_in 0 memsz"
  let ?J = "\<lambda>A s. loading L R r k s \<and>
    frames_left L (mem k) + 3 * card (?P - A) \<le> frames_left L (mem s) + 3 * card ?P"
  have key: "\<exists>k'. load_page L i elf ph vaddr offset p s = Inr k' \<and> ?J (insert p (pages_in 0 p)) k'"
    if J: "?J (pages_in 0 p) s" and p: "p \<in> ?P" for p s
  proof -
    have ps: "page_table (procs s ! i) = r" using loading_procs [OF conjunct1 [OF J]] r(1) by simp
    have wfs: "wf_forest L (mem s) R" using J loading_wf by blast
    have "?P - insert p (pages_in 0 p) = (?P - pages_in 0 p) - {p}" "p \<in> ?P - pages_in 0 p"
      using p by (auto simp: pages_in_def)
    then have one: "card (?P - pages_in 0 p) = Suc (card (?P - insert p (pages_in 0 p)))"
      by (metis card.remove finite)
    then have "3 \<le> frames_left L (mem s)" using J enough by linarith
    from load_page_supply [OF wfs ps r(2) this] obtain k' where
      k': "load_page L i elf ph vaddr offset p s = Inr k'" "frames_left L (mem s) \<le> frames_left L (mem k') + 3"
      by blast
    have "loading L R r s k'" using load_page_loading [OF wfs ps r(2), of elf ph vaddr offset p] k'(1) by simp
    then have "loading L R r k k'" using J loading_trans by blast
    moreover have "frames_left L (mem k) + 3 * card (?P - insert p (pages_in 0 p)) \<le> frames_left L (mem k') + 3 * card ?P"
      using J k'(2) one by linarith
    ultimately show ?thesis using k'(1) by blast
  qed
  have "case for_pages (Inl Diverge) (load_page L i elf ph vaddr offset) 0 memsz k of
      Inl x \<Rightarrow> False | Inr k' \<Rightarrow> ?J ?P k'"
  proof (rule for_pages_exact [where J = ?J])
    show "?J {} k" using loading_refl [OF wf] enough by simp
  next
    fix p s x assume "?J (pages_in 0 p) s" "p \<in> ?P" "load_page L i elf ph vaddr offset p s = Inl x"
    then show False using key by fastforce
  next
    fix p s s' assume "?J (pages_in 0 p) s" "p \<in> ?P" "load_page L i elf ph vaddr offset p s = Inr s'"
    then show "?J (insert p (pages_in 0 p)) s'" using key by fastforce
  qed (use low in simp_all)
  then show ?thesis by (cases "for_pages (Inl Diverge) (load_page L i elf ph vaddr offset) 0 memsz k") auto
qed

section \<open>Reading the segment back\<close>

lemma segment_byte_loaded:
  assumes wf: "wf_forest L m' R" and r: "r \<in> R" and va: "page_aligned va" "unat va + unat memsz \<le> 2 ^ 38"
    and fl: "p_flags m ph AND PF_R \<noteq> 0" and pl: "pages_loaded L m r ph va src (pages_in 0 memsz) m'"
    and j: "j < unat memsz"
  shows "user_load m' (MAKE_SATP r) (va + of_nat j) = Inr (segment_byte m (p_filesz m ph) src j) \<and>
    page_base (user_addr m' r (va + of_nat j)) \<notin> used L m"
proof -
  let ?a = "va + of_nat j" and ?cur = "page_base (of_nat j)"
  have j64: "j < 18446744073709551616" using j unat_u64_less [of memsz] by linarith
  have uj: "unat (of_nat j :: u64) = j" using j64 by (rule unat_of_nat_u64)
  have ua: "unat ?a = unat va + j" by (rule unat_add_of_nat) (use va(2) j in simp)
  have ucur: "unat ?cur = j div 4096 * 4096" using uj by (simp add: unat_page_base)
  have cur: "?cur \<in> pages_in 0 memsz"
    using ucur j div_mult_mod_eq [of j 4096] by (auto simp: pages_in_def word_less_nat_alt intro: le_less_trans)
  then obtain n where n: "path_leaf m' r (va + ?cur) = PA_TO_PTE n OR segment_flags (p_flags m ph) OR PTE_V"
    "n \<notin> used L m" "page_aligned n"
    "\<forall>i < 4096. m' (n + of_nat i) = segment_byte m (p_filesz m ph) src (unat ?cur + i)"
    using pl by (auto simp: pages_loaded_def)
  have dv: "4096 dvd unat va" using va(1) by (simp add: page_aligned_unat)
  have "unat (va + ?cur) = unat va + unat ?cur"
  proof -
    have "unat va + unat ?cur < 18446744073709551616" using va(2) j ucur div_mult_mod_eq [of j 4096] by simp
    then show ?thesis using unat_add_of_nat [of va "unat ?cur"] by simp
  qed
  moreover have "unat (page_base ?a) = unat va + j div 4096 * 4096"
    using dv by (auto simp: unat_page_base ua elim!: dvdE)
  ultimately have base: "va + ?cur = page_base ?a" using ucur by (simp add: word_unat_eq_iff)
  let ?e = "path_leaf m' r ?a"
  have e: "?e = PA_TO_PTE n OR segment_flags (p_flags m ph) OR PTE_V" using n(1) unfolding base by simp
  note he = has_entry [OF segment_flags_bits(1), of n "p_flags m ph"]
  have uf: "user_frame ?e = Some n" unfolding e using segment_user_frame [OF n(3)] fl by blast
  have rd: "has ?e PTE_V" "has ?e PTE_R" using he segment_flags_bits(3) [of "p_flags m ph"] fl unfolding e by simp_all
  have "PTE_TO_PA ?e = n" unfolding e by (rule PTE_TO_PA_map [OF n(3) segment_flags_bits(1)])
  then have addr: "user_addr m' r ?a = n + of_nat (j mod 4096)"
    using dv by (auto simp: user_addr_def ua elim!: dvdE)
  have "translate m' (MAKE_SATP r) Load ?a = Some (user_addr m' r ?a)"
    by (rule translate_leaf [OF wf r]) (use ua va(2) j rd uf in simp_all)
  then have "user_load m' (MAKE_SATP r) ?a = Inr (m' (n + of_nat (j mod 4096)))"
    by (simp add: user_load_def addr)
  moreover have "m' (n + of_nat (j mod 4096)) = segment_byte m (p_filesz m ph) src j"
    using n(4) ucur by simp
  moreover have "page_base (user_addr m' r ?a) = n" unfolding addr by (rule page_base_add [OF n(3)]) simp
  ultimately show ?thesis using n(2) by simp
qed

section \<open>Properties\<close>

text \<open>
  C26: loading a segment gives the program its image. For a readable, page-aligned \<open>PT_LOAD\<close>
  segment below the canonical limit whose program header and file bytes lie in the kernel
  image, and with three free frames for each of its pages, \<open>load_segment\<close> succeeds; afterwards
  a user load from byte \<open>j\<close> of the segment returns byte \<open>j\<close> of the file, or 0 beyond
  \<open>p_filesz\<close>, and comes from a frame that was free before.
\<close>
theorem load_segment_contents:
  assumes "wf_forest L (mem k) R" "page_table (procs k ! i) = r" "r \<in> R"
    and "ph = phdr + of_nat (56 * idx)" "p_type (mem k) ph = PT_LOAD" "p_flags (mem k) ph AND PF_R \<noteq> 0"
    and "page_aligned (p_vaddr (mem k) ph)" "unat (p_vaddr (mem k) ph) + unat (p_memsz (mem k) ph) \<le> 2 ^ 38"
    and "\<forall>j < 56. in_image L (ph + of_nat j)"
    and "\<forall>j < unat (p_filesz (mem k) ph). in_image L (elf + p_offset (mem k) ph + of_nat j)"
    and "3 * card (pages_in 0 (p_memsz (mem k) ph)) \<le> frames_left L (mem k)"
  shows "\<exists>k'. load_segment L i elf phdr idx (max_end, k)
        = Inr (max max_end (p_vaddr (mem k) ph + p_memsz (mem k) ph), k') \<and>
      gains L R r (mem k) (mem k') \<and>
      (\<forall>j < unat (p_memsz (mem k) ph).
         user_load (mem k') (MAKE_SATP r) (p_vaddr (mem k) ph + of_nat j)
           = Inr (segment_byte (mem k) (p_filesz (mem k) ph) (elf + p_offset (mem k) ph) j) \<and>
         page_base (user_addr (mem k') r (p_vaddr (mem k) ph + of_nat j)) \<notin> used L (mem k))"
proof -
  let ?m = "mem k"
  let ?va = "p_vaddr ?m ph" and ?sz = "p_memsz ?m ph" and ?off = "p_offset ?m ph" and ?fl = "p_flags ?m ph"
  have "unat ?sz \<le> 2 ^ 39" using assms(8) by simp
  from segment_loop_returns [OF assms(1-3) this assms(11)] obtain k' where
    run: "for_pages (Inl Diverge) (load_page L i elf ph ?va ?off) 0 ?sz k = Inr k'" by blast
  have g: "gains L R r ?m (mem k')" and pl: "pages_loaded L ?m r ph ?va (elf + ?off) (pages_in 0 ?sz) (mem k')"
    using segment_loop [OF assms(1-3) _ assms(7,8) _ _ run] assms(6,9,10) by blast+
  have "user_load (mem k') (MAKE_SATP r) (?va + of_nat j) = Inr (segment_byte ?m (p_filesz ?m ph) (elf + ?off) j) \<and>
      page_base (user_addr (mem k') r (?va + of_nat j)) \<notin> used L ?m" if j: "j < unat ?sz" for j
    using segment_byte_loaded [OF gains_wf [OF g] assms(3,7,8,6) pl j] .
  then show ?thesis using run g assms(4,5)
    by (intro exI [of _ k']) (auto simp: load_segment_def Let_def max_def)
qed

section \<open>A concrete program\<close>

text \<open>A program header at \<open>0x80210040\<close> for a read-only segment of five bytes, two in the file.\<close>

definition sample_program :: memory where
  "sample_program a =
     (if a = 0x80210040 then 1 else if a = 0x80210044 then 4 else if a = 0x80210048 then 0x80
      else if a = 0x80210051 then 0x10 else if a = 0x80210060 then 2 else if a = 0x80210068 then 5
      else if a = 0x80210080 then 72 else if a = 0x80210081 then 105 else 0)"

definition program_space :: "u64 \<times> memory" where
  "program_space = (let (r, m1) = pmm_alloc_page sample_layout (init_pmm sample_layout sample_program)
     in (r, memset m1 r 0 4096))"

definition program_machine :: kernel where
  "program_machine = (power_on (snd program_space))
     \<lparr>procs := (replicate MAX_PROCS empty_process)[0 := empty_process\<lparr>page_table := fst program_space\<rparr>]\<rparr>"

lemma sample_in_image: "j < 4096 \<Longrightarrow> in_image sample_layout (0x80210000 + of_nat j)"
proof -
  assume j: "j < 4096"
  have "page_aligned (0x80210000 :: u64)" by (simp add: page_aligned_def)
  then have "page_base (0x80210000 + of_nat j) = (0x80210000 :: u64)" by (rule page_base_add [OF _ j])
  then show ?thesis using sample_wf(4) by (simp add: in_image_def ram_frames_iff page_aligned_def)
qed

lemma program_space_ok:
  "wf_forest sample_layout (snd program_space) {fst program_space}"
  "3 \<le> frames_left sample_layout (snd program_space)"
  "in_image sample_layout b \<Longrightarrow> snd program_space b = sample_program b"
proof -
  let ?L = sample_layout
  let ?m = "init_pmm ?L sample_program"
  let ?F = "{0x87FFF000, 0x87FFE000, 0x87FFD000, 0x87FFC000} :: u64 set"
  obtain r m1 where al: "pmm_alloc_page ?L ?m = (r, m1)" by fastforce
  then have s: "program_space = (r, memset m1 r 0 4096)" by (simp add: program_space_def)
  have init: "wf_forest ?L ?m {}" by (rule wf_init [OF sample_layout_ok])
  have "?F \<subseteq> ram_frames - used ?L ?m"
    using used_init_pmm [OF sample_layout_ok] sample_wf(4) by (auto simp: ram_frames_iff page_aligned_def)
  then have "card ?F \<le> frames_left ?L ?m" unfolding frames_left_def by (intro card_mono) simp_all
  then have four: "4 \<le> frames_left ?L ?m" by simp
  then have r0: "r \<noteq> 0" using frames_left_alloc(1) [OF al] by auto
  then have r_al: "page_aligned r" using pmm.al_page [OF al] frame_aligned by blast
  have fill: "same_except {r} m1 (memset m1 r 0 4096)" by (rule same_except_memset [OF r_al]) simp
  note fr = fresh_frame [OF init al r0 fill]
  have zero: "load64 (memset m1 r 0 4096) (slot r i) = 0" if "i < 512" for i using r_al that by simp
  show "wf_forest ?L (snd program_space) {fst program_space}"
    using new_root(1) [OF init al r0 fill zero] by (simp add: s)
  show "3 \<le> frames_left ?L (snd program_space)"
    using frames_left_insert [OF fr(2,3)] four by (simp add: s)
  assume b: "in_image ?L b"
  then have "memset m1 r 0 4096 b = ?m b"
    by (intro same_exceptD [OF fr(5)]) (use fr(4) in \<open>auto simp: in_image_def\<close>)
  moreover have "?m b = sample_program b"
    by (intro same_exceptD [OF same_except_init [OF sample_layout_ok]]) (use b in \<open>auto simp: in_image_def\<close>)
  ultimately show "snd program_space b = sample_program b" by (simp add: s)
qed

lemma program_load:
  assumes "unat d + n \<le> 4096"
  shows "load_le (snd program_space) (0x80210000 + d) n = load_le sample_program (0x80210000 + d) n"
proof (rule load_le_cong)
  fix j assume "j < n"
  then have "in_image sample_layout (0x80210000 + of_nat (unat d + j))"
    using assms by (intro sample_in_image) linarith
  moreover have "0x80210000 + of_nat (unat d + j) = 0x80210000 + d + of_nat j" by (simp add: add.assoc)
  ultimately show "snd program_space (0x80210000 + d + of_nat j) = sample_program (0x80210000 + d + of_nat j)"
    using program_space_ok(3) by metis
qed

lemma load_le_4: "load_le m a 4 = ucast (m a) OR push_bit 8 (ucast (m (a + 1)) OR push_bit 8
     (ucast (m (a + 2)) OR push_bit 8 (ucast (m (a + 3)))))"
  by (simp add: eval_nat_numeral add.assoc)

lemma load_le_8: "load_le m a 8 = ucast (m a) OR push_bit 8 (ucast (m (a + 1)) OR push_bit 8
     (ucast (m (a + 2)) OR push_bit 8 (ucast (m (a + 3)) OR push_bit 8 (load_le m (a + 4) 4))))"
  by (simp add: eval_nat_numeral add.assoc)

lemma program_fields:
  "p_type (snd program_space) 0x80210040 = 1" "p_flags (snd program_space) 0x80210040 = 4"
  "p_offset (snd program_space) 0x80210040 = 0x80" "p_vaddr (snd program_space) 0x80210040 = 0x1000"
  "p_filesz (snd program_space) 0x80210040 = 2" "p_memsz (snd program_space) 0x80210040 = 5"
  using program_load [of "0x40" 4] program_load [of "0x44" 4] program_load [of "0x48" 8]
    program_load [of "0x50" 8] program_load [of "0x60" 8] program_load [of "0x68" 8]
  by (simp_all add: p_type_def p_flags_def p_offset_def p_vaddr_def p_filesz_def p_memsz_def
      load_le_4 load_le_8 sample_program_def)

lemma load_segment_contents_witness:
  "\<exists>k'. load_segment sample_layout 0 0x80210000 0x80210040 0 (0, program_machine) = Inr (0x1005, k') \<and>
     user_load (mem k') (MAKE_SATP (fst program_space)) (0x1000 + of_nat 1) = Inr 105 \<and>
     user_load (mem k') (MAKE_SATP (fst program_space)) (0x1000 + of_nat 4) = Inr 0"
proof -
  let ?r = "fst program_space" and ?k = program_machine
  have k: "mem ?k = snd program_space" "page_table (procs ?k ! 0) = ?r"
    by (simp_all add: program_machine_def power_on_def)
  have "p = 0" if "p \<in> pages_in 0 5" for p
  proof -
    have "4096 dvd unat p" "unat p < 5" using that by (simp_all add: pages_in_def page_aligned_unat word_less_nat_alt)
    then have "unat p = 0" using dvd_imp_le [of 4096 "unat p"] by linarith
    then show ?thesis by (simp add: unat_eq_zero)
  qed
  then have one: "pages_in 0 5 = {0}" by (auto simp: pages_in_def)
  have hdr: "in_image sample_layout (0x80210040 + of_nat j)" if "j < 56" for j
    using sample_in_image [of "0x40 + j"] that by simp
  have dat: "in_image sample_layout (0x80210000 + 0x80 + of_nat j)" if "j < 2" for j
    using sample_in_image [of "0x80 + j"] that by simp
  have byte: "segment_byte (snd program_space) 2 (0x80210000 + 0x80) 1 = 105"
    using program_space_ok(3) [OF sample_in_image [of "0x81"]] by (simp add: segment_byte_def sample_program_def)
  have "\<exists>k'. load_segment sample_layout 0 0x80210000 0x80210040 0 (0, ?k) = Inr (0x1005, k') \<and>
      gains sample_layout {?r} ?r (mem ?k) (mem k') \<and>
      (\<forall>j < 5. user_load (mem k') (MAKE_SATP ?r) (0x1000 + of_nat j)
           = Inr (segment_byte (mem ?k) 2 (0x80210000 + 0x80) j) \<and>
         page_base (user_addr (mem k') ?r (0x1000 + of_nat j)) \<notin> used sample_layout (mem ?k))"
    using load_segment_contents [of sample_layout ?k "{?r}" 0 ?r "0x80210040" "0x80210040" 0 "0x80210000" 0]
      program_space_ok(1,2) hdr dat program_fields one
    by (simp add: k page_aligned_def max_def)
  then obtain k' where k': "load_segment sample_layout 0 0x80210000 0x80210040 0 (0, ?k) = Inr (0x1005, k')"
    "\<forall>j < 5. user_load (mem k') (MAKE_SATP ?r) (0x1000 + of_nat j)
       = Inr (segment_byte (mem ?k) 2 (0x80210000 + 0x80) j)" by blast
  have "user_load (mem k') (MAKE_SATP ?r) (0x1000 + of_nat 4) = Inr (segment_byte (mem ?k) 2 (0x80210000 + 0x80) 4)"
    "user_load (mem k') (MAKE_SATP ?r) (0x1000 + of_nat 1) = Inr (segment_byte (mem ?k) 2 (0x80210000 + 0x80) 1)"
    using k'(2) [rule_format, of 4] k'(2) [rule_format, of 1] by simp_all
  then show ?thesis using k'(1) byte by (intro exI [of _ k']) (simp add: k segment_byte_def)
qed

end
