(* ===== verification/Kernel_Supply.thy ===== *)
theory Kernel_Supply
  imports Page_Supply
begin

text \<open>
  How many frames \<open>vmm_map_kernel\<close> needs: one for each page table of the kernel half, however many
  pages it maps. With that many frames left it cannot fail.
\<close>

section \<open>Missing tables\<close>

text \<open>The tables at the paths \<open>K\<close> that are not there yet.\<close>

definition missing :: "u64 \<Rightarrow> nat list set \<Rightarrow> memory \<Rightarrow> nat" where
  "missing r K m = card {q \<in> K. tree m r q = None}"

lemma missing_le: "finite K \<Longrightarrow> missing r K m \<le> card K"
  unfolding missing_def by (intro card_mono) auto

lemma missing_subset:
  assumes "\<forall>q \<in> K. length q \<le> 2" "grows L R r m m'"
  shows "{q \<in> K. tree m' r q = None} \<subseteq> {q \<in> K. tree m r q = None}"
proof
  fix q assume q: "q \<in> {q \<in> K. tree m' r q = None}"
  then show "q \<in> {q \<in> K. tree m r q = None}"
    using grows_tree [OF assms(2), of q] assms(1) by (cases "tree m r q") auto
qed

lemma missing_grows:
  assumes "finite K" "\<forall>q \<in> K. length q \<le> 2" "grows L R r m m'"
  shows "missing r K m' \<le> missing r K m"
  unfolding missing_def using missing_subset [OF assms(2,3)] assms(1) by (intro card_mono) simp_all

lemma missing_found:
  assumes "finite K" "\<forall>q \<in> K. length q \<le> 2" "grows L R r m m'"
    and "q \<in> K" "tree m r q = None" "tree m' r q \<noteq> None"
  shows "missing r K m' < missing r K m"
  unfolding missing_def
proof (rule psubset_card_mono)
  have "q \<in> {q \<in> K. tree m r q = None}" "q \<notin> {q \<in> K. tree m' r q = None}" using assms(4-6) by simp_all
  then have "{q \<in> K. tree m' r q = None} \<noteq> {q \<in> K. tree m r q = None}" by metis
  then show "{q \<in> K. tree m' r q = None} \<subset> {q \<in> K. tree m r q = None}"
    using missing_subset [OF assms(2,3)] by (rule psubsetI [rotated])
qed (use assms(1) in simp)

text \<open>
  What mapping costs: \<open>m'\<close> has used no more frames than tables have appeared.
\<close>

definition affords :: "layout \<Rightarrow> u64 \<Rightarrow> nat list set \<Rightarrow> memory \<Rightarrow> memory \<Rightarrow> bool" where
  "affords L r K m m' \<longleftrightarrow>
     missing r K m' \<le> missing r K m \<and>
     frames_left L m + missing r K m' \<le> frames_left L m' + missing r K m"

lemma affords_refl [simp]: "affords L r K m m"
  by (simp add: affords_def)

lemma affords_trans: "affords L r K m m1 \<Longrightarrow> affords L r K m1 m2 \<Longrightarrow> affords L r K m m2"
  unfolding affords_def by linarith

lemma affords_enough: "affords L r K m m' \<Longrightarrow> missing r K m \<le> frames_left L m \<Longrightarrow> missing r K m' \<le> frames_left L m'"
  unfolding affords_def by linarith

lemma next_table_affords:
  assumes K: "finite K" "\<forall>q \<in> K. length q \<le> 2"
    and wf: "wf_forest L m R" and r: "r \<in> R" and t: "tree m r q = Some t" and q: "length q < 2"
    and i: "i < 512" and nt: "next_table L m t i = (t', m')" and mem: "q @ [i] \<in> K"
    and enough: "missing r K m \<le> frames_left L m"
  shows "t' \<noteq> 0" "affords L r K m m'" "grows L R r m m'" "tree m' r (q @ [i]) = Some t'"
proof -
  note nf = next_table_frames [OF wf r t q i nt]
  have pos: "0 < frames_left L m" if "tree m r (q @ [i]) = None"
  proof -
    have "{q @ [i]} \<subseteq> {q \<in> K. tree m r q = None}" using mem that by simp
    then have "card {q @ [i]} \<le> missing r K m" unfolding missing_def using K(1) by (intro card_mono) simp_all
    then show ?thesis using enough by simp
  qed
  show t': "t' \<noteq> 0" using nf(2,3) pos 
    by (cases "tree m r (q @ [i]) = None") (simp_all only: simp_thms HOL.not_False_eq_True)
  show g: "grows L R r m m'" and tr: "tree m' r (q @ [i]) = Some t'"
    using wf r t q i nt by (cases rule: next_table_cases; use t' in simp)+
  note mg = missing_grows [OF K g]
  show "affords L r K m m'"
  proof (cases "tree m r (q @ [i]) = None")
    case True
    then have "missing r K m' < missing r K m" using missing_found [OF K g mem] tr by simp
    then show ?thesis using nf(1) mg unfolding affords_def by linarith
  next
    case False
    then show ?thesis using nf(3) mg frames_left_used [of L m' m] by (simp add: affords_def)
  qed
qed

lemma map_page_affords:
  assumes K: "finite K" "\<forall>q \<in> K. length q \<le> 2" "[VPN va 2] \<in> K" "[VPN va 2, VPN va 1] \<in> K"
    and wf: "wf_forest L m R" and r: "r \<in> R" and ok: "\<And>m. leaf_ok L m R (PA_TO_PTE pa OR flags OR PTE_V)"
    and enough: "missing r K m \<le> frames_left L m" and mp: "map_page L m r va pa flags = (x, m')"
  shows "x = 0 \<and> wf_forest L m' R \<and> affords L r K m m'"
proof -
  let ?e = "PA_TO_PTE pa OR flags OR PTE_V"
  have root: "tree m r [] = Some r" by simp
  have len: "length ([] :: nat list) < 2" "length [VPN va 2] < 2" by simp_all
  obtain t1 m1 where n1: "next_table L m r (VPN va 2) = (t1, m1)" by fastforce
  have k1: "[] @ [VPN va 2] \<in> K" using K(3) by simp
  note s1 = next_table_affords [OF K(1,2) wf r root len(1) VPN_less n1 k1 enough]
  have w2: "map_page L m r va pa flags = map_walk L m1 t1 va pa flags 1"
    using map_walk_Suc [OF wf r root, of va pa flags 1] n1 s1(1) by (simp add: map_page_def numeral_2_eq_2)
  have t1: "tree m1 r [VPN va 2] = Some t1" using s1(4) by simp
  have wf1: "wf_forest L m1 R" using s1(3) by (rule grows_wf)
  obtain t0 m2 where n2: "next_table L m1 t1 (VPN va 1) = (t0, m2)" by fastforce
  have k2: "[VPN va 2] @ [VPN va 1] \<in> K" using K(4) by simp
  note s2 = next_table_affords [OF K(1,2) wf1 r t1 len(2) VPN_less n2 k2 affords_enough [OF s1(2) enough]]
  have w1: "map_page L m r va pa flags = map_walk L m2 t0 va pa flags 0"
    using map_walk_Suc [OF wf1 r t1, of va pa flags 0] n2 w2 s2(1) by simp
  have tr: "tree m2 r [VPN va 2, VPN va 1] = Some t0" using s2(4) by simp
  have wf2: "wf_forest L m2 R" using s2(3) by (rule grows_wf)
  have e: "x = 0" "m' = store64 m2 (slot t0 (VPN va 0)) ?e" using w1 mp by auto
  have used: "used L m' = used L m2" unfolding e(2)
    by (rule used_same_except [OF same_except_store64_slot [OF wf_page [OF wf2 r tr]] wf_aligned [OF wf]])
      (use wf_not_bitmap [OF wf2 r tr] in auto)
  have g: "grows L R r m2 m'" unfolding e(2) by (rule leaf_write(1) [OF wf2 r tr VPN_less ok])
  then have "missing r K m' \<le> missing r K m2" by (rule missing_grows [OF K(1,2)])
  then have "affords L r K m2 m'" using frames_left_used [OF used] by (simp add: affords_def)
  then show ?thesis using e(1) grows_wf [OF g] affords_trans [OF s1(2)] affords_trans [OF s2(2)] by blast
qed

section \<open>The kernel half\<close>

text \<open>The paths of the tables that the kernel pages need.\<close>

definition kernel_walks :: "layout \<Rightarrow> nat list set" where
  "kernel_walks L = (\<lambda>p. [VPN p 2]) ` kernel_pages L \<union> (\<lambda>p. [VPN p 2, VPN p 1]) ` kernel_pages L"

lemma kernel_pages_regions:
  assumes L: "layout_ok L" and p: "p \<in> kernel_pages L"
  shows "0x80200000 \<le> unat p \<and> unat p < 0x88000000 \<or> 0x10000000 \<le> unat p \<and> unat p < 0x10001000 \<or>
    0x0C000000 \<le> unat p \<and> unat p < 0x0C400000"
proof -
  have le: "0x80200000 \<le> unat (rodata_start L)" "0x80200000 \<le> unat (rodata_end L)" "0x80200000 \<le> unat (image_end L)"
    "unat (text_end L) < 0x88000000" "unat (rodata_end L) < 0x88000000" "unat (image_end L) < 0x88000000"
    "unat (text_start L) = 0x80200000"
    using L by (auto simp: layout_ok_def word_le_nat_alt word_less_nat_alt)
  show ?thesis
    using p le unfolding kernel_pages_def kernel_ranges_def
    by (auto simp: pages_in_def word_le_nat_alt word_less_nat_alt)
qed

lemma kernel_walks_card:
  assumes L: "layout_ok L"
  shows "finite (kernel_walks L)" "card (kernel_walks L) \<le> 69" "\<forall>q \<in> kernel_walks L. length q \<le> 2"
proof -
  let ?K = "{[0], [2], [0, 96], [0, 97], [0, 128]} \<union> (\<lambda>j. [2, j]) ` {..<64} :: nat list set"
  have sub: "kernel_walks L \<subseteq> ?K"
  proof
    fix q assume "q \<in> kernel_walks L"
    then obtain p where p: "p \<in> kernel_pages L" "q = [VPN p 2] \<or> q = [VPN p 2, VPN p 1]"
      by (auto simp: kernel_walks_def)
    have v: "VPN p 2 = unat p div 0x40000000 mod 512" "VPN p 1 = unat p div 0x200000 mod 512"
      by (simp_all add: VPN_unat)
    from kernel_pages_regions [OF L p(1)] consider
        (ram) "0x80200000 \<le> unat p" "unat p < 0x88000000" | (uart) "0x10000000 \<le> unat p" "unat p < 0x10001000"
      | (plic) "0x0C000000 \<le> unat p" "unat p < 0x0C400000" by blast
    then show "q \<in> ?K"
    proof cases
      case ram
      define j where "j = unat p div 0x200000 - 1024"
      have "1024 \<le> unat p div 0x200000" "unat p div 0x200000 < 1088" "unat p div 0x40000000 = 2" using ram by simp_all
      then have "unat p div 0x200000 = 1024 + j" "j < 64" unfolding j_def by linarith+
      moreover have "(1024 + j) mod 512 = j" if "j < 64" for j :: nat using that mod_mult_self2 [of j 512 2] by (simp add: add.commute)
      ultimately have "VPN p 1 = j" "VPN p 2 = 2" "j < 64" using v \<open>unat p div 0x40000000 = 2\<close> by simp_all
      then show ?thesis using p(2) by auto
    next
      case uart
      then have "unat p div 0x200000 = 128" "unat p div 0x40000000 = 0" by simp_all
      then have "VPN p 1 = 128" "VPN p 2 = 0" using v by simp_all
      then show ?thesis using p(2) by auto
    next
      case plic
      then have "unat p div 0x200000 = 96 \<or> unat p div 0x200000 = 97" "unat p div 0x40000000 = 0" by auto
      then have "VPN p 1 = 96 \<or> VPN p 1 = 97" "VPN p 2 = 0" using v by auto
      then show ?thesis using p(2) by auto
    qed
  qed
  have "card ?K \<le> card ({[0], [2], [0, 96], [0, 97], [0, 128]} :: nat list set) + card ((\<lambda>j. [2, j]) ` {..<64} :: nat list set)"
    by (rule card_Un_le)
  also have "\<dots> \<le> 5 + 64" by (intro add_mono order_trans [OF card_image_le]) (simp_all add: card_insert_if)
  finally have "card ?K \<le> 69" by simp
  then show "card (kernel_walks L) \<le> 69" using card_mono [OF _ sub] by (meson finite.emptyI finite.insertI finite_UnI finite_imageI finite_lessThan order_trans)
  show "finite (kernel_walks L)" by (rule finite_subset [OF sub]) simp
qed (auto simp: kernel_walks_def)

lemma map_identity_range_affords:
  assumes L: "layout_ok L" and wf: "wf_forest L m R" and r: "r \<in> R" and x: "(s, e, f) \<in> set (kernel_ranges L)"
    and enough: "missing r (kernel_walks L) m \<le> frames_left L m"
  shows "\<exists>m'. map_identity_range L r s e f m = Inr m' \<and> wf_forest L m' R \<and> affords L r (kernel_walks L) m m'"
proof -
  let ?K = "kernel_walks L" and ?J = "\<lambda>m'. wf_forest L m' R \<and> affords L r (kernel_walks L) m m'"
  have one: "y = 0 \<and> ?J m2" if J: "?J m1" and p: "p \<in> pages_in s e" and mp: "map_page L m1 r p p f = (y, m2)" for p m1 y m2
  proof -
    have "p \<in> kernel_pages L" using p x by (auto simp: kernel_pages_def)
    then have "[VPN p 2] \<in> ?K" "[VPN p 2, VPN p 1] \<in> ?K" by (auto simp: kernel_walks_def)
    from map_page_affords [OF kernel_walks_card(1,3) [OF L] this _ r kernel_leaf_ok [OF x, unfolded kernel_entry_def]
        affords_enough [OF _ enough] mp]
    show ?thesis using J affords_trans by blast
  qed
  have "case map_identity_range L r s e f m of Inl z \<Rightarrow> False | Inr m' \<Rightarrow> ?J m'"
    unfolding map_identity_range_def
  proof (rule for_pages_set [OF kernel_ranges_low [OF L x], where J = "\<lambda>A. ?J"])
    show "?J m" using wf by simp
  next
    fix A p m1 z assume "?J m1" "p \<in> pages_in s e"
      and "(let (y, m') = map_page L m1 r p p f in if y = - 1 then Inl map_kernel_oom else Inr m') = Inl z"
    then show False using one [of m1 p] by (fastforce split: prod.splits if_splits)
  next
    fix A p m1 m2 assume "?J m1" "p \<in> pages_in s e"
      and "(let (y, m') = map_page L m1 r p p f in if y = - 1 then Inl map_kernel_oom else Inr m') = Inr m2"
    then show "?J m2" using one [of m1 p] by (fastforce split: prod.splits if_splits)
  qed
  then show ?thesis by (auto split: sum.splits)
qed

lemma vmm_map_kernel_affords:
  assumes L: "layout_ok L" and wf: "wf_forest L m R" and r: "r \<in> R"
    and enough: "missing r (kernel_walks L) m \<le> frames_left L m"
  shows "\<exists>m'. vmm_map_kernel L r m = Inr m' \<and> wf_forest L m' R \<and> affords L r (kernel_walks L) m m'"
proof -
  let ?J = "\<lambda>m'. wf_forest L m' R \<and> affords L r (kernel_walks L) m m'"
  have one: "\<exists>m2. (case x of (s, e, f) \<Rightarrow> \<lambda>m. map_identity_range L r s e f m) m1 = Inr m2 \<and> ?J m2"
    if J: "?J m1" and x: "x \<in> set (kernel_ranges L)" for x m1
  proof -
    obtain s e f where x': "x = (s, e, f)" by (cases x)
    have "missing r (kernel_walks L) m1 \<le> frames_left L m1" using J enough affords_enough by blast
    from map_identity_range_affords [OF L _ r x [unfolded x'] this] show ?thesis
      using J affords_trans unfolding x' by fastforce
  qed
  have "case vmm_map_kernel L r m of Inl z \<Rightarrow> False | Inr m' \<Rightarrow> ?J m'"
    unfolding vmm_map_kernel_def
  proof (rule for_each_rule [where I = "\<lambda>ys. ?J"])
    show "?J m" using wf by simp
  next
    fix ys x zs m1 z assume "kernel_ranges L = ys @ x # zs" "?J m1"
      and "(case x of (s, e, f) \<Rightarrow> \<lambda>m. map_identity_range L r s e f m) m1 = Inl z"
    then show False using one [of m1 x] by fastforce
  next
    fix ys x zs m1 m2 assume "kernel_ranges L = ys @ x # zs" "?J m1"
      and "(case x of (s, e, f) \<Rightarrow> \<lambda>m. map_identity_range L r s e f m) m1 = Inr m2"
    then show "?J m2" using one [of m1 x] by fastforce
  qed
  then show ?thesis by (auto split: sum.splits)
qed

text \<open>A fresh root has none of its tables yet: 69 frames are enough for the kernel half.\<close>

lemma vmm_map_kernel_supply:
  assumes L: "layout_ok L" and wf: "wf_forest L m R" and r: "r \<in> R" and enough: "69 \<le> frames_left L m"
  shows "\<exists>m'. vmm_map_kernel L r m = Inr m' \<and> frames_left L m \<le> frames_left L m' + 69"
proof -
  note k = kernel_walks_card [OF L]
  have le: "missing r (kernel_walks L) m \<le> 69" using missing_le [OF k(1)] k(2) by (rule order_trans)
  then have "missing r (kernel_walks L) m \<le> frames_left L m" using enough by (rule order_trans)
  from vmm_map_kernel_affords [OF L wf r this] show ?thesis using le unfolding affords_def by fastforce
qed

text \<open>A new address space: its root and the kernel half.\<close>

lemma new_space_supply:
  assumes L: "layout_ok L" and wf: "wf_forest L m R" and al: "pmm_alloc_page L m = (r, m1)" and enough: "70 \<le> frames_left L m"
  shows "r \<noteq> 0 \<and> (\<exists>m'. vmm_map_kernel L r (memset m1 r 0 4096) = Inr m' \<and> frames_left L m \<le> frames_left L m' + 70)"
proof -
  let ?m2 = "memset m1 r 0 4096"
  have r0: "r \<noteq> 0" using frames_left_alloc(1) [OF al] enough by auto
  have r_al: "page_aligned r" using pmm.al_page [OF al r0] frame_aligned by blast
  have fill: "same_except {r} m1 ?m2" by (rule same_except_memset [OF r_al]) simp
  have zero: "load64 ?m2 (slot r i) = 0" if "i < 512" for i using r_al that by simp
  note fr = fresh_frame [OF wf al r0 fill]
  have left: "frames_left L m = Suc (frames_left L ?m2)" by (rule frames_left_insert [OF fr(2,3)])
  then have "69 \<le> frames_left L ?m2" using enough by linarith
  from vmm_map_kernel_supply [OF L new_root(1) [OF wf al r0 fill zero] insertI1 this] show ?thesis
    using r0 left by fastforce
qed

end
