(* ===== verification/Elf_Image.thy ===== *)
theory Elf_Image
  imports Elf_Contents Kernel_Supply
begin

text \<open>
  What \<open>load_elf\<close> makes of a well-formed image: the program headers of the file say which bytes
  the process finds where, and nothing else is there but its stack. The loader itself trusts
  the image (see \<open>Elf_Spec\<close> for what holds of any image); \<open>elf_ok\<close> says which images it is
  right to trust.
\<close>

section \<open>Images\<close>

definition program_header :: "memory \<Rightarrow> u64 \<Rightarrow> nat \<Rightarrow> u64" where
  "program_header m elf n = elf + e_phoff m elf + of_nat (56 * n)"

text \<open>The headers of the segments to load, among the first \<open>n\<close>, and their pages.\<close>

definition headers_upto :: "memory \<Rightarrow> u64 \<Rightarrow> nat \<Rightarrow> u64 list" where
  "headers_upto m elf n = filter (\<lambda>ph. p_type m ph = PT_LOAD) (map (program_header m elf) [0..<n])"

definition load_headers :: "memory \<Rightarrow> u64 \<Rightarrow> u64 list" where
  "load_headers m elf = headers_upto m elf (unat (e_phnum m elf))"

definition segment_pages :: "memory \<Rightarrow> u64 \<Rightarrow> u64 set" where
  "segment_pages m ph = (\<lambda>cur. p_vaddr m ph + cur) ` pages_in 0 (p_memsz m ph)"

definition ends_at :: "memory \<Rightarrow> u64 list \<Rightarrow> u64" where
  "ends_at m hs = fold (\<lambda>ph e. max e (p_vaddr m ph + p_memsz m ph)) hs 0"

definition program_end :: "memory \<Rightarrow> u64 \<Rightarrow> u64" where
  "program_end m elf = ends_at m (load_headers m elf)"

text \<open>The image lies in the ramdisk, that is within the kernel image, which nothing changes.\<close>

definition elf_in_image :: "layout \<Rightarrow> memory \<Rightarrow> u64 \<Rightarrow> bool" where
  "elf_in_image L m elf \<longleftrightarrow>
     (\<forall>j < 64. in_image L (elf + of_nat j)) \<and>
     (\<forall>n < unat (e_phnum m elf). \<forall>j < 56. in_image L (program_header m elf n + of_nat j)) \<and>
     (\<forall>ph \<in> set (load_headers m elf). \<forall>j < unat (p_filesz m ph). in_image L (elf + p_offset m ph + of_nat j))"

text \<open>
  A segment that can be loaded as it says: readable, on page boundaries, below the stack and
  off the pages of the kernel.
\<close>

definition segment_ok :: "layout \<Rightarrow> memory \<Rightarrow> u64 \<Rightarrow> bool" where
  "segment_ok L m ph \<longleftrightarrow>
     p_flags m ph AND PF_R \<noteq> 0 \<and> page_aligned (p_vaddr m ph) \<and>
     unat (p_vaddr m ph) + unat (p_memsz m ph) \<le> 0x3FFFF000 \<and> segment_pages m ph \<inter> kernel_pages L = {}"

definition elf_ok :: "layout \<Rightarrow> memory \<Rightarrow> u64 \<Rightarrow> bool" where
  "elf_ok L m elf \<longleftrightarrow>
     elf_in_image L m elf \<and> load32 m elf = ELF_NUM \<and> (\<forall>ph \<in> set (load_headers m elf). segment_ok L m ph) \<and>
     sorted_wrt (\<lambda>p q. segment_pages m p \<inter> segment_pages m q = {}) (load_headers m elf)"

text \<open>The frames it takes at most: a page and two tables for every page, the stack included.\<close>

definition program_frames :: "memory \<Rightarrow> u64 \<Rightarrow> nat" where
  "program_frames m elf = 3 * (\<Sum>ph \<leftarrow> load_headers m elf. card (pages_in 0 (p_memsz m ph))) + 3"

text \<open>
  What the process is to find: the bytes of each segment, readable, writable or executable as
  its flags say, a zeroed stack page, and no other page.
\<close>

definition segment_in :: "memory \<Rightarrow> u64 \<Rightarrow> u64 \<Rightarrow> u64 \<Rightarrow> memory \<Rightarrow> bool" where
  "segment_in m elf ph r m' \<longleftrightarrow>
     (\<forall>j < unat (p_memsz m ph). user_load m' (MAKE_SATP r) (p_vaddr m ph + of_nat j) =
        Inr (segment_byte m (p_filesz m ph) (elf + p_offset m ph) j)) \<and>
     (\<forall>p \<in> segment_pages m ph.
        has (path_leaf m' r p) PTE_V \<and> has (path_leaf m' r p) PTE_U \<and> has (path_leaf m' r p) PTE_R \<and>
        (has (path_leaf m' r p) PTE_W \<longleftrightarrow> p_flags m ph AND PF_W \<noteq> 0) \<and>
        (has (path_leaf m' r p) PTE_X \<longleftrightarrow> p_flags m ph AND PF_X \<noteq> 0 \<and> \<not> p_flags m ph AND PF_W \<noteq> 0))"

definition stack_in :: "u64 \<Rightarrow> memory \<Rightarrow> bool" where
  "stack_in r m' \<longleftrightarrow>
     (\<forall>j < 4096. user_load m' (MAKE_SATP r) (STACK_BASE + of_nat j) = Inr 0) \<and>
     has (path_leaf m' r STACK_BASE) PTE_U \<and> has (path_leaf m' r STACK_BASE) PTE_W \<and>
     \<not> has (path_leaf m' r STACK_BASE) PTE_X"

definition program_in :: "memory \<Rightarrow> u64 \<Rightarrow> u64 \<Rightarrow> memory \<Rightarrow> bool" where
  "program_in m elf r m' \<longleftrightarrow>
     (\<forall>ph \<in> set (load_headers m elf). segment_in m elf ph r m') \<and>
     (\<forall>va. page_aligned va \<longrightarrow> unat va < 2 ^ 38 \<longrightarrow> user_frame (path_leaf m' r va) \<noteq> None \<longrightarrow>
        va = STACK_BASE \<or> (\<exists>ph \<in> set (load_headers m elf). va \<in> segment_pages m ph))"

text \<open>A process that is about to run the program at \<open>elf\<close>.\<close>

definition runs_program :: "layout \<Rightarrow> memory \<Rightarrow> u64 \<Rightarrow> process \<Rightarrow> memory \<Rightarrow> bool" where
  "runs_program L m elf p m' \<longleftrightarrow>
     tf_sp (frame p) = STACK_TOP \<and> heap_max p = STACK_BASE - 4096 \<and>
     (elf_in_image L m elf \<longrightarrow> tf_sepc (frame p) = e_entry m elf \<and> heap_break p = page_up (program_end m elf)) \<and>
     (elf_ok L m elf \<longrightarrow> program_in m elf (page_table p) m')"

lemma headers_upto_0 [simp]: "headers_upto m elf 0 = []"
  by (simp add: headers_upto_def)

lemma headers_upto_Suc:
  "headers_upto m elf (Suc n) = headers_upto m elf n @
     (if p_type m (program_header m elf n) = PT_LOAD then [program_header m elf n] else [])"
  by (simp add: headers_upto_def)

lemma headers_upto_mono: "n \<le> n' \<Longrightarrow> set (headers_upto m elf n) \<subseteq> set (headers_upto m elf n')"
  by (auto simp: headers_upto_def)

lemma ends_at_snoc: "ends_at m (hs @ [ph]) = max (ends_at m hs) (p_vaddr m ph + p_memsz m ph)"
  by (simp add: ends_at_def)

section \<open>The image does not change\<close>

lemma header_image:
  assumes ph: "\<forall>j < 56. in_image L (ph + of_nat j)" and same: "same_image L m m'"
  shows "p_type m' ph = p_type m ph" "p_flags m' ph = p_flags m ph" "p_offset m' ph = p_offset m ph"
    "p_vaddr m' ph = p_vaddr m ph" "p_filesz m' ph = p_filesz m ph" "p_memsz m' ph = p_memsz m ph"
proof -
  have im: "load_le m' (ph + d) n = load_le m (ph + d) n" if "unat d + n \<le> 56" for d n
  proof (rule load_image)
    show "in_image L (ph + d + of_nat j)" if "j < n" for j
    proof -
      have "ph + d + of_nat j = ph + of_nat (unat d + j)" by (simp add: add.assoc)
      moreover have "unat d + j < 56" using that \<open>unat d + n \<le> 56\<close> by linarith
      ultimately show ?thesis using ph by metis
    qed
  qed (use same in \<open>simp add: same_image_def\<close>)
  show "p_type m' ph = p_type m ph" "p_flags m' ph = p_flags m ph" "p_offset m' ph = p_offset m ph"
    "p_vaddr m' ph = p_vaddr m ph" "p_filesz m' ph = p_filesz m ph" "p_memsz m' ph = p_memsz m ph"
    using im [of 0 4] im [of 4 4] im [of 8 8] im [of 16 8] im [of 32 8] im [of 40 8]
    by (simp_all add: p_type_def p_flags_def p_offset_def p_vaddr_def p_filesz_def p_memsz_def)
qed

lemma file_header_image:
  assumes elf: "\<forall>j < 64. in_image L (elf + of_nat j)" and same: "same_image L m m'"
  shows "load32 m' elf = load32 m elf" "e_entry m' elf = e_entry m elf" "e_phoff m' elf = e_phoff m elf"
    "e_phnum m' elf = e_phnum m elf"
proof -
  have im: "load_le m' (elf + d) n = load_le m (elf + d) n" if "unat d + n \<le> 64" for d n
  proof (rule load_image)
    show "in_image L (elf + d + of_nat j)" if "j < n" for j
    proof -
      have "elf + d + of_nat j = elf + of_nat (unat d + j)" by (simp add: add.assoc)
      moreover have "unat d + j < 64" using that \<open>unat d + n \<le> 64\<close> by linarith
      ultimately show ?thesis using elf by metis
    qed
  qed (use same in \<open>simp add: same_image_def\<close>)
  show "load32 m' elf = load32 m elf" "e_entry m' elf = e_entry m elf" "e_phoff m' elf = e_phoff m elf"
    "e_phnum m' elf = e_phnum m elf"
    using im [of 0 4] im [of 24 8] im [of 32 8] im [of 56 2]
    by (simp_all add: e_entry_def e_phoff_def e_phnum_def)
qed

lemma loading_same_image:
  assumes "wf_forest L (mem k) R" "r \<in> R" "loading L R r k s"
  shows "same_image L (mem k) (mem s)"
  by (rule same_image_gains [OF assms(1,2) loads_gains]) (use assms(3) in \<open>simp add: loading_def\<close>)

section \<open>One segment among others\<close>

text \<open>Only the leaves of its own pages change.\<close>

lemma segment_loop_leaves:
  assumes wf: "wf_forest L (mem k) R" and r: "page_table (procs k ! i) = r" "r \<in> R" and low: "unat memsz \<le> 2 ^ 39"
    and run: "for_pages (Inl Diverge) (load_page L i elf ph vaddr offset) 0 memsz k = Inr k'"
    and abc: "a < 512" "b < 512" "c < 512" "[a, b, c] \<notin> vpath ` (\<lambda>cur. vaddr + cur) ` pages_in 0 memsz"
  shows "leaf_at (mem k') r a b c = leaf_at (mem k) r a b c"
proof -
  let ?J = "\<lambda>s. loading L R r k s \<and> leaf_at (mem s) r a b c = leaf_at (mem k) r a b c"
  have "case for_pages (Inl Diverge) (load_page L i elf ph vaddr offset) 0 memsz k of
      Inl x \<Rightarrow> True | Inr k' \<Rightarrow> ?J k'"
  proof (rule for_pages_exact [where J = "\<lambda>A. ?J"])
    show "?J k" using loading_refl [OF wf] by simp
  next
    fix p s s' assume J: "?J s" and p: "p \<in> pages_in 0 memsz" and b: "load_page L i elf ph vaddr offset p s = Inr s'"
    have pt: "page_table (procs s ! i) = r" using loading_procs [OF conjunct1 [OF J]] r(1) by simp
    have wfs: "wf_forest L (mem s) R" using J loading_wf by blast
    have "loading L R r s s'" using load_page_loading [OF wfs pt r(2), of elf ph vaddr offset p] b by simp
    moreover have v: "[a, b, c] \<noteq> vpath (vaddr + p)" using abc(4) p by (auto simp: image_iff)
    have "leaf_at (mem s') r a b c = leaf_at (mem s) r a b c"
      using wfs pt r(2)
    proof (cases rule: load_page_cases [where elf = elf and ph = ph and vaddr = vaddr and offset = offset and cur = p])
      case (page n m1 m2 m3)
      then show ?thesis using b page(7) [OF r(2) abc(1-3)] v by simp
    qed (use b in simp_all)
    ultimately show "?J s'" using J loading_trans by metis
  qed (use low in simp_all)
  then show ?thesis unfolding run by simp
qed

lemma pages_loaded_keep:
  assumes kept: "\<And>i j l f b. tree m1 r [i, j, l] = Some f \<Longrightarrow> page_base b = f \<Longrightarrow> m2 b = m1 b"
    and pf: "p_flags m ph AND PF_R \<noteq> 0"
    and pl: "pages_loaded L m r ph vaddr src A m1"
    and leaf: "\<And>cur. cur \<in> A \<Longrightarrow> path_leaf m2 r (vaddr + cur) = path_leaf m1 r (vaddr + cur)"
  shows "pages_loaded L m r ph vaddr src A m2"
  unfolding pages_loaded_def
proof
  fix cur assume cur: "cur \<in> A"
  then obtain n where n: "path_leaf m1 r (vaddr + cur) = PA_TO_PTE n OR segment_flags (p_flags m ph) OR PTE_V"
    "n \<notin> used L m" "page_aligned n" "\<forall>j < 4096. m1 (n + of_nat j) = segment_byte m (p_filesz m ph) src (unat cur + j)"
    using pl by (auto simp: pages_loaded_def)
  have "user_frame (path_leaf m1 r (vaddr + cur)) = Some n" unfolding n(1) by (rule segment_user_frame [OF n(3)]) (use pf in blast)
  then have "tree m1 r (vpath (vaddr + cur)) = Some n" unfolding path_leaf_def by (simp add: tree_leaf)
  then have "m2 (n + of_nat j) = m1 (n + of_nat j)" if "j < 4096" for j
    using kept page_base_add [OF n(3) that] by blast
  then show "\<exists>n. path_leaf m2 r (vaddr + cur) = PA_TO_PTE n OR segment_flags (p_flags m ph) OR PTE_V \<and> n \<notin> used L m \<and>
      page_aligned n \<and> (\<forall>j < 4096. m2 (n + of_nat j) = segment_byte m (p_filesz m ph) src (unat cur + j))"
    using n leaf [OF cur] by (intro exI [of _ n]) simp
qed

text \<open>It does not matter whether the image is read before or after other segments are loaded.\<close>

lemma pages_loaded_from:
  assumes ph: "\<forall>j < 56. in_image L (ph + of_nat j)" and data: "\<forall>j < unat (p_filesz m ph). in_image L (src + of_nat j)"
    and same: "same_image L m m1" and used: "used L m \<subseteq> used L m1"
    and pl: "pages_loaded L m1 r ph vaddr src A m2"
  shows "pages_loaded L m r ph vaddr src A m2"
proof -
  note h = header_image [OF ph same]
  have byte: "segment_byte m1 (p_filesz m ph) src j = segment_byte m (p_filesz m ph) src j" for j
    using data same by (simp add: segment_byte_def same_image_def)
  show ?thesis
    unfolding pages_loaded_def
  proof
    fix cur assume "cur \<in> A"
    then obtain n where n: "path_leaf m2 r (vaddr + cur) = PA_TO_PTE n OR segment_flags (p_flags m ph) OR PTE_V"
      "n \<notin> used L m1" "page_aligned n" "\<forall>j < 4096. m2 (n + of_nat j) = segment_byte m (p_filesz m ph) src (unat cur + j)"
      using pl unfolding pages_loaded_def h byte by blast
    then show "\<exists>n. path_leaf m2 r (vaddr + cur) = PA_TO_PTE n OR segment_flags (p_flags m ph) OR PTE_V \<and> n \<notin> used L m \<and>
        page_aligned n \<and> (\<forall>j < 4096. m2 (n + of_nat j) = segment_byte m (p_filesz m ph) src (unat cur + j))"
      using used by (intro exI [of _ n]) blast
  qed
qed

text \<open>Pages of well-formed segments are told apart by their paths.\<close>

lemma segment_page_low:
  assumes ok: "segment_ok L m ph" and va: "va \<in> segment_pages m ph"
  shows "page_aligned va" "unat va < 0x3FFFF000"
proof -
  obtain cur where cur: "va = p_vaddr m ph + cur" "page_aligned cur" "unat cur < unat (p_memsz m ph)"
    using va by (auto simp: segment_pages_def pages_in_def word_less_nat_alt)
  have b: "page_aligned (p_vaddr m ph)" "unat (p_vaddr m ph) + unat (p_memsz m ph) \<le> 0x3FFFF000"
    using ok by (simp_all add: segment_ok_def)
  have u: "unat va = unat (p_vaddr m ph) + unat cur"
    using unat_add_of_nat [of "p_vaddr m ph" "unat cur"] b(2) cur(1,3) by simp
  then show "unat va < 0x3FFFF000" using b(2) cur(3) by linarith
  show "page_aligned va" using b(1) cur(2) by (simp add: page_aligned_unat u)
qed

lemma segment_vpaths:
  assumes p: "segment_ok L m p" and q: "segment_ok L m q" and d: "segment_pages m p \<inter> segment_pages m q = {}"
    and x: "x \<in> segment_pages m p"
  shows "vpath x \<notin> vpath ` segment_pages m q"
proof
  assume "vpath x \<in> vpath ` segment_pages m q"
  then obtain y where y: "y \<in> segment_pages m q" "vpath x = vpath y" by blast
  note lx = segment_page_low [OF p x] and ly = segment_page_low [OF q y(1)]
  have "x = y" using VPN_inj [OF lx(1) _ ly(1)] lx(2) ly(2) y(2) by simp
  then show False using d x y(1) by blast
qed

section \<open>All segments\<close>

text \<open>The segments \<open>hs\<close> are in place, and no other leaf has changed.\<close>

definition placed :: "layout \<Rightarrow> memory \<Rightarrow> u64 \<Rightarrow> u64 list \<Rightarrow> u64 \<Rightarrow> memory \<Rightarrow> bool" where
  "placed L m elf hs r m' \<longleftrightarrow>
     (\<forall>ph \<in> set hs. pages_loaded L m r ph (p_vaddr m ph) (elf + p_offset m ph) (pages_in 0 (p_memsz m ph)) m') \<and>
     (\<forall>a b c. a < 512 \<longrightarrow> b < 512 \<longrightarrow> c < 512 \<longrightarrow> [a, b, c] \<notin> vpath ` (\<Union>ph \<in> set hs. segment_pages m ph) \<longrightarrow>
        leaf_at m' r a b c = leaf_at m r a b c)"

lemma placed_step:
  assumes wf: "wf_forest L m R" and r: "r \<in> R" and hdr: "\<forall>j < 56. in_image L (ph + of_nat j)"
    and data: "\<forall>j < unat (p_filesz m ph). in_image L (elf + p_offset m ph + of_nat j)"
    and ok: "segment_ok L m ph" "\<forall>q \<in> set hs. segment_ok L m q"
    and dis: "\<forall>q \<in> set hs. segment_pages m q \<inter> segment_pages m ph = {}"
    and old: "placed L m elf hs r (mem s)" and l: "loading L R r k s" "mem k = m" and pt: "page_table (procs s ! i) = r"
    and run: "for_pages (Inl Diverge) (load_page L i elf ph (p_vaddr m ph) (p_offset m ph)) 0 (p_memsz m ph) s = Inr s'"
  shows "placed L m elf (hs @ [ph]) r (mem s')"
proof -
  let ?va = "p_vaddr m ph" and ?sz = "p_memsz m ph" and ?src = "elf + p_offset m ph"
  note wfs = loading_wf [OF l(1)]
  have same: "same_image L m (mem s)" using loading_same_image [OF _ r l(1)] wf l(2) by simp
  note h = header_image [OF hdr same]
  have low: "unat ?va + unat ?sz \<le> 2 ^ 38" "unat ?sz \<le> 2 ^ 39" "page_aligned ?va" "p_flags m ph AND PF_R \<noteq> 0"
    using ok(1) by (simp_all add: segment_ok_def)
  have g: "gains L R r (mem s) (mem s')" and pl: "pages_loaded L (mem s) r ph ?va ?src (pages_in 0 ?sz) (mem s')"
    using segment_loop [OF wfs pt r _ low(3,1) _ _ run] low(4) hdr data h by auto
  have "used L m \<subseteq> used L (mem s)"
    using extendsD(2) [OF gainsD(1) [OF loads_gains [of L R r k s]]] l by (simp add: loading_def)
  then have new: "pages_loaded L m r ph ?va ?src (pages_in 0 ?sz) (mem s')"
    by (rule pages_loaded_from [OF hdr data same _ pl])
  have leaf: "leaf_at (mem s') r a b c = leaf_at (mem s) r a b c"
    if "a < 512" "b < 512" "c < 512" "[a, b, c] \<notin> vpath ` segment_pages m ph" for a b c
    by (rule segment_loop_leaves [OF wfs pt r low(2) run that(1-3)]) (use that(4) in \<open>simp add: segment_pages_def\<close>)
  have kept: "pages_loaded L m r q (p_vaddr m q) (elf + p_offset m q) (pages_in 0 (p_memsz m q)) (mem s')"
    if q: "q \<in> set hs" for q
  proof (rule pages_loaded_keep [OF extends_own_frame [OF wfs gainsD(1) [OF g] r]])
    show "p_flags m q AND PF_R \<noteq> 0" using ok(2) q by (simp add: segment_ok_def)
    show "pages_loaded L m r q (p_vaddr m q) (elf + p_offset m q) (pages_in 0 (p_memsz m q)) (mem s)"
      using old q by (simp add: placed_def)
    fix cur assume "cur \<in> pages_in 0 (p_memsz m q)"
    then have "p_vaddr m q + cur \<in> segment_pages m q" by (simp add: segment_pages_def)
    then have "vpath (p_vaddr m q + cur) \<notin> vpath ` segment_pages m ph"
      using segment_vpaths [OF _ ok(1)] ok(2) dis q by blast
    then show "path_leaf (mem s') r (p_vaddr m q + cur) = path_leaf (mem s) r (p_vaddr m q + cur)"
      unfolding path_leaf_def by (intro leaf VPN_less)
  qed
  have out: "leaf_at (mem s') r a b c = leaf_at m r a b c"
    if abc: "a < 512" "b < 512" "c < 512" "[a, b, c] \<notin> vpath ` (\<Union>ph \<in> set (hs @ [ph]). segment_pages m ph)" for a b c
  proof -
    have "[a, b, c] \<notin> vpath ` segment_pages m ph" "[a, b, c] \<notin> vpath ` (\<Union>ph \<in> set hs. segment_pages m ph)"
      using abc(4) by auto
    then show ?thesis using leaf abc(1-3) old by (simp add: placed_def)
  qed
  show ?thesis unfolding placed_def using new kept out by auto
qed

lemma headers_prefix:
  "n \<le> n' \<Longrightarrow> \<exists>zs. headers_upto m elf n' = headers_upto m elf n @ zs"
proof (induction n')
  case (Suc n')
  then show ?case by (cases "n = Suc n'") (auto simp: headers_upto_Suc)
qed simp

lemma header_listed:
  assumes "n < unat (e_phnum m elf)" "p_type m (program_header m elf n) = PT_LOAD"
  shows "\<exists>zs. load_headers m elf = headers_upto m elf n @ program_header m elf n # zs"
proof -
  obtain zs where "load_headers m elf = headers_upto m elf (Suc n) @ zs"
    using headers_prefix [OF Suc_leI [OF assms(1)]] unfolding load_headers_def by blast
  then show ?thesis using assms(2) by (simp add: headers_upto_Suc)
qed

text \<open>The loop over the headers: where the heap starts, and for a well-formed image all segments.\<close>

lemma load_segments_image:
  assumes wf: "wf_forest L (mem k) R" and r: "page_table (procs k ! i) = r" "r \<in> R" and m: "mem k = m"
    and im: "elf_in_image L m elf"
    and run: "load_segments L i elf (elf + e_phoff m elf) 0 (0, k) = Inr (e, k')"
  shows "e = program_end m elf" "elf_ok L m elf \<Longrightarrow> placed L m elf (load_headers m elf) r (mem k')"
proof -
  let ?N = "unat (e_phnum m elf)" and ?hs = "headers_upto m elf"
  let ?I = "\<lambda>n y. n \<le> ?N \<and> loading L R r k (snd y) \<and> fst y = ends_at m (?hs n) \<and>
    (elf_ok L m elf \<longrightarrow> placed L m elf (?hs n) r (mem (snd y)))"
  have wfm: "wf_forest L m R" using wf m by simp
  have hd: "\<forall>j < 64. in_image L (elf + of_nat j)" using im by (simp add: elf_in_image_def)
  have same: "same_image L m (mem s)" if "loading L R r k s" for s using loading_same_image [OF wf r(2) that] m by simp
  have num: "unat (e_phnum (mem s) elf) = ?N" if "loading L R r k s" for s
    using file_header_image(4) [OF hd same [OF that]] by simp
  have "case load_segments L i elf (elf + e_phoff m elf) 0 (0, k) of
      Inl z \<Rightarrow> True | Inr y \<Rightarrow> \<exists>n. ?I n y \<and> \<not> n < unat (e_phnum (mem (snd y)) elf)"
  proof (rule load_segments_rule)
    show "?I 0 (0, k)" using loading_refl [OF wf] m by (simp add: ends_at_def placed_def)
  next
    fix n and y y' :: "u64 \<times> kernel"
    assume I: "?I n y" and lt: "n < unat (e_phnum (mem (snd y)) elf)"
      and b: "load_segment L i elf (elf + e_phoff m elf) n y = Inr y'"
    obtain e s where y: "y = (e, s)" by (cases y)
    obtain e' s' where y': "y' = (e', s')" by (cases y')
    have l: "loading L R r k s" using I y by simp
    have n: "n < ?N" using lt num [OF l] y by simp
    let ?ph = "program_header m elf n"
    have hdr: "\<forall>j < 56. in_image L (?ph + of_nat j)" using im n by (simp add: elf_in_image_def)
    note h = header_image [OF hdr same [OF l]]
    have pt: "page_table (procs s ! i) = r" using loading_procs [OF l] r(1) by simp
    have ls: "loading L R r s s'"
      using load_segment_loading [OF loading_wf [OF l] pt r(2), of elf "elf + e_phoff m elf" n e] b y y' by simp
    have eqs: "elf + e_phoff m elf + of_nat (56 * n) = ?ph" by (simp add: program_header_def)
    show "?I (Suc n) y'"
    proof (cases "p_type m ?ph = PT_LOAD")
      case False
      then have "y' = y" using b y eqs h(1) by (simp add: load_segment_def Let_def)
      then show ?thesis using I n False by (simp add: headers_upto_Suc)
    next
      case True
      obtain k1 where loop: "for_pages (Inl Diverge) (load_page L i elf ?ph (p_vaddr m ?ph) (p_offset m ?ph)) 0
            (p_memsz m ?ph) s = Inr k1" "s' = k1" "e' = max e (p_vaddr m ?ph + p_memsz m ?ph)"
      proof -
        let ?loop = "for_pages (Inl Diverge) (load_page L i elf ?ph (p_vaddr m ?ph) (p_offset m ?ph)) 0 (p_memsz m ?ph) s"
        have mx: "(if x > e then x else e) = max e x" for x by (simp add: max_def less_imp_le)
        have "load_segment L i elf (elf + e_phoff m elf) n (e, s) =
            bind_stop ?loop (\<lambda>k1. Inr (max e (p_vaddr m ?ph + p_memsz m ?ph), k1))"
          using True unfolding load_segment_def prod.case Let_def eqs h mx by simp
        then obtain k1 where "?loop = Inr k1" "s' = k1" "e' = max e (p_vaddr m ?ph + p_memsz m ?ph)"
          using b y y' by (auto simp: bind_stop_Inr_iff)
        then show thesis by (rule that)
      qed
      have "placed L m elf (?hs (Suc n)) r (mem s')" if ok: "elf_ok L m elf"
      proof -
        obtain zs where zs: "load_headers m elf = ?hs n @ ?ph # zs" using header_listed [OF n True] by blast
        have segs: "\<forall>q \<in> set (load_headers m elf). segment_ok L m q"
          "sorted_wrt (\<lambda>p q. segment_pages m p \<inter> segment_pages m q = {}) (load_headers m elf)"
          using ok by (simp_all add: elf_ok_def)
        have "placed L m elf (?hs n @ [?ph]) r (mem k1)"
        proof (rule placed_step [OF wfm r(2) hdr _ _ _ _ _ l m pt loop(1)])
          show "\<forall>j < unat (p_filesz m ?ph). in_image L (elf + p_offset m ?ph + of_nat j)"
            using im zs by (simp add: elf_in_image_def)
          show "segment_ok L m ?ph" "\<forall>q \<in> set (?hs n). segment_ok L m q" using segs(1) zs by simp_all
          show "\<forall>q \<in> set (?hs n). segment_pages m q \<inter> segment_pages m ?ph = {}"
            using segs(2) unfolding zs by (simp add: sorted_wrt_append)
          show "placed L m elf (?hs n) r (mem s)" using I ok y by simp
        qed
        then show ?thesis using True loop(2) by (simp add: headers_upto_Suc)
      qed
      then show ?thesis using I y y' n True loop(3) loading_trans [OF l ls]
        by (simp add: headers_upto_Suc ends_at_snoc)
    qed
  qed simp
  then obtain n where n: "?I n (e, k')" "\<not> n < unat (e_phnum (mem k') elf)" unfolding run by auto
  then have "n = ?N" using num by simp
  then show "e = program_end m elf" "elf_ok L m elf \<Longrightarrow> placed L m elf (load_headers m elf) r (mem k')"
    using n(1) by (simp_all add: program_end_def load_headers_def)
qed

section \<open>Enough memory\<close>

abbreviation segment_frames :: "memory \<Rightarrow> u64 list \<Rightarrow> nat" where
  "segment_frames m hs \<equiv> 3 * (\<Sum>ph \<leftarrow> hs. card (pages_in 0 (p_memsz m ph)))"

lemma load_segments_returns:
  assumes wf: "wf_forest L (mem k) R" and r: "page_table (procs k ! i) = r" "r \<in> R" and m: "mem k = m"
    and ok: "elf_ok L m elf" and enough: "segment_frames m (load_headers m elf) \<le> frames_left L m"
  shows "\<exists>e k'. load_segments L i elf (elf + e_phoff m elf) 0 (0, k) = Inr (e, k') \<and> loading L R r k k' \<and>
    frames_left L m \<le> frames_left L (mem k') + segment_frames m (load_headers m elf)"
proof -
  let ?N = "unat (e_phnum m elf)" and ?hs = "headers_upto m elf"
  let ?I = "\<lambda>n y. n \<le> ?N \<and> loading L R r k (snd y) \<and>
    frames_left L m \<le> frames_left L (mem (snd y)) + segment_frames m (?hs n)"
  have im: "elf_in_image L m elf" using ok by (simp add: elf_ok_def)
  have hd: "\<forall>j < 64. in_image L (elf + of_nat j)" using im by (simp add: elf_in_image_def)
  have same: "same_image L m (mem s)" if "loading L R r k s" for s using loading_same_image [OF wf r(2) that] m by simp
  have num: "unat (e_phnum (mem s) elf) = ?N" if "loading L R r k s" for s
    using file_header_image(4) [OF hd same [OF that]] by simp
  have step: "\<exists>y'. load_segment L i elf (elf + e_phoff m elf) n y = Inr y' \<and> ?I (Suc n) y'"
    if I: "?I n y" and lt: "n < unat (e_phnum (mem (snd y)) elf)" for n y
  proof -
    obtain e s where y: "y = (e, s)" by (cases y)
    have l: "loading L R r k s" using I y by simp
    have n: "n < ?N" using lt num [OF l] y by simp
    let ?ph = "program_header m elf n"
    have hdr: "\<forall>j < 56. in_image L (?ph + of_nat j)" using im n by (simp add: elf_in_image_def)
    note h = header_image [OF hdr same [OF l]]
    have pt: "page_table (procs s ! i) = r" using loading_procs [OF l] r(1) by simp
    have eqs: "elf + e_phoff m elf + of_nat (56 * n) = ?ph" by (simp add: program_header_def)
    show ?thesis
    proof (cases "p_type m ?ph = PT_LOAD")
      case False
      then have "load_segment L i elf (elf + e_phoff m elf) n y = Inr y"
        using y eqs h(1) by (simp add: load_segment_def Let_def)
      then show ?thesis using I n False by (simp add: headers_upto_Suc)
    next
      case True
      obtain zs where zs: "load_headers m elf = ?hs n @ ?ph # zs" using header_listed [OF n True] by blast
      have sg: "segment_ok L m ?ph" using ok zs by (simp add: elf_ok_def)
      then have low: "unat (p_memsz m ?ph) \<le> 2 ^ 39" by (simp add: segment_ok_def)
      have "3 * card (pages_in 0 (p_memsz m ?ph)) \<le> frames_left L (mem s)"
        using enough I y unfolding zs by simp
      from segment_loop_returns [OF loading_wf [OF l] pt r(2) low this, of elf ?ph "p_vaddr m ?ph" "p_offset m ?ph"]
      obtain k1 where k1: "for_pages (Inl Diverge) (load_page L i elf ?ph (p_vaddr m ?ph) (p_offset m ?ph)) 0
            (p_memsz m ?ph) s = Inr k1"
          "frames_left L (mem s) \<le> frames_left L (mem k1) + 3 * card (pages_in 0 (p_memsz m ?ph))" by blast
      obtain e' where run: "load_segment L i elf (elf + e_phoff m elf) n y = Inr (e', k1)"
        using True k1(1) unfolding load_segment_def prod.case Let_def eqs y h by simp
      have "loading L R r s k1"
        using load_segment_loading [OF loading_wf [OF l] pt r(2), of elf "elf + e_phoff m elf" n e] run y by simp
      then have "?I (Suc n) (e', k1)"
        using I y n True k1(2) loading_trans [OF l] by (simp add: headers_upto_Suc)
      then show ?thesis using run by blast
    qed
  qed
  have "case load_segments L i elf (elf + e_phoff m elf) 0 (0, k) of
      Inl z \<Rightarrow> False | Inr y \<Rightarrow> \<exists>n. ?I n y \<and> \<not> n < unat (e_phnum (mem (snd y)) elf)"
  proof (rule load_segments_rule)
    show "?I 0 (0, k)" using loading_refl [OF wf] m by simp
  next
    fix n y z assume "?I n y" "n < unat (e_phnum (mem (snd y)) elf)" "load_segment L i elf (elf + e_phoff m elf) n y = Inl z"
    then show False using step [of n y] by simp
  next
    fix n y y' assume "?I n y" "n < unat (e_phnum (mem (snd y)) elf)" "load_segment L i elf (elf + e_phoff m elf) n y = Inr y'"
    then show "?I (Suc n) y'" using step [of n y] by simp
  qed
  then obtain e k' n where run: "load_segments L i elf (elf + e_phoff m elf) 0 (0, k) = Inr (e, k')"
    and n: "?I n (e, k')" "\<not> n < unat (e_phnum (mem k') elf)"
    by (cases "load_segments L i elf (elf + e_phoff m elf) 0 (0, k)") auto
  have "n = ?N" using n num by simp
  then show ?thesis using run n(1) by (simp add: load_headers_def)
qed

section \<open>The stack\<close>

definition stack_laid :: "u64 \<Rightarrow> memory \<Rightarrow> bool" where
  "stack_laid r m' \<longleftrightarrow> (\<exists>n. page_aligned n \<and>
     path_leaf m' r STACK_BASE = PA_TO_PTE n OR (PTE_U OR PTE_R OR PTE_W) OR PTE_V \<and> (\<forall>j < 4096. m' (n + of_nat j) = 0))"

lemma user_stack_cases:
  assumes wf: "wf_forest L (mem k) R" and r: "page_table (procs k ! i) = r" "r \<in> R"
  obtains (none) k' where "user_stack L i e k = (-1, k')" "frames_left L (mem k) = 0"
  | (stack) m3 where "user_stack L i e k = (0, (upd_proc i (\<lambda>p. p\<lparr>frame := (frame p)\<lparr>tf_sp := STACK_TOP\<rparr>,
        heap_break := page_up e, heap_max := STACK_BASE - 4096\<rparr>) k)\<lparr>mem := m3\<rparr>)"
      "gains L R r (mem k) m3"
      "\<And>a b c. a < 512 \<Longrightarrow> b < 512 \<Longrightarrow> c < 512 \<Longrightarrow> [a, b, c] \<noteq> vpath STACK_BASE \<Longrightarrow>
         leaf_at m3 r a b c = leaf_at (mem k) r a b c"
      "3 \<le> frames_left L (mem k) \<Longrightarrow> stack_laid r m3" "frames_left L (mem k) \<le> frames_left L m3 + 3"
proof -
  let ?f = "PTE_U OR PTE_R OR PTE_W"
  obtain st m1 where al: "pmm_alloc_page L (mem k) = (st, m1)" by fastforce
  show thesis
  proof (cases "st = 0")
    case True
    then show thesis using al frames_left_alloc(1) [OF al]
      by (intro none) (auto simp: user_stack_def)
  next
    case st0: False
    let ?m2 = "memset m1 st 0 4096"
    have st_al: "page_aligned st" using pmm.al_page [OF al st0] frame_aligned by blast
    have fill: "same_except {st} m1 ?m2" by (rule same_except_memset [OF st_al]) simp
    note fr = fresh_frame [OF wf al st0 fill]
    have left: "frames_left L (mem k) = Suc (frames_left L ?m2)" by (rule frames_left_insert [OF fr(2,3)])
    have "user_frame (PA_TO_PTE st OR ?f OR PTE_V) = Some j \<Longrightarrow> j = st" for j
      using PTE_TO_PA_map [OF st_al user_rw_flags] by (auto simp: user_frame_def split: if_splits)
    then have lk: "leaf_ok L ?m2 R (PA_TO_PTE st OR ?f OR PTE_V)" by (rule fresh_leaf_ok [OF wf al st0 fill])
    obtain x m3 where mp: "map_page L ?m2 r STACK_BASE st ?f = (x, m3)" by fastforce
    let ?k' = "(upd_proc i (\<lambda>p. p\<lparr>frame := (frame p)\<lparr>tf_sp := STACK_TOP\<rparr>,
        heap_break := page_up e, heap_max := STACK_BASE - 4096\<rparr>) k)\<lparr>mem := m3\<rparr>"
    have run: "user_stack L i e k = (0, ?k')"
      using al st0 mp r(1) by (simp add: user_stack_def Let_def page_up_def)
    have "frames_left L ?m2 \<le> frames_left L m3 + 2" by (rule map_page_frames(1) [OF fr(1) r(2) lk mp])
    then have few: "frames_left L (mem k) \<le> frames_left L m3 + 3" using left by linarith
    show thesis using wf r(2) al st0 fill user_rw_flags mp
    proof (cases rule: add_user_page)
      case oom
      have "2 \<le> frames_left L ?m2 \<Longrightarrow> x = 0" by (rule map_page_frames(2) [OF fr(1) r(2) lk mp])
      then have "\<not> 3 \<le> frames_left L (mem k)" using left oom(1) by auto
      then show thesis using run oom(4,5) few by (intro stack [of m3]) auto
    next
      case mapped
      have "m3 (st + of_nat j) = 0" if "j < 4096" for j
        using mapped(8) [OF that] memset_page_at [OF st_al that, of m1 0] by simp
      then have "stack_laid r m3" using mapped(3) st_al unfolding stack_laid_def by blast
      then show thesis using run mapped(2,4) r(2) few by (intro stack [of m3]) auto
    qed
  qed
qed

section \<open>The whole image\<close>

definition laid_out :: "layout \<Rightarrow> memory \<Rightarrow> u64 \<Rightarrow> u64 \<Rightarrow> memory \<Rightarrow> bool" where
  "laid_out L m elf r m' \<longleftrightarrow>
     (\<forall>ph \<in> set (load_headers m elf).
        pages_loaded L m r ph (p_vaddr m ph) (elf + p_offset m ph) (pages_in 0 (p_memsz m ph)) m') \<and>
     (\<forall>a b c. a < 512 \<longrightarrow> b < 512 \<longrightarrow> c < 512 \<longrightarrow> [a, b, c] \<noteq> vpath STACK_BASE \<longrightarrow>
        [a, b, c] \<notin> vpath ` (\<Union>ph \<in> set (load_headers m elf). segment_pages m ph) \<longrightarrow>
        leaf_at m' r a b c = leaf_at m r a b c)"

lemma stack_vpath:
  assumes "segment_ok L m ph" "va \<in> segment_pages m ph"
  shows "vpath va \<noteq> vpath STACK_BASE"
proof
  assume eq: "vpath va = vpath STACK_BASE"
  note l = segment_page_low [OF assms]
  have "va = STACK_BASE" using VPN_inj [OF l(1), of STACK_BASE] l(2) eq by (simp add: page_aligned_def)
  then show False using l(2) by simp
qed

lemma placed_laid_out:
  assumes kept: "\<And>i j l f b. tree m1 r [i, j, l] = Some f \<Longrightarrow> page_base b = f \<Longrightarrow> m2 b = m1 b"
    and ok: "\<forall>ph \<in> set (load_headers m elf). segment_ok L m ph"
    and pl: "placed L m elf (load_headers m elf) r m1"
    and leaf: "\<And>a b c. a < 512 \<Longrightarrow> b < 512 \<Longrightarrow> c < 512 \<Longrightarrow> [a, b, c] \<noteq> vpath STACK_BASE \<Longrightarrow>
         leaf_at m2 r a b c = leaf_at m1 r a b c"
  shows "laid_out L m elf r m2"
proof -
  have "pages_loaded L m r ph (p_vaddr m ph) (elf + p_offset m ph) (pages_in 0 (p_memsz m ph)) m2"
    if ph: "ph \<in> set (load_headers m elf)" for ph
  proof (rule pages_loaded_keep [OF kept])
    show "p_flags m ph AND PF_R \<noteq> 0" using ok ph by (simp add: segment_ok_def)
    show "pages_loaded L m r ph (p_vaddr m ph) (elf + p_offset m ph) (pages_in 0 (p_memsz m ph)) m1"
      using pl ph by (simp add: placed_def)
    fix cur assume "cur \<in> pages_in 0 (p_memsz m ph)"
    then have "p_vaddr m ph + cur \<in> segment_pages m ph" by (simp add: segment_pages_def)
    then have "vpath (p_vaddr m ph + cur) \<noteq> vpath STACK_BASE" using stack_vpath ok ph by blast
    then show "path_leaf m2 r (p_vaddr m ph + cur) = path_leaf m1 r (p_vaddr m ph + cur)"
      unfolding path_leaf_def by (intro leaf VPN_less)
  qed
  then show ?thesis using pl leaf by (simp add: laid_out_def placed_def)
qed

text \<open>
  \<open>load_elf\<close> on an image in the ramdisk: the entry point and the start of the heap are those of the
  file; a well-formed image is laid out as it says, and with enough frames loading it succeeds.
\<close>

lemma load_elf_image:
  assumes wf: "wf_forest L m R" and m: "mem k = m" and r: "page_table (procs k ! i) = r" "r \<in> R"
    and i: "i < length (procs k)" and im: "elf_in_image L m elf"
  shows "load_elf L i elf k = Inr (0, k') \<Longrightarrow>
      procs k' = (procs k)[i := loaded_process (e_entry m elf) (page_up (program_end m elf)) (procs k ! i)] \<and>
      (elf_ok L m elf \<longrightarrow> laid_out L m elf r (mem k'))"
    and "elf_ok L m elf \<Longrightarrow> program_frames m elf \<le> frames_left L m \<Longrightarrow>
      \<exists>k'. load_elf L i elf k = Inr (0, k') \<and> stack_laid r (mem k') \<and>
        frames_left L m \<le> frames_left L (mem k') + program_frames m elf"
proof -
  have wfk: "wf_forest L (mem k) R" using wf m by simp
  have hd: "\<forall>j < 64. in_image L (elf + of_nat j)" using im by (simp add: elf_in_image_def)
  let ?ls = "load_segments L i elf (elf + e_phoff m elf) 0 (0, k)"
  have after: "load_elf L i elf k = Inr (user_stack L i e (upd_proc i (\<lambda>p. p\<lparr>frame := (frame p)\<lparr>tf_sepc := e_entry m elf\<rparr>\<rparr>) k1))"
    "loading L R r k k1"
    if magic: "load32 m elf = ELF_NUM" and run: "?ls = Inr (e, k1)" for e k1
  proof -
    show l: "loading L R r k k1" using load_segments_loading [OF wfk r, of elf "elf + e_phoff m elf"] run by simp
    have "e_entry (mem k1) elf = e_entry m elf"
      using file_header_image(2) [OF hd loading_same_image [OF wfk r(2) l, unfolded m]] .
    then show "load_elf L i elf k =
        Inr (user_stack L i e (upd_proc i (\<lambda>p. p\<lparr>frame := (frame p)\<lparr>tf_sepc := e_entry m elf\<rparr>\<rparr>) k1))"
      using magic run m by (simp add: load_elf_def)
  qed
  let ?u = "\<lambda>k1. upd_proc i (\<lambda>p. p\<lparr>frame := (frame p)\<lparr>tf_sepc := e_entry m elf\<rparr>\<rparr>) k1"
  have space: "wf_forest L (mem (?u k1)) R" "page_table (procs (?u k1) ! i) = r" "procs k1 = procs k"
    if "loading L R r k k1" for k1
    using loading_wf [OF that] loading_procs [OF that] r(1) i by simp_all
  show "procs k' = (procs k)[i := loaded_process (e_entry m elf) (page_up (program_end m elf)) (procs k ! i)] \<and>
      (elf_ok L m elf \<longrightarrow> laid_out L m elf r (mem k'))" if run: "load_elf L i elf k = Inr (0, k')"
  proof -
    have magic: "load32 m elf = ELF_NUM" using run m by (auto simp: load_elf_def split: if_splits)
    then obtain e k1 where ls: "?ls = Inr (e, k1)"
      using run m by (auto simp: load_elf_def split: sum.splits)
    note af = after [OF magic ls] and img = load_segments_image [OF wfk r m im ls]
    note sp = space [OF af(2)]
    show ?thesis using sp(1,2) r(2)
    proof (cases rule: user_stack_cases [where e = e])
      case (none k2)
      then show ?thesis using af(1) run by simp
    next
      case (stack m3)
      have k': "k' = (upd_proc i (\<lambda>p. p\<lparr>frame := (frame p)\<lparr>tf_sp := STACK_TOP\<rparr>,
          heap_break := page_up e, heap_max := STACK_BASE - 4096\<rparr>) (?u k1))\<lparr>mem := m3\<rparr>"
        using af(1) run stack(1) by simp
      have "procs k' = (procs k)[i := loaded_process (e_entry m elf) (page_up e) (procs k ! i)]"
        unfolding k' using sp(3) i by (simp add: loaded_process_def)
      moreover have "laid_out L m elf r m3" if ok: "elf_ok L m elf"
      proof (rule placed_laid_out [of "mem k1"])
        have g: "gains L R r (mem k1) m3" using stack(2) by simp
        show "m3 b = mem k1 b" if "tree (mem k1) r [x, y, z] = Some f" "page_base b = f" for x y z f b
          by (rule extends_own_frame [OF loading_wf [OF af(2)] gainsD(1) [OF g] r(2) that])
        show "\<forall>ph \<in> set (load_headers m elf). segment_ok L m ph" using ok by (simp add: elf_ok_def)
        show "placed L m elf (load_headers m elf) r (mem k1)" by (rule img(2) [OF ok])
        show "leaf_at m3 r a b c = leaf_at (mem k1) r a b c"
          if "a < 512" "b < 512" "c < 512" "[a, b, c] \<noteq> vpath STACK_BASE" for a b c
          using stack(3) [OF that] by simp
      qed
      moreover have "mem k' = m3" by (simp add: k')
      ultimately show ?thesis using img(1) by simp
    qed
  qed
  show "\<exists>k'. load_elf L i elf k = Inr (0, k') \<and> stack_laid r (mem k') \<and>
      frames_left L m \<le> frames_left L (mem k') + program_frames m elf"
    if ok: "elf_ok L m elf" and enough: "program_frames m elf \<le> frames_left L m"
  proof -
    have magic: "load32 m elf = ELF_NUM" using ok by (simp add: elf_ok_def)
    have "segment_frames m (load_headers m elf) \<le> frames_left L m" using enough by (simp add: program_frames_def)
    from load_segments_returns [OF wfk r m ok this] obtain e k1 where ls: "?ls = Inr (e, k1)"
      "frames_left L m \<le> frames_left L (mem k1) + segment_frames m (load_headers m elf)" by blast
    then have left: "3 \<le> frames_left L (mem k1)" using enough by (simp add: program_frames_def)
    note af = after [OF magic ls(1)]
    note sp = space [OF af(2)]
    show ?thesis using sp(1,2) r(2)
    proof (cases rule: user_stack_cases [where e = e])
      case (none k2)
      then show ?thesis using left by simp
    next
      case (stack m3)
      then show ?thesis using af(1) left ls(2) by (simp add: program_frames_def)
    qed
  qed
qed

section \<open>What the process finds\<close>

lemma laid_out_bitmap:
  assumes wf: "wf_forest L m1 R" and r: "r \<in> R" and se: "same_except {image_end L} m1 m2"
    and ok: "\<forall>ph \<in> set (load_headers m elf). segment_ok L m ph" and lo: "laid_out L m elf r m1"
  shows "laid_out L m elf r m2"
proof -
  have leaf: "leaf_at m2 r a b c = leaf_at m1 r a b c" if "c < 512" for a b c by (rule leaf_bitmap [OF wf r se that])
  then have path: "path_leaf m2 r va = path_leaf m1 r va" for va by (simp add: path_leaf_def)
  have kept: "m2 b = m1 b" if "tree m1 r p = Some f" "page_base b = f" for p f b
    by (rule same_exceptD [OF se]) (use wf_not_bitmap [OF wf r that(1)] that(2) in auto)
  have "pages_loaded L m r ph (p_vaddr m ph) (elf + p_offset m ph) (pages_in 0 (p_memsz m ph)) m2"
    if ph: "ph \<in> set (load_headers m elf)" for ph
    by (rule pages_loaded_keep [OF kept]) (use ok ph lo path in \<open>auto simp: segment_ok_def laid_out_def\<close>)
  then show ?thesis using lo leaf by (simp add: laid_out_def)
qed

lemma stack_laid_bitmap:
  assumes wf: "wf_forest L m1 R" and r: "r \<in> R" and se: "same_except {image_end L} m1 m2" and st: "stack_laid r m1"
  shows "stack_laid r m2"
proof -
  have path: "path_leaf m2 r va = path_leaf m1 r va" for va
    unfolding path_leaf_def by (rule leaf_bitmap [OF wf r se VPN_less])
  have kept: "m2 b = m1 b" if "tree m1 r p = Some f" "page_base b = f" for p f b
    by (rule same_exceptD [OF se]) (use wf_not_bitmap [OF wf r that(1)] that(2) in auto)
  obtain n where n: "page_aligned n" "path_leaf m1 r STACK_BASE = PA_TO_PTE n OR (PTE_U OR PTE_R OR PTE_W) OR PTE_V"
    "\<forall>j < 4096. m1 (n + of_nat j) = 0" using st unfolding stack_laid_def by blast
  note he = has_entry [OF user_rw_flags, of n]
  have "user_frame (path_leaf m1 r STACK_BASE) = Some n"
    unfolding n(2) using he PTE_TO_PA_map [OF n(1) user_rw_flags]
    by (simp add: user_frame_def is_leaf_def has_flags bit_or_iff bit_flags)
  then have "tree m1 r (vpath STACK_BASE) = Some n" unfolding path_leaf_def by (simp add: tree_leaf)
  then have "m2 (n + of_nat j) = m1 (n + of_nat j)" if "j < 4096" for j using kept page_base_add [OF n(1) that] by blast
  then show ?thesis using n path unfolding stack_laid_def by (intro exI [of _ n]) simp
qed

lemma stack_laid_in:
  assumes wf: "wf_forest L m' R" and r: "r \<in> R" and st: "stack_laid r m'"
  shows "stack_in r m'"
proof -
  obtain n where n: "page_aligned n" "path_leaf m' r STACK_BASE = PA_TO_PTE n OR (PTE_U OR PTE_R OR PTE_W) OR PTE_V"
    "\<forall>j < 4096. m' (n + of_nat j) = 0" using st unfolding stack_laid_def by blast
  let ?e = "path_leaf m' r STACK_BASE"
  have e: "has ?e PTE_V" "has ?e PTE_R" "has ?e PTE_W" "\<not> has ?e PTE_X" "has ?e PTE_U"
    unfolding n(2) using has_entry [OF user_rw_flags, of n] by (simp_all add: has_flags bit_or_iff bit_flags)
  have pa: "PTE_TO_PA ?e = n" unfolding n(2) by (rule PTE_TO_PA_map [OF n(1) user_rw_flags])
  then have uf: "user_frame ?e = Some n" using e by (simp add: user_frame_def is_leaf_def)
  have "user_load m' (MAKE_SATP r) (STACK_BASE + of_nat j) = Inr 0" if j: "j < 4096" for j
  proof -
    let ?a = "STACK_BASE + of_nat j"
    have ua: "unat ?a = 0x3FFFF000 + j" using unat_add_of_nat [of STACK_BASE j] j by simp
    have "page_base ?a = STACK_BASE" by (rule page_base_add [OF _ j]) (simp add: page_aligned_def)
    then have p: "path_leaf m' r ?a = ?e" using path_leaf_page_base [of m' r ?a] by simp
    have "translate m' (MAKE_SATP r) Load ?a = Some (user_addr m' r ?a)"
      by (rule translate_leaf [OF wf r]) (use ua j p e uf in simp_all)
    moreover have "user_addr m' r ?a = n + of_nat j"
      using ua j by (simp add: user_addr_def p pa mod_add_eq [of "0x3FFFF000", symmetric])
    ultimately show ?thesis using n(3) j by (simp add: user_load_def)
  qed
  then show ?thesis using e by (simp add: stack_in_def)
qed

lemma laid_out_program:
  assumes wf: "wf_forest L m' R" and r: "r \<in> R" and ok: "elf_ok L m elf" and lo: "laid_out L m elf r m'"
    and fresh: "\<And>a b c. a < 512 \<Longrightarrow> b < 512 \<Longrightarrow> c < 512 \<Longrightarrow> user_frame (leaf_at m r a b c) = None"
  shows "program_in m elf r m'"
proof -
  have sg: "segment_ok L m ph" if "ph \<in> set (load_headers m elf)" for ph using ok that by (simp add: elf_ok_def)
  have "segment_in m elf ph r m'" if ph: "ph \<in> set (load_headers m elf)" for ph
  proof -
    have pl: "pages_loaded L m r ph (p_vaddr m ph) (elf + p_offset m ph) (pages_in 0 (p_memsz m ph)) m'"
      using lo ph by (simp add: laid_out_def)
    have low: "page_aligned (p_vaddr m ph)" "unat (p_vaddr m ph) + unat (p_memsz m ph) \<le> 2 ^ 38" "p_flags m ph AND PF_R \<noteq> 0"
      using sg [OF ph] by (simp_all add: segment_ok_def)
    have "has (path_leaf m' r p) PTE_V \<and> has (path_leaf m' r p) PTE_U \<and> has (path_leaf m' r p) PTE_R \<and>
        (has (path_leaf m' r p) PTE_W \<longleftrightarrow> p_flags m ph AND PF_W \<noteq> 0) \<and>
        (has (path_leaf m' r p) PTE_X \<longleftrightarrow> p_flags m ph AND PF_X \<noteq> 0 \<and> \<not> p_flags m ph AND PF_W \<noteq> 0)"
      if p: "p \<in> segment_pages m ph" for p
    proof -
      obtain n where "path_leaf m' r p = PA_TO_PTE n OR segment_flags (p_flags m ph) OR PTE_V"
        using p pl by (auto simp: segment_pages_def pages_loaded_def)
      then show ?thesis using has_entry [OF segment_flags_bits(1)] segment_flags_bits low(3) by simp
    qed
    then show ?thesis using segment_byte_loaded [OF wf r low pl] by (simp add: segment_in_def)
  qed
  moreover have "va = STACK_BASE \<or> (\<exists>ph \<in> set (load_headers m elf). va \<in> segment_pages m ph)"
    if va: "page_aligned va" "unat va < 2 ^ 38" "user_frame (path_leaf m' r va) \<noteq> None" for va
  proof (rule ccontr)
    assume no: "\<not> (va = STACK_BASE \<or> (\<exists>ph \<in> set (load_headers m elf). va \<in> segment_pages m ph))"
    have same: "va = q" if "vpath va = vpath q" "page_aligned q" "unat q < 2 ^ 39" for q
      using VPN_inj [OF va(1) _ that(2,3)] va(2) that(1) by simp
    have "vpath va \<noteq> vpath STACK_BASE" using same [of STACK_BASE] no by (auto simp: page_aligned_def)
    moreover have "vpath va \<notin> vpath ` (\<Union>ph \<in> set (load_headers m elf). segment_pages m ph)"
    proof
      assume "vpath va \<in> vpath ` (\<Union>ph \<in> set (load_headers m elf). segment_pages m ph)"
      then obtain ph q where q: "ph \<in> set (load_headers m elf)" "q \<in> segment_pages m ph" "vpath va = vpath q" by blast
      note l = segment_page_low [OF sg [OF q(1)] q(2)]
      have "va = q" by (rule same [OF q(3) l(1)]) (use l(2) in simp)
      then show False using no q by blast
    qed
    ultimately have "path_leaf m' r va = path_leaf m r va"
      using lo unfolding laid_out_def path_leaf_def by (blast intro: VPN_less)
    moreover have "user_frame (path_leaf m r va) = None" unfolding path_leaf_def by (intro fresh VPN_less)
    ultimately show False using va(3) by simp
  qed
  ultimately show ?thesis unfolding program_in_def by blast
qed

section \<open>An image is the same in every memory with the same kernel image\<close>

lemma sorted_wrt_same:
  "(\<And>x y. x \<in> set xs \<Longrightarrow> y \<in> set xs \<Longrightarrow> P x y = Q x y) \<Longrightarrow> sorted_wrt P xs = sorted_wrt Q xs"
  by (induction xs) auto

lemma image_same:
  assumes im: "elf_in_image L m elf" and same: "same_image L m m1"
  shows "load_headers m1 elf = load_headers m elf" "program_end m1 elf = program_end m elf"
    "program_frames m1 elf = program_frames m elf" "e_entry m1 elf = e_entry m elf"
    "\<And>ph. ph \<in> set (load_headers m elf) \<Longrightarrow> segment_in m1 elf ph r m' = segment_in m elf ph r m'"
    "\<And>ph. ph \<in> set (load_headers m elf) \<Longrightarrow> segment_pages m1 ph = segment_pages m ph"
    "elf_ok L m1 elf = elf_ok L m elf" "elf_in_image L m1 elf" "program_in m1 elf r m' = program_in m elf r m'"
proof -
  have hd: "\<forall>j < 64. in_image L (elf + of_nat j)" using im by (simp add: elf_in_image_def)
  note f = file_header_image [OF hd same]
  have ph: "program_header m1 elf n = program_header m elf n" for n by (simp add: program_header_def f)
  have hdr: "\<forall>j < 56. in_image L (program_header m elf n + of_nat j)" if "n < unat (e_phnum m elf)" for n
    using im that by (simp add: elf_in_image_def)
  show hs: "load_headers m1 elf = load_headers m elf"
    unfolding load_headers_def headers_upto_def f ph [abs_def]
    by (rule filter_cong [OF refl]) (use header_image(1) [OF hdr same] in auto)
  have h: "p_flags m1 q = p_flags m q" "p_offset m1 q = p_offset m q"
    "p_vaddr m1 q = p_vaddr m q" "p_filesz m1 q = p_filesz m q" "p_memsz m1 q = p_memsz m q"
    "\<forall>j < unat (p_filesz m q). m1 (elf + p_offset m q + of_nat j) = m (elf + p_offset m q + of_nat j)"
    if q: "q \<in> set (load_headers m elf)" for q
  proof -
    obtain n where n: "n < unat (e_phnum m elf)" "q = program_header m elf n"
      using q by (auto simp: load_headers_def headers_upto_def)
    show "p_flags m1 q = p_flags m q" "p_offset m1 q = p_offset m q"
      "p_vaddr m1 q = p_vaddr m q" "p_filesz m1 q = p_filesz m q" "p_memsz m1 q = p_memsz m q"
      unfolding n(2) by (rule header_image [OF hdr [OF n(1)] same])+
    show "\<forall>j < unat (p_filesz m q). m1 (elf + p_offset m q + of_nat j) = m (elf + p_offset m q + of_nat j)"
      using im q same by (simp add: elf_in_image_def same_image_def)
  qed
  have "fold (\<lambda>ph e. max e (p_vaddr m1 ph + p_memsz m1 ph)) (load_headers m elf) 0 =
      fold (\<lambda>ph e. max e (p_vaddr m ph + p_memsz m ph)) (load_headers m elf) 0"
    by (rule fold_cong) (simp_all add: h)
  then show "program_end m1 elf = program_end m elf" by (simp add: program_end_def ends_at_def hs)
  have "map (\<lambda>ph. card (pages_in 0 (p_memsz m1 ph))) (load_headers m elf) =
      map (\<lambda>ph. card (pages_in 0 (p_memsz m ph))) (load_headers m elf)"
    by (rule map_cong) (simp_all add: h)
  then show "program_frames m1 elf = program_frames m elf" 
    unfolding program_frames_def hs by (rule arg_cong [where f = "\<lambda>xs. 3 * sum_list xs + 3"])
  show "e_entry m1 elf = e_entry m elf" by (rule f)
  show pages: "segment_pages m1 q = segment_pages m q" if "q \<in> set (load_headers m elf)" for q
    by (simp add: segment_pages_def h [OF that])
  have byte: "segment_byte m1 (p_filesz m q) (elf + p_offset m q) j = segment_byte m (p_filesz m q) (elf + p_offset m q) j"
    if "q \<in> set (load_headers m elf)" for q j
    using h(6) [OF that] by (simp add: segment_byte_def)
  show seg: "segment_in m1 elf q r m' = segment_in m elf q r m'" if "q \<in> set (load_headers m elf)" for q
    by (simp add: segment_in_def h(1-5) [OF that] pages [OF that] byte [OF that])
  show im1: "elf_in_image L m1 elf"
  proof -
    have "in_image L (elf + p_offset m1 q + of_nat j)" if q: "q \<in> set (load_headers m elf)" "j < unat (p_filesz m1 q)" for q j
    proof -
      have "j < unat (p_filesz m q)" using q(2) h(4) [OF q(1)] by simp
      then have "in_image L (elf + p_offset m q + of_nat j)" using im q(1) unfolding elf_in_image_def by blast
      then show ?thesis using h(2) [OF q(1)] by simp
    qed
    then show ?thesis using hd hdr unfolding elf_in_image_def hs f ph by blast
  qed
  have ok: "segment_ok L m1 q = segment_ok L m q" if "q \<in> set (load_headers m elf)" for q
    by (simp add: segment_ok_def h(1-5) [OF that] pages [OF that])
  have "sorted_wrt (\<lambda>p q. segment_pages m1 p \<inter> segment_pages m1 q = {}) (load_headers m elf) =
      sorted_wrt (\<lambda>p q. segment_pages m p \<inter> segment_pages m q = {}) (load_headers m elf)"
    by (rule sorted_wrt_same) (simp add: pages)
  then show "elf_ok L m1 elf = elf_ok L m elf"
    using ok im im1 unfolding elf_ok_def hs f(1) by blast
  show "program_in m1 elf r m' = program_in m elf r m'"
    unfolding program_in_def hs using seg pages by simp
qed

end
