(* ===== verification/Exec.thy ===== *)
theory Exec
  imports Isolation Elf_Image
begin

text \<open>
  \<open>SYS_EXEC\<close>: the current process gets a new address space with the program of the named file,
  and its old one goes back to the allocator; an unknown or unreadable name changes nothing.
\<close>

section \<open>Swapping the address space of a process\<close>

lemma spaces_ok_swap:
  assumes s: "spaces_ok L m ps" and c: "c \<in> live ps" and p: "state p \<noteq> PROC_UNUSED" "kernel_stack p = kernel_stack (ps ! c)"
    and new: "page_table p \<notin> roots ps"
    and o: "owned L m' (insert (page_table p) (roots ps) - {page_table (ps ! c)}) (stacks ps)"
  shows "spaces_ok L m' (ps[c := p])"
proof -
  note sd = spaces_okD [OF s]
  have len: "c < length ps" using c by (simp add: live_def)
  let ?ps = "ps[c := p]"
  have l: "live ?ps = live ps" using c p(1) by (auto simp: live_def nth_list_update)
  have other: "?ps ! i = ps ! i" if "i \<noteq> c" for i using that by simp
  have me: "?ps ! c = p" using len by simp
  have st: "kernel_stack (?ps ! i) = kernel_stack (ps ! i)" for i using me other p(2) by (cases "i = c") simp_all
  have "roots ?ps = insert (page_table p) (roots ps - {page_table (ps ! c)})"
  proof -
    have "roots ?ps = (\<lambda>i. page_table (?ps ! i)) ` insert c (live ps - {c})" unfolding roots_def l using c by (simp add: insert_absorb)
    also have "\<dots> = insert (page_table p) ((\<lambda>i. page_table (?ps ! i)) ` (live ps - {c}))" by (simp only: image_insert me)
    also have "(\<lambda>i. page_table (?ps ! i)) ` (live ps - {c}) = (\<lambda>i. page_table (ps ! i)) ` (live ps - {c})"
      using other by (intro image_cong) auto
    also have "(\<lambda>i. page_table (ps ! i)) ` (live ps - {c}) = roots ps - {page_table (ps ! c)}"
      unfolding roots_def using sd(3) c by (subst inj_on_image_set_diff [of _ "live ps"]) auto
    finally show ?thesis .
  qed
  moreover have "page_table p \<noteq> page_table (ps ! c)" using new sd(5) [OF c] by auto
  ultimately have r: "roots ?ps = insert (page_table p) (roots ps) - {page_table (ps ! c)}" by auto
  have stk: "stacks ?ps = stacks ps" unfolding stacks_def l by (simp add: st)
  have "inj_on (\<lambda>i. page_table (?ps ! i)) (live ps)"
  proof (rule inj_onI)
    fix i j assume i: "i \<in> live ps" "j \<in> live ps" and eq: "page_table (?ps ! i) = page_table (?ps ! j)"
    consider "i = c" "j = c" | "i = c" "j \<noteq> c" | "i \<noteq> c" "j = c" | "i \<noteq> c" "j \<noteq> c" by blast
    then show "i = j"
    proof cases
      case 2
      then show ?thesis using eq me other sd(5) [OF i(2)] new by simp
    next
      case 3
      then show ?thesis using eq me other sd(5) [OF i(1)] new by simp
    next
      case 4
      then show ?thesis using eq other sd(3) i by (auto simp: inj_on_def)
    qed simp
  qed
  moreover have "inj_on (\<lambda>i. kernel_stack (?ps ! i)) (live ps)" using sd(4) by (simp add: st)
  ultimately show ?thesis using o by (simp add: spaces_ok_def l r stk)
qed

section \<open>What a successful exec leaves\<close>

text \<open>
  The caller \<open>c\<close> runs the program at \<open>elf\<close>: for a file of the ramdisk it starts at the file's entry
  point with its heap behind the file's last segment, and for a well-formed file its memory is
  that program and nothing else.
\<close>

definition execed :: "layout \<Rightarrow> nat \<Rightarrow> u64 \<Rightarrow> kernel \<Rightarrow> kernel \<Rightarrow> bool" where
  "execed L c elf k k' \<longleftrightarrow>
     current k' = current k \<and> next_pid k' = next_pid k \<and> rx k' = rx k \<and>
     (let p = procs k ! c; p' = procs k' ! c in
        procs k' = (procs k)[c := p'] \<and> satp k' = MAKE_SATP (page_table p') \<and>
        page_table p' \<notin> roots (procs k) \<and> no_wx (mem k') (page_table p') \<and> guarded (mem k') (page_table p') \<and>
        (\<exists>entry brk. p' = loaded_process entry (page_up brk) (p\<lparr>page_table := page_table p'\<rparr>)) \<and>
        (elf_in_image L (mem k) elf \<longrightarrow>
           p' = loaded_process (e_entry (mem k) elf) (page_up (program_end (mem k) elf)) (p\<lparr>page_table := page_table p'\<rparr>)) \<and>
        (elf_ok L (mem k) elf \<longrightarrow> program_in (mem k) elf (page_table p') (mem k')) \<and>
        used L (mem k') \<inter> nodes (mem k) (page_table p) = {} \<and>
        used L (mem k) - nodes (mem k) (page_table p) \<subseteq> used L (mem k') \<and>
        same_image L (mem k) (mem k') \<and>
        (\<forall>r \<in> roots (procs k) - {page_table p}. untouched (mem k) (mem k') r))"

abbreviation exec_oom :: stop where "exec_oom \<equiv> Panic ''PANIC: exec OOM''"
abbreviation exec_failed :: stop where "exec_failed \<equiv> Panic ''PANIC: exec failed to load ELF''"

text \<open>The part of the handler after the file has been found.\<close>

definition exec_image :: "layout \<Rightarrow> tf_ptr \<Rightarrow> nat \<Rightarrow> u64 \<Rightarrow> kernel \<Rightarrow> stop + tf_ptr \<times> kernel" where
  "exec_image L tf c elf_data k =
     (let old_pt = page_table (procs k ! c); (new_pt, m1) = pmm_alloc_page L (mem k)
      in if new_pt = 0 then Inl exec_oom
         else bind_stop (vmm_map_kernel L new_pt (memset m1 new_pt 0 4096)) (\<lambda>m2.
           let k2 = upd_proc c (\<lambda>p. p\<lparr>page_table := new_pt\<rparr>) (k\<lparr>mem := m2\<rparr>)
           in bind_stop (load_elf L c elf_data k2) (\<lambda>(r, k3).
                if r \<noteq> 0 then Inl exec_failed
                else Inr (tf, k3\<lparr>satp := MAKE_SATP new_pt, mem := vmm_free_pt L (mem k3) old_pt\<rparr>))))"

lemma sys_exec_eq:
  assumes "current k = Some c"
  shows "sys_exec L tf k =
     (let filename = tf_a0 (get_frame k tf)
      in bind_stop (user_str_ok (mem k) (satp k) (page_table (procs k ! c)) filename 256) (\<lambda>ok.
         if \<not> ok then ret tf E_FAULT k
         else bind_stop (ramdisk_get_entry L (mem k) (user_load (mem k) (satp k)) filename) (\<lambda>entry.
           if entry = 0 then ret tf E_NOENT k
           else exec_image L tf c (ramdisk_start L + ucast (entry_offset (mem k) entry)) k)))"
  unfolding sys_exec_def with_current_def exec_image_def Let_def assms option.case by (rule refl)

lemma no_user_no_wx:
  assumes "\<And>i j k. i < 512 \<Longrightarrow> j < 512 \<Longrightarrow> k < 512 \<Longrightarrow> user_frame (leaf_at m r i j k) = None"
  shows "no_wx m r"
proof -
  have "\<not> wx e" if "user_frame e = None" for e
    using that by (auto simp: wx_def user_frame_def is_leaf_def split: if_splits)
  then show ?thesis using assms by (simp add: no_wx_def)
qed

lemma exec_image_cases:
  assumes L: "layout_ok L" and ok: "kernel_ok L c k"
  obtains (stop) z where "exec_image L tf c elf k = Inl z"
      "z \<in> {exec_oom, exec_failed, map_kernel_oom, elf_oom}"
  | (execed) k' where "exec_image L tf c elf k = Inr (tf, k')" "execed L c elf k k'" "table_ok L k'"
      "elf_ok L (mem k) elf \<Longrightarrow> 70 + program_frames (mem k) elf \<le> frames_left L (mem k) \<Longrightarrow>
        stack_in (page_table (procs k' ! c)) (mem k')"
proof -
  note o = kernel_okD [OF ok]
  let ?p = "procs k ! c" and ?R = "roots (procs k)" and ?S = "stacks (procs k)"
  let ?old = "page_table ?p"
  note sd = spaces_okD [OF o(6)]
  have old: "?old \<in> ?R" by (rule sd(5) [OF o(8)])
  obtain new m1 where al: "pmm_alloc_page L (mem k) = (new, m1)" by fastforce
  show thesis
  proof (cases "new = 0")
    case True
    then show thesis using al by (intro stop [of exec_oom]) (simp_all add: exec_image_def)
  next
    case n0: False
    note ns = new_space_mapped [OF L sd(1) al n0]
    show thesis
    proof (cases "vmm_map_kernel L new (memset m1 new 0 4096)")
      case (Inl z)
      then show thesis using ns al n0 by (intro stop [of z]) (simp_all add: exec_image_def)
    next
      case (Inr m2)
      then have sp: "new_space L (mem k) ?R ?S new m2" using ns by simp
      note nd = new_spaceD [OF sp]
      let ?k2 = "upd_proc c (\<lambda>p. p\<lparr>page_table := new\<rparr>) (k\<lparr>mem := m2\<rparr>)"
      have eq: "exec_image L tf c elf k = bind_stop (load_elf L c elf ?k2) (\<lambda>(r, k3).
          if r \<noteq> 0 then Inl exec_failed
          else Inr (tf, k3\<lparr>satp := MAKE_SATP new, mem := vmm_free_pt L (mem k3) ?old\<rparr>))"
        using al n0 Inr by (simp add: exec_image_def Let_def)
      have wf2: "wf_forest L (mem ?k2) (insert new ?R)" using owned_wf [OF nd(1)] by simp
      have pt2: "page_table (procs ?k2 ! c) = new" and len2: "c < length (procs ?k2)" using o(1,2) by simp_all
      show thesis using wf2 pt2 insertI1 len2
      proof (cases rule: load_elf_cases [where elf = elf])
        case l: stop
        then show thesis using eq by (intro stop [of elf_oom]) auto
      next
        case (fail k' f)
        then show thesis using eq by (intro stop [of exec_failed]) simp_all
      next
        case (ok k3 entry brk)
        have g: "gains L (insert new ?R) new m2 (mem k3)" using ok(2) by simp
        let ?m4 = "vmm_free_pt L (mem k3) ?old"
        let ?k' = "k3\<lparr>satp := MAKE_SATP new, mem := ?m4\<rparr>"
        let ?p' = "loaded_process entry (page_up brk) (?p\<lparr>page_table := new\<rparr>)"
        have run: "exec_image L tf c elf k = Inr (tf, ?k')" using eq ok(1) by simp
        have ps: "procs ?k' = (procs k)[c := ?p']" using ok(5) o(1,2) by (simp add: loaded_process_def)
        have pt': "page_table ?p' = new" by (simp add: loaded_process_def)
        have me: "procs ?k' ! c = ?p'" unfolding ps using o(1,2) by simp
        have o3: "owned L (mem k3) (insert new ?R) ?S" by (rule gains_owned [OF nd(1) g])
        have old3: "?old \<in> insert new ?R" using old by simp
        note fp = vmm_free_pt_spec [OF owned_wf [OF o3] old3]
        have ne: "r \<noteq> new" if "r \<in> ?R" for r using nd(2) that by auto
        have tr3: "tree (mem k3) r q = tree (mem k) r q" if "r \<in> ?R" for r q
          using extendsD(6) [OF gainsD(1) [OF g], of r q] nd(6) [OF that] that ne by simp
        have nodes3: "nodes (mem k3) ?old = nodes (mem k) ?old" using tr3 [OF old] by (simp add: nodes_def)
        note kp = keeps_gains [OF nd(4) g nd(5)]
        have se: "same_except {image_end L} (mem k3) ?m4" by (rule fp(2))
        have unt: "untouched (mem k) ?m4 r" if "r \<in> ?R - {?old}" for r
        proof (rule untouched_trans)
          show "untouched (mem k) (mem k3) r" using that tr3 by (intro untouched_keeps [OF sd(2) _ kp(1)]) auto
          show "untouched (mem k3) ?m4 r" using that by (intro untouched_bitmap [OF owned_wf [OF o3] _ se]) auto
        qed
        have wx: "no_wx ?m4 new" "guarded ?m4 new"
        proof -
          have ue: "user_entries new m2 (mem k3)" using ok(6) by simp
          then have "no_wx (mem k3) new" using no_user_no_wx [of m2 new] nd(7) user_entries_no_wx by blast
          then show "no_wx ?m4 new" using leaf_bitmap [OF owned_wf [OF o3] insertI1 se] by (simp add: no_wx_def)
          show "guarded ?m4 new"
            by (rule guarded_leaves [OF user_entries_guarded [OF ue nd(8)]])
              (use leaf_bitmap [OF owned_wf [OF o3] insertI1 se] in simp)
        qed
        have "used L ?m4 = used L (mem k3) - nodes (mem k) ?old" using fp(1) nodes3 by simp
        then have us: "used L ?m4 \<inter> nodes (mem k) ?old = {}" "used L (mem k) - nodes (mem k) ?old \<subseteq> used L ?m4"
          using keeps_used [OF kp(1)] by auto
        have im: "same_image L (mem k) ?m4"
          using same_image_trans [OF same_image_keeps [OF sd(2) kp(1)] same_image_bitmap [OF se]] .
        have o4: "wf_forest L ?m4 (insert new ?R - {?old})" using owned_wf [OF owned_free_pt [OF o3 old3]] .
        have im2: "same_image L (mem k) m2" using same_image_keeps [OF sd(2) nd(4)] .
        have r4: "new \<in> insert new ?R - {?old}" using ne [OF old] by simp
        have wfm2: "wf_forest L m2 (insert new ?R)" and mem2: "mem ?k2 = m2" using wf2 by simp_all
        have img: "?p' = loaded_process (e_entry (mem k) elf) (page_up (program_end (mem k) elf)) (?p\<lparr>page_table := new\<rparr>)"
          "elf_ok L (mem k) elf \<Longrightarrow> laid_out L m2 elf new ?m4"
          if il: "elf_in_image L (mem k) elf"
        proof -
          note same = image_same [OF il im2]
          note li = load_elf_image(1) [OF wfm2 mem2 pt2 insertI1 len2 same(8) ok(1)]
          have "procs k3 = (procs ?k2)[c := loaded_process (e_entry (mem k) elf) (page_up (program_end (mem k) elf)) (procs ?k2 ! c)]"
            using li same(2,4) by simp
          then have "procs k3 ! c = loaded_process (e_entry (mem k) elf) (page_up (program_end (mem k) elf)) (?p\<lparr>page_table := new\<rparr>)"
            using o(1,2) by simp
          then show "?p' = loaded_process (e_entry (mem k) elf) (page_up (program_end (mem k) elf)) (?p\<lparr>page_table := new\<rparr>)"
            using me by simp
          show "laid_out L m2 elf new ?m4" if eok: "elf_ok L (mem k) elf"
          proof (rule laid_out_bitmap [OF owned_wf [OF o3] insertI1 se])
            show "\<forall>ph \<in> set (load_headers m2 elf). segment_ok L m2 ph" "laid_out L m2 elf new (mem k3)"
              using li eok same(7) by (simp_all add: elf_ok_def)
          qed
        qed
        have il: "elf_in_image L (mem k) elf" if "elf_ok L (mem k) elf" using that by (simp add: elf_ok_def)
        have prog: "program_in (mem k) elf new ?m4" if eok: "elf_ok L (mem k) elf"
        proof -
          note same = image_same [OF il [OF eok] im2]
          have "program_in m2 elf new ?m4"
            by (rule laid_out_program [OF o4 r4 _ img(2) [OF il [OF eok] eok] nd(7)]) (use eok same(7) in simp)
          then show ?thesis using same(9) by simp
        qed
        have "execed L c elf k ?k'"
          unfolding execed_def Let_def me pt' using ok(3,4) ps us unt wx nd(2) im img(1) prog
          by (auto simp: same_rest_def)
        moreover have "table_ok L ?k'"
        proof (rule table_ok_update [OF o(10) ps])
          show "process_ok ?p'" using o(7) [OF o(2)] by (simp add: process_ok_def loaded_process_def)
          show "spaces_ok L (mem ?k') (procs ?k')" unfolding ps
            using owned_free_pt [OF o3 old3] o(4) nd(2)
            by (intro spaces_ok_swap [OF o(6,8)]) (simp_all add: loaded_process_def)
        qed
        moreover have "stack_in new ?m4"
          if eok: "elf_ok L (mem k) elf" and enough: "70 + program_frames (mem k) elf \<le> frames_left L (mem k)"
        proof -
          note same = image_same [OF il [OF eok] im2]
          have "70 \<le> frames_left L (mem k)" using enough by linarith
          from new_space_supply [OF L sd(2) al this] Inr have "frames_left L (mem k) \<le> frames_left L m2 + 70" by auto
          then have "program_frames m2 elf \<le> frames_left L m2" using enough same(3) by linarith
          moreover have eok2: "elf_ok L m2 elf" using eok same(7) by simp
          ultimately have "stack_laid new (mem k3)"
            using load_elf_image(2) [OF wfm2 mem2 pt2 insertI1 len2 same(8)] ok(1) by auto
          then have "stack_laid new ?m4" by (rule stack_laid_bitmap [OF owned_wf [OF o3] insertI1 se])
          then show ?thesis by (rule stack_laid_in [OF o4 r4])
        qed
        ultimately show thesis using run me pt' by (intro execed [of ?k']) simp_all
      qed
    qed
  qed
qed

section \<open>The invariant\<close>

lemma execed_ok:
  assumes ok: "kernel_ok L c k" and ex: "execed L c elf k k'" and t: "table_ok L k'"
  shows "kernel_ok L c k'" "isolated c k k'"
proof -
  note o = kernel_okD [OF ok]
  note e = ex [unfolded execed_def Let_def]
  have ps: "procs k' = (procs k)[c := procs k' ! c]" using e by blast
  have rest: "current k' = current k" "satp k' = MAKE_SATP (page_table (procs k' ! c))" using e by blast+
  have nth: "procs k' ! i = procs k ! i" if "i \<noteq> c" for i
    using ps that nth_list_update_neq by metis
  obtain entry brk where p': "procs k' ! c = loaded_process entry (page_up brk) ((procs k ! c)\<lparr>page_table := page_table (procs k' ! c)\<rparr>)"
    using e by blast
  have run: "state (procs k' ! c) = PROC_RUNNING"
    using arg_cong [OF p', of state] o(4) by (simp add: loaded_process_def)
  have "\<forall>i < 64. state (procs k' ! i) = PROC_RUNNING \<longrightarrow> i = c"
    using nth o(9) by metis
  then have "parked L c k'" using t rest o(2,3) by (simp add: parked_def)
  then show "kernel_ok L c k'" using run rest by (simp add: kernel_ok_def)
  show "isolated c k k'"
  proof (rule isolated_current [OF ps])
    fix i :: nat assume i: "i < 64" "i \<noteq> c" "state (procs k ! i) \<noteq> PROC_UNUSED"
    then have l: "i \<in> live (procs k)" using o(1) by (simp add: live_def)
    have "page_table (procs k ! i) \<noteq> page_table (procs k ! c)"
      using spaces_okD(3) [OF o(6)] l o(8) i(2) by (auto simp: inj_on_def)
    then show "untouched (mem k) (mem k') (page_table (procs k ! i))"
      using e spaces_okD(5) [OF o(6) l] by blast
  qed
qed

lemma exec_image_ok:
  assumes "layout_ok L" "kernel_ok L c k"
  shows "trap_ok L c k (exec_image L (ProcFrame c) c elf k)"
  using assms
proof (cases rule: exec_image_cases [where tf = "ProcFrame c" and elf = elf])
  case (execed k')
  then show ?thesis using trap_ok_resume execed_ok [OF assms(2) execed(2,3)] by simp
qed simp

text \<open>A well-formed program with enough memory always starts.\<close>

lemma exec_image_starts:
  assumes L: "layout_ok L" and ok: "kernel_ok L c k" and elf: "elf_ok L (mem k) elf"
    and enough: "70 + program_frames (mem k) elf \<le> frames_left L (mem k)"
  shows "\<exists>k'. exec_image L tf c elf k = Inr (tf, k')"
proof -
  note o = kernel_okD [OF ok] and sd = spaces_okD [OF kernel_okD(6) [OF ok]]
  obtain new m1 where al: "pmm_alloc_page L (mem k) = (new, m1)" by fastforce
  have "70 \<le> frames_left L (mem k)" using enough by linarith
  from new_space_supply [OF L sd(2) al this] obtain m2 where n0: "new \<noteq> 0"
    and mk: "vmm_map_kernel L new (memset m1 new 0 4096) = Inr m2" "frames_left L (mem k) \<le> frames_left L m2 + 70" by blast
  have "new_space L (mem k) (roots (procs k)) (stacks (procs k)) new m2"
    using new_space_mapped [OF L sd(1) al n0] mk(1) by simp
  note nd = new_spaceD [OF this]
  let ?k2 = "upd_proc c (\<lambda>p. p\<lparr>page_table := new\<rparr>) (k\<lparr>mem := m2\<rparr>)"
  have il: "elf_in_image L (mem k) elf" using elf by (simp add: elf_ok_def)
  note same = image_same [OF il same_image_keeps [OF sd(2) nd(4)]]
  have pt2: "page_table (procs ?k2 ! c) = new" and len2: "c < length (procs ?k2)" using o(1,2) by simp_all
  have "program_frames m2 elf \<le> frames_left L m2" using enough mk(2) same(3) by linarith
  moreover have "mem ?k2 = m2" "elf_ok L m2 elf" using elf same(7) by simp_all
  ultimately obtain k3 where "load_elf L c elf ?k2 = Inr (0, k3)"
    using load_elf_image(2) [OF owned_wf [OF nd(1)] _ pt2 insertI1 len2 same(8)] by blast
  then show ?thesis using al n0 mk(1) by (simp add: exec_image_def Let_def)
qed

end
