(* ===== verification/Trap_Safe.thy ===== *)
theory Trap_Safe
  imports Dispatch Read Heap Fork Exec
begin

text \<open>
  The whole trap handler: any sequence of traps from user mode keeps the kernel invariant, and
  a trap of one process leaves the others alone.
\<close>

section \<open>The remaining system calls\<close>

lemma sys_sbrk_ok:
  assumes ok: "kernel_ok L c k"
  shows "trap_ok L c k (sys_sbrk L (ProcFrame c) k)"
proof -
  let ?p = "procs k ! c" and ?R = "roots (procs k)"
  obtain v k' where run: "sys_sbrk L (ProcFrame c) k = ret (ProcFrame c) v k'" and out: "sbrk_outcome L c k v k'"
    using sys_sbrk_outcome [OF ok] by blast
  consider "k' = k"
    | m brk where "k' = upd_proc c (\<lambda>p. p\<lparr>heap_break := brk\<rparr>) (k\<lparr>mem := m\<rparr>)" "gains L ?R (page_table ?p) (mem k) m"
    | m where "k' = k\<lparr>mem := m\<rparr>" "gains L ?R (page_table ?p) (mem k) m"
    using out heap_grownD(1) unfolding sbrk_outcome_def Let_def heap_restored_def by (auto split: if_splits)
  then show ?thesis
  proof cases
    case 1
    then show ?thesis using run ret_ok [OF ok] by simp
  next
    case (2 m brk)
    let ?k1 = "k\<lparr>mem := m\<rparr>"
    have g: "kernel_ok L c ?k1" "isolated c k ?k1" using gains_ok [OF ok, of ?k1] 2(2) by simp_all
    have "own_step c ?k1 k'" unfolding own_step_def 2(1)
      using kernel_okD(4) [OF ok] process_okD [OF ok]
      by (intro conjI exI [of _ "?p\<lparr>heap_break := brk\<rparr>"]) (simp_all add: process_ok_def)
    then show ?thesis using trap_ok_own_step [OF g] run by simp
  next
    case (3 m)
    then have "kernel_ok L c k'" "isolated c k k'" using gains_ok [OF ok, of k'] by simp_all
    then show ?thesis using trap_ok_ret run by simp
  qed
qed

lemma sys_exec_ok:
  assumes L: "layout_ok L" and ok: "kernel_ok L c k"
  shows "trap_ok L c k (sys_exec L (ProcFrame c) k)"
  using ret_ok [OF ok] exec_image_ok [OF L ok]
  by (auto simp: sys_exec_eq [OF kernel_okD(3) [OF ok]] Let_def intro!: trap_ok_bind)

section \<open>Every trap\<close>

text \<open>Steps before the handler proper: a changed register or printed text.\<close>

lemma entered_frame: "procs ((upd_frame (ProcFrame c) f k)\<lparr>console := out\<rparr>) =
    (procs k)[c := (procs k ! c)\<lparr>frame := f (frame (procs k ! c))\<rparr>]"
  by simp

lemma frame_page_table [simp]:
  "page_table (procs (upd_frame (ProcFrame c) f k) ! i) = page_table (procs k ! i)"
  by (cases "c < length (procs k)"; cases "i = c") (simp_all add: list_update_beyond)

lemma kernel_ok_entered:
  assumes "kernel_ok L c k"
  shows "kernel_ok L c ((upd_frame (ProcFrame c) f k)\<lparr>console := out\<rparr>)"
  using own_step_ok(1) [OF kernel_ok_frame [OF assms] own_step_same [OF kernel_ok_frame [OF assms]]] by simp

lemma trap_ok_before:
  assumes t: "trap_ok L c k1 res" and m: "mem k1 = mem k" and p: "procs k1 = (procs k)[c := p]"
  shows "trap_ok L c k res"
proof (cases res)
  case (Inr y)
  obtain q k' where y: "y = (q, k')" by (cases y)
  have same: "procs k1 ! i = procs k ! i" if "i \<noteq> c" for i using p that by simp
  have "isolated c k k'" if "isolated c k1 k'" using that same m by (simp add: isolated_def)
  then show ?thesis using t by (auto simp: trap_ok_def Inr y)
qed simp

text \<open>Every trap meets the contract of \<open>Isolation\<close>.\<close>

abbreviation running_ok :: "layout \<Rightarrow> nat \<Rightarrow> kernel \<Rightarrow> bool" where
  "running_ok L c k \<equiv> layout_ok L \<and> kernel_ok L c k \<and> guarded (mem k) (page_table (procs k ! c))"

interpretation safe: trap_contract L "running_ok L" "trap_ok L" for L
proof
  fix c k f out res
  assume pre: "running_ok L c k"
  then show "running_ok L c ((upd_frame (ProcFrame c) f k)\<lparr>console := out\<rparr>)"
    by (simp add: kernel_ok_entered del: upd_frame.simps)
  show "trap_ok L c ((upd_frame (ProcFrame c) f k)\<lparr>console := out\<rparr>) res \<Longrightarrow> trap_ok L c k res"
    by (erule trap_ok_before [OF _ _ entered_frame]) simp
qed (auto intro: sys_putchar_ok exit_current_ok sys_fork_ok sys_exec_ok sys_wait_ok sys_sbrk_ok sys_open_ok sys_read_ok
    sys_write_ok sys_close_ok interrupt_ok)

section \<open>A concrete system call\<close>

text \<open>The sample process executing \<open>ecall\<close> with the given registers.\<close>

definition calling :: "u64 \<Rightarrow> u64 \<Rightarrow> u64 \<Rightarrow> u64 \<Rightarrow> kernel" where
  "calling num x y z = upd_frame (ProcFrame 0)
     (\<lambda>f. f\<lparr>tf_scause := 8, tf_a7 := num, tf_a0 := x, tf_a1 := y, tf_a2 := z\<rparr>) sample_machine"

lemma calling_ok: "kernel_ok sample_layout 0 (calling num x y z)"
  unfolding calling_def by (rule kernel_ok_frame [OF sample_machine_ok])

lemma calling_frame:
  "frame (procs (calling num x y z) ! 0) =
     zero_frame\<lparr>tf_scause := 8, tf_a7 := num, tf_a0 := x, tf_a1 := y, tf_a2 := z\<rparr>"
  "length (procs (calling num x y z)) = 64"
  by (simp_all add: calling_def sample_machine_procs sample_process_def init_process_fds_def empty_process_def)

lemma trap_calling:
  "trap_handler L inp (ProcFrame 0) (calling num x y z) =
     syscall L inp (ProcFrame 0) (upd_frame (ProcFrame 0) (\<lambda>f. f\<lparr>tf_sepc := tf_sepc f + 4\<rparr>) (calling num x y z))"
proof -
  have "tf_scause (get_frame (calling num x y z) (ProcFrame 0)) = 8"
    "\<not> from_supervisor (get_frame (calling num x y z) (ProcFrame 0))"
    by (simp_all add: calling_frame from_supervisor_def zero_frame_def)
  moreover have "\<not> bit (8 :: u64) 63" using bit_flags(4) [of 63] by (simp add: PTE_X_def)
  ultimately show ?thesis unfolding trap_handler_def Let_def by (simp only: if_False if_True simp_thms)
qed

lemma calling_user: "\<not> from_supervisor (frame (procs (calling num x y z) ! 0))"
  by (simp add: calling_frame from_supervisor_def zero_frame_def)

text \<open>Asking for one more page of heap.\<close>

lemma calling_sbrk:
  "\<exists>k'. trap_handler sample_layout inp (ProcFrame 0) (calling 6 4096 0 0) = Inr (ProcFrame 0, k')"
proof -
  let ?k = "upd_frame (ProcFrame 0) (\<lambda>f. f\<lparr>tf_sepc := tf_sepc f + 4\<rparr>) (calling 6 4096 0 0)"
  have "tf_a7 (get_frame ?k (ProcFrame 0)) = 6" using calling_frame [of 6 4096 0 0] by simp
  then have "trap_handler sample_layout inp (ProcFrame 0) (calling 6 4096 0 0) = sys_sbrk sample_layout (ProcFrame 0) ?k"
    unfolding trap_calling syscall_def Let_def by (simp del: upd_frame.simps get_frame.simps)
  moreover obtain v k' where "sys_sbrk sample_layout (ProcFrame 0) ?k = ret (ProcFrame 0) v k'"
    using sys_sbrk_outcome [OF kernel_ok_frame [OF calling_ok]] by blast
  ultimately show ?thesis by (simp only: ret_def) blast
qed

lemma calling_guarded: "guarded (mem (calling num x y z)) (page_table (procs (calling num x y z) ! 0))"
proof -
  have "guarded sample_user sample_root"
    unfolding guarded_def using sample_user_space(6) STACK_rw(2) by (simp add: has_def [of 0])
  moreover have "untouched sample_user (mem sample_machine) sample_root"
    unfolding sample_machine_def power_on_def
    using untouched_bitmap [OF sample_user_space(1) singletonI same_except_alloc [OF wf_aligned [OF sample_user_space(1)]]]
    by (cases "pmm_alloc_page sample_layout sample_user") simp
  ultimately have "guarded (mem sample_machine) sample_root"
    using untouched_leaf [OF sample_user_space(1) singletonI] guarded_leaves by blast
  then show ?thesis by (simp add: calling_def sample_machine_procs sample_process_def)
qed

section \<open>Properties\<close>

text \<open>
  C2: processes are isolated. A trap of the current process leaves every other process that
  stays in use alone: its registers, pid, parent, files, heap limits and kernel stack are
  unchanged, its page tables translate as before, and every byte of every frame reachable
  from them, tables included, is the same.
\<close>
theorem trap_isolates:
  assumes "layout_ok L" "kernel_ok L c k" "guarded (mem k) (page_table (procs k ! c))"
    and "\<not> from_supervisor (frame (procs k ! c))" "trap_handler L inp (ProcFrame c) k = Inr (q, k')"
  shows "isolated c k k'"
  using safe.trap [of L c k inp] assms by (simp add: trap_ok_def)

lemma trap_isolates_witness:
  "\<forall>inp. \<exists>k'. trap_handler sample_layout inp (ProcFrame 0) (calling 6 4096 0 0) = Inr (ProcFrame 0, k') \<and>
     isolated 0 (calling 6 4096 0 0) k'"
proof
  fix inp
  obtain k' where "trap_handler sample_layout inp (ProcFrame 0) (calling 6 4096 0 0) = Inr (ProcFrame 0, k')"
    using calling_sbrk by blast
  with trap_isolates [OF sample_layout_ok calling_ok calling_guarded calling_user this]
  show "\<exists>k'. trap_handler sample_layout inp (ProcFrame 0) (calling 6 4096 0 0) = Inr (ProcFrame 0, k') \<and>
     isolated 0 (calling 6 4096 0 0) k'" by auto
qed

end
