(* ===== verification/Quiet.thy ===== *)
theory Quiet
  imports Trap_Safe
begin

text \<open>
  Most of the kernel leaves the set of processes alone: no process is born, dies or is reaped, and
  whoever sleeps has slept before or sleeps on the console (\<open>quiet\<close>). The scheduler, the interrupts
  and all system calls but \<open>fork\<close>, \<open>exit\<close> and \<open>wait\<close> are of this kind.
\<close>

section \<open>Quiet steps\<close>

definition quiet_process :: "process \<Rightarrow> process \<Rightarrow> bool" where
  "quiet_process p p' \<longleftrightarrow>
     (state p' = PROC_UNUSED) = (state p = PROC_UNUSED) \<and>
     (state p \<noteq> PROC_UNUSED \<longrightarrow> pid p' = pid p \<and> parent_pid p' = parent_pid p \<and>
        (state p' = PROC_ZOMBIE) = (state p = PROC_ZOMBIE) \<and>
        (state p' = PROC_BLOCKED \<longrightarrow> chan p' = UartChan \<or> state p = PROC_BLOCKED \<and> chan p' = chan p))"

definition quiet_table :: "process list \<Rightarrow> process list \<Rightarrow> bool" where
  "quiet_table ps ps' \<longleftrightarrow> length ps' = length ps \<and> (\<forall>i < length ps. quiet_process (ps ! i) (ps' ! i))"

definition quiet :: "kernel \<Rightarrow> kernel \<Rightarrow> bool" where
  "quiet k k' \<longleftrightarrow> next_pid k' = next_pid k \<and> quiet_table (procs k) (procs k')"

lemma quiet_process_refl [simp]: "quiet_process p p"
  by (simp add: quiet_process_def)

lemma quiet_process_trans: "quiet_process p q \<Longrightarrow> quiet_process q r \<Longrightarrow> quiet_process p r"
  unfolding quiet_process_def by auto

lemma quiet_same: "procs k' = procs k \<Longrightarrow> next_pid k' = next_pid k \<Longrightarrow> quiet k k'"
  by (simp add: quiet_def quiet_table_def)

lemma quiet_refl [simp]: "quiet k k"
  by (simp add: quiet_same)

lemma quiet_trans: "quiet k k' \<Longrightarrow> quiet k' k'' \<Longrightarrow> quiet k k''"
  unfolding quiet_def quiet_table_def using quiet_process_trans by metis

lemma quiet_upd:
  assumes "next_pid k' = next_pid k" "procs k' = (procs k)[i := p]" "quiet_process (procs k ! i) p"
  shows "quiet k k'"
proof -
  have "quiet_process (procs k ! j) ((procs k)[i := p] ! j)" if "j < length (procs k)" for j
    using assms(3) that by (cases "j = i") simp_all
  then show ?thesis using assms(1,2) by (simp add: quiet_def quiet_table_def)
qed

lemma quiet_upd_proc: "quiet_process (procs k ! i) (f (procs k ! i)) \<Longrightarrow> quiet k (upd_proc i f k)"
  by (rule quiet_upd [OF upd_proc_other(2) procs_upd_proc])

lemma quiet_frame: "quiet k k' \<Longrightarrow> quiet k (upd_frame tf f k')"
proof (cases tf)
  case (ProcFrame i)
  assume "quiet k k'"
  moreover have "quiet k' (upd_frame tf f k')" unfolding ProcFrame upd_frame.simps
    by (rule quiet_upd_proc) (simp add: quiet_process_def)
  ultimately show ?thesis by (rule quiet_trans)
qed (simp add: quiet_def)

lemma quiet_file: "quiet k k' \<Longrightarrow> quiet k (upd_file c fd g k')"
  unfolding upd_file_def by (erule quiet_trans, rule quiet_upd_proc) (simp add: quiet_process_def)

lemma quiet_interrupt:
  assumes "interrupt_frame k k'"
  shows "quiet k k'"
proof -
  have "quiet_process p (wake_one ch p)" for p ch by (simp add: quiet_process_def wake_one_def)
  then show ?thesis using assms by (fastforce simp: quiet_def quiet_table_def interrupt_frame_def woken_def)
qed

text \<open>Children and zombies are the same after a quiet step.\<close>

lemma quiet_table_child:
  assumes "quiet_table ps ps'" "j < length ps"
  shows "child_of me (ps' ! j) = child_of me (ps ! j)"
    "child_of me (ps ! j) \<Longrightarrow> (state (ps' ! j) = PROC_ZOMBIE) = (state (ps ! j) = PROC_ZOMBIE)"
  using assms unfolding quiet_table_def quiet_process_def child_of_def by auto

lemma quiet_table_live: "quiet_table ps ps' \<Longrightarrow> live ps' = live ps"
  by (auto simp: live_def quiet_table_def quiet_process_def)

section \<open>The scheduler is quiet\<close>

lemma quiet_schedule:
  assumes len: "length (procs k) = 64" and cur: "current k = Some c" and c: "c < 64"
    and run: "schedule ws tf k = Inr (q, k')"
  shows "quiet k k'"
proof -
  let ?k2 = "upd_proc c (put_away c (get_frame k tf)) k"
  have len2: "length (procs ?k2) = 64" using len by simp
  note spec = pick_next_spec [OF len2 c, of ws]
  have q2: "quiet k ?k2"
    by (rule quiet_upd_proc) (simp add: quiet_process_def put_away_def)
  have not_running: "state (procs ?k2 ! c) \<noteq> PROC_RUNNING" using c len by (simp add: put_away_def)
  note eq = schedule_eq [OF cur, of ws tf]
  obtain o' k3 where p: "pick_next c ws ?k2 = Inr (o', k3)"
    using run eq c len by (auto split: sum.splits prod.splits option.splits)
  have "interrupt_frame ?k2 k3" using spec p by (cases o') simp_all
  then have q3: "quiet k k3" using quiet_trans [OF q2 quiet_interrupt] by blast
  show ?thesis
  proof (cases o')
    case None
    then have k': "k' = upd_proc c (\<lambda>p. p\<lparr>state := PROC_RUNNING\<rparr>) k3" "state (procs k3 ! c) = PROC_RUNNING"
      using run eq p c len spec by auto
    have "quiet k3 k'" unfolding k'(1) by (rule quiet_upd_proc) (use k'(2) in \<open>simp add: quiet_process_def\<close>)
    then show ?thesis by (rule quiet_trans [OF q3])
  next
    case (Some n)
    then have k': "procs k' = (procs k3)[n := (procs k3 ! n)\<lparr>state := PROC_RUNNING\<rparr>]" "next_pid k' = next_pid k3"
      "state (procs k3 ! n) = PROC_READY"
      using run eq p c len spec by auto
    have "quiet k3 k'" by (rule quiet_upd [OF k'(2,1)]) (use k'(3) in \<open>simp add: quiet_process_def\<close>)
    then show ?thesis by (rule quiet_trans [OF q3])
  qed
qed

section \<open>The quiet handlers\<close>

definition calm :: "kernel \<Rightarrow> stop + tf_ptr \<times> kernel \<Rightarrow> bool" where
  "calm k res \<longleftrightarrow> (case res of Inl _ \<Rightarrow> True | Inr (q, k') \<Rightarrow> quiet k k')"

lemma calm_Inl [simp]: "calm k (Inl z)"
  by (simp add: calm_def)

lemma calm_Inr [simp]: "calm k (Inr (q, k')) \<longleftrightarrow> quiet k k'"
  by (simp add: calm_def)

lemma calm_bind: "(\<And>x. r = Inr x \<Longrightarrow> calm k (f x)) \<Longrightarrow> calm k (bind_stop r f)"
  by (cases r) simp_all

lemma calm_ret: "quiet k k' \<Longrightarrow> calm k (ret tf v k')"
  using quiet_frame by (simp add: ret_def)

lemma calm_schedule:
  assumes "length (procs k') = 64" "current k' = Some c" "c < 64" "quiet k k'"
  shows "calm k (schedule ws tf k')"
  using quiet_schedule [OF assms(1-3)] quiet_trans [OF assms(4)]
  by (cases "schedule ws tf k'") auto

lemma calm_putchar: "calm k (sys_putchar tf k)"
  by (simp add: sys_putchar_def calm_ret quiet_same)

lemma calm_close: "kernel_ok L c k \<Longrightarrow> calm k (sys_close tf k)"
  by (auto simp: sys_close_def with_current_ok Let_def calm_ret quiet_file split: option.splits)

lemma calm_open: "kernel_ok L c k \<Longrightarrow> calm k (sys_open L tf k)"
  by (auto simp: sys_open_def with_current_ok Let_def calm_ret quiet_file intro!: calm_bind split: option.splits)

lemma quiet_for_each:
  assumes "\<And>x s s'. body x s = Inr s' \<Longrightarrow> quiet s s'"
  shows "for_each body xs k = Inr k' \<Longrightarrow> quiet k k'"
proof -
  have "case for_each body xs k of Inl r \<Rightarrow> True | Inr k' \<Rightarrow> quiet k k'"
    by (rule for_each_rule [where I = "\<lambda>_. quiet k"]) (simp, simp, blast intro: assms quiet_trans)
  then show "for_each body xs k = Inr k' \<Longrightarrow> quiet k k'" by simp
qed

lemma quiet_console_write: "console_write buf n k = Inr k' \<Longrightarrow> quiet k k'"
  unfolding console_write_def by (erule quiet_for_each [rotated]) (auto simp: bind_stop_Inr_iff quiet_same)

lemma quiet_copy_to_user: "copy_to_user d s n k = Inr k' \<Longrightarrow> quiet k k'"
  unfolding copy_to_user_def by (erule quiet_for_each [rotated]) (auto simp: bind_stop_Inr_iff quiet_same)

lemma calm_write: "kernel_ok L c k \<Longrightarrow> calm k (sys_write tf k)"
  by (auto simp: sys_write_def with_current_ok Let_def calm_ret quiet_console_write intro!: calm_bind split: option.splits)

text \<open>Reading: the console may put the process to sleep, on the console.\<close>

lemma quiet_console_more: "console_more buf left n k = Inr (v, k') \<Longrightarrow> quiet k k'"
proof (induction buf left n k arbitrary: v k' rule: console_more.induct)
  case (2 buf left n k)
  obtain ch u where g: "uart_getc (rx k) = (ch, u)" by fastforce
  have "quiet k k'" if "console_more buf left (n + 1) (k\<lparr>rx := u, mem := m\<rparr>) = Inr (v, k')"
    "ch \<noteq> -1" "user_store (satp k) (buf + ucast n) (of_int ch) (mem k) = Inr m"
    "user_load (mem k) (satp k) (buf + ucast (n - 1)) = Inr l" "l \<noteq> newline" for m l
    using "2.IH" [OF that(5) g [symmetric] that(2) that(1)] quiet_same
      quiet_trans [of k "k\<lparr>rx := u, mem := m\<rparr>" k'] by simp
  then show ?case using "2.prems" g
    by (auto simp: bind_stop_Inr_iff quiet_same split: if_splits)
qed simp

lemma quiet_sleep:
  assumes "kernel_ok L c k"
  shows "quiet k (sleep_on UartChan k)"
  unfolding sleep_on_def kernel_okD(3) [OF assms] option.case
  by (rule quiet_upd_proc) (use kernel_okD(4) [OF assms] in \<open>simp add: quiet_process_def\<close>)

lemma calm_console_read:
  assumes ok: "kernel_ok L c k"
  shows "calm k (console_read ws tf buf count k)"
proof -
  note o = kernel_okD [OF ok]
  obtain ch u where g: "uart_getc (rx k) = (ch, u)" by fastforce
  have ok': "kernel_ok L c (k\<lparr>rx := u\<rparr>)" by (rule own_step_ok(1) [OF ok own_step_same [OF ok]]) simp_all
  have "quiet k (sleep_on UartChan (k\<lparr>rx := u\<rparr>))"
    by (rule quiet_trans [OF _ quiet_sleep [OF ok']]) (simp add: quiet_same)
  then have "calm k (block_on ws UartChan tf (k\<lparr>rx := u\<rparr>))" unfolding block_on_def
    using o(1,2,3) by (intro calm_schedule [where c = c] quiet_frame) (simp_all add: sleep_on_def)
  moreover have "calm k (ret tf v k1)" if "console_more b n 1 (k\<lparr>rx := u, mem := m\<rparr>) = Inr (w, k1)" for v w b n m k1
    using quiet_console_more [OF that] quiet_trans [of k "k\<lparr>rx := u, mem := m\<rparr>" k1] by (simp add: calm_ret quiet_same)
  ultimately show ?thesis using g
    by (auto simp: console_read_def calm_ret intro!: calm_bind)
qed

lemma calm_read: "kernel_ok L c k \<Longrightarrow> calm k (sys_read ws tf k)"
  using calm_console_read [of L c k]
  by (auto simp: sys_read_def ramdisk_read_def with_current_ok Let_def calm_ret quiet_file quiet_copy_to_user
      intro!: calm_bind split: option.splits)

lemma calm_sbrk:
  assumes ok: "kernel_ok L c k"
  shows "calm k (sys_sbrk L (ProcFrame c) k)"
proof -
  obtain v k' where run: "sys_sbrk L (ProcFrame c) k = ret (ProcFrame c) v k'" and out: "sbrk_outcome L c k v k'"
    using sys_sbrk_outcome [OF ok] by blast
  have "quiet k (upd_proc c (\<lambda>p. p\<lparr>heap_break := b\<rparr>) (k\<lparr>mem := m\<rparr>))" for b m
    by (rule quiet_trans [OF _ quiet_upd_proc]) (simp_all add: quiet_same quiet_process_def)
  then have "quiet k k'"
    using out unfolding sbrk_outcome_def Let_def by (auto simp: quiet_same split: if_splits)
  then show ?thesis unfolding run by (rule calm_ret)
qed

lemma calm_exec:
  assumes L: "layout_ok L" and ok: "kernel_ok L c k"
  shows "calm k (sys_exec L (ProcFrame c) k)"
proof -
  have "calm k (exec_image L (ProcFrame c) c elf k)" for elf
    using assms
  proof (cases rule: exec_image_cases [where tf = "ProcFrame c" and elf = elf])
    case (execed k')
    note e = execed(2) [unfolded execed_def Let_def]
    have "quiet k k'"
    proof (rule quiet_upd)
      show "next_pid k' = next_pid k" "procs k' = (procs k)[c := procs k' ! c]" using e by blast+
      obtain entry brk where p: "procs k' ! c =
          loaded_process entry (page_up brk) ((procs k ! c)\<lparr>page_table := page_table (procs k' ! c)\<rparr>)"
        using e by blast
      show "quiet_process (procs k ! c) (procs k' ! c)"
        by (subst p) (simp add: quiet_process_def loaded_process_def)
    qed
    then show ?thesis unfolding execed(1) by simp
  qed simp
  then show ?thesis
    by (auto simp: sys_exec_eq [OF kernel_okD(3) [OF ok]] Let_def calm_ret intro!: calm_bind)
qed

lemma calm_interrupt:
  assumes ok: "kernel_ok L c k"
  shows "calm k (interrupt inp code (ProcFrame c) k)"
proof -
  note o = kernel_okD [OF ok]
  have "calm k (schedule ws (ProcFrame c) (k\<lparr>timer := t\<rparr>))" for ws t
    using o(1,2,3) by (intro calm_schedule [where c = c]) (simp_all add: quiet_same)
  then show ?thesis
    by (simp add: interrupt_def quiet_interrupt [OF interrupt_frame_plic])
qed

section \<open>Dying\<close>

text \<open>The state in which \<open>exit_current\<close> calls the scheduler.\<close>

definition zombified :: "nat \<Rightarrow> kernel \<Rightarrow> kernel" where
  "zombified c k = upd_proc c (\<lambda>p. p\<lparr>state := PROC_ZOMBIE\<rparr>) k"

definition departed :: "nat \<Rightarrow> kernel \<Rightarrow> kernel" where
  "departed c k =
     (case find_index (\<lambda>p. pid p = parent_pid (procs k ! c) \<and> state p \<noteq> PROC_UNUSED) (procs (zombified c k)) of
        None \<Rightarrow> zombified c k
      | Some i \<Rightarrow> wakeup (ProcChan i) (zombified c k))"

lemma exit_departed:
  assumes "current k = Some c" "c < length (procs k)"
  shows "exit_current ws tf k = schedule ws tf (departed c k)"
  using assms by (simp add: exit_current_def departed_def zombified_def Let_def split: option.split)

lemma departed_other [simp]:
  "next_pid (departed c k) = next_pid k" "current (departed c k) = current k"
  "length (procs (departed c k)) = length (procs k)"
  by (simp_all add: departed_def zombified_def wakeup_def split: option.split)

lemma zombified_other [simp]: "length (procs (zombified c k)) = length (procs k)"
  by (simp add: zombified_def)

lemma zombified_at:
  "i < length (procs k) \<Longrightarrow>
     procs (zombified c k) ! i = (if i = c then (procs k ! c)\<lparr>state := PROC_ZOMBIE\<rparr> else procs k ! i)"
  by (simp add: zombified_def)

lemma departed_quiet: "quiet_table (procs (zombified c k)) (procs (departed c k))"
  by (auto simp: departed_def quiet_table_def wakeup_def quiet_process_def wake_one_def split: option.splits)

lemma departed_live:
  assumes ok: "kernel_ok L c k"
  shows "live (procs (departed c k)) = live (procs k)"
proof -
  have "live (procs (zombified c k)) = live (procs k)"
    unfolding zombified_def procs_upd_proc using kernel_okD(1,2,4) [OF ok] by (auto simp: live_def nth_list_update)
  then show ?thesis using quiet_table_live [OF departed_quiet] by simp
qed

lemma departed_at:
  assumes ok: "kernel_ok L c k" and i: "i \<in> live (procs k)"
  shows "pid (procs (departed c k) ! i) = pid (procs k ! i)"
    "parent_pid (procs (departed c k) ! i) = parent_pid (procs k ! i)"
proof -
  have len: "i < length (procs k)" "state (procs k ! i) \<noteq> PROC_UNUSED" using i by (simp_all add: live_def)
  have "quiet_process (procs (zombified c k) ! i) (procs (departed c k) ! i)"
    using departed_quiet [of c k] len(1) by (simp add: quiet_table_def)
  then show "pid (procs (departed c k) ! i) = pid (procs k ! i)"
    "parent_pid (procs (departed c k) ! i) = parent_pid (procs k ! i)"
    using len zombified_at [OF len(1), of c] by (cases "i = c"; simp add: quiet_process_def)+
qed

end
