(* ===== verification/Effect.thy ===== *)
theory Effect
  imports Quiet
begin

text \<open>
  What a trap does to the caller, its address space and the kernel image, without registers and
  scheduling: an abstract step \<open>effect\<close> of five kinds. The handlers refine it, and an
  invariant of processes (\<open>Process_Inv\<close>) need only be checked against these five.
\<close>

section \<open>Changes of an address space\<close>

definition same_leaves :: "memory \<Rightarrow> memory \<Rightarrow> u64 \<Rightarrow> bool" where
  "same_leaves m m' r \<longleftrightarrow>
     (\<forall>i j l. i < 512 \<longrightarrow> j < 512 \<longrightarrow> l < 512 \<longrightarrow> leaf_at m' r i j l = leaf_at m r i j l)"

definition heap_leaves :: "memory \<Rightarrow> memory \<Rightarrow> u64 \<Rightarrow> bool" where
  "heap_leaves m m' r \<longleftrightarrow>
     (\<forall>i j l. i < 512 \<longrightarrow> j < 512 \<longrightarrow> l < 512 \<longrightarrow>
        leaf_at m' r i j l = leaf_at m r i j l \<or> leaf_at m' r i j l \<in> insert 0 (range heap_entry))"

definition copied_leaves :: "memory \<Rightarrow> u64 \<Rightarrow> memory \<Rightarrow> u64 \<Rightarrow> bool" where
  "copied_leaves m r m' r' \<longleftrightarrow>
     (\<forall>i j l. i < 512 \<longrightarrow> j < 512 \<longrightarrow> l < 512 \<longrightarrow>
        user_frame (leaf_at m' r' i j l) = None \<or>
        (\<exists>n. leaf_at m' r' i j l = PA_TO_PTE n OR (leaf_at m r i j l AND 0x3FF)))"

lemma same_leaves_refl [simp]: "same_leaves m m r"
  by (simp add: same_leaves_def)

lemma same_leavesD:
  "same_leaves m m' r \<Longrightarrow> i < 512 \<Longrightarrow> j < 512 \<Longrightarrow> l < 512 \<Longrightarrow> leaf_at m' r i j l = leaf_at m r i j l"
  by (simp add: same_leaves_def)

section \<open>The life of a file descriptor\<close>

text \<open>An entry of the directory of the ramdisk.\<close>

definition directory_entry :: "layout \<Rightarrow> memory \<Rightarrow> u64 \<Rightarrow> bool" where
  "directory_entry L m e \<longleftrightarrow>
     (\<exists>i < unat (load32 m (ramdisk_start L + 4)). e = ramdisk_start L + 8 + of_nat (40 * i))"

definition file_of :: "layout \<Rightarrow> memory \<Rightarrow> u64 \<Rightarrow> file_t" where
  "file_of L m e = \<lparr>f_type = FILE_TYPE_RAMDISK, f_offset = 0, f_size = entry_size m e,
     f_data = ramdisk_start L + ucast (entry_offset m e)\<rparr>"

inductive file_step :: "layout \<Rightarrow> memory \<Rightarrow> file_t \<Rightarrow> file_t \<Rightarrow> bool" for L m f where
  opens: "f_type f = FILE_TYPE_NONE \<Longrightarrow> directory_entry L m e \<Longrightarrow> file_step L m f (file_of L m e)"
| reads: "f_type f = FILE_TYPE_RAMDISK \<Longrightarrow> n \<le> f_size f - f_offset f \<Longrightarrow>
    file_step L m f (f\<lparr>f_offset := f_offset f + n\<rparr>)"
| closes: "f_type f \<noteq> FILE_TYPE_NONE \<Longrightarrow> file_step L m f closed_file"

inductive_cases file_stepE: "file_step L m f f'"

lemma find_entry_directory:
  "find_entry m rd name e n = Inr (Some x) \<Longrightarrow> \<exists>i < n. x = e + of_nat (40 * i)"
proof (induction n arbitrary: e)
  case (Suc n)
  obtain eq where eq: "streq (kread m) rd e name = Inr eq"
    using Suc.prems by (cases "streq (kread m) rd e name") simp_all
  have "(if eq then Inr (Some e) else find_entry m rd name (e + 40) n) = Inr (Some x)"
    using Suc.prems by (simp only: find_entry.simps eq bind_stop.simps)
  then consider "x = e" | "find_entry m rd name (e + 40) n = Inr (Some x)"
    by (cases eq) (simp_all only: if_True if_False sum.inject option.inject)
  then show ?case
  proof cases
    case 1
    then show ?thesis by (intro exI [of _ 0]) simp
  next
    case 2
    obtain i where "i < n" "x = e + 40 + of_nat (40 * i)" using Suc.IH [OF 2] by blast
    then show ?thesis by (intro exI [of _ "Suc i"]) (simp add: add.assoc)
  qed
qed simp

lemma ramdisk_get_entry_directory:
  assumes "ramdisk_get_entry L m rd name = Inr e" "e \<noteq> 0"
  shows "directory_entry L m e"
  using assms find_entry_directory [of m rd name "ramdisk_start L + 8" "unat (load32 m (ramdisk_start L + 4))"]
  by (auto simp: ramdisk_get_entry_def Let_def directory_entry_def bind_stop_Inr_iff split: if_splits option.splits)

section \<open>The abstract steps\<close>

text \<open>Process \<open>c\<close> becomes \<open>p\<close>, up to registers and scheduling, and no process is born.\<close>

definition becomes :: "layout \<Rightarrow> nat \<Rightarrow> kernel \<Rightarrow> process \<Rightarrow> kernel \<Rightarrow> bool" where
  "becomes L c k p k' \<longleftrightarrow> live (procs k') \<subseteq> live (procs k) \<and>
     same_process p (procs k' ! c) \<and> same_image L (mem k) (mem k')"

inductive effect :: "layout \<Rightarrow> nat \<Rightarrow> kernel \<Rightarrow> kernel \<Rightarrow> bool" for L c k k' where
  carried: "becomes L c k (procs k ! c) k' \<Longrightarrow>
    same_leaves (mem k) (mem k') (page_table (procs k ! c)) \<Longrightarrow> effect L c k k'"
| filed: "becomes L c k ((procs k ! c)\<lparr>open_files := (open_files (procs k ! c))[fd := f]\<rparr>) k' \<Longrightarrow>
    file_step L (mem k) (open_files (procs k ! c) ! fd) f \<Longrightarrow> fd < FD_MAX \<Longrightarrow>
    same_leaves (mem k) (mem k') (page_table (procs k ! c)) \<Longrightarrow> effect L c k k'"
| grown: "becomes L c k ((procs k ! c)\<lparr>heap_break := brk\<rparr>) k' \<Longrightarrow>
    heap_leaves (mem k) (mem k') (page_table (procs k ! c)) \<Longrightarrow> effect L c k k'"
| replaced: "becomes L c k ((procs k ! c)\<lparr>page_table := r, heap_break := brk, heap_max := bound\<rparr>) k' \<Longrightarrow>
    no_wx (mem k') r \<Longrightarrow> guarded (mem k') r \<Longrightarrow> effect L c k k'"
| doubled: "live (procs k') \<subseteq> insert n (live (procs k)) \<Longrightarrow> same_process (procs k ! c) (procs k' ! c) \<Longrightarrow>
    same_leaves (mem k) (mem k') (page_table (procs k ! c)) \<Longrightarrow> same_image L (mem k) (mem k') \<Longrightarrow>
    open_files (procs k' ! n) = open_files (procs k ! c) \<Longrightarrow> guarded (mem k') (page_table (procs k' ! n)) \<Longrightarrow>
    copied_leaves (mem k) (page_table (procs k ! c)) (mem k') (page_table (procs k' ! n)) \<Longrightarrow> effect L c k k'"

definition effects :: "layout \<Rightarrow> nat \<Rightarrow> kernel \<Rightarrow> stop + tf_ptr \<times> kernel \<Rightarrow> bool" where
  "effects L c k res \<longleftrightarrow> (case res of Inl _ \<Rightarrow> True | Inr (q, k') \<Rightarrow> effect L c k k')"

lemma effects_Inl [simp]: "effects L c k (Inl z)"
  by (simp add: effects_def)

lemma effects_Inr [simp]: "effects L c k (Inr (q, k')) \<longleftrightarrow> effect L c k k'"
  by (simp add: effects_def)

lemma effects_bind: "(\<And>x. r = Inr x \<Longrightarrow> effects L c k (f x)) \<Longrightarrow> effects L c k (bind_stop r f)"
  by (cases r) simp_all

lemma effect_image: "effect L c k k' \<Longrightarrow> same_image L (mem k) (mem k')"
  by (erule effect.cases) (simp_all add: becomes_def)

text \<open>Registers and scheduling make no difference.\<close>

lemma becomes_refl [simp]: "becomes L c k (procs k ! c) k"
  by (simp add: becomes_def)

lemma becomes_idle:
  assumes "becomes L c k p k1" "live (procs k2) \<subseteq> live (procs k1)"
    and "same_process (procs k1 ! c) (procs k2 ! c)" "mem k2 = mem k1"
  shows "becomes L c k p k2"
  using assms(1,2,4) same_process_trans [OF _ assms(3)] by (auto simp: becomes_def)

lemma upd_frame_same: "same_process (procs k ! j) (procs (upd_frame tf f k) ! j)"
proof (cases tf)
  case (ProcFrame i)
  then show ?thesis by (cases "i < length (procs k)"; cases "i = j") (simp_all add: same_process_def list_update_beyond)
qed simp

lemma upd_frame_live [simp]: "live (procs (upd_frame tf f k)) = live (procs k)"
  using quiet_frame [OF quiet_refl] quiet_table_live unfolding quiet_def by blast

lemma becomes_frame: "becomes L c k p k1 \<Longrightarrow> becomes L c k p (upd_frame tf f k1)"
  by (erule becomes_idle) (simp_all add: upd_frame_same)

lemma becomes_schedule:
  assumes b: "becomes L c k p k1" and at: "length (procs k1) = 64" "current k1 = Some c" "c < 64"
    and run: "schedule ws tf k1 = Inr (q, k2)"
  shows "becomes L c k p k2" "mem k2 = mem k1"
proof -
  obtain n where s: "scheduled (get_frame k1 tf) c k1 n k2" using schedule_spec [OF at run] by blast
  have "live (procs k2) = live (procs k1)"
    using quiet_schedule [OF at run] quiet_table_live by (simp add: quiet_def)
  moreover show "mem k2 = mem k1" using s by (simp add: scheduled_def)
  ultimately show "becomes L c k p k2"
    using s at(3) by (intro becomes_idle [OF b]) (auto simp: scheduled_def)
qed

text \<open>A handler that returns to the caller, one that gives up the processor.\<close>

lemma effects_carried_ret:
  assumes "becomes L c k (procs k ! c) k1" "same_leaves (mem k) (mem k1) (page_table (procs k ! c))"
  shows "effects L c k (ret tf v k1)"
  using carried [OF becomes_frame [OF assms(1)], of tf "\<lambda>f. f\<lparr>tf_a0 := v\<rparr>"] assms(2) by (simp add: ret_def)

lemma effects_ret: "effects L c k (ret tf v k)"
  by (rule effects_carried_ret) simp_all

lemma effects_carried_schedule:
  assumes "becomes L c k (procs k ! c) k1" "same_leaves (mem k) (mem k1) (page_table (procs k ! c))"
    and "length (procs k1) = 64" "current k1 = Some c" "c < 64"
  shows "effects L c k (schedule ws tf k1)"
proof (cases "schedule ws tf k1")
  case (Inr y)
  obtain q k2 where y: "y = (q, k2)" by (cases y)
  note b = becomes_schedule [OF assms(1,3-5) Inr [unfolded y]]
  then show ?thesis unfolding Inr y using carried [OF b(1)] assms(2) by simp
qed simp

end
