(* ===== verification/Trap_Effect.thy ===== *)
theory Trap_Effect
  imports Effect
begin

text \<open>
  Every trap from user mode has one of the abstract effects of \<open>Effect\<close>: one lemma for each
  handler, put together by the dispatcher's contract.
\<close>

section \<open>Handlers that keep the space\<close>

lemma current_in: "kernel_ok L c k \<Longrightarrow> c < length (procs k)"
  using kernel_okD(1,2) by simp

lemma becomes_quiet:
  assumes "mem k' = mem k" "procs k' = procs k"
  shows "becomes L c k (procs k ! c) k'"
  using assms by (simp add: becomes_def)

lemma effect_putchar: "effects L c k (sys_putchar tf k)"
  unfolding sys_putchar_def by (rule effects_carried_ret [OF becomes_quiet]) simp_all

lemma effect_write: "kernel_ok L c k \<Longrightarrow> effects L c k (sys_write tf k)"
  by (auto simp: sys_write_def with_current_ok Let_def effects_ret split: option.splits
      dest!: console_write_same intro!: effects_bind effects_carried_ret becomes_quiet)

lemma effect_block:
  assumes ok: "kernel_ok L c k" and k1: "mem k1 = mem k" "procs k1 = procs k" "current k1 = current k"
  shows "effects L c k (block_on ws ch tf k1)"
  unfolding block_on_def
proof (rule effects_carried_schedule)
  note o = kernel_okD [OF ok]
  have "live (procs (sleep_on ch k1)) \<subseteq> live (procs k)"
    using o(1,2,3,4) k1 by (auto simp: sleep_on_def live_def nth_list_update split: if_splits)
  then have "becomes L c k (procs k ! c) (sleep_on ch k1)"
    unfolding becomes_def using o(1,2,3) k1 by (simp add: sleep_on_def same_process_def)
  then show "becomes L c k (procs k ! c) (upd_frame tf (\<lambda>f. f\<lparr>tf_sepc := tf_sepc f - 4\<rparr>) (sleep_on ch k1))"
    by (rule becomes_frame)
qed (use k1 kernel_okD(1,2,3) [OF ok] in \<open>simp_all add: sleep_on_def\<close>)

lemma effect_exit:
  assumes ok: "kernel_ok L c k"
  shows "effects L c k (exit_current ws tf k)"
proof -
  note o = kernel_okD [OF ok]
  define z where "z = procs (zombified c k) ! c"
  have "procs (departed c k) ! c = z \<or> (\<exists>ch. procs (departed c k) ! c = wake_one ch z)"
    unfolding z_def departed_def using o(1,2) by (auto simp: wakeup_def split: option.split)
  moreover have "same_process z (wake_one ch z)" for ch by simp
  moreover have "same_process (procs k ! c) z"
    unfolding z_def using zombified_at [of c k c] o(1,2) by (simp add: same_process_def)
  ultimately have "same_process (procs k ! c) (procs (departed c k) ! c)"
    using same_process_trans by (elim disjE) auto
  moreover have m: "mem (departed c k) = mem k"
    by (simp add: departed_def zombified_def wakeup_def split: option.split)
  ultimately have "becomes L c k (procs k ! c) (departed c k)"
    by (simp add: becomes_def departed_live [OF ok])
  then have "effects L c k (schedule ws tf (departed c k))"
    using o(1,2,3) m by (intro effects_carried_schedule) simp_all
  then show ?thesis using exit_departed [of k c ws tf] o(1,2,3) by simp
qed

lemma effect_interrupt:
  assumes ok: "kernel_ok L c k"
  shows "effects L c k (interrupt inp code (ProcFrame c) k)"
proof -
  note o = kernel_okD [OF ok]
  have "effects L c k (schedule ws (ProcFrame c) (k\<lparr>timer := t\<rparr>))" for ws t
    using o(1,2,3) by (intro effects_carried_schedule becomes_quiet) simp_all
  moreover have "effect L c k (plic_dispatch irq fifo k)" for irq fifo
  proof (rule carried)
    note f = interrupt_frame_plic [of k irq fifo]
    have m: "mem (plic_dispatch irq fifo k) = mem k" using f by (simp only: interrupt_frame_def)
    have w: "woken UartChan (procs k) (procs (plic_dispatch irq fifo k))" using f by (simp only: interrupt_frame_def)
    have "live (procs (plic_dispatch irq fifo k)) = live (procs k)"
      using quiet_interrupt [OF f] quiet_table_live by (simp add: quiet_def)
    then show "becomes L c k (procs k ! c) (plic_dispatch irq fifo k)"
      using woken_at(1) [OF w current_in [OF ok]] m by (simp add: becomes_def)
    show "same_leaves (mem k) (mem (plic_dispatch irq fifo k)) (page_table (procs k ! c))" by (simp add: m)
  qed
  ultimately show ?thesis by (simp add: interrupt_def)
qed

text \<open>\<open>wait\<close> frees the frames of the zombie, none of which the caller uses.\<close>

lemma effect_wait:
  assumes ok: "kernel_ok L c k"
  shows "effects L c k (sys_wait L ws (ProcFrame c) k)"
proof -
  note o = kernel_okD [OF ok]
  let ?P = "\<lambda>p. child_of (pid (procs k ! c)) p \<and> state p = PROC_ZOMBIE"
  show ?thesis
  proof (cases "find_index ?P (procs k)")
    case None
    then show ?thesis
      using effects_ret effect_block [OF ok refl refl refl]
      by (simp add: sys_wait_def with_current_ok [OF ok] Let_def)
  next
    case (Some i)
    then have i: "i < 64" "?P (procs k ! i)" using find_index_Some [of ?P "procs k" i] o(1) by auto
    then have "state (procs k ! i) \<noteq> PROC_UNUSED" and ic: "i \<noteq> c" using o(4) by auto
    note r = free_proc_reap [OF o(10) i(1) this(1)]
    have "live (procs (free_proc L i k)) = live (procs k) - {i}"
      unfolding r(2) by (rule live_remove) (use i(1) o(1) in simp_all)
    then have "becomes L c k (procs k ! c) (free_proc L i k)"
      using same_image_bitmap [OF r(4)] ic by (auto simp: becomes_def r(2))
    moreover have "same_leaves (mem k) (mem (free_proc L i k)) (page_table (procs k ! c))"
      using leaf_bitmap [OF spaces_okD(2) [OF o(6)] current_root [OF ok] r(4)] by (simp add: same_leaves_def)
    ultimately show ?thesis using Some effects_carried_ret
      by (simp add: sys_wait_def with_current_ok [OF ok] Let_def)
  qed
qed

section \<open>Files\<close>

lemma effects_filed:
  assumes ok: "kernel_ok L c k" and fd: "fd < FD_MAX" and m: "written_by L c k (mem k1)" and ps: "procs k1 = procs k"
    and st: "file_step L (mem k) (open_files (procs k ! c) ! fd) (g (open_files (procs k ! c) ! fd))"
  shows "effects L c k (ret tf v (upd_file c fd g k1))"
proof -
  note o = kernel_okD [OF ok]
  let ?k2 = "upd_file c fd g k1" and ?p = "procs k ! c"
  let ?p' = "?p\<lparr>open_files := (open_files ?p)[fd := g (open_files ?p ! fd)]\<rparr>"
  have "same_image L (mem k) (mem k1)"
    using writtenD(5) [OF m] by (intro same_image_user [OF spaces_okD(2) [OF o(6)] current_root [OF ok]])
      (auto simp: user_frames_def)
  moreover have "quiet k1 ?k2" by (rule quiet_file [OF quiet_refl])
  then have "live (procs ?k2) = live (procs k)" using quiet_table_live ps by (simp add: quiet_def)
  ultimately have "becomes L c k ?p' ?k2"
    using current_in [OF ok] by (simp add: becomes_def upd_file_def ps)
  from becomes_frame [OF this] have "becomes L c k ?p' (upd_frame tf (\<lambda>f. f\<lparr>tf_a0 := v\<rparr>) ?k2)" .
  then show ?thesis unfolding ret_def effects_Inr
    by (rule filed [OF _ st fd])
      (use writtenD(4) [OF m current_root [OF ok]] in \<open>simp add: same_leaves_def upd_file_def\<close>)
qed

lemma written_by_refl: "kernel_ok L c k \<Longrightarrow> written_by L c k (mem k)"
  using written_refl spaces_okD(1) kernel_okD(6) by blast

lemma effect_open:
  assumes ok: "kernel_ok L c k"
  shows "effects L c k (sys_open L tf k)"
proof -
  have "effects L c k (ret tf v (upd_file c fd (\<lambda>_. file_of L (mem k) e) k))"
    if fd: "find (\<lambda>i. f_type (open_files (procs k ! c) ! i) = FILE_TYPE_NONE) [3..<FD_MAX] = Some fd"
      and e: "ramdisk_get_entry L (mem k) rd name = Inr e" "e \<noteq> 0" for fd v rd name e
    using fd by (intro effects_filed [OF ok _ written_by_refl [OF ok]] file_step.opens ramdisk_get_entry_directory [OF e])
      (auto simp: find_Some_iff)
  then show ?thesis using ok
    by (auto simp: sys_open_def with_current_ok Let_def effects_ret file_of_def simp del: upt.simps upt_rec_numeral
      intro!: effects_bind split: option.splits)
qed

lemma the_file_Some:
  assumes "the_file k c fd = Some fl"
  shows "nat fd < FD_MAX" "open_files (procs k ! c) ! nat fd = fl" "f_type fl \<noteq> FILE_TYPE_NONE"
  using assms by (auto simp: the_file_def Let_def split: if_splits)

lemma effect_close:
  assumes ok: "kernel_ok L c k"
  shows "effects L c k (sys_close tf k)"
proof -
  have "effects L c k (ret tf v (upd_file c (nat fd) (\<lambda>_. closed_file) k))" if "the_file k c fd = Some fl" for fd fl v
    using the_file_Some [OF that] by (intro effects_filed [OF ok _ written_by_refl [OF ok]] file_step.closes) simp_all
  then show ?thesis using ok
    by (auto simp: sys_close_def with_current_ok Let_def effects_ret split: option.splits)
qed

lemma effects_written:
  assumes ok: "kernel_ok L c k" and m: "written_by L c k (mem k1)" and ps: "procs k1 = procs k"
  shows "effects L c k (ret tf v k1)"
proof (rule effects_carried_ret)
  have "same_image L (mem k) (mem k1)"
    using writtenD(5) [OF m] by (intro same_image_user [OF spaces_okD(2) [OF kernel_okD(6) [OF ok]] current_root [OF ok]])
      (auto simp: user_frames_def)
  then show "becomes L c k (procs k ! c) k1" by (simp add: becomes_def ps)
  show "same_leaves (mem k) (mem k1) (page_table (procs k ! c))"
    using writtenD(4) [OF m current_root [OF ok]] by (simp add: same_leaves_def)
qed

lemma effect_console_read:
  assumes ok: "kernel_ok L c k" and g: "guarded (mem k) (page_table (procs k ! c))"
    and chk: "user_range_ok (mem k) (page_table (procs k ! c)) buf (ucast count) PTE_W"
  shows "effects L c k (console_read ws tf buf count k)"
proof (cases "count = 0")
  case True
  then show ?thesis using effects_ret by (simp add: console_read_def)
next
  case False
  obtain ch u where gc: "uart_getc (rx k) = (ch, u)" by fastforce
  have "effects L c k (block_on ws UartChan tf (k\<lparr>rx := u\<rparr>))"
    by (rule effect_block [OF ok]) simp_all
  moreover have "effects L c k (ret tf (ucast n) k1)"
    if "user_store (satp k) buf (of_int ch) (mem k) = Inr m"
      and "console_more buf (unat count - 1) 1 (k\<lparr>rx := u, mem := m\<rparr>) = Inr (n, k1)" for m n k1
    using console_more_written [OF ok g chk False that] effects_written [OF ok, of k1] by auto
  ultimately show ?thesis using False gc
    by (auto simp: console_read_def intro!: effects_bind)
qed

lemma effect_ramdisk_read:
  assumes ok: "kernel_ok L c k" and g: "guarded (mem k) (page_table (procs k ! c))"
    and chk: "user_range_ok (mem k) (page_table (procs k ! c)) buf (ucast count) PTE_W"
    and fd: "fd < FD_MAX" "f_type (open_files (procs k ! c) ! fd) = FILE_TYPE_RAMDISK"
  shows "effects L c k (ramdisk_read tf c fd buf count k)"
proof -
  let ?fl = "open_files (procs k ! c) ! fd"
  let ?left = "f_size ?fl - f_offset ?fl"
  let ?n = "if count > ?left then ?left else count"
  have n: "unat ?n \<le> unat count" "?n \<le> ?left" by (simp_all add: word_less_nat_alt word_le_nat_alt)
  have "effects L c k (ret tf v (upd_file c fd (\<lambda>h. h\<lparr>f_offset := f_offset h + ?n\<rparr>) k1))"
    if "copy_to_user buf src (unat ?n) k = Inr k1" for src v k1
    using copy_to_user_written [OF ok g chk n(1) that] n(2)
    by (intro effects_filed [OF ok fd(1)] file_step.reads fd(2)) auto
  then show ?thesis using effects_ret
    by (auto simp: ramdisk_read_def Let_def intro!: effects_bind)
qed

lemma effect_read:
  assumes ok: "kernel_ok L c k" and g: "guarded (mem k) (page_table (procs k ! c))"
  shows "effects L c k (sys_read ws tf k)"
  using effects_ret effect_console_read [OF ok g] effect_ramdisk_read [OF ok g] the_file_Some
  by (auto simp: sys_read_def with_current_ok [OF ok] Let_def split: option.splits)

section \<open>The heap\<close>

lemma sbrk_grown:
  assumes ok: "kernel_ok L c k" and g: "gains L (roots (procs k)) (page_table (procs k ! c)) (mem k) m"
    and h: "heap_leaves (mem k) m (page_table (procs k ! c))"
  shows "effects L c k (ret tf v (upd_proc c (\<lambda>p. p\<lparr>heap_break := brk\<rparr>) (k\<lparr>mem := m\<rparr>)))"
proof -
  note o = kernel_okD [OF ok]
  let ?p = "procs k ! c" and ?k1 = "upd_proc c (\<lambda>p. p\<lparr>heap_break := brk\<rparr>) (k\<lparr>mem := m\<rparr>)"
  have "quiet (k\<lparr>mem := m\<rparr>) ?k1" by (rule quiet_upd_proc) (simp add: quiet_process_def)
  then have "live (procs ?k1) = live (procs k)" using quiet_table_live by (fastforce simp: quiet_def)
  moreover have "same_image L (mem k) m"
    by (rule same_image_gains [OF spaces_okD(2) [OF o(6)] current_root [OF ok] g])
  ultimately have "becomes L c k (?p\<lparr>heap_break := brk\<rparr>) ?k1"
    using current_in [OF ok] by (simp add: becomes_def)
  from becomes_frame [OF this] have "becomes L c k (?p\<lparr>heap_break := brk\<rparr>) (upd_frame tf (\<lambda>f. f\<lparr>tf_a0 := v\<rparr>) ?k1)" .
  then show ?thesis unfolding ret_def effects_Inr by (rule grown) (simp add: h)
qed

lemma heap_grown_leaves:
  assumes h: "heap_grown L R r A m m'" and r: "r \<in> R"
  shows "heap_leaves m m' r"
  unfolding heap_leaves_def
proof (intro allI impI)
  fix a b l :: nat assume i: "a < 512" "b < 512" "l < 512"
  show "leaf_at m' r a b l = leaf_at m r a b l \<or> leaf_at m' r a b l \<in> insert 0 (range heap_entry)"
  proof (cases "[a, b, l] \<in> vpath ` A")
    case True
    then obtain p where p: "p \<in> A" "[a, b, l] = vpath p" by blast
    then have "leaf_at m' r a b l = path_leaf m' r p" by (simp add: path_leaf_def)
    then show ?thesis using heap_grownD(2) [OF h p(1)] by (auto simp: zero_page_def)
  next
    case False
    then show ?thesis using heap_grownD(3) [OF h r i] by simp
  qed
qed

lemma effect_sbrk:
  assumes ok: "kernel_ok L c k"
  shows "effects L c k (sys_sbrk L (ProcFrame c) k)"
proof -
  note r = current_root [OF ok]
  let ?r = "page_table (procs k ! c)" and ?R = "roots (procs k)"
  obtain v k' where run: "sys_sbrk L (ProcFrame c) k = ret (ProcFrame c) v k'" and out: "sbrk_outcome L c k v k'"
    using sys_sbrk_outcome [OF ok] by blast
  consider "k' = k"
    | m brk A where "k' = upd_proc c (\<lambda>p. p\<lparr>heap_break := brk\<rparr>) (k\<lparr>mem := m\<rparr>)" "heap_grown L ?R ?r A (mem k) m"
    | m where "k' = k\<lparr>mem := m\<rparr>" "heap_restored L ?R ?r (mem k) m"
    using out unfolding sbrk_outcome_def Let_def by (auto split: if_splits)
  then show ?thesis unfolding run
  proof cases
    case 1
    then show "effects L c k (ret (ProcFrame c) v k')" using effects_ret by simp
  next
    case 2
    then show "effects L c k (ret (ProcFrame c) v k')"
      using sbrk_grown [OF ok heap_grownD(1) [OF 2(2)] heap_grown_leaves [OF 2(2) r]] by simp
  next
    case 3
    have "k' = upd_proc c (\<lambda>p. p\<lparr>heap_break := heap_break (procs k ! c)\<rparr>) (k\<lparr>mem := m\<rparr>)"
      using 3(1) by (simp add: upd_proc_def)
    moreover have "gains L ?R ?r (mem k) m" "heap_leaves (mem k) m ?r"
      using 3(2) r unfolding heap_restored_def heap_leaves_def by blast+
    ultimately show "effects L c k (ret (ProcFrame c) v k')" using sbrk_grown [OF ok] by simp
  qed
qed

section \<open>Programs\<close>

lemma effect_exec:
  assumes L: "layout_ok L" and ok: "kernel_ok L c k"
  shows "effects L c k (sys_exec L (ProcFrame c) k)"
proof -
  have "effects L c k (exec_image L (ProcFrame c) c elf k)" for elf
    using assms
  proof (cases rule: exec_image_cases [where tf = "ProcFrame c" and elf = elf])
    case (execed k')
    note e = execed(2) [unfolded execed_def Let_def]
    define r where "r = page_table (procs k' ! c)"
    obtain entry brk where p: "procs k' ! c = loaded_process entry (page_up brk) ((procs k ! c)\<lparr>page_table := r\<rparr>)"
      using e unfolding r_def by blast
    have ps: "procs k' = (procs k)[c := procs k' ! c]" using e by blast
    have "state (procs k' ! c) \<noteq> PROC_UNUSED"
      by (subst p) (simp add: loaded_process_def kernel_okD(4) [OF ok])
    then have "live (procs k') \<subseteq> live (procs k)"
      using kernel_okD(8) [OF ok] by (subst ps) (auto simp: live_def nth_list_update split: if_splits)
    moreover have "same_process ((procs k ! c)\<lparr>page_table := r, heap_break := heap_break (procs k' ! c),
        heap_max := heap_max (procs k' ! c)\<rparr>) (procs k' ! c)"
      unfolding p by (simp add: same_process_def loaded_process_def)
    ultimately have "becomes L c k ((procs k ! c)\<lparr>page_table := r, heap_break := heap_break (procs k' ! c),
        heap_max := heap_max (procs k' ! c)\<rparr>) k'"
      using e by (simp add: becomes_def)
    moreover have "no_wx (mem k') r" "guarded (mem k') r" using e by (simp_all add: r_def)
    ultimately have "effect L c k k'" by (rule effect.replaced)
    then show ?thesis unfolding execed(1) by simp
  qed simp
  then show ?thesis using effects_ret
    by (auto simp: sys_exec_eq [OF kernel_okD(3) [OF ok]] Let_def intro!: effects_bind)
qed

lemma forked_effect:
  assumes ok: "kernel_ok L c k" and fk: "forked L c k n k'"
  shows "effect L c k k'"
proof -
  note o = kernel_okD [OF ok]
  note e = fk [unfolded forked_def Let_def]
  let ?p = "procs k ! c" and ?kid = "procs k' ! n"
  let ?pc = "?p\<lparr>frame := (frame ?p)\<lparr>tf_a0 := scast (next_pid k)\<rparr>\<rparr>"
  have nc: "n \<noteq> c" using e o(4) by auto
  have ps: "procs k' = (procs k)[c := ?pc, n := ?kid]" using e by blast
  have kp: "keeps L (mem k) (mem k')" and tr: "\<And>q. tree (mem k') (page_table ?p) q = tree (mem k) (page_table ?p) q"
    using e current_root [OF ok] by blast+
  have me: "procs k' ! c = ?pc" using arg_cong [OF ps, of "\<lambda>ps. ps ! c"] nc current_in [OF ok] by simp
  have len: "length (procs k') = length (procs k)" using arg_cong [OF ps, of length] by simp
  have "state (procs k' ! i) = state (procs k ! i)" if "i \<noteq> n" "i < length (procs k)" for i
    using arg_cong [OF ps, of "\<lambda>ps. ps ! i"] that by (cases "i = c") simp_all
  then have l: "live (procs k') \<subseteq> insert n (live (procs k))" using len by (auto simp: live_def)
  have "copied_leaves (mem k) (page_table ?p) (mem k') (page_table ?kid)"
    unfolding copied_leaves_def
  proof (intro allI impI)
    fix i j l :: nat assume i: "i < 512" "j < 512" "l < 512"
    let ?e = "leaf_at (mem k) (page_table ?p) i j l" and ?e' = "leaf_at (mem k') (page_table ?kid) i j l"
    have "if i < 2 \<and> user_frame ?e \<noteq> None then private_copy L (mem k) (mem k') ?e ?e' else user_frame ?e' = None"
      using e i by blast
    then show "user_frame ?e' = None \<or> (\<exists>n. ?e' = PA_TO_PTE n OR (?e AND 0x3FF))"
      by (auto simp: private_copy_def split: if_splits)
  qed
  moreover have "same_leaves (mem k) (mem k') (page_table ?p)"
    using keeps_leaf [OF spaces_okD(2) [OF o(6)] current_root [OF ok] kp tr] by (simp add: same_leaves_def)
  ultimately show ?thesis
    using e l me same_image_keeps [OF spaces_okD(2) [OF o(6)] kp]
    by (intro doubled [of k' n]) (simp_all add: forked_child_def same_process_def)
qed

lemma effect_fork:
  assumes L: "layout_ok L" and ok: "kernel_ok L c k"
  shows "effects L c k (sys_fork L (ProcFrame c) k)"
  using assms
proof (cases rule: sys_fork_cases)
  case (again k')
  note o = kernel_okD [OF ok]
  note n = again(2) [unfolded no_process_def]
  have "procs k' ! c = procs k ! c" using n o(2,4) by auto
  moreover have "live (procs k') \<subseteq> live (procs k)" using n o(1) by (auto simp: live_def)
  ultimately have "becomes L c k (procs k ! c) k'"
    using n same_image_keeps [OF spaces_okD(2) [OF o(6)]] by (simp add: becomes_def)
  moreover have "same_leaves (mem k) (mem k') (page_table (procs k ! c))"
  proof -
    have kp: "keeps L (mem k) (mem k')" and tr: "\<And>q. tree (mem k') (page_table (procs k ! c)) q = tree (mem k) (page_table (procs k ! c)) q"
      using n current_root [OF ok] by blast+
    show ?thesis
      using keeps_leaf [OF spaces_okD(2) [OF o(6)] current_root [OF ok] kp tr] by (simp add: same_leaves_def)
  qed
  ultimately show ?thesis unfolding again(1) by (rule effects_carried_ret)
next
  case (forked n k')
  then show ?thesis using forked_effect [OF ok forked(2)] by simp
qed simp

section \<open>Every trap\<close>

lemma becomes_before:
  assumes "becomes L c k1 p1 k'" "mem k1 = mem k" "live (procs k1) = live (procs k)" "same_process p p1"
  shows "becomes L c k p k'"
  using assms(1-3) same_process_trans [OF assms(4)] by (auto simp: becomes_def)

lemma effects_before:
  assumes e: "effects L c k1 res" and m: "mem k1 = mem k" and l: "live (procs k1) = live (procs k)"
    and p: "procs k1 ! c = (procs k ! c)\<lparr>frame := g\<rparr>"
  shows "effects L c k res"
proof (cases res)
  case (Inr y)
  obtain q k' where y: "y = (q, k')" by (cases y)
  note b = becomes_before [OF _ m l]
  have "effect L c k1 k'" using e Inr y by simp
  then have "effect L c k k'"
  proof cases
    case carried
    show ?thesis
      by (rule effect.carried [OF b [OF carried(1)]]) (use carried(2) in \<open>simp_all add: p m same_process_def\<close>)
  next
    case (filed fd f)
    show ?thesis
      by (rule effect.filed [OF b [OF filed(1)]]) (use filed(2,3,4) in \<open>simp_all add: p m same_process_def\<close>)
  next
    case (grown brk)
    show ?thesis
      by (rule effect.grown [OF b [OF grown(1)]]) (use grown(2) in \<open>simp_all add: p m same_process_def\<close>)
  next
    case (replaced r brk bound)
    show ?thesis
      by (rule effect.replaced [OF b [OF replaced(1)]]) (use replaced(2,3) in \<open>simp_all add: p m same_process_def\<close>)
  next
    case (doubled n)
    show ?thesis
      by (rule effect.doubled [of _ n]) (use doubled in \<open>simp_all add: p m l same_process_def\<close>)
  qed
  then show ?thesis using Inr y by simp
qed simp

interpretation refines: trap_contract L "running_ok L" "effects L" for L
proof
  fix c k f out res
  let ?k = "(upd_frame (ProcFrame c) f k)\<lparr>console := out\<rparr>"
  assume pre: "running_ok L c k"
  then show "running_ok L c ?k"
    by (simp add: kernel_ok_entered del: upd_frame.simps)
  show "effects L c ?k res \<Longrightarrow> effects L c k res"
    by (erule effects_before [where g = "f (frame (procs k ! c))"])
      (use pre current_in [of L c k] upd_frame_live [of "ProcFrame c" f k] in simp_all)
qed (auto intro: effect_putchar effect_exit effect_fork effect_exec effect_wait effect_sbrk effect_open effect_read
    effect_write effect_close effect_interrupt)

end
