(* ===== verification/Process_Inv.thy ===== *)
theory Process_Inv
  imports Trap_Effect
begin

text \<open>
  Invariants of processes: a property of a process and its memory that survives the abstract
  steps of \<open>Effect\<close> holds of every process in the table after a trap if it did before. Two
  instances: nothing but user pages below the kernel's (\<open>guarded\<close>), and W xor X.
\<close>

section \<open>The contract\<close>

definition everywhere :: "(memory \<Rightarrow> process \<Rightarrow> bool) \<Rightarrow> kernel \<Rightarrow> bool" where
  "everywhere P k \<longleftrightarrow> (\<forall>i \<in> live (procs k). P (mem k) (procs k ! i))"

lemma everywhereD: "everywhere P k \<Longrightarrow> i \<in> live (procs k) \<Longrightarrow> P (mem k) (procs k ! i)"
  by (simp add: everywhere_def)

locale process_invariant =
  fixes L :: layout
    and P :: "memory \<Rightarrow> process \<Rightarrow> bool"
  assumes carry: "P m p \<Longrightarrow> same_process p p' \<Longrightarrow> same_leaves m m' (page_table p) \<Longrightarrow> same_image L m m' \<Longrightarrow> P m' p'"
    and descriptor: "P m p \<Longrightarrow> fd < FD_MAX \<Longrightarrow> file_step L m (open_files p ! fd) f \<Longrightarrow>
      P m (p\<lparr>open_files := (open_files p)[fd := f]\<rparr>)"
    and heap: "P m p \<Longrightarrow> heap_leaves m m' (page_table p) \<Longrightarrow> same_image L m m' \<Longrightarrow> P m' (p\<lparr>heap_break := brk\<rparr>)"
    and exec: "P m p \<Longrightarrow> no_wx m' r \<Longrightarrow> guarded m' r \<Longrightarrow> same_image L m m' \<Longrightarrow>
      P m' (p\<lparr>page_table := r, heap_break := brk, heap_max := bound\<rparr>)"
    and fork: "P m p \<Longrightarrow> open_files kid = open_files p \<Longrightarrow> guarded m' (page_table kid) \<Longrightarrow>
      copied_leaves m (page_table p) m' (page_table kid) \<Longrightarrow> same_image L m m' \<Longrightarrow> P m' kid"
begin

lemma renamed: "P m p \<Longrightarrow> same_process p p' \<Longrightarrow> P m p'"
  by (rule carry [OF _ _ same_leaves_refl same_image_refl])

text \<open>The caller, and a process that is born.\<close>

lemma caller:
  assumes p: "P (mem k) (procs k ! c)" and e: "effect L c k k'"
  shows "P (mem k') (procs k' ! c)"
  using e
proof cases
  case carried
  then show ?thesis using carry [OF p] by (simp add: becomes_def)
next
  case (filed fd f)
  note b = filed(1) [unfolded becomes_def]
  show ?thesis using carry [OF descriptor [OF p filed(3,2)]] b filed(4) by simp
next
  case (grown brk)
  then show ?thesis using heap [OF p] renamed unfolding becomes_def by blast
next
  case (replaced r brk bound)
  then show ?thesis using exec [OF p] renamed unfolding becomes_def by blast
next
  case (doubled n)
  then show ?thesis using carry [OF p] by simp
qed

lemma born:
  assumes p: "P (mem k) (procs k ! c)" and e: "effect L c k k'" and i: "i \<in> live (procs k')" "i \<notin> live (procs k)"
  shows "P (mem k') (procs k' ! i)"
  using e
proof cases
  case (doubled n)
  then have "i = n" using i by blast
  then show ?thesis using fork [OF p] doubled by simp
qed (use i in \<open>auto simp: becomes_def\<close>)

lemma step:
  assumes ok: "kernel_ok L c k" and all: "everywhere P k" and iso: "isolated c k k'" and e: "effect L c k k'"
    and len: "length (procs k') = 64"
  shows "everywhere P k'"
  unfolding everywhere_def
proof
  note o = kernel_okD [OF ok]
  have me: "P (mem k) (procs k ! c)" using everywhereD [OF all] o(8) by blast
  fix i assume i: "i \<in> live (procs k')"
  consider "i = c" | "i \<notin> live (procs k)" | "i \<noteq> c" "i \<in> live (procs k)" by blast
  then show "P (mem k') (procs k' ! i)"
  proof cases
    case 1
    then show ?thesis using caller [OF me e] by simp
  next
    case 2
    then show ?thesis by (rule born [OF me e i])
  next
    case 3
    then have *: "same_process (procs k ! i) (procs k' ! i)" "untouched (mem k) (mem k') (page_table (procs k ! i))"
      using iso i len o(1) by (auto simp: isolated_def live_def)
    have "page_table (procs k ! i) \<in> roots (procs k)" by (rule spaces_okD(5) [OF o(6) 3(2)])
    then have "same_leaves (mem k) (mem k') (page_table (procs k ! i))"
      using untouched_leaf [OF spaces_okD(2) [OF o(6)] _ *(2)] by (simp add: same_leaves_def)
    moreover have "same_image L (mem k) (mem k')" by (rule effect_image [OF e])
    ultimately show ?thesis using carry everywhereD [OF all 3(2)] *(1) by blast
  qed
qed

lemma trap_step:
  assumes "running_ok L c k" "everywhere P k" "\<not> from_supervisor (frame (procs k ! c))"
    and run: "trap_handler L inp (ProcFrame c) k = Inr (q, k')"
  shows "everywhere P k'"
proof -
  have "trap_ok L c k (Inr (q, k'))" "effects L c k (Inr (q, k'))"
    unfolding run [symmetric] by (rule safe.trap refines.trap; use assms in simp)+
  then show ?thesis using step [of c k k'] assms(1,2) by (auto simp: trap_ok_def dest: kernel_okD(1))
qed

text \<open>Programs that compute, too: they reach no page table and nothing of the image.\<close>

lemma user_step:
  assumes ok: "kernel_ok L c k" and all: "everywhere P k"
    and se: "same_except (user_frames (mem k) (page_table (procs k ! c))) (mem k) m"
  shows "everywhere P (upd_frame (ProcFrame c) f (k\<lparr>mem := m\<rparr>))" (is "everywhere P ?k'")
  unfolding everywhere_def
proof
  note o = kernel_okD [OF ok]
  have F: "\<exists>i j l. tree (mem k) (page_table (procs k ! c)) [i, j, l] = Some g"
    if "g \<in> user_frames (mem k) (page_table (procs k ! c))" for g
    using that by (simp add: user_frames_def)
  have w: "leaf_at m r a b l = leaf_at (mem k) r a b l" if "r \<in> roots (procs k)" "l < 512" for r a b l
    by (rule user_writes(4) [OF spaces_okD(1) [OF o(6)] current_root [OF ok] se F that]) simp_all
  fix i assume "i \<in> live (procs ?k')"
  then have i: "i \<in> live (procs k)" using upd_frame_live [of "ProcFrame c" f "k\<lparr>mem := m\<rparr>"] by simp
  have "same_leaves (mem k) m (page_table (procs k ! i))"
    using w [OF spaces_okD(5) [OF o(6) i]] by (simp add: same_leaves_def)
  moreover have "same_image L (mem k) m"
    by (rule same_image_user [OF spaces_okD(2) [OF o(6)] current_root [OF ok] se]) (use F in blast)
  moreover have "same_process (procs k ! i) (procs ?k' ! i)"
    using upd_frame_same [of "k\<lparr>mem := m\<rparr>" i "ProcFrame c" f] by simp
  ultimately show "P (mem ?k') (procs ?k' ! i)" using carry everywhereD [OF all i] by simp
qed

end

section \<open>Guarded spaces\<close>

lemma guarded_same: "same_leaves m m' r \<Longrightarrow> guarded m r \<Longrightarrow> guarded m' r"
  by (erule guarded_leaves) (simp add: same_leavesD)

lemma heap_entry_user: "e \<in> insert 0 (range heap_entry) \<Longrightarrow> has e PTE_V \<Longrightarrow> has e PTE_U"
  using STACK_rw(2) by (auto simp: has_def [of 0])

lemma guarded_heap: "guarded m r \<Longrightarrow> heap_leaves m m' r \<Longrightarrow> guarded m' r"
  unfolding guarded_def heap_leaves_def using heap_entry_user by metis

interpretation guard: process_invariant L "\<lambda>m p. guarded m (page_table p)" for L
  by unfold_locales (auto simp: same_process_def intro: guarded_same guarded_heap)

section \<open>W xor X\<close>

lemma wx_zero [simp]: "\<not> wx 0"
  by (simp add: wx_def has_def)

lemma wx_copy: "wx (PA_TO_PTE n OR (e AND 0x3FF)) = wx e"
proof -
  have m: "(0x3FF :: u64) = mask 10" by (simp add: mask_eq_exp_minus_1)
  have "bit (PA_TO_PTE n OR (e AND 0x3FF)) k = bit e k" if "k < 10" for k
    using that by (auto simp: m bit_or_iff bit_and_iff bit_mask_iff bit_PA_TO_PTE)
  then show ?thesis by (simp add: wx_def has_flags)
qed

lemma wx_user_frame: "wx e \<Longrightarrow> user_frame e \<noteq> None"
  by (simp add: wx_def user_frame_def is_leaf_def)

lemma no_wx_same: "same_leaves m m' r \<Longrightarrow> no_wx m r \<Longrightarrow> no_wx m' r"
  by (simp add: no_wx_def same_leaves_def)

lemma no_wx_heap:
  assumes "no_wx m r" "heap_leaves m m' r"
  shows "no_wx m' r"
  unfolding no_wx_def
proof (intro allI impI)
  fix i j l :: nat assume i: "i < 512" "j < 512" "l < 512"
  show "\<not> wx (leaf_at m' r i j l)"
    using assms(1) [unfolded no_wx_def, rule_format, OF i] assms(2) [unfolded heap_leaves_def, rule_format, OF i]
      STACK_rw(1) by auto
qed

lemma no_wx_copied:
  assumes "no_wx m r" "copied_leaves m r m' r'"
  shows "no_wx m' r'"
  unfolding no_wx_def
proof (intro allI impI)
  fix i j l :: nat assume i: "i < 512" "j < 512" "l < 512"
  show "\<not> wx (leaf_at m' r' i j l)"
    using assms(1) [unfolded no_wx_def, rule_format, OF i] assms(2) [unfolded copied_leaves_def, rule_format, OF i]
      wx_user_frame [of "leaf_at m' r' i j l"] by (auto simp: wx_copy)
qed

interpretation code: process_invariant L "\<lambda>m p. no_wx m (page_table p)" for L
  by unfold_locales (auto simp: same_process_def intro: no_wx_same no_wx_heap no_wx_copied)

abbreviation all_guarded :: "kernel \<Rightarrow> bool" where
  "all_guarded \<equiv> everywhere (\<lambda>m p. guarded m (page_table p))"

abbreviation code_safe :: "kernel \<Rightarrow> bool" where
  "code_safe \<equiv> everywhere (\<lambda>m p. no_wx m (page_table p))"

end
