(* ===== verification/Boot_Spec.thy ===== *)
theory Boot_Spec
  imports Exec
begin

text \<open>
  What \<open>kmain\<close> (\<open>Boot\<close>) does to the machine: it stops with one of its messages, or one process
  runs the file \<open>init.elf\<close> of the ramdisk. With a well-formed file and enough frames it is the
  latter; 70 frames go to the kernel's own space, 73 to the process before its program.
\<close>

section \<open>The directory of the ramdisk\<close>

definition directory_in_image :: "layout \<Rightarrow> memory \<Rightarrow> bool" where
  "directory_in_image L m \<longleftrightarrow>
     (\<forall>i < 8 + 40 * unat (load32 m (ramdisk_start L + 4)). in_image L (ramdisk_start L + of_nat i))"

lemma directory_load32:
  assumes d: "directory_in_image L m" and s: "same_image L m m'"
    and i: "i + 4 \<le> 8 + 40 * unat (load32 m (ramdisk_start L + 4))"
  shows "load32 m' (ramdisk_start L + of_nat i) = load32 m (ramdisk_start L + of_nat i)"
proof -
  have "in_image L (ramdisk_start L + of_nat i + of_nat j)" if "j < 4" for j
    using d [unfolded directory_in_image_def, rule_format, of "i + j"] i that by (simp add: add.assoc)
  then show ?thesis using load_image [of 4 L "ramdisk_start L + of_nat i" m' m] s by (simp add: same_image_def)
qed

lemma cstring_same:
  "(\<And>j. j \<le> length t \<Longrightarrow> m' (a + of_nat j) = m (a + of_nat j)) \<Longrightarrow> cstring (kread m') a t = cstring (kread m) a t"
proof (induction t arbitrary: a)
  case Nil
  from Nil.prems [of 0] show ?case by (simp add: kread_def)
next
  case (Cons c t)
  have "m' (a + 1 + of_nat j) = m (a + 1 + of_nat j)" if "j \<le> length t" for j
    using Cons.prems [of "Suc j"] that by (simp add: add.assoc)
  then have "cstring (kread m') (a + 1) t = cstring (kread m) (a + 1) t" by (rule Cons.IH)
  moreover have "m' a = m a" using Cons.prems [of 0] by simp
  ultimately show ?case by (simp add: kread_apply [of _ a])
qed

text \<open>The kernel's own lookup always ends, and while the directory is there it finds the same file.\<close>

lemma ramdisk_find_returns:
  assumes "cstring (lit name) 0 name" "length name < 32"
  shows "\<exists>elf. ramdisk_find L m name = Inr elf"
  using assms find_entry_spec [of "lit name" 0 name] by (auto simp: ramdisk_find_def Let_def)

lemma ramdisk_find_image:
  assumes d: "directory_in_image L m" and s: "same_image L m m'"
    and name: "cstring (lit name) 0 name" "length name < 32"
  shows "ramdisk_find L m' name = ramdisk_find L m name"
proof -
  let ?b = "ramdisk_start L" and ?n = "unat (load32 m (ramdisk_start L + 4))"
  let ?e = "\<lambda>i. ramdisk_start L + 8 + of_nat (40 * i)"
  note l = directory_load32 [OF d s]
  have magic: "load32 m' ?b = load32 m ?b" and num: "load32 m' (?b + 4) = load32 m (?b + 4)"
    using l [of 0] l [of 4] by simp_all
  have at: "m' (?e i + of_nat j) = m (?e i + of_nat j)" if "i < ?n" "j < 40" for i j
  proof -
    have "?e i + of_nat j = ?b + of_nat (8 + 40 * i + j)" by (simp add: add.assoc)
    moreover have "8 + 40 * i + j < 8 + 40 * ?n" using that by linarith
    ultimately show ?thesis using d s unfolding directory_in_image_def same_image_def by metis
  qed
  have "cstring (kread m') (?e i) name = cstring (kread m) (?e i) name" if "i < ?n" for i
    by (rule cstring_same) (use at [OF that] name(2) in simp)
  then have fnd: "find (\<lambda>i. cstring (kread m') (?e i) name) [0..<?n] = find (\<lambda>i. cstring (kread m) (?e i) name) [0..<?n]"
    by (intro find_cong) auto
  have off: "entry_offset m' (?e i) = entry_offset m (?e i)" if "i < ?n" for i
  proof -
    have e: "?e i + 32 = ?b + of_nat (40 * i + 40)" by simp
    show ?thesis unfolding entry_offset_def e by (rule l) (use that in simp)
  qed
  have len: "length name < 256" using name(2) by simp
  have eq: "map_option (\<lambda>i. entry_offset m' (?e i)) (find (\<lambda>i. cstring (kread m) (?e i) name) [0..<?n]) =
      map_option (\<lambda>i. entry_offset m (?e i)) (find (\<lambda>i. cstring (kread m) (?e i) name) [0..<?n])"
    by (rule map_option_cong [OF refl]) (use off in \<open>auto simp: find_Some_iff simp del: of_nat_mult\<close>)
  have sh: "(case map_option ?e f of None \<Rightarrow> 0 | Some e \<Rightarrow> ?b + ucast (entry_offset x e)) =
      (case map_option (\<lambda>i. entry_offset x (?e i)) f of None \<Rightarrow> 0 | Some off \<Rightarrow> ?b + ucast off)" for x f
    by (cases f) simp_all
  show ?thesis
    unfolding ramdisk_find_def Let_def magic num find_entry_spec [OF name(1) len] fnd bind_stop.simps sh eq by (rule refl)
qed

abbreviation init_name :: "u8 list" where
  "init_name \<equiv> bytes_of ''init.elf''"

lemma init_name_string: "cstring (lit init_name) 0 init_name" "length init_name < 32"
  by (simp_all add: lit_def bytes_of_def)

section \<open>How many frames a process takes\<close>

lemma new_kernel_stack_supply:
  assumes wf: "wf_forest L (mem k) R" and r: "page_table (procs k ! i) = r" "r \<in> R" and i: "i < length (procs k)"
    and enough: "3 \<le> frames_left L (mem k)"
  shows "\<exists>k'. new_kernel_stack L i k = (True, k') \<and> frames_left L (mem k) \<le> frames_left L (mem k') + 3"
proof -
  let ?f = "PTE_R OR PTE_W"
  obtain st m1 where al: "pmm_alloc_page L (mem k) = (st, m1)" by fastforce
  let ?m2 = "memset m1 st 0 4096"
  have st0: "st \<noteq> 0" using frames_left_alloc(1) [OF al] enough by auto
  have st_al: "page_aligned st" using pmm.al_page [OF al st0] frame_aligned by blast
  have fill: "same_except {st} m1 ?m2" by (rule same_except_memset [OF st_al]) simp
  note fr = fresh_frame [OF wf al st0 fill]
  have left: "frames_left L (mem k) = Suc (frames_left L ?m2)" by (rule frames_left_insert [OF fr(2,3)])
  have fw: "flag_word ?f" by (auto simp: flag_word_def bit_or_iff bit_flags)
  have "user_frame (PA_TO_PTE st OR ?f OR PTE_V) = None"
    using has_entry(5) [OF fw, of st] by (simp add: user_frame_def has_flags bit_or_iff bit_flags)
  then have ok: "leaf_ok L ?m2 R (PA_TO_PTE st OR ?f OR PTE_V)" by (simp add: leaf_ok_def)
  obtain x m3 where mp: "map_page L ?m2 r st st ?f = (x, m3)" by fastforce
  have "frames_left L ?m2 \<le> frames_left L m3 + 2" by (rule map_page_frames(1) [OF fr(1) r(2) ok mp])
  then show ?thesis using al st0 i mp r(1) left by (simp add: new_kernel_stack_def Let_def nth_list_update)
qed

lemma alloc_proc_supply:
  assumes L: "layout_ok L" and t: "table_ok L k" and n: "n < 64" "state (procs k ! n) = PROC_UNUSED"
    and enough: "73 \<le> frames_left L (mem k)"
  shows "\<exists>a k'. alloc_proc L k = Inr (Some a, k') \<and> frames_left L (mem k) \<le> frames_left L (mem k') + 73"
proof -
  have len: "length (procs k) = 64" and sp: "spaces_ok L (mem k) (procs k)" using t by (simp_all add: table_ok_def)
  note o = spaces_okD(1) [OF sp]
  obtain i where i: "find_index (\<lambda>p. state p = PROC_UNUSED) (procs k) = Some i"
    using find_index_None [of "\<lambda>p. state p = PROC_UNUSED" "procs k"] n len
    by (cases "find_index (\<lambda>p. state p = PROC_UNUSED) (procs k)") auto
  then have il: "i < length (procs k)" using find_index_Some by blast
  let ?k1 = "(upd_proc i (\<lambda>p. init_process_fds (p\<lparr>pid := next_pid k, state := PROC_READY\<rparr>)) k)\<lparr>next_pid := next_pid k + 1\<rparr>"
  obtain pt m1 where al: "pmm_alloc_page L (mem k) = (pt, m1)" by fastforce
  have "70 \<le> frames_left L (mem k)" using enough by linarith
  from new_space_supply [OF L owned_wf [OF o] al this] obtain m2 where pt0: "pt \<noteq> 0"
    and mk: "vmm_map_kernel L pt (memset m1 pt 0 4096) = Inr m2" "frames_left L (mem k) \<le> frames_left L m2 + 70" by blast
  have "new_space L (mem k) (roots (procs k)) (stacks (procs k)) pt m2"
    using new_space_mapped [OF L o al pt0] mk(1) by simp
  note wf2 = owned_wf [OF new_spaceD(1) [OF this]]
  let ?k2 = "(upd_proc i (\<lambda>p. p\<lparr>page_table := pt\<rparr>) ?k1)\<lparr>mem := m2\<rparr>"
  have npt: "new_page_table L i ?k1 = Inr (True, ?k2)"
    using al pt0 mk(1) by (simp add: new_page_table_def)
  have "3 \<le> frames_left L m2" using mk(2) enough by linarith
  then obtain k3 where k3: "new_kernel_stack L i ?k2 = (True, k3)" "frames_left L m2 \<le> frames_left L (mem k3) + 3"
    using new_kernel_stack_supply [of L ?k2 "insert pt (roots (procs k))" i pt] wf2 il by auto
  have "alloc_proc L k = Inr (Some i, k3)" using i npt k3(1) by (simp add: alloc_proc_def Let_def)
  then show ?thesis using mk(2) k3(2) by auto
qed

section \<open>Booting\<close>

text \<open>The messages \<open>kmain\<close> can stop with.\<close>

definition boot_messages :: "stop set" where
  "boot_messages = {Panic ''PANIC: Failed to allocate root page table!'', Panic ''Failed to load ELF!'',
     map_kernel_oom, elf_oom}"

lemma boot_messages_in [simp]:
  "Panic ''PANIC: Failed to allocate root page table!'' \<in> boot_messages" "Panic ''Failed to load ELF!'' \<in> boot_messages"
  "map_kernel_oom \<in> boot_messages" "elf_oom \<in> boot_messages"
  by (simp_all add: boot_messages_def)

text \<open>
  A memory a machine can boot from: its ramdisk has a well-formed \<open>init.elf\<close>, and there are frames
  for the kernel's space, the process and the program.
\<close>

definition bootable :: "layout \<Rightarrow> memory \<Rightarrow> bool" where
  "bootable L m \<longleftrightarrow> directory_in_image L m \<and>
     (\<exists>elf. ramdisk_find L m init_name = Inr elf \<and> elf \<noteq> 0 \<and> elf_ok L m elf \<and>
        143 + program_frames m elf \<le> frames_left L (init_pmm L m))"

lemma boot_memory_ok:
  assumes L: "layout_ok L"
  shows "case boot_memory L k of
      Inl z \<Rightarrow> z \<in> boot_messages \<and> frames_left L (init_pmm L (mem k)) < 70
    | Inr k' \<Rightarrow> owned L (mem k') {} {} \<and> procs k' = procs k \<and> next_pid k' = next_pid k \<and> rx k' = rx k \<and>
        same_image L (mem k) (mem k') \<and> frames_left L (init_pmm L (mem k)) \<le> frames_left L (mem k') + 70"
proof -
  let ?m = "init_pmm L (mem k)"
  have o: "owned L ?m {} {}" using wf_init [OF L] by (simp add: owned_def)
  have im: "same_image L (mem k) ?m" by (rule same_image_bitmap [OF same_except_init [OF L]])
  obtain r m1 where al: "pmm_alloc_page L ?m = (r, m1)" by fastforce
  note sup = new_space_supply [OF L owned_wf [OF o] al]
  show ?thesis
  proof (cases "r = 0")
    case True
    then have "\<not> 70 \<le> frames_left L ?m" using sup by blast
    then show ?thesis using al True by (simp add: boot_memory_def)
  next
    case False
    note ns = new_space_mapped [OF L o al False]
    show ?thesis
    proof (cases "vmm_map_kernel L r (memset m1 r 0 4096)")
      case (Inl z)
      then have "\<not> 70 \<le> frames_left L ?m" using sup by auto
      then show ?thesis using Inl ns al False by (simp add: boot_memory_def Let_def)
    next
      case (Inr m2)
      then have sp: "new_space L ?m {} {} r m2" using ns by simp
      have "owned L m2 {} {}" using owned_mono [OF new_spaceD(1) [OF sp]] by blast
      moreover have "same_image L (mem k) m2"
        using same_image_trans [OF im same_image_keeps [OF owned_wf [OF o] new_spaceD(4) [OF sp]]] .
      moreover have "frames_left L ?m \<le> frames_left L m2 + 70"
        using sup Inr by (cases "70 \<le> frames_left L ?m") auto
      ultimately show ?thesis using Inr al False by (simp add: boot_memory_def Let_def)
    qed
  qed
qed

text \<open>The table right after \<open>proc_init\<close>.\<close>

lemma proc_init_ok:
  assumes o: "owned L (mem k) {} {}" and len: "length (procs k) = 64" and ok: "\<forall>p \<in> set (procs k). process_ok p"
  shows "table_ok L (proc_init k)" "\<And>i. i < 64 \<Longrightarrow> state (procs (proc_init k) ! i) = PROC_UNUSED"
proof -
  have st: "state (procs (proc_init k) ! i) = PROC_UNUSED" if "i < 64" for i using that len by (simp add: proc_init_def)
  then show "\<And>i. i < 64 \<Longrightarrow> state (procs (proc_init k) ! i) = PROC_UNUSED" .
  have none: "live (procs (proc_init k)) = {}" using st len by (auto simp: live_def proc_init_def)
  have "spaces_ok L (mem (proc_init k)) (procs (proc_init k))"
    unfolding spaces_ok_def roots_def stacks_def none using o by (simp add: proc_init_def)
  moreover have "\<forall>p \<in> set (procs (proc_init k)). process_ok p"
    using ok by (auto simp: proc_init_def process_ok_def)
  ultimately show "table_ok L (proc_init k)" using len by (simp add: table_ok_def proc_init_def)
qed

lemma loaded_table_ok:
  assumes t: "table_ok L k" and n: "n < 64" "state (procs k ! n) \<noteq> PROC_UNUSED"
    and g: "gains L (roots (procs k)) (page_table (procs k ! n)) (mem k) (mem k')"
    and ps: "procs k' = (procs k)[n := p]" and p: "process_ok p" "state p \<noteq> PROC_UNUSED"
      "page_table p = page_table (procs k ! n)" "kernel_stack p = kernel_stack (procs k ! n)"
  shows "table_ok L k'"
proof (rule table_ok_update [OF t ps p(1)])
  have sp: "spaces_ok L (mem k) (procs k)" and len: "length (procs k) = 64" using t by (simp_all add: table_ok_def)
  have "owned L (mem k') (roots (procs k)) (stacks (procs k))" by (rule gains_owned [OF spaces_okD(1) [OF sp] g])
  then have "spaces_ok L (mem k') (procs k)" using sp by (simp add: spaces_ok_def)
  then show "spaces_ok L (mem k') (procs k')"
  proof (rule spaces_ok_cong)
    show "length (procs k') = length (procs k)" using ps by simp
    fix i assume "i < length (procs k)"
    then have nth: "procs k' ! i = (if i = n then p else procs k ! i)" using ps by simp
    show "(state (procs k' ! i) = PROC_UNUSED) = (state (procs k ! i) = PROC_UNUSED)"
      unfolding nth using n p(2) by simp
    show "page_table (procs k' ! i) = page_table (procs k ! i) \<and> kernel_stack (procs k' ! i) = kernel_stack (procs k ! i)"
      unfolding nth using p(3,4) by simp
  qed
qed

text \<open>The first process, once its program is loaded and it is made the current one.\<close>

lemma init_started:
  assumes t: "table_ok L k3" and a: "a < 64" "state (procs k3 ! a) = PROC_READY"
    and un: "\<And>i. i < 64 \<Longrightarrow> i \<noteq> a \<Longrightarrow> state (procs k3 ! i) = PROC_UNUSED"
    and fresh: "\<And>i j l. i < 512 \<Longrightarrow> j < 512 \<Longrightarrow> l < 512 \<Longrightarrow>
        user_frame (leaf_at (mem k3) (page_table (procs k3 ! a)) i j l) = None"
      "guarded (mem k3) (page_table (procs k3 ! a))"
    and im: "same_image L m (mem k3)" and run: "load_elf L a x k3 = Inr (0, k4)"
    and k': "mem k' = mem k4" "procs k' = (procs k4)[a := (procs k4 ! a)\<lparr>state := PROC_RUNNING\<rparr>]" "current k' = Some a"
      "satp k' = MAKE_SATP (page_table (procs k4 ! a))"
  shows "kernel_ok L a k'" "no_wx (mem k') (page_table (procs k' ! a))" "guarded (mem k') (page_table (procs k' ! a))"
    "pid (procs k' ! a) = pid (procs k3 ! a)" "open_files (procs k' ! a) = open_files (procs k3 ! a)"
    "\<And>i. i < 64 \<Longrightarrow> i \<noteq> a \<Longrightarrow> procs k' ! i = procs k3 ! i" "runs_program L m x (procs k' ! a) (mem k')"
    "page_table (procs k' ! a) = page_table (procs k3 ! a)" "rx k4 = rx k3"
proof -
  let ?r = "page_table (procs k3 ! a)"
  have len: "length (procs k3) = 64" and sp: "spaces_ok L (mem k3) (procs k3)" using t by (simp_all add: table_ok_def)
  have al: "a < length (procs k3)" using a len by simp
  have r: "?r \<in> roots (procs k3)" using a len by (intro spaces_okD(5) [OF sp]) (simp add: live_def)
  note wf = spaces_okD(2) [OF sp]
  obtain entry brk where l: "gains L (roots (procs k3)) ?r (mem k3) (mem k4)" "same_rest k3 k4"
    "procs k4 = (procs k3)[a := loaded_process entry (page_up brk) (procs k3 ! a)]" "user_entries ?r (mem k3) (mem k4)"
    using wf refl r al run by (cases rule: load_elf_cases [where elf = x]) auto
  let ?p = "(loaded_process entry (page_up brk) (procs k3 ! a))\<lparr>state := PROC_RUNNING\<rparr>"
  have at: "procs k4 ! a = loaded_process entry (page_up brk) (procs k3 ! a)" using l(3) al by simp
  have ps: "procs k' = (procs k3)[a := ?p]" using k'(2) l(3) al by simp
  have nth: "procs k' ! i = (if i = a then ?p else procs k3 ! i)" if "i < 64" for i using ps that len by simp
  have me: "procs k' ! a = ?p" using nth [OF a(1)] by simp
  then show pt: "page_table (procs k' ! a) = ?r" and "pid (procs k' ! a) = pid (procs k3 ! a)"
    "open_files (procs k' ! a) = open_files (procs k3 ! a)" by (simp_all add: loaded_process_def)
  show others: "procs k' ! i = procs k3 ! i" if "i < 64" "i \<noteq> a" for i using nth [OF that(1)] that(2) by simp
  have t': "table_ok L k'"
  proof (rule loaded_table_ok [OF t a(1) _ _ ps])
    show "process_ok ?p" using t al by (auto simp: table_ok_def process_ok_def loaded_process_def)
    show "gains L (roots (procs k3)) ?r (mem k3) (mem k')" using l(1) k'(1) by simp
  qed (simp_all add: a loaded_process_def)
  have "\<forall>i < 64. state (procs k' ! i) = PROC_RUNNING \<longrightarrow> i = a"
    using others un by fastforce
  then have "parked L a k'" using t' a(1) k'(3) by (simp add: parked_def)
  then show ok: "kernel_ok L a k'" using me k'(4) at by (simp add: kernel_ok_def loaded_process_def)
  show "no_wx (mem k') (page_table (procs k' ! a))"
    unfolding pt k'(1) using user_entries_no_wx [OF l(4)] no_user_no_wx [of "mem k3" ?r] fresh(1) by blast
  show "guarded (mem k') (page_table (procs k' ! a))"
    unfolding pt k'(1) using user_entries_guarded [OF l(4)] fresh(2) by blast
  show "rx k4 = rx k3" using l(2) by (simp add: same_rest_def)
  have "tf_sepc (frame ?p) = e_entry m x \<and> heap_break ?p = page_up (program_end m x)" if il: "elf_in_image L m x"
  proof -
    note same = image_same [OF il im]
    have "procs k4 = (procs k3)[a := loaded_process (e_entry m x) (page_up (program_end m x)) (procs k3 ! a)]"
      using load_elf_image(1) [OF wf refl refl r al same(8) run] same(2,4) by simp
    then have "procs k4 ! a = loaded_process (e_entry m x) (page_up (program_end m x)) (procs k3 ! a)" using al by simp
    then have "loaded_process entry (page_up brk) (procs k3 ! a) =
        loaded_process (e_entry m x) (page_up (program_end m x)) (procs k3 ! a)" using at by simp
    then show ?thesis by (simp add: loaded_process_def)
  qed
  moreover have "program_in m x ?r (mem k4)" if eok: "elf_ok L m x"
  proof -
    note same = image_same [OF _ im, of x]
    have il: "elf_in_image L m x" using eok by (simp add: elf_ok_def)
    have "program_in (mem k3) x ?r (mem k4)"
      using laid_out_program [OF gains_wf [OF l(1)] r, of "mem k3" x]
        load_elf_image(1) [OF wf refl refl r al same(8) [OF il] run] same(7) [OF il] eok fresh(1) by blast
    then show ?thesis using same(9) [OF il] by simp
  qed
  ultimately show "runs_program L m x (procs k' ! a) (mem k')"
    unfolding me runs_program_def k'(1) by (simp add: loaded_process_def)
qed

text \<open>What a null process leads to: never to user mode.\<close>

lemma null_segments_stop: "null_segments L elf phdr idx k = elf_oom \<or> null_segments L elf phdr idx k = KernelFault 0"
proof (induction L elf phdr idx k rule: null_segments.induct)
  case (1 L elf phdr idx k)
  then show ?case by (simp add: null_segments.simps [of L elf phdr idx k] Let_def)
qed

lemma load_elf_null_stop:
  "bind_stop (load_elf_null L elf k) (\<lambda>_. Inl (Panic ''Failed to load ELF!'')) = Inl z \<Longrightarrow>
     z \<in> boot_messages \<or> z = KernelFault 0"
  using null_segments_stop [of L elf "elf + e_phoff (mem k) elf" 0 k]
  by (auto simp: load_elf_null_def split: if_splits)

text \<open>
  Every way through \<open>kmain\<close>. Without \<open>init.elf\<close>, or with too little memory, it stops; a kernel
  fault (a null \<open>proc_A\<close>) needs that the very first process got no memory.
\<close>

lemma kmain_cases:
  assumes L: "layout_ok L"
  shows "case kmain L now (power_on m) of
      Inl z \<Rightarrow> (z \<in> boot_messages \<or> z = KernelFault 0 \<and> frames_left L (init_pmm L m) < 143) \<and> \<not> bootable L m
    | Inr (q, k') \<Rightarrow> \<exists>a. q = ProcFrame a \<and> kernel_ok L a k' \<and> pid (procs k' ! a) = 1 \<and>
        no_wx (mem k') (page_table (procs k' ! a)) \<and> guarded (mem k') (page_table (procs k' ! a)) \<and>
        open_files (procs k' ! a) = open_files (init_process_fds empty_process) \<and> rx k' = uart_reset \<and>
        (\<forall>i < 64. i \<noteq> a \<longrightarrow> state (procs k' ! i) = PROC_UNUSED) \<and> same_image L m (mem k') \<and>
        (directory_in_image L m \<longrightarrow>
           (\<exists>elf. ramdisk_find L m init_name = Inr elf \<and> elf \<noteq> 0 \<and> runs_program L m elf (procs k' ! a) (mem k') \<and>
              (bootable L m \<longrightarrow> stack_in (page_table (procs k' ! a)) (mem k') \<and>
                 frames_left L (init_pmm L m) \<le> frames_left L (mem k') + 143 + program_frames m elf)))"
proof (cases "boot_memory L (power_on m)")
  case (Inl z)
  have "\<not> bootable L m" if "frames_left L (init_pmm L m) < 70" using that by (auto simp: bootable_def)
  then show ?thesis using Inl boot_memory_ok [OF L, of "power_on m"] by (auto simp: kmain_def power_on_def)
next
  case (Inr k1)
  let ?F = "frames_left L (init_pmm L m)"
  have k1: "owned L (mem k1) {} {}" "procs k1 = replicate 64 empty_process" "next_pid k1 = 1" "rx k1 = uart_reset"
    "same_image L m (mem k1)" "?F \<le> frames_left L (mem k1) + 70"
    using Inr boot_memory_ok [OF L, of "power_on m"] by (simp_all add: power_on_def)
  let ?k2 = "proc_init (say nl (say ''Initializing Process Subsystem...'' k1))"
  have "table_ok L ?k2" and unused: "\<And>i. i < 64 \<Longrightarrow> state (procs ?k2 ! i) = PROC_UNUSED"
    by (rule proc_init_ok; use k1 in \<open>simp add: process_ok_def empty_process_def\<close>)+
  note t2 = this(1)
  have m2: "mem ?k2 = mem k1" by (simp add: proc_init_def)
  have sup: "\<exists>a k'. alloc_proc L ?k2 = Inr (Some a, k') \<and> ?F \<le> frames_left L (mem k') + 143" if "143 \<le> ?F"
  proof -
    have "73 \<le> frames_left L (mem ?k2)" using that k1(6) m2 by simp
    from alloc_proc_supply [OF L t2 zero_less_numeral unused [OF zero_less_numeral] this] show ?thesis
      using k1(6) m2 by fastforce
  qed
  have large: "143 \<le> ?F" if "bootable L m" using that by (auto simp: bootable_def)
  show ?thesis using L t2
  proof (cases rule: alloc_proc_cases)
    case stop
    then have "\<not> 143 \<le> ?F" using sup by auto
    then show ?thesis using Inr stop large by (auto simp: kmain_def Let_def)
  next
    case (none k3)
    then have few: "\<not> 143 \<le> ?F" using sup by auto
    obtain x where x: "ramdisk_find L (mem k3) init_name = Inr x" using ramdisk_find_returns [OF init_name_string] by blast
    have km: "kmain L now (power_on m) = (if x = 0 then Inl (Panic ''Failed to load ELF!'')
        else bind_stop (load_elf_null L x k3) (\<lambda>_. Inl (Panic ''Failed to load ELF!'')))"
      using Inr none(1) x by (simp add: kmain_def Let_def)
    have "\<exists>z. kmain L now (power_on m) = Inl z \<and> (z \<in> boot_messages \<or> z = KernelFault 0)"
    proof (cases "x = 0")
      case False
      obtain z where z: "bind_stop (load_elf_null L x k3) (\<lambda>_. Inl (Panic ''Failed to load ELF!'')) =
          (Inl z :: stop + tf_ptr \<times> kernel)"
        by (cases "load_elf_null L x k3") simp_all
      have "kmain L now (power_on m) = Inl z" unfolding km if_not_P [OF False] by (rule z)
      then show ?thesis by (intro exI [of _ z] conjI load_elf_null_stop [OF z])
    qed (simp add: km)
    then obtain z where "kmain L now (power_on m) = Inl z" "z \<in> boot_messages \<or> z = KernelFault 0" by (elim exE conjE)
    moreover have "\<not> bootable L m" "?F < 143" using few large by auto
    ultimately show ?thesis by simp
  next
    case (proc a k3)
    note f = proc(2) [unfolded fresh_process_def Let_def]
    have len2: "length (procs ?k2) = 64" using t2 by (simp add: table_ok_def)
    have ps3: "procs k3 = (procs ?k2)[a := procs k3 ! a]" and a: "a < 64" using f by blast+
    have len3: "length (procs k3) = 64" using ps3 len2 by (metis length_list_update)
    have st3: "state (procs k3 ! a) = PROC_READY" and pid3: "pid (procs k3 ! a) = 1" using f k1(3) by (simp_all add: proc_init_def)
    have un3: "state (procs k3 ! i) = PROC_UNUSED" if "i < 64" "i \<noteq> a" for i
      using ps3 unused [OF that(1)] that(2) nth_list_update_neq by metis
    let ?r = "page_table (procs k3 ! a)"
    have sp3: "spaces_ok L (mem k3) (procs k3)" using proc(3) by (simp add: table_ok_def)
    have r3: "?r \<in> roots (procs k3)" using a st3 len3 by (intro spaces_okD(5) [OF sp3]) (simp add: live_def)
    have len3': "a < length (procs k3)" using a len3 by simp
    have "keeps L (mem k1) (mem k3)" using f m2 by simp
    then have im3: "same_image L m (mem k3)"
      using same_image_trans [OF k1(5) same_image_keeps [OF owned_wf [OF k1(1)]]] by blast
    have left3: "?F \<le> frames_left L (mem k3) + 143" if "143 \<le> ?F" using sup [OF that] proc(1) by simp
    obtain x where x: "ramdisk_find L (mem k3) init_name = Inr x" using ramdisk_find_returns [OF init_name_string] by blast
    have xm: "ramdisk_find L m init_name = Inr x" if "directory_in_image L m"
      using ramdisk_find_image [OF that im3 init_name_string] x by simp
    have km: "kmain L now (power_on m) = (if x = 0 then Inl (Panic ''Failed to load ELF!'') else
        bind_stop (load_elf L a x k3) (\<lambda>(r, k4). if r \<noteq> 0 then Inl (Panic ''Failed to load ELF!'')
           else (let k5 = (upd_proc a (\<lambda>p. p\<lparr>state := PROC_RUNNING\<rparr>) k4)\<lparr>current := Some a\<rparr>;
                     k6 = say nl (say ''Timer interrupt armed for 10ms in the future!''
                            (k5\<lparr>timer := now + 100000\<rparr>));
                     k7 = say nl (say ''Jumping to isolated user space at 0x400000...'' k6)
                 in Inr (ProcFrame a, k7\<lparr>satp := MAKE_SATP (page_table (procs k7 ! a))\<rparr>))))"
      using Inr proc(1) x by (simp add: kmain_def Let_def)
    have loads: "\<exists>k4. load_elf L a x k3 = Inr (0, k4) \<and> stack_laid ?r (mem k4) \<and>
        ?F \<le> frames_left L (mem k4) + 143 + program_frames m x" if boot: "bootable L m"
    proof -
      have eok: "elf_ok L m x" "143 + program_frames m x \<le> ?F" using boot xm by (auto simp: bootable_def)
      then have il: "elf_in_image L m x" by (simp add: elf_ok_def)
      note same = image_same [OF il im3]
      have "program_frames (mem k3) x \<le> frames_left L (mem k3)" using eok(2) left3 same(3) by linarith
      then show ?thesis
        using load_elf_image(2) [OF spaces_okD(2) [OF sp3] refl refl r3 len3' same(8)] eok(1) same(3,7) left3 [OF large [OF boot]]
        by fastforce
    qed
    have x0: "x \<noteq> 0" if "bootable L m" using that xm by (auto simp: bootable_def)
    show ?thesis
    proof (cases "x = 0")
      case True
      then show ?thesis using km x0 by auto
    next
      case x: False
      show ?thesis using spaces_okD(2) [OF sp3] refl r3 len3'
      proof (cases rule: load_elf_cases [where elf = x])
        case stop
        then show ?thesis using km x loads by auto
      next
        case (fail k4 f)
        then show ?thesis using km x loads by auto
      next
        case (ok k4 entry brk)
        have len4: "a < length (procs k4)" using ok(5) len3' by simp
        obtain k' where run: "kmain L now (power_on m) = Inr (ProcFrame a, k')"
          and k': "mem k' = mem k4" "procs k' = (procs k4)[a := (procs k4 ! a)\<lparr>state := PROC_RUNNING\<rparr>]"
            "current k' = Some a" "satp k' = MAKE_SATP (page_table (procs k4 ! a))" and rx': "rx k' = rx k4"
          using km x ok(1) len4 by (simp add: Let_def)
        note i = init_started [OF proc(3) a st3 un3 _ _ im3 ok(1) k']
        have fresh: "\<And>i j l. i < 512 \<Longrightarrow> j < 512 \<Longrightarrow> l < 512 \<Longrightarrow> user_frame (leaf_at (mem k3) ?r i j l) = None"
          "guarded (mem k3) ?r" using f by blast+
        note i = i [OF _ _ fresh]
        have "rx k' = uart_reset" using rx' i(9) f k1(4) by (simp add: same_rest_def proc_init_def)
        moreover have "open_files (procs k3 ! a) = open_files (init_process_fds empty_process)" using f by blast
        moreover have "same_image L m (mem k')"
          using same_image_trans [OF im3 same_image_gains [OF spaces_okD(2) [OF sp3] r3 ok(2)]] k'(1) by simp
        moreover have "state (procs k' ! j) = PROC_UNUSED" if "j < 64" "j \<noteq> a" for j
          using k'(2) ok(5) un3 [OF that] that by simp
        moreover have "stack_in (page_table (procs k' ! a)) (mem k') \<and>
            ?F \<le> frames_left L (mem k') + 143 + program_frames m x" if "bootable L m"
          using loads [OF that] ok(1) k'(1) i(8) stack_laid_in [OF gains_wf [OF ok(2)] r3] by simp
        then have "directory_in_image L m \<longrightarrow>
            (\<exists>elf. ramdisk_find L m init_name = Inr elf \<and> elf \<noteq> 0 \<and> runs_program L m elf (procs k' ! a) (mem k') \<and>
              (bootable L m \<longrightarrow> stack_in (page_table (procs k' ! a)) (mem k') \<and>
                 ?F \<le> frames_left L (mem k') + 143 + program_frames m elf))"
          using xm x i(7) by blast
        moreover note this
        ultimately show ?thesis unfolding run sum.case prod.case
          using i(1-5) pid3 by (intro exI [of _ a] conjI) simp_all
      qed
    qed
  qed
qed

end
