(* ===== verification/System.thy ===== *)
theory System
  imports Process_Inv Boot_Spec
begin

text \<open>
  The machine as a transition system: once booted (\<open>Boot_Spec\<close>), the current process computes
  in user mode (it may set its registers and write its own user pages) and traps into the
  kernel, over and over. The invariant holds from the first switch to user mode on.
\<close>

section \<open>Running\<close>

text \<open>
  From a state whose current process is about to run in user mode: the process computes (it
  leaves any registers in its trap frame and any bytes in its own user frames), or traps into
  the kernel; \<open>t\<close> counts the traps. Device input is chosen freely at every trap.
\<close>

inductive runs_in :: "layout \<Rightarrow> nat \<Rightarrow> kernel \<Rightarrow> nat \<Rightarrow> nat \<Rightarrow> kernel \<Rightarrow> bool" for L c0 k0 where
  start: "runs_in L c0 k0 0 c0 k0"
| user: "runs_in L c0 k0 t c k \<Longrightarrow>
    same_except (user_frames (mem k) (page_table (procs k ! c))) (mem k) m \<Longrightarrow>
    runs_in L c0 k0 t c (upd_frame (ProcFrame c) (\<lambda>_. f) (k\<lparr>mem := m\<rparr>))"
| trap: "runs_in L c0 k0 t c k \<Longrightarrow> \<not> from_supervisor (frame (procs k ! c)) \<Longrightarrow>
    trap_handler L inp (ProcFrame c) k = Inr (ProcFrame n, k') \<Longrightarrow> runs_in L c0 k0 (Suc t) n k'"

definition runs :: "layout \<Rightarrow> nat \<Rightarrow> kernel \<Rightarrow> nat \<Rightarrow> kernel \<Rightarrow> bool" where
  "runs L c0 k0 c k \<longleftrightarrow> (\<exists>t. runs_in L c0 k0 t c k)"

lemma runs_trap_start:
  assumes "\<not> from_supervisor (frame (procs k ! c))" "trap_handler L inp (ProcFrame c) k = Inr (ProcFrame n, k')"
  shows "runs_in L c k 1 n k'" "runs L c k n k'"
  using runs_in.trap [OF runs_in.start assms] by (auto simp: runs_def)

text \<open>The invariant of the whole system: the kernel's own, and only user pages below it.\<close>

definition system_ok :: "layout \<Rightarrow> nat \<Rightarrow> kernel \<Rightarrow> bool" where
  "system_ok L c k \<longleftrightarrow> kernel_ok L c k \<and> all_guarded k"

lemma system_okD:
  assumes "system_ok L c k"
  shows "kernel_ok L c k" "all_guarded k" "layout_ok L \<Longrightarrow> running_ok L c k"
  using assms everywhereD [of _ k c] kernel_okD(8) by (auto simp: system_ok_def)

lemma user_step_ok:
  assumes ok: "kernel_ok L c k" and se: "same_except (user_frames (mem k) (page_table (procs k ! c))) (mem k) m"
  shows "kernel_ok L c (upd_frame (ProcFrame c) f (k\<lparr>mem := m\<rparr>))"
proof -
  note o = spaces_okD(1) [OF kernel_okD(6) [OF ok]]
  have "owned L m (roots (procs k)) (stacks (procs k))"
    by (rule user_writes(1) [OF o current_root [OF ok] se]) (simp add: user_frames_def)
  then have "kernel_ok L c (k\<lparr>mem := m\<rparr>)" by (intro kernel_ok_owned [OF ok]) simp_all
  then show ?thesis by (rule kernel_ok_frame)
qed

lemma system_ok_user:
  assumes "system_ok L c k" "same_except (user_frames (mem k) (page_table (procs k ! c))) (mem k) m"
  shows "system_ok L c (upd_frame (ProcFrame c) f (k\<lparr>mem := m\<rparr>))"
  using user_step_ok guard.user_step system_okD [OF assms(1)] assms(2) unfolding system_ok_def by blast

lemma system_ok_trap:
  assumes "layout_ok L" "system_ok L c k" "\<not> from_supervisor (frame (procs k ! c))"
    and "trap_handler L inp (ProcFrame c) k = Inr (q, k')"
  shows "\<exists>n. q = ProcFrame n \<and> system_ok L n k'"
proof -
  note s = system_okD [OF assms(2)]
  have "trap_ok L c k (Inr (q, k'))" using safe.trap [of L c k inp] assms s(3) by simp
  moreover have "all_guarded k'" by (rule guard.trap_step [OF s(3) [OF assms(1)] s(2) assms(3,4)])
  ultimately show ?thesis by (auto simp: trap_ok_def system_ok_def)
qed

text \<open>
  What else holds in every state a run reaches: \<open>I t c k\<close>, after \<open>t\<close> traps, need only survive one
  step of the program and one trap.
\<close>

locale system_invariant =
  fixes L :: layout
    and I :: "nat \<Rightarrow> nat \<Rightarrow> kernel \<Rightarrow> bool"
  assumes on_user: "system_ok L c k \<Longrightarrow> I t c k \<Longrightarrow>
      same_except (user_frames (mem k) (page_table (procs k ! c))) (mem k) m \<Longrightarrow>
      I t c (upd_frame (ProcFrame c) (\<lambda>_. f) (k\<lparr>mem := m\<rparr>))"
    and on_trap: "layout_ok L \<Longrightarrow> system_ok L c k \<Longrightarrow> I t c k \<Longrightarrow> \<not> from_supervisor (frame (procs k ! c)) \<Longrightarrow>
      trap_handler L inp (ProcFrame c) k = Inr (ProcFrame n, k') \<Longrightarrow> I (Suc t) n k'"
begin

lemma along:
  assumes L: "layout_ok L" and ok: "system_ok L c0 k0" and i: "I 0 c0 k0" and run: "runs_in L c0 k0 t c k"
  shows "system_ok L c k \<and> I t c k"
  using run
proof (induction rule: runs_in.induct)
  case start
  show ?case using ok i by simp
next
  case (user t c k m f)
  then show ?case using system_ok_user on_user by blast
next
  case (trap t c k inp n k')
  then show ?case using system_ok_trap [OF L _ trap.hyps(2,3)] on_trap [OF L _ _ trap.hyps(2,3)] by blast
qed

end

text \<open>Every invariant of processes is one.\<close>

sublocale process_invariant \<subseteq> run: system_invariant L "\<lambda>t c k. everywhere P k"
  by unfold_locales (use user_step trap_step system_okD in blast)+

text \<open>So is the kernel image, which nothing ever changes.\<close>

interpretation image: system_invariant L "\<lambda>t c k. same_image L m0 (mem k)" for L m0
proof
  fix c k m f
  assume ok: "system_ok L c k" and i: "same_image L m0 (mem k)"
    and se: "same_except (user_frames (mem k) (page_table (procs k ! c))) (mem k) m"
  note k = system_okD(1) [OF ok]
  have "same_image L (mem k) m"
    by (rule same_image_user [OF spaces_okD(2) [OF kernel_okD(6) [OF k]] current_root [OF k] se])
      (auto simp: user_frames_def)
  then show "same_image L m0 (mem (upd_frame (ProcFrame c) (\<lambda>_. f) (k\<lparr>mem := m\<rparr>)))"
    using same_image_trans [OF i] by simp
next
  fix c k inp n k'
  assume L: "layout_ok L" and ok: "system_ok L c k" and i: "same_image L m0 (mem k)"
    and u: "\<not> from_supervisor (frame (procs k ! c))" and run: "trap_handler L inp (ProcFrame c) k = Inr (ProcFrame n, k')"
  have "effects L c k (Inr (ProcFrame n, k'))"
    unfolding run [symmetric] by (rule refines.trap [OF system_okD(3) [OF ok L] u])
  then have "same_image L (mem k) (mem k')" using effect_image by simp
  then show "same_image L m0 (mem k')" by (rule same_image_trans [OF i])
qed

section \<open>Properties\<close>

text \<open>The sample process asks for memory.\<close>

lemma calling_live: "live (procs (calling num x y z)) = {0}"
proof -
  have "state empty_process = PROC_UNUSED" by (simp add: empty_process_def)
  then show ?thesis
    by (auto simp: live_def calling_def sample_machine_def sample_process_def nth_list_update split: if_splits)
qed

lemma calling_system: "system_ok sample_layout 0 (calling num x y z)"
  using calling_ok calling_guarded by (simp add: system_ok_def everywhere_def calling_live)

text \<open>
  C1: the kernel invariant is an invariant. Whatever trap a user process takes (any system
  call with any arguments, any fault, a timer or device interrupt, with any input from the
  devices), if the handler returns, it resumes some process \<open>n\<close> of the table, and again every
  process in use has an address space and a kernel stack that share no frame with any other,
  all of them allocated and below the kernel's own pages mapped for the user only, exactly \<open>n\<close>
  is running, and its page table is the installed one.
\<close>
theorem trap_keeps_kernel:
  assumes "layout_ok L" "system_ok L c k" "\<not> from_supervisor (frame (procs k ! c))"
    and "trap_handler L inp (ProcFrame c) k = Inr (q, k')"
  shows "\<exists>n. q = ProcFrame n \<and> system_ok L n k'"
  by (rule system_ok_trap [OF assms])

lemma trap_keeps_kernel_witness:
  "\<forall>inp. \<exists>k' n. trap_handler sample_layout inp (ProcFrame 0) (calling 6 4096 0 0) = Inr (ProcFrame n, k') \<and>
     system_ok sample_layout n k'"
proof
  fix inp
  obtain k' where "trap_handler sample_layout inp (ProcFrame 0) (calling 6 4096 0 0) = Inr (ProcFrame 0, k')"
    using calling_sbrk by blast
  with trap_keeps_kernel [OF sample_layout_ok calling_system calling_user this]
  show "\<exists>k' n. trap_handler sample_layout inp (ProcFrame 0) (calling 6 4096 0 0) = Inr (ProcFrame n, k') \<and>
     system_ok sample_layout n k'" by auto
qed

text \<open>
  C3: the system as a whole is safe. From a well-formed state, however often and in whatever
  order user programs compute and trap, the system stays well formed, the process that runs is
  the one whose address space is installed, and not a byte of the kernel image (its code, its
  constants, the ramdisk) changes.
\<close>
theorem system_stays_ok:
  assumes "layout_ok L" "system_ok L c0 k0" "runs L c0 k0 c k"
  shows "system_ok L c k \<and> satp k = MAKE_SATP (page_table (procs k ! c)) \<and> same_image L (mem k0) (mem k)"
proof -
  obtain t where "runs_in L c0 k0 t c k" using assms(3) by (auto simp: runs_def)
  from image.along [OF assms(1,2) same_image_refl this]
  show ?thesis using kernel_okD(5) system_okD(1) by blast
qed

lemma system_stays_ok_witness:
  "\<exists>k. runs sample_layout 0 (calling 6 4096 0 0) 0 k \<and> system_ok sample_layout 0 k"
proof -
  obtain k' where "trap_handler sample_layout inp (ProcFrame 0) (calling 6 4096 0 0) = Inr (ProcFrame 0, k')"
    using calling_sbrk by blast
  from runs_trap_start(2) [OF calling_user this] have "runs sample_layout 0 (calling 6 4096 0 0) 0 k'" .
  with system_stays_ok [OF sample_layout_ok calling_system this] show ?thesis by blast
qed

end
