(* ===== verification/Launch.thy ===== *)
theory Launch
  imports System
begin

text \<open>
  Starting programs: \<open>exec\<close> and boot run the file they are told to, with a ramdisk of one file on
  which both are carried out.
\<close>

section \<open>The file that \<open>exec\<close> is asked for\<close>

text \<open>
  The name in \<open>a0\<close> is a string the process may read, the ramdisk has an entry of that name, and
  \<open>elf\<close> is where the first such file lies.
\<close>

definition exec_file :: "layout \<Rightarrow> nat \<Rightarrow> kernel \<Rightarrow> u64 \<Rightarrow> bool" where
  "exec_file L c k elf \<longleftrightarrow>
     (let p = procs k ! c; name = tf_a0 (frame p)
      in user_str_ok (mem k) (satp k) (page_table p) name 256 = Inr True \<and>
         (\<exists>e. ramdisk_get_entry L (mem k) (user_load (mem k) (satp k)) name = Inr e \<and> e \<noteq> 0 \<and>
            elf = ramdisk_start L + ucast (entry_offset (mem k) e)))"

definition exec_messages :: "stop set" where
  "exec_messages = {exec_oom, exec_failed, map_kernel_oom, elf_oom}"

text \<open>The program can be trusted, and there are frames for the address space and the program.\<close>

definition startable :: "layout \<Rightarrow> memory \<Rightarrow> u64 \<Rightarrow> bool" where
  "startable L m elf \<longleftrightarrow> elf_ok L m elf \<and> 70 + program_frames m elf \<le> frames_left L m"

lemma exec_image_file:
  assumes L: "layout_ok L" and ok: "kernel_ok L c k"
  shows "case exec_image L (ProcFrame c) c elf k of
      Inl z \<Rightarrow> z \<in> exec_messages \<and> \<not> startable L (mem k) elf
    | Inr (q, k') \<Rightarrow> q = ProcFrame c \<and> execed L c elf k k' \<and>
        (startable L (mem k) elf \<longrightarrow> stack_in (page_table (procs k' ! c)) (mem k'))"
  using assms
proof (cases rule: exec_image_cases [where tf = "ProcFrame c" and elf = elf])
  case (stop z)
  then show ?thesis
    using exec_image_starts [OF assms, of elf "ProcFrame c"] by (auto simp: startable_def exec_messages_def)
next
  case (execed k')
  then show ?thesis by (simp add: startable_def)
qed

section \<open>Properties\<close>

text \<open>
  C13: \<open>exec\<close> runs the named file or changes nothing. A name that is not a readable string gives
  \<open>E_FAULT\<close>, one that the ramdisk does not have \<open>E_NOENT\<close>, and then nothing but \<open>a0\<close> changes. Otherwise
  the caller runs the file found (\<open>execed\<close>): \<open>sepc\<close> is the entry point in the file's header and the
  heap starts behind its last segment, for a well-formed file the new address space holds the
  bytes of its segments, with their permissions, and no other user page but the stack; the new
  root table is installed in \<open>satp\<close>, pid, parent, files and kernel stack are kept, every frame of
  the old space is free, and neither the kernel image nor any other process changed. If the
  kernel hangs instead, with one of its messages, the file is not well formed or memory is
  short: a well-formed file always starts when 70 frames and those of the program are free. The
  only other way not to return is a fault while the name is read (C39 says when it is not).
\<close>
theorem exec_replaces_program:
  assumes "layout_ok L" "kernel_ok L c k"
  shows "case sys_exec L (ProcFrame c) k of
      Inl z \<Rightarrow>
       (let p = procs k ! c; name = tf_a0 (frame p);
            okay = user_str_ok (mem k) (satp k) (page_table p) name 256
        in okay = Inl z \<or>
           okay = Inr True \<and> ramdisk_get_entry L (mem k) (user_load (mem k) (satp k)) name = Inl z \<or>
           (\<exists>elf. exec_file L c k elf \<and> z \<in> exec_messages \<and> \<not> startable L (mem k) elf))
    | Inr (q, k') \<Rightarrow> q = ProcFrame c \<and>
       (let p = procs k ! c; name = tf_a0 (frame p);
            okay = user_str_ok (mem k) (satp k) (page_table p) name 256;
            answer = (\<lambda>e. upd_frame (ProcFrame c) (\<lambda>f. f\<lparr>tf_a0 := e\<rparr>) k)
        in okay = Inr False \<and> k' = answer E_FAULT \<or>
           okay = Inr True \<and> ramdisk_get_entry L (mem k) (user_load (mem k) (satp k)) name = Inr 0 \<and> k' = answer E_NOENT \<or>
           (\<exists>elf. exec_file L c k elf \<and> execed L c elf k k' \<and>
              (startable L (mem k) elf \<longrightarrow> stack_in (page_table (procs k' ! c)) (mem k'))))"
proof -
  note o = kernel_okD [OF assms(2)]
  let ?p = "procs k ! c"
  let ?okay = "user_str_ok (mem k) (satp k) (page_table ?p) (tf_a0 (frame ?p)) 256"
  let ?found = "ramdisk_get_entry L (mem k) (user_load (mem k) (satp k)) (tf_a0 (frame ?p))"
  show ?thesis
  proof (cases "\<exists>e. ?okay = Inr True \<and> ?found = Inr e \<and> e \<noteq> 0")
    case True
    then obtain e where e: "?okay = Inr True" "?found = Inr e" "e \<noteq> 0" by blast
    let ?elf = "ramdisk_start L + ucast (entry_offset (mem k) e)"
    have run: "sys_exec L (ProcFrame c) k = exec_image L (ProcFrame c) c ?elf k"
      using e by (simp add: sys_exec_eq [OF o(3)])
    have f: "exec_file L c k elf \<longleftrightarrow> elf = ?elf" for elf using e by (auto simp: exec_file_def Let_def)
    show ?thesis using exec_image_file [OF assms, of ?elf] f unfolding run Let_def
      by (cases "exec_image L (ProcFrame c) c ?elf k") (auto simp: e)
  next
    case False
    then have none: "\<not> exec_file L c k elf" for elf by (auto simp: exec_file_def Let_def)
    show ?thesis using False none unfolding sys_exec_eq [OF o(3)] Let_def ret_def
      by (cases ?okay; cases ?found) auto
  qed
qed

text \<open>
  C15: booting runs \<open>init.elf\<close>. From any memory, \<open>kmain\<close> either stops with one of its messages
  (or faults on the null process, for which memory must have run out before the first process
  was made), and then the memory is not \<open>bootable\<close>: the ramdisk has no well-formed \<open>init.elf\<close>, or
  there are fewer free frames than 143 and those of the program. Or it switches to user mode
  with one process in the table, of pid 1 and running in its own address space, from where the
  invariant of the system (\<open>system_ok\<close>) holds; the kernel image is as it was loaded, and the process
  runs the file named \<open>init.elf\<close> (\<open>runs_program\<close>): it starts at the entry point of the file with the
  heap behind its segments, and finds the bytes of a well-formed file, with their permissions,
  and no other page but its stack.
\<close>
theorem kmain_boots:
  assumes "layout_ok L"
  shows "case kmain L now (power_on m) of
      Inl z \<Rightarrow> (z \<in> boot_messages \<or> z = KernelFault 0 \<and> frames_left L (init_pmm L m) < 143) \<and> \<not> bootable L m
    | Inr (q, k) \<Rightarrow> \<exists>a. q = ProcFrame a \<and> system_ok L a k \<and> pid (procs k ! a) = 1 \<and>
        no_wx (mem k) (page_table (procs k ! a)) \<and>
        (\<forall>i < 64. i \<noteq> a \<longrightarrow> state (procs k ! i) = PROC_UNUSED) \<and> same_image L m (mem k) \<and>
        (directory_in_image L m \<longrightarrow>
           (\<exists>elf. ramdisk_find L m (bytes_of ''init.elf'') = Inr elf \<and> elf \<noteq> 0 \<and>
              runs_program L m elf (procs k ! a) (mem k) \<and>
              (bootable L m \<longrightarrow> stack_in (page_table (procs k ! a)) (mem k))))"
proof (cases "kmain L now (power_on m)")
  case (Inl z)
  then show ?thesis using kmain_cases [OF assms, of m now] by simp
next
  case (Inr x)
  obtain q k where x: "x = (q, k)" by (cases x)
  have "all_guarded k" if "guarded (mem k) (page_table (procs k ! a))" "kernel_ok L a k"
    "\<forall>i < 64. i \<noteq> a \<longrightarrow> state (procs k ! i) = PROC_UNUSED" for a
    using that kernel_okD(1) [OF that(2)] by (auto simp: everywhere_def live_def)
  then show ?thesis using kmain_cases [OF assms, of m now] unfolding Inr x system_ok_def sum.case prod.case by blast
qed

section \<open>A machine that boots\<close>

text \<open>
  The ramdisk of the sample layout with one file: \<open>init.elf\<close> at \<open>0x80208030\<close>, an ELF image of one
  segment at \<open>0x1000\<close>, readable and executable, that consists of the string \<open>"init.elf"\<close>. The bytes
  that are not 0 are listed by their offset in the ramdisk.
\<close>

definition disk_bytes :: "(u64 \<times> u8) list" where
  "disk_bytes =
     [(0, 0x55), (1, 0x5A), (2, 0x41), (3, 0x4C), (4, 1),
      (8, 105), (9, 110), (10, 105), (11, 116), (12, 46), (13, 101), (14, 108), (15, 102), (40, 48), (44, 129),
      (48, 0x7F), (49, 0x45), (50, 0x4C), (51, 0x46), (73, 0x10), (80, 64), (104, 1),
      (112, 1), (116, 5), (120, 120), (129, 0x10), (144, 9), (152, 9),
      (168, 105), (169, 110), (170, 105), (171, 116), (172, 46), (173, 101), (174, 108), (175, 102)]"

definition disk_image :: memory where
  "disk_image a = (case map_of disk_bytes (a - 0x80208000) of None \<Rightarrow> 0 | Some b \<Rightarrow> b)"

abbreviation disk_elf :: u64 where "disk_elf \<equiv> 0x80208030"

lemma disk_in_image: "j < 4096 \<Longrightarrow> in_image sample_layout (0x80208000 + of_nat j)"
proof -
  assume j: "j < 4096"
  have "page_base (0x80208000 + of_nat j) = (0x80208000 :: u64)"
    by (rule page_base_add [OF _ j]) (simp add: page_aligned_def)
  then show ?thesis using sample_wf(4) by (simp add: in_image_def ram_frames_iff page_aligned_def)
qed

lemma load_le_2: "load_le m a 2 = ucast (m a) OR push_bit 8 (ucast (m (a + 1)))"
  by (simp add: eval_nat_numeral)

lemma disk_fields:
  "load32 disk_image 0x80208000 = RAMDISK_MAGIC" "load32 disk_image 0x80208004 = 1"
  "entry_offset disk_image 0x80208008 = 48"
  "load32 disk_image disk_elf = ELF_NUM" "e_entry disk_image disk_elf = 0x1000" "e_phoff disk_image disk_elf = 64"
  "e_phnum disk_image disk_elf = 1"
  by (simp_all add: entry_offset_def e_entry_def e_phoff_def e_phnum_def load_le_2 load_le_4 load_le_8 disk_image_def disk_bytes_def)

lemma disk_header:
  "p_type disk_image 0x80208070 = 1" "p_flags disk_image 0x80208070 = 5" "p_offset disk_image 0x80208070 = 120"
  "p_vaddr disk_image 0x80208070 = 0x1000" "p_filesz disk_image 0x80208070 = 9" "p_memsz disk_image 0x80208070 = 9"
  by (simp_all add: p_type_def p_flags_def p_offset_def p_vaddr_def p_filesz_def p_memsz_def
      load_le_4 load_le_8 disk_image_def disk_bytes_def)

lemma disk_headers: "load_headers disk_image disk_elf = [0x80208070]"
  by (simp add: load_headers_def headers_upto_def program_header_def disk_fields disk_header)

lemma disk_frames_left: "256 \<le> frames_left sample_layout (init_pmm sample_layout m)"
proof -
  let ?F = "pmm_translator ` {1000..<1256}"
  have u: "unat (pmm_translator i) = 0x80000000 + 4096 * i" if "i < 1256" for i
    using unat_pmm_translator that by simp
  have inj: "inj_on pmm_translator {1000..<1256}"
  proof (rule inj_onI)
    fix i j assume i: "i \<in> {1000..<1256}" "j \<in> {1000..<1256 :: nat}" and "pmm_translator i = pmm_translator j"
    then have "unat (pmm_translator i) = unat (pmm_translator j)" by simp
    then show "i = j" using u [of i] u [of j] i by simp
  qed
  have "?F \<subseteq> ram_frames - used sample_layout (init_pmm sample_layout m)"
  proof
    fix p assume "p \<in> ?F"
    then obtain i where i: "1000 \<le> i" "i < 1256" "p = pmm_translator i" by auto
    then have "\<not> p \<le> 0x80216000" using u [of i] by (simp add: word_le_nat_alt)
    moreover have "p \<in> ram_frames" using i by (auto simp: ram_frames_def)
    ultimately show "p \<in> ram_frames - used sample_layout (init_pmm sample_layout m)"
      using used_init_pmm [OF sample_layout_ok] sample_wf(4) by auto
  qed
  then have "card ?F \<le> frames_left sample_layout (init_pmm sample_layout m)" unfolding frames_left_def by (intro card_mono) simp_all
  then show ?thesis by (simp add: card_image [OF inj])
qed

lemma disk_pages: "pages_in 0 9 = {0 :: u64}" "segment_pages disk_image 0x80208070 = {0x1000}"
proof -
  have "p = 0" if "p \<in> pages_in 0 9" for p :: u64
  proof -
    have "4096 dvd unat p" "unat p < 9" using that by (simp_all add: pages_in_def page_aligned_unat word_less_nat_alt)
    then have "unat p = 0" using dvd_imp_le [of 4096 "unat p"] by linarith
    then show ?thesis by (simp add: unat_eq_zero)
  qed
  then show "pages_in 0 9 = {0 :: u64}" by (auto simp: pages_in_def)
  then show "segment_pages disk_image 0x80208070 = {0x1000}" by (simp add: segment_pages_def disk_header)
qed

lemma disk_elf_ok: "elf_ok sample_layout disk_image disk_elf"
proof -
  have at: "in_image sample_layout (disk_elf + d + of_nat j)" if "unat d + j < 2048" for d j
  proof -
    have "disk_elf + d + of_nat j = 0x80208000 + of_nat (48 + (unat d + j))" by (simp add: add.assoc)
    then show ?thesis using disk_in_image [of "48 + (unat d + j)"] that by (simp add: add.assoc)
  qed
  have "elf_in_image sample_layout disk_image disk_elf"
    using at [of 0] at [of 64] at [of 120]
    by (simp add: elf_in_image_def disk_headers disk_fields disk_header program_header_def)
  moreover have "0x1000 \<notin> kernel_pages sample_layout"
    using kernel_pages_regions [OF sample_layout_ok, of "0x1000"] by auto
  ultimately show ?thesis
    by (simp add: elf_ok_def segment_ok_def disk_headers disk_fields disk_header disk_pages page_aligned_def)
qed

lemma disk_program_frames: "program_frames disk_image disk_elf = 6"
  by (simp add: program_frames_def disk_headers disk_header disk_pages)

lemma disk_directory: "directory_in_image sample_layout disk_image"
  using disk_in_image by (simp add: directory_in_image_def disk_fields sample_layout_def)

lemma disk_name: "cstring (kread disk_image) 0x80208008 init_name"
  by (simp add: kread_apply bytes_of_def disk_image_def disk_bytes_def)

lemma disk_find: "ramdisk_find sample_layout disk_image init_name = Inr disk_elf"
proof -
  have "find_entry disk_image (lit init_name) 0 0x80208008 1 = Inr (Some 0x80208008)"
    using find_entry_spec [OF init_name_string(1), of disk_image "0x80208008" 1] disk_name init_name_string(2) by simp
  moreover have "ramdisk_start sample_layout = 0x80208000" by (simp add: sample_layout_def)
  ultimately show ?thesis by (simp add: ramdisk_find_def disk_fields)
qed

lemma disk_bootable: "bootable sample_layout disk_image"
proof -
  have "149 \<le> frames_left sample_layout (init_pmm sample_layout disk_image)"
    using disk_frames_left [of disk_image] by linarith
  then show ?thesis
    using disk_directory disk_find disk_elf_ok disk_program_frames by (simp add: bootable_def)
qed

text \<open>It boots, and \<open>init.elf\<close> finds its name at \<open>0x1000\<close>.\<close>

lemma kmain_boots_witness:
  "\<exists>a k. kmain sample_layout 0 (power_on disk_image) = Inr (ProcFrame a, k) \<and> system_ok sample_layout a k \<and>
     pid (procs k ! a) = 1 \<and> tf_sepc (frame (procs k ! a)) = 0x1000 \<and>
     user_load (mem k) (MAKE_SATP (page_table (procs k ! a))) 0x1000 = Inr 105 \<and>
     stack_in (page_table (procs k ! a)) (mem k)"
proof -
  note b = kmain_boots [OF sample_layout_ok, of disk_image 0]
  obtain q k where run: "kmain sample_layout 0 (power_on disk_image) = Inr (q, k)"
    using b disk_bootable by (cases "kmain sample_layout 0 (power_on disk_image)") auto
  then obtain a where a: "q = ProcFrame a" "system_ok sample_layout a k" "pid (procs k ! a) = 1"
    "runs_program sample_layout disk_image disk_elf (procs k ! a) (mem k)"
    "stack_in (page_table (procs k ! a)) (mem k)"
    using b disk_directory disk_find disk_bootable by auto
  have im: "elf_in_image sample_layout disk_image disk_elf" using disk_elf_ok by (simp add: elf_ok_def)
  have sg: "segment_in disk_image disk_elf 0x80208070 (page_table (procs k ! a)) (mem k)"
    using a(4) disk_elf_ok by (simp add: runs_program_def program_in_def disk_headers)
  have "user_load (mem k) (MAKE_SATP (page_table (procs k ! a))) (0x1000 + of_nat 0) =
      Inr (segment_byte disk_image 9 (disk_elf + 120) 0)"
    using sg unfolding segment_in_def disk_header by (elim conjE allE [of _ 0]) simp
  moreover have "segment_byte disk_image 9 (disk_elf + 120) 0 = 105"
    by (simp add: segment_byte_def disk_image_def disk_bytes_def)
  ultimately show ?thesis using run a im by (simp add: runs_program_def disk_fields)
qed

text \<open>Once it runs, it can replace itself by the file of that name.\<close>

lemma user_str_ok_intro:
  "cstring (user_load m sv) a t \<Longrightarrow> length t < n \<Longrightarrow> (\<And>j. j \<le> length t \<Longrightarrow> user_range_ok m pt (a + of_nat j) 1 PTE_R) \<Longrightarrow>
     user_str_ok m sv pt a n = Inr True"
proof (induction t arbitrary: a n)
  case Nil
  have "user_range_ok m pt a 1 PTE_R" using Nil.prems(3) [of 0] by simp
  then show ?case using Nil.prems(1,2) by (cases n) simp_all
next
  case (Cons c t)
  obtain n' where n: "n = Suc n'" using Cons.prems(2) by (cases n) auto
  have "user_range_ok m pt (a + 1 + of_nat j) 1 PTE_R" if "j \<le> length t" for j
    using Cons.prems(3) [of "Suc j"] that by (simp add: add.assoc)
  then have "user_str_ok m sv pt (a + 1) n' = Inr True" using Cons.prems(1,2) n by (intro Cons.IH) simp_all
  moreover have "user_range_ok m pt a 1 PTE_R" using Cons.prems(3) [of 0] by simp
  ultimately show ?case using Cons.prems(1) n by simp
qed

text \<open>The state after boot, and with the address of the name in \<open>a0\<close>.\<close>

definition disk_booted :: "nat \<Rightarrow> kernel \<Rightarrow> bool" where
  "disk_booted a k \<longleftrightarrow> kmain sample_layout 0 (power_on disk_image) = Inr (ProcFrame a, k)"

definition naming_init :: "nat \<Rightarrow> kernel \<Rightarrow> kernel" where
  "naming_init a k = upd_frame (ProcFrame a) (\<lambda>f. f\<lparr>tf_a0 := 0x1000\<rparr>) k"

lemma disk_booted_state:
  "\<exists>a k. disk_booted a k \<and> kernel_ok sample_layout a k \<and> same_image sample_layout disk_image (mem k) \<and>
     segment_in disk_image disk_elf 0x80208070 (page_table (procs k ! a)) (mem k) \<and> 107 \<le> frames_left sample_layout (mem k)"
proof -
  note b = kmain_cases [OF sample_layout_ok, of disk_image 0]
  obtain q k where run: "kmain sample_layout 0 (power_on disk_image) = Inr (q, k)"
    using b disk_bootable by (cases "kmain sample_layout 0 (power_on disk_image)") auto
  then obtain a where a: "q = ProcFrame a" "kernel_ok sample_layout a k" "same_image sample_layout disk_image (mem k)"
    "runs_program sample_layout disk_image disk_elf (procs k ! a) (mem k)"
    "frames_left sample_layout (init_pmm sample_layout disk_image) \<le> frames_left sample_layout (mem k) + 143 + 6"
    using b disk_directory disk_find disk_bootable disk_program_frames by auto
  have "107 \<le> frames_left sample_layout (mem k)" using a(5) disk_frames_left [of disk_image] by linarith
  then show ?thesis using run a disk_elf_ok
    by (auto simp: disk_booted_def runs_program_def program_in_def disk_headers)
qed

lemma disk_name_in_user:
  assumes sg: "segment_in disk_image disk_elf 0x80208070 r m"
  shows "cstring (user_load m (MAKE_SATP r)) 0x1000 init_name"
proof -
  have u: "user_load m (MAKE_SATP r) (0x1000 + of_nat j) = Inr (segment_byte disk_image 9 (disk_elf + 120) j)" if "j < 9" for j
    using sg that by (simp add: segment_in_def disk_header)
  show ?thesis
    using u [of 0] u [of 1] u [of 2] u [of 3] u [of 4] u [of 5] u [of 6] u [of 7] u [of 8]
    by (simp add: bytes_of_def segment_byte_def disk_image_def disk_bytes_def)
qed

lemma disk_exec_file:
  assumes ok: "kernel_ok sample_layout a k" and im: "same_image sample_layout disk_image (mem k)"
    and sg: "segment_in disk_image disk_elf 0x80208070 (page_table (procs k ! a)) (mem k)"
  shows "exec_file sample_layout a (naming_init a k) disk_elf"
proof -
  let ?r = "page_table (procs k ! a)" and ?m = "mem k"
  note o = kernel_okD [OF ok]
  have mem: "mem (naming_init a k) = ?m" "satp (naming_init a k) = MAKE_SATP ?r"
    and p: "tf_a0 (frame (procs (naming_init a k) ! a)) = 0x1000" "page_table (procs (naming_init a k) ! a) = ?r"
    using o(1,2,5) by (simp_all add: naming_init_def)
  note name = disk_name_in_user [OF sg]
  have leaf: "has (path_leaf ?m ?r 0x1000) PTE_V" "has (path_leaf ?m ?r 0x1000) PTE_U" "has (path_leaf ?m ?r 0x1000) PTE_R"
    using sg by (simp_all add: segment_in_def disk_pages)
  have "user_range_ok ?m ?r (0x1000 + of_nat j) 1 PTE_R" if "j \<le> 8" for j
  proof -
    have u: "unat (0x1000 + of_nat j :: u64) = 0x1000 + j" using unat_add_of_nat [of "0x1000" j] that by simp
    have "page_base (0x1000 + of_nat j :: u64) = 0x1000"
      by (rule page_base_add) (use that in \<open>simp_all add: page_aligned_def\<close>)
    moreover have "(0x1000 + of_nat j :: u64) \<noteq> 0" using u by (metis add_is_0 unat_0 zero_neq_numeral)
    ultimately show ?thesis
      using user_byte_ok_iff [of "0x1000 + of_nat j" ?m ?r PTE_R] u that leaf
        user_page_ok_iff [OF spaces_okD(2) [OF o(6)] current_root [OF ok]]
      by (simp add: has_flags bit_flags)
  qed
  then have str: "user_str_ok ?m (MAKE_SATP ?r) ?r 0x1000 256 = Inr True"
    using init_name_string(2) by (intro user_str_ok_intro [OF name]) (simp_all add: bytes_of_def)
  have st: "ramdisk_start sample_layout = 0x80208000" by (simp add: sample_layout_def)
  have hdr: "load32 ?m 0x80208000 = RAMDISK_MAGIC" "load32 ?m 0x80208004 = 1" "entry_offset ?m 0x80208008 = 48"
    using directory_load32 [OF disk_directory im, of 0] directory_load32 [OF disk_directory im, of 4]
      directory_load32 [OF disk_directory im, of 40] disk_fields
    by (simp_all add: st entry_offset_def)
  have "cstring (kread ?m) 0x80208008 init_name = cstring (kread disk_image) 0x80208008 init_name"
  proof (rule cstring_same)
    fix j assume "j \<le> length init_name"
    then have "j \<le> 8" by (simp add: bytes_of_def)
    then show "?m (0x80208008 + of_nat j) = disk_image (0x80208008 + of_nat j)"
      using im disk_in_image [of "8 + j"] by (simp add: same_image_def add.assoc)
  qed
  then have "find_entry ?m (user_load ?m (MAKE_SATP ?r)) 0x1000 0x80208008 1 = Inr (Some 0x80208008)"
    using find_entry_spec [OF name, of ?m "0x80208008" 1] disk_name init_name_string(2) by simp
  then have "ramdisk_get_entry sample_layout ?m (user_load ?m (MAKE_SATP ?r)) 0x1000 = Inr 0x80208008"
    using hdr by (simp add: ramdisk_get_entry_def st)
  then show ?thesis using str hdr(3) by (simp add: exec_file_def Let_def mem p st)
qed

lemma execed_program:
  assumes ex: "execed L c elf k k'"
  shows "satp k' = MAKE_SATP (page_table (procs k' ! c))"
    and "elf_in_image L (mem k) elf \<Longrightarrow> tf_sepc (frame (procs k' ! c)) = e_entry (mem k) elf"
    and "elf_ok L (mem k) elf \<Longrightarrow> program_in (mem k) elf (page_table (procs k' ! c)) (mem k')"
proof -
  note e = ex [unfolded execed_def Let_def]
  show "satp k' = MAKE_SATP (page_table (procs k' ! c))" using e by blast
  show "elf_ok L (mem k) elf \<Longrightarrow> program_in (mem k) elf (page_table (procs k' ! c)) (mem k')" using e by blast
  assume "elf_in_image L (mem k) elf"
  then have "procs k' ! c = loaded_process (e_entry (mem k) elf) (page_up (program_end (mem k) elf))
      ((procs k ! c)\<lparr>page_table := page_table (procs k' ! c)\<rparr>)"
    using e by blast
  from arg_cong [OF this, of "\<lambda>p. tf_sepc (frame p)"]
  show "tf_sepc (frame (procs k' ! c)) = e_entry (mem k) elf" by (simp add: loaded_process_def)
qed

lemma exec_replaces_program_witness:
  "\<exists>a k k'. disk_booted a k \<and> sys_exec sample_layout (ProcFrame a) (naming_init a k) = Inr (ProcFrame a, k') \<and>
     execed sample_layout a disk_elf (naming_init a k) k' \<and> tf_sepc (frame (procs k' ! a)) = 0x1000 \<and>
     user_load (mem k') (satp k') 0x1000 = Inr 105 \<and> stack_in (page_table (procs k' ! a)) (mem k')"
proof -
  obtain a k where k: "disk_booted a k" "kernel_ok sample_layout a k" "same_image sample_layout disk_image (mem k)"
    "segment_in disk_image disk_elf 0x80208070 (page_table (procs k ! a)) (mem k)" "107 \<le> frames_left sample_layout (mem k)"
    using disk_booted_state by blast
  let ?k = "naming_init a k"
  have ok: "kernel_ok sample_layout a ?k" unfolding naming_init_def by (rule kernel_ok_frame [OF k(2)])
  have mem: "mem ?k = mem k" by (simp add: naming_init_def)
  have im: "elf_in_image sample_layout disk_image disk_elf" using disk_elf_ok by (simp add: elf_ok_def)
  note same = image_same [OF im k(3)]
  note f = disk_exec_file [OF k(2-4)]
  have st: "startable sample_layout (mem ?k) disk_elf"
    using k(5) disk_elf_ok same(3,7) disk_program_frames by (simp add: startable_def mem)
  note f' = f [unfolded exec_file_def Let_def]
  have only: "elf = disk_elf" if "exec_file sample_layout a ?k elf" for elf
    using that f' unfolding exec_file_def Let_def by (elim conjE exE) simp
  note x = exec_replaces_program [OF sample_layout_ok ok, unfolded Let_def]
  obtain k' where run: "sys_exec sample_layout (ProcFrame a) ?k = Inr (ProcFrame a, k')"
    and ex: "execed sample_layout a disk_elf ?k k'" and stk: "stack_in (page_table (procs k' ! a)) (mem k')"
  proof (cases "sys_exec sample_layout (ProcFrame a) ?k")
    case (Inl z)
    then show ?thesis using x f' st only by fastforce
  next
    case (Inr y)
    obtain q k' where y: "y = (q, k')" by (cases y)
    have q: "q = ProcFrame a" using x unfolding Inr y by simp
    obtain elf where "exec_file sample_layout a ?k elf" "execed sample_layout a elf ?k k'"
        "startable sample_layout (mem ?k) elf \<longrightarrow> stack_in (page_table (procs k' ! a)) (mem k')"
      using x f' unfolding Inr y sum.case prod.case by (elim conjE disjE exE) simp_all
    then show ?thesis using that [of k'] only st q Inr y by blast
  qed
  have im': "elf_in_image sample_layout (mem ?k) disk_elf" and ok': "elf_ok sample_layout (mem ?k) disk_elf"
    using same(7,8) disk_elf_ok by (simp_all add: mem)
  note e = execed_program [OF ex]
  have prog: "program_in disk_image disk_elf (page_table (procs k' ! a)) (mem k')" using e(3) [OF ok'] same(9) by (simp add: mem)
  have entry: "tf_sepc (frame (procs k' ! a)) = 0x1000" using e(2) [OF im'] same(4) disk_fields(5) by (simp add: mem)
  have "segment_in disk_image disk_elf 0x80208070 (page_table (procs k' ! a)) (mem k')"
    using prog by (simp add: program_in_def disk_headers)
  from disk_name_in_user [OF this] have "user_load (mem k') (satp k') 0x1000 = Inr 105"
    unfolding e(1) by (simp add: bytes_of_def)
  then show ?thesis using k(1) run ex stk entry by blast
qed

end
