(* ===== verification/Wx.thy ===== *)
theory Wx
  imports System
begin

text \<open>
  W xor X for the whole system: no process ever has a user page that is both writable and
  executable. \<open>load_elf\<close> never makes one (\<open>Elf_Spec\<close>); \<open>Process_Inv\<close> shows that every trap keeps
  it so for the caller and for a forked child.
\<close>

lemma kmain_code_safe:
  assumes L: "layout_ok L" and run: "kmain L now (power_on m) = Inr (q, k)"
  shows "code_safe k"
proof -
  obtain a where "no_wx (mem k) (page_table (procs k ! a))" "\<forall>i < 64. i \<noteq> a \<longrightarrow> state (procs k ! i) = PROC_UNUSED"
    "length (procs k) = 64"
    using kmain_cases [OF L, of m now] run kernel_okD(1) by auto
  then show ?thesis by (auto simp: everywhere_def live_def)
qed

section \<open>Properties\<close>

text \<open>
  C4: no process ever has writable code. \<open>kmain\<close> starts the first process without a user page
  that is both writable and executable; and from a well-formed state without such a page,
  however often and in whatever order user programs compute and trap (\<open>exec\<close> of any image in
  the ramdisk, \<open>fork\<close>, \<open>sbrk\<close>, \<open>read\<close> into any buffer included), no process in the table ever
  gets one.
\<close>
theorem system_write_xor_execute:
  assumes "layout_ok L"
  shows "(\<forall>now m q k. kmain L now (power_on m) = Inr (q, k) \<longrightarrow> code_safe k) \<and>
    (\<forall>c0 k0 c k. system_ok L c0 k0 \<longrightarrow> code_safe k0 \<longrightarrow> runs L c0 k0 c k \<longrightarrow> code_safe k)"
  using kmain_code_safe [OF assms] code.run.along [OF assms] unfolding runs_def by blast

text \<open>The sample process asks for memory.\<close>

lemma calling_code_safe: "code_safe (calling num x y z)"
proof -
  have "no_wx sample_user sample_root"
    unfolding no_wx_def using sample_user_space(6) STACK_rw by simp
  moreover have u: "untouched sample_user (mem sample_machine) sample_root"
    unfolding sample_machine_def power_on_def
    using untouched_bitmap [OF sample_user_space(1) singletonI same_except_alloc [OF wf_aligned [OF sample_user_space(1)]]]
    by (cases "pmm_alloc_page sample_layout sample_user") simp
  have "same_leaves sample_user (mem sample_machine) sample_root"
    using untouched_leaf [OF sample_user_space(1) singletonI u] by (simp add: same_leaves_def)
  ultimately have "no_wx (mem sample_machine) sample_root" using no_wx_same by blast
  moreover have "mem (calling num x y z) = mem sample_machine" "page_table (procs (calling num x y z) ! 0) = sample_root"
    by (simp_all add: calling_def sample_machine_procs sample_process_def)
  ultimately show ?thesis by (simp add: everywhere_def calling_live)
qed

lemma system_write_xor_execute_witness:
  "\<exists>k. runs sample_layout 0 (calling 6 4096 0 0) 0 k \<and> code_safe k"
proof -
  obtain k' where "trap_handler sample_layout inp (ProcFrame 0) (calling 6 4096 0 0) = Inr (ProcFrame 0, k')"
    using calling_sbrk by blast
  from runs_trap_start(2) [OF calling_user this] have r: "runs sample_layout 0 (calling 6 4096 0 0) 0 k'" .
  with system_write_xor_execute [OF sample_layout_ok] calling_system calling_code_safe show ?thesis by blast
qed

end
