(* ===== verification/File_Inv.thy ===== *)
theory File_Inv
  imports System
begin

text \<open>
  The types of file descriptors, for the whole system: a descriptor is closed, the console, or a
  file of the ramdisk with its offset inside the file. What a descriptor says of the ramdisk
  stays true because the directory is part of the kernel image, which never changes.
\<close>

section \<open>The directory\<close>

lemma directory_same:
  assumes d: "directory_in_image L m" and s: "same_image L m m'"
  shows "directory_in_image L m'" "directory_entry L m' e = directory_entry L m e"
    "directory_entry L m e \<Longrightarrow> entry_size m' e = entry_size m e"
    "directory_entry L m e \<Longrightarrow> entry_offset m' e = entry_offset m e"
proof -
  note l = directory_load32 [OF d s]
  have n: "load32 m' (ramdisk_start L + 4) = load32 m (ramdisk_start L + 4)" using l [of 4] by simp
  then show "directory_in_image L m'" using d by (simp add: directory_in_image_def)
  show "directory_entry L m' e = directory_entry L m e" by (simp add: directory_entry_def n)
  assume "directory_entry L m e"
  then obtain i where i: "i < unat (load32 m (ramdisk_start L + 4))" "e = ramdisk_start L + 8 + of_nat (40 * i)"
    by (auto simp: directory_entry_def)
  then have e: "e + 32 = ramdisk_start L + of_nat (40 * i + 40)" "e + 36 = ramdisk_start L + of_nat (40 * i + 44)"
    by simp_all
  have "40 * i + 44 + 4 \<le> 8 + 40 * unat (load32 m (ramdisk_start L + 4))" using i(1) by simp
  then show "entry_size m' e = entry_size m e" "entry_offset m' e = entry_offset m e"
    using l [of "40 * i + 44"] l [of "40 * i + 40"] unfolding entry_size_def entry_offset_def e by simp_all
qed

section \<open>Descriptors\<close>

definition file_ok :: "layout \<Rightarrow> memory \<Rightarrow> file_t \<Rightarrow> bool" where
  "file_ok L m f \<longleftrightarrow>
     f_type f = FILE_TYPE_NONE \<or> f_type f = FILE_TYPE_CONSOLE \<or>
     f_type f = FILE_TYPE_RAMDISK \<and> f_offset f \<le> f_size f \<and>
       (\<exists>e. directory_entry L m e \<and> f_size f = entry_size m e \<and>
          f_data f = ramdisk_start L + ucast (entry_offset m e))"

lemma file_ok_same: "directory_in_image L m \<Longrightarrow> same_image L m m' \<Longrightarrow> file_ok L m f \<Longrightarrow> file_ok L m' f"
  using directory_same unfolding file_ok_def by metis

lemma file_ok_step: "file_step L m f f' \<Longrightarrow> file_ok L m f \<Longrightarrow> file_ok L m f'"
proof (erule file_stepE)
  fix n assume f: "f' = f\<lparr>f_offset := f_offset f + n\<rparr>" "f_type f = FILE_TYPE_RAMDISK" "n \<le> f_size f - f_offset f"
    and ok: "file_ok L m f"
  then have "f_offset f \<le> f_size f" by (simp add: file_ok_def)
  then have "unat (f_offset f) + unat n \<le> unat (f_size f)" using f(3) by (simp add: word_le_nat_alt unat_sub_if')
  moreover have "unat (f_size f) < 2 ^ 32" using unsigned_less [of "f_size f"] by simp
  ultimately have "unat (f_offset f) + unat n \<le> unat (f_size f)" "unat (f_offset f + n) = unat (f_offset f) + unat n"
    by (simp_all add: unat_word_ariths)
  then have "f_offset f + n \<le> f_size f" by (simp add: word_le_nat_alt)
  then show "file_ok L m f'" using ok f(1,2) by (simp add: file_ok_def)
qed (auto simp: file_ok_def file_of_def closed_file_def)

definition process_files_ok :: "layout \<Rightarrow> memory \<Rightarrow> process \<Rightarrow> bool" where
  "process_files_ok L m p \<longleftrightarrow> directory_in_image L m \<and> (\<forall>f \<in> set (open_files p). file_ok L m f)"

lemma process_files_ok_same:
  "process_files_ok L m p \<Longrightarrow> same_image L m m' \<Longrightarrow> open_files p' = open_files p \<Longrightarrow> process_files_ok L m' p'"
  using directory_same(1) file_ok_same unfolding process_files_ok_def by metis

interpretation typed: process_invariant L "process_files_ok L" for L
proof
  fix m p fd f
  assume p: "process_files_ok L m p" "fd < FD_MAX" and st: "file_step L m (open_files p ! fd) f"
  show "process_files_ok L m (p\<lparr>open_files := (open_files p)[fd := f]\<rparr>)"
  proof (cases "fd < length (open_files p)")
    case True
    then have "file_ok L m f" using file_ok_step [OF st] p(1) by (simp add: process_files_ok_def)
    then show ?thesis using p(1) set_update_subset_insert by (fastforce simp: process_files_ok_def)
  qed (use p(1) in \<open>simp add: list_update_beyond\<close>)
qed (auto simp: same_process_def intro: process_files_ok_same)

section \<open>From boot on\<close>

lemma kmain_files:
  assumes L: "layout_ok L" and run: "kmain L now (power_on m) = Inr (q, k)" and d: "directory_in_image L (mem k)"
  shows "everywhere (process_files_ok L) k"
proof -
  obtain a where a: "open_files (procs k ! a) = open_files (init_process_fds empty_process)"
    "\<forall>i < 64. i \<noteq> a \<longrightarrow> state (procs k ! i) = PROC_UNUSED" "length (procs k) = 64"
    using kmain_cases [OF L, of m now] run kernel_okD(1) by auto
  have "file_ok L (mem k) closed_file" "file_ok L (mem k) console_file"
    by (simp_all add: file_ok_def closed_file_def console_file_def)
  then have "process_files_ok L (mem k) (procs k ! a)"
    using d a(1) by (auto simp: process_files_ok_def init_process_fds_def dest!: set_update_subset_insert [THEN subsetD])
  then show ?thesis using a(2,3) by (auto simp: everywhere_def live_def)
qed

section \<open>Properties\<close>

text \<open>
  C6: file descriptors are typed. The first process starts with well-typed descriptors, and in
  every state the system then reaches each descriptor of each process is closed, the console,
  or a file of the ramdisk: its data and its size are those of an entry of the directory, and
  its offset does not exceed the size, so that no \<open>read\<close> ever hands out a byte beyond the end
  of the file. Opening, reading, closing, \<open>fork\<close> and \<open>exec\<close> in any order keep it so, for a
  ramdisk whose directory lies in the kernel image.
\<close>
theorem descriptors_typed:
  assumes "layout_ok L"
  shows "(\<forall>now m q k. kmain L now (power_on m) = Inr (q, k) \<longrightarrow> directory_in_image L (mem k) \<longrightarrow>
      everywhere (process_files_ok L) k) \<and>
    (\<forall>c0 k0 c k. system_ok L c0 k0 \<longrightarrow> everywhere (process_files_ok L) k0 \<longrightarrow> runs L c0 k0 c k \<longrightarrow>
      everywhere (process_files_ok L) k)"
  using kmain_files [OF assms] typed.run.along [OF assms] unfolding runs_def by blast

text \<open>The image of the sample machine is all zeroes: an empty directory.\<close>

lemma sample_image_zero: "same_image sample_layout (\<lambda>_. 0) (mem sample_machine)"
proof -
  let ?L = sample_layout and ?r = sample_root and ?m0 = "init_pmm sample_layout (\<lambda>_. 0)"
  note trans = same_image_trans
  have 0: "same_image ?L (\<lambda>_. 0) ?m0" by (rule same_image_bitmap [OF same_except_init [OF sample_layout_ok]])
  obtain r m1 where b: "pmm_alloc_page ?L ?m0 = (r, m1)" by fastforce
  then have s: "?r = r" "sample_memory = memset m1 r 0 4096"
    by (simp_all add: sample_root_def sample_memory_def sample_boot_def)
  have "?r \<in> used ?L sample_memory" by (rule wf_used [OF sample_wf(1) singletonI, of "[]"]) (simp add: sample_wf(2))
  then have r0: "r \<noteq> 0" using used_subset frame_nonzero unfolding s(1) by blast
  have al: "page_aligned r" using pmm.al_page [OF b r0] frame_aligned by blast
  have 1: "same_image ?L ?m0 sample_memory"
    unfolding s by (rule same_image_keeps [OF wf_init [OF sample_layout_ok] keeps_fresh [OF wf_init [OF sample_layout_ok] b r0]])
      (rule same_except_memset [OF al], simp)
  obtain n m2 where al2: "pmm_alloc_page ?L sample_memory = (n, m2)" by fastforce
  have sp: "sample_page = (n, memset m2 n 0 4096)" using al2 by (simp add: sample_page_def)
  have n0: "n \<noteq> 0" using frames_left_alloc(1) [OF al2] sample_frames_left by auto
  have n_al: "page_aligned n" using pmm.al_page [OF al2 n0] frame_aligned by blast
  obtain x m3 where mp: "map_page ?L (memset m2 n 0 4096) ?r 0x1000 n (PTE_U OR PTE_R OR PTE_W) = (x, m3)" by fastforce
  have fill: "same_except {n} m2 (memset m2 n 0 4096)" by (rule same_except_memset [OF n_al]) simp
  have "gains ?L {?r} ?r sample_memory m3"
    using sample_wf(1) singletonI al2 n0 fill user_rw_flags mp by (cases rule: add_user_page) auto
  then have 2: "same_image ?L sample_memory sample_user"
    using same_image_gains [OF sample_wf(1) singletonI] mp by (simp add: sample_user_def sp)
  have 3: "same_image ?L sample_user (mem sample_machine)"
    unfolding sample_machine_def power_on_def
    using same_image_bitmap [OF same_except_alloc [OF wf_aligned [OF sample_user_space(1)]]]
    by (cases "pmm_alloc_page ?L sample_user") simp
  show ?thesis by (rule trans [OF trans [OF trans [OF 0 1] 2] 3])
qed

lemma calling_files: "everywhere (process_files_ok sample_layout) (calling num x y z)"
proof -
  let ?m = "mem (calling num x y z)"
  have "mem (calling num x y z) = mem sample_machine" by (simp add: calling_def)
  then have zero: "same_image sample_layout (\<lambda>_. 0) ?m" using sample_image_zero by simp
  have "load_le (\<lambda>_. 0) a n = 0" for a n by (induction n arbitrary: a) simp_all
  moreover have "in_image sample_layout (ramdisk_start sample_layout + of_nat i)" if "i < 8" for i
  proof -
    have "page_base (0x80208000 + of_nat i) = 0x80208000"
      by (rule page_base_add) (use that in \<open>simp_all add: page_aligned_def\<close>)
    then show ?thesis by (simp add: in_image_def ram_frames_iff sample_layout_def page_aligned_def)
  qed
  ultimately have "directory_in_image sample_layout (\<lambda>_. 0)" by (simp add: directory_in_image_def)
  then have "directory_in_image sample_layout ?m" using directory_same(1) [OF _ zero] by blast
  moreover have "open_files (procs (calling num x y z) ! 0) = open_files (init_process_fds empty_process)"
    by (simp add: calling_def sample_machine_procs sample_process_def)
  moreover have "file_ok sample_layout ?m closed_file" "file_ok sample_layout ?m console_file"
    by (simp_all add: file_ok_def closed_file_def console_file_def)
  ultimately have "process_files_ok sample_layout ?m (procs (calling num x y z) ! 0)"
    by (auto simp: process_files_ok_def init_process_fds_def dest!: set_update_subset_insert [THEN subsetD])
  then show ?thesis by (simp add: everywhere_def calling_live)
qed

lemma descriptors_typed_witness:
  "\<exists>k. runs sample_layout 0 (calling 6 4096 0 0) 0 k \<and> everywhere (process_files_ok sample_layout) k"
proof -
  obtain k' where "trap_handler sample_layout inp (ProcFrame 0) (calling 6 4096 0 0) = Inr (ProcFrame 0, k')"
    using calling_sbrk by blast
  from runs_trap_start(2) [OF calling_user this] have "runs sample_layout 0 (calling 6 4096 0 0) 0 k'" .
  with descriptors_typed [OF sample_layout_ok] calling_system calling_files show ?thesis by blast
qed

end
