(* ===== verification/Family.thy ===== *)
theory Family
  imports System
begin

text \<open>
  The process tree and \<open>wait\<close>: pids are unique, every parent is older than its children, and a
  process sleeps in \<open>SYS_WAIT\<close> only while it has a child and none of its children is a zombie.
  The invariant \<open>family_ok\<close> is kept by every trap, so the wakeup of \<open>exit_current\<close> is never
  lost and sleeping parents cannot wait for each other in a circle.
\<close>

section \<open>The invariant\<close>

text \<open>What a process asleep may be waiting for.\<close>

definition sleeps_well :: "process list \<Rightarrow> nat \<Rightarrow> bool" where
  "sleeps_well ps i \<longleftrightarrow>
     (case chan (ps ! i) of
        NoChan \<Rightarrow> False
      | UartChan \<Rightarrow> True
      | ProcChan j \<Rightarrow> j = i \<and> (\<exists>p \<in> set ps. child_of (pid (ps ! i)) p) \<and>
          (\<forall>p \<in> set ps. child_of (pid (ps ! i)) p \<longrightarrow> state p \<noteq> PROC_ZOMBIE))"

definition family_ok :: "kernel \<Rightarrow> bool" where
  "family_ok k \<longleftrightarrow>
     inj_on (\<lambda>i. pid (procs k ! i)) (live (procs k)) \<and>
     (\<forall>i \<in> live (procs k). parent_pid (procs k ! i) < pid (procs k ! i) \<and> pid (procs k ! i) < next_pid k \<and>
        (state (procs k ! i) = PROC_BLOCKED \<longrightarrow> sleeps_well (procs k) i))"

lemma family_okD:
  assumes "family_ok k"
  shows "inj_on (\<lambda>i. pid (procs k ! i)) (live (procs k))"
    "\<And>i. i \<in> live (procs k) \<Longrightarrow> parent_pid (procs k ! i) < pid (procs k ! i)"
    "\<And>i. i \<in> live (procs k) \<Longrightarrow> pid (procs k ! i) < next_pid k"
    "\<And>i. i \<in> live (procs k) \<Longrightarrow> state (procs k ! i) = PROC_BLOCKED \<Longrightarrow> sleeps_well (procs k) i"
  using assms by (auto simp: family_ok_def)

text \<open>The same over indices of the table.\<close>

lemma sleeps_well_iff:
  "sleeps_well ps i \<longleftrightarrow> chan (ps ! i) = UartChan \<or> chan (ps ! i) = ProcChan i \<and>
     (\<exists>j < length ps. child_of (pid (ps ! i)) (ps ! j)) \<and>
     (\<forall>j < length ps. child_of (pid (ps ! i)) (ps ! j) \<longrightarrow> state (ps ! j) \<noteq> PROC_ZOMBIE)"
  unfolding sleeps_well_def by (cases "chan (ps ! i)") (auto simp: in_set_conv_nth Bex_def Ball_def)

section \<open>Quiet steps\<close>

text \<open>A quiet step keeps the invariant.\<close>

lemma family_ok_quiet_table:
  assumes f: "family_ok k" and q: "quiet_table (procs k) (procs k')" and n: "next_pid k \<le> next_pid k'"
  shows "family_ok k'"
proof -
  have len: "length (procs k') = length (procs k)" using q by (simp add: quiet_table_def)
  have at: "pid (procs k' ! i) = pid (procs k ! i)" "parent_pid (procs k' ! i) = parent_pid (procs k ! i)"
    "state (procs k' ! i) = PROC_BLOCKED \<Longrightarrow>
       chan (procs k' ! i) = UartChan \<or> state (procs k ! i) = PROC_BLOCKED \<and> chan (procs k' ! i) = chan (procs k ! i)"
    if "i \<in> live (procs k)" for i
    using q that by (auto simp: quiet_table_def quiet_process_def live_def)
  have "inj_on (\<lambda>i. pid (procs k' ! i)) (live (procs k))"
    using family_okD(1) [OF f] at(1) by (simp add: inj_on_def)
  moreover have "sleeps_well (procs k') i" if i: "i \<in> live (procs k)" and b: "state (procs k' ! i) = PROC_BLOCKED" for i
  proof (cases "chan (procs k' ! i) = UartChan")
    case False
    then have c: "state (procs k ! i) = PROC_BLOCKED" "chan (procs k' ! i) = chan (procs k ! i)"
      using at(3) [OF i b] by auto
    then show ?thesis
      using family_okD(4) [OF f i c(1)] False quiet_table_child [OF q]
      unfolding sleeps_well_iff len at(1) [OF i] by auto
  qed (simp add: sleeps_well_iff)
  moreover have "pid (procs k' ! i) < next_pid k'" if "i \<in> live (procs k)" for i
    using family_okD(3) [OF f that] at(1) [OF that] n by simp
  ultimately show ?thesis
    using family_okD(2) [OF f] at(1,2) unfolding family_ok_def quiet_table_live [OF q] by auto
qed

section \<open>Birth, death and reaping\<close>

text \<open>Whether a process sleeps well depends on its channel and on its children only.\<close>

lemma sleeps_well_cong:
  assumes "length ps' = length ps" "chan (ps' ! i) = chan (ps ! i)" "pid (ps' ! i) = pid (ps ! i)"
    and "\<And>j. j < length ps \<Longrightarrow> child_of (pid (ps ! i)) (ps' ! j) = child_of (pid (ps ! i)) (ps ! j) \<and>
      (child_of (pid (ps ! i)) (ps ! j) \<longrightarrow> (state (ps' ! j) = PROC_ZOMBIE) = (state (ps ! j) = PROC_ZOMBIE))"
  shows "sleeps_well ps' i = sleeps_well ps i"
  unfolding sleeps_well_iff assms(1-3) using assms(4) by auto

text \<open>A change at one slot that keeps the identity of its process, if it was in use.\<close>

lemma family_ok_slot:
  assumes f: "family_ok k" and ps: "procs k' = (procs k)[n := p]" and nx: "next_pid k' = next_pid k"
    and n: "n \<in> live (procs k)" and p: "pid p = pid (procs k ! n)" "parent_pid p = parent_pid (procs k ! n)"
      "state p \<noteq> PROC_UNUSED"
    and s: "\<And>i. i \<in> live (procs k) \<Longrightarrow> state (procs k' ! i) = PROC_BLOCKED \<Longrightarrow> sleeps_well (procs k') i"
  shows "family_ok k'"
proof -
  have len: "n < length (procs k)" using n by (simp add: live_def)
  have l: "live (procs k') = live (procs k)" unfolding ps using n p(3) by (auto simp: live_def nth_list_update)
  have at: "pid (procs k' ! i) = pid (procs k ! i)" "parent_pid (procs k' ! i) = parent_pid (procs k ! i)" for i
    unfolding ps using p(1,2) len by (cases "i = n"; simp)+
  show ?thesis using f s unfolding family_ok_def l at nx by blast
qed

definition family_step :: "kernel \<Rightarrow> stop + tf_ptr \<times> kernel \<Rightarrow> bool" where
  "family_step k res \<longleftrightarrow>
     (case res of
        Inl _ \<Rightarrow> True
      | Inr (q, k') \<Rightarrow> family_ok k' \<and> unat (next_pid k') \<le> unat (next_pid k) + 1)"

lemma family_step_Inl [simp]: "family_step k (Inl z)"
  by (simp add: family_step_def)

lemma family_ok_quiet: "family_ok k \<Longrightarrow> quiet k k' \<Longrightarrow> family_ok k'"
  using family_ok_quiet_table by (simp add: quiet_def)

lemma family_step_calm:
  assumes "family_ok k1" "next_pid k1 = next_pid k" "calm k1 res"
  shows "family_step k res"
  using assms family_ok_quiet [OF assms(1)]
  by (cases res) (auto simp: family_step_def calm_def quiet_def)

text \<open>\<open>exit\<close>: the parent, if it sleeps, is woken, so nobody sleeps beside the new zombie.\<close>

text \<open>Who sleeps afterwards has slept before, and is not the parent.\<close>

lemma departed_blocked:
  assumes ok: "kernel_ok L c k" and i: "i < 64" "state (procs (departed c k) ! i) = PROC_BLOCKED"
  shows "i \<noteq> c" "state (procs k ! i) = PROC_BLOCKED" "chan (procs (departed c k) ! i) = chan (procs k ! i)"
proof -
  define z where "z = procs (zombified c k) ! i"
  have len: "i < length (procs k)" using i(1) kernel_okD(1) [OF ok] by simp
  have "procs (departed c k) ! i = z \<or> (\<exists>ch. procs (departed c k) ! i = wake_one ch z)"
    unfolding z_def departed_def using len by (auto simp: wakeup_def split: option.split)
  then have "procs (departed c k) ! i = z" using i(2) by (auto simp: wake_one_def split: if_splits)
  then show "i \<noteq> c" "state (procs k ! i) = PROC_BLOCKED" "chan (procs (departed c k) ! i) = chan (procs k ! i)"
    using i(2) unfolding z_def zombified_at [OF len] by (cases "i = c"; simp)+
qed

lemma departed_not_parent:
  assumes ok: "kernel_ok L c k" and f: "family_ok k"
    and i: "i < 64" "state (procs (departed c k) ! i) = PROC_BLOCKED" "chan (procs (departed c k) ! i) = ProcChan i"
  shows "pid (procs k ! i) \<noteq> parent_pid (procs k ! c)"
proof
  note o = kernel_okD [OF ok]
  let ?k1 = "zombified c k"
  let ?P = "\<lambda>p. pid p = parent_pid (procs k ! c) \<and> state p \<noteq> PROC_UNUSED"
  note b = departed_blocked [OF ok i(1,2)]
  have len1: "length (procs ?k1) = 64" using o(1) by simp
  note at1 = zombified_at [of _ k c, unfolded o(1)]
  assume p: "pid (procs k ! i) = parent_pid (procs k ! c)"
  then have "?P (procs ?k1 ! i)" using at1 [OF i(1)] b by simp
  then obtain j where j: "find_index ?P (procs ?k1) = Some j"
    using find_index_None [of ?P "procs ?k1"] i(1) len1 by (cases "find_index ?P (procs ?k1)") auto
  then have j': "j < 64" "?P (procs ?k1 ! j)" using find_index_Some [of ?P "procs ?k1" j] len1 by auto
  then have "pid (procs k ! j) = pid (procs k ! i)" "j \<in> live (procs k)" "i \<in> live (procs k)"
    using at1 [OF j'(1)] p b i(1) o(1,4) by (auto simp: live_def split: if_splits)
  then have "j = i" using family_okD(1) [OF f] by (auto simp: inj_on_def)
  then have "procs (departed c k) ! i = wake_one (ProcChan i) (procs ?k1 ! i)"
    using j i(1) len1 by (simp add: departed_def wakeup_def)
  moreover have "\<not> (state (wake_one ch p) = PROC_BLOCKED \<and> chan (wake_one ch p) = ch)" for ch p
    by (simp add: wake_one_def)
  ultimately show False using i(2,3) by metis
qed

lemma departed_sleeps:
  assumes ok: "kernel_ok L c k" and f: "family_ok k"
    and i: "i \<in> live (procs k)" "state (procs (departed c k) ! i) = PROC_BLOCKED"
  shows "sleeps_well (procs (departed c k)) i"
proof (cases "chan (procs (departed c k) ! i) = UartChan")
  case False
  note o = kernel_okD [OF ok]
  have i64: "i < 64" using i(1) o(1) by (simp add: live_def)
  note b = departed_blocked [OF ok i64 i(2)]
  have sw: "sleeps_well (procs k) i" by (rule family_okD(4) [OF f i(1) b(2)])
  with False b(3) have "chan (procs (departed c k) ! i) = ProcChan i" by (auto simp: sleeps_well_iff)
  note np = departed_not_parent [OF ok f i64 i(2) this]
  have "sleeps_well (procs (departed c k)) i = sleeps_well (procs k) i"
  proof (rule sleeps_well_cong [OF _ b(3) departed_at(1) [OF ok i(1)]])
    fix j assume j: "j < length (procs k)"
    have "j < length (procs (zombified c k))" using j by simp
    note qc = quiet_table_child [OF departed_quiet this, of "pid (procs k ! i)"]
    show "child_of (pid (procs k ! i)) (procs (departed c k) ! j) = child_of (pid (procs k ! i)) (procs k ! j) \<and>
      (child_of (pid (procs k ! i)) (procs k ! j) \<longrightarrow>
        (state (procs (departed c k) ! j) = PROC_ZOMBIE) = (state (procs k ! j) = PROC_ZOMBIE))"
      using qc zombified_at [OF j, of c] np o(4) by (cases "j = c") (auto simp: child_of_def)
  qed simp
  then show ?thesis using sw by simp
qed (simp add: sleeps_well_iff)

lemma departed_family:
  assumes ok: "kernel_ok L c k" and f: "family_ok k"
  shows "family_ok (departed c k)"
proof -
  note at = departed_at [OF ok]
  have "inj_on (\<lambda>i. pid (procs (departed c k) ! i)) (live (procs k))"
    using family_okD(1) [OF f] at(1) by (simp add: inj_on_def)
  then show ?thesis
    using at(1,2) family_okD(2,3) [OF f] departed_sleeps [OF ok f]
    unfolding family_ok_def departed_other departed_live [OF ok] by auto
qed

lemma exit_family:
  assumes ok: "kernel_ok L c k" and f: "family_ok k"
  shows "family_step k (exit_current ws tf k)"
proof -
  note o = kernel_okD [OF ok]
  have "family_ok (departed c k)" by (rule departed_family [OF ok f])
  moreover have "calm (departed c k) (schedule ws tf (departed c k))"
    by (rule calm_schedule [where c = c]) (use o(1,2,3) in simp_all)
  ultimately show ?thesis
    using family_step_calm exit_departed [of k c ws tf] o(1,2,3) by simp
qed

text \<open>\<open>wait\<close>: reaping takes a zombie from the caller, who is awake; else the caller sleeps well.\<close>

lemma no_sleeping_parent:
  assumes ok: "kernel_ok L c k" and f: "family_ok k"
    and i: "i \<in> live (procs k)" "state (procs k ! i) = PROC_BLOCKED" and j: "pid (procs k ! i) = pid (procs k ! c)"
  shows False
proof -
  have "i = c" using family_okD(1) [OF f] i(1) j kernel_okD(8) [OF ok] by (auto simp: inj_on_def)
  then show False using i(2) kernel_okD(4) [OF ok] by simp
qed

lemma reaped_family:
  assumes ok: "kernel_ok L c k" and f: "family_ok k"
    and n: "n < 64" "child_of (pid (procs k ! c)) (procs k ! n)" "state (procs k ! n) = PROC_ZOMBIE"
    and ps: "procs k' = (procs k)[n := p]" "state p = PROC_UNUSED" and nx: "next_pid k' = next_pid k"
  shows "family_ok k'"
proof -
  note o = kernel_okD [OF ok]
  have nl: "n < length (procs k)" using n(1) o(1) by simp
  have l: "live (procs k') = live (procs k) - {n}" unfolding ps(1) by (rule live_remove [OF nl ps(2)])
  have at: "procs k' ! i = procs k ! i" if "i \<noteq> n" for i using that ps(1) by simp
  have "sleeps_well (procs k') i" if i: "i \<in> live (procs k)" "i \<noteq> n" "state (procs k ! i) = PROC_BLOCKED" for i
  proof -
    have "pid (procs k ! i) \<noteq> pid (procs k ! c)" using no_sleeping_parent [OF ok f i(1,3)] by blast
    then have nc: "\<not> child_of (pid (procs k ! i)) (procs k ! n)" using n(2) by (simp add: child_of_def)
    have "sleeps_well (procs k') i = sleeps_well (procs k) i"
    proof (rule sleeps_well_cong)
      fix j assume "j < length (procs k)"
      show "child_of (pid (procs k ! i)) (procs k' ! j) = child_of (pid (procs k ! i)) (procs k ! j) \<and>
        (child_of (pid (procs k ! i)) (procs k ! j) \<longrightarrow>
          (state (procs k' ! j) = PROC_ZOMBIE) = (state (procs k ! j) = PROC_ZOMBIE))"
        using nc at ps nl by (cases "j = n") (auto simp: child_of_def)
    qed (use ps(1) at [OF i(2)] in simp_all)
    then show ?thesis using family_okD(4) [OF f i(1,3)] by simp
  qed
  moreover have "inj_on (\<lambda>i. pid (procs k' ! i)) (live (procs k) - {n})"
    using family_okD(1) [OF f] at by (auto simp: inj_on_def)
  ultimately show ?thesis
    using family_okD(2,3) [OF f] at unfolding family_ok_def l nx by auto
qed

lemma slept_family:
  assumes ok: "kernel_ok L c k" and f: "family_ok k"
    and kid: "\<exists>p \<in> set (procs k). child_of (pid (procs k ! c)) p"
    and none: "\<And>i. i < 64 \<Longrightarrow> \<not> (child_of (pid (procs k ! c)) (procs k ! i) \<and> state (procs k ! i) = PROC_ZOMBIE)"
  shows "family_ok (sleep_on (ProcChan c) k)"
proof -
  note o = kernel_okD [OF ok]
  let ?p = "(procs k ! c)\<lparr>state := PROC_BLOCKED, chan := ProcChan c\<rparr>"
  have ps: "procs (sleep_on (ProcChan c) k) = (procs k)[c := ?p]" "next_pid (sleep_on (ProcChan c) k) = next_pid k"
    using o(3) by (simp_all add: sleep_on_def)
  have cl: "c < length (procs k)" using o(1,2) by simp
  define ps' where "ps' = (procs k)[c := ?p]"
  have at: "ps' ! i = (if i = c then ?p else procs k ! i)" for i unfolding ps'_def using cl by simp
  have kids: "child_of me (ps' ! j) = child_of me (procs k ! j)"
    "(state (ps' ! j) = PROC_ZOMBIE) = (state (procs k ! j) = PROC_ZOMBIE)" for me j
    unfolding at using o(4) by (auto simp: child_of_def)
  have len: "length ps' = length (procs k)" by (simp add: ps'_def)
  have "sleeps_well ps' i" if i: "i \<in> live (procs k)" "state (ps' ! i) = PROC_BLOCKED" for i
  proof (cases "i = c")
    case True
    have "\<exists>j < length (procs k). child_of (pid (procs k ! c)) (procs k ! j)" using kid by (metis in_set_conv_nth)
    then show ?thesis unfolding sleeps_well_iff len kids True using at none o(1) by auto
  next
    case False
    then have b: "state (procs k ! i) = PROC_BLOCKED" "ps' ! i = procs k ! i" using i(2) at by simp_all
    have "sleeps_well ps' i = sleeps_well (procs k) i"
      by (rule sleeps_well_cong [OF len]) (use kids b(2) in simp_all)
    then show ?thesis using family_okD(4) [OF f i(1) b(1)] by simp
  qed
  then show ?thesis using o(8) by (intro family_ok_slot [OF f ps]) (simp_all add: ps ps'_def [symmetric])
qed

lemma next_pid_free [simp]: "next_pid (free_proc L i k) = next_pid k"
  by (simp add: free_proc_def release_stack_def release_space_def Let_def)

lemma wait_family:
  assumes ok: "kernel_ok L c k" and f: "family_ok k"
  shows "family_step k (sys_wait L ws (ProcFrame c) k)"
proof -
  note o = kernel_okD [OF ok]
  let ?me = "pid (procs k ! c)"
  let ?P = "\<lambda>p. child_of ?me p \<and> state p = PROC_ZOMBIE"
  show ?thesis
  proof (cases "find_index ?P (procs k)")
    case None
    then have none: "\<And>i. i < 64 \<Longrightarrow> \<not> ?P (procs k ! i)" using find_index_None [of ?P] o(1) by simp
    have "family_step k (block_on ws (ProcChan c) (ProcFrame c) k)" if "\<exists>p \<in> set (procs k). child_of ?me p"
    proof (rule family_step_calm [OF slept_family [OF ok f that none]])
      show "calm (sleep_on (ProcChan c) k) (block_on ws (ProcChan c) (ProcFrame c) k)" unfolding block_on_def
        by (intro calm_schedule [where c = c] quiet_frame) (use o(1,2,3) in \<open>simp_all add: sleep_on_def\<close>)
    qed (simp_all add: sleep_on_def o(3))
    then show ?thesis using None family_step_calm [OF f refl calm_ret]
      by (simp add: sys_wait_def with_current_ok [OF ok] Let_def)
  next
    case (Some i)
    then have i: "i < 64" "?P (procs k ! i)" using find_index_Some [of ?P "procs k" i] o(1) by auto
    then have "state (procs k ! i) \<noteq> PROC_UNUSED" by simp
    note r = free_proc_reap [OF o(10) i(1) this]
    have "family_ok (free_proc L i k)"
      by (rule reaped_family [OF ok f i(1) _ _ r(2)]) (use i(2) in simp_all)
    then show ?thesis using Some family_step_calm [of "free_proc L i k" k] calm_ret
      by (simp add: sys_wait_def with_current_ok [OF ok] Let_def)
  qed
qed

text \<open>\<open>fork\<close>: the child is younger than everybody, and its parent is awake.\<close>

lemma alloc_proc_next:
  assumes "alloc_proc L k = Inr (r, k')"
  shows "next_pid k' = next_pid k \<or> next_pid k' = next_pid k + 1"
proof -
  have pt: "next_pid k2 = next_pid k1" if "new_page_table L i k1 = Inr (b, k2)" for i k1 b k2
    using that by (auto simp: new_page_table_def Let_def bind_stop_Inr_iff split: prod.splits if_splits)
  have st: "next_pid k2 = next_pid k1" if "new_kernel_stack L i k1 = (b, k2)" for i k1 b k2
    using that by (auto simp: new_kernel_stack_def Let_def split: prod.splits if_splits)
  show ?thesis using assms
    by (auto simp: alloc_proc_def Let_def bind_stop_Inr_iff dest!: pt st split: option.splits prod.splits if_splits)
qed

lemma fork_next:
  assumes "sys_fork L tf k = Inr (q, k')"
  shows "next_pid k' = next_pid k \<or> next_pid k' = next_pid k + 1"
proof -
  obtain c r k2 where a: "alloc_proc L (upd_proc c (\<lambda>p. p\<lparr>frame := get_frame k tf\<rparr>) k) = Inr (r, k2)"
    and n: "next_pid k' = next_pid k2"
    using assms by (auto simp: sys_fork_def with_current_def Let_def bind_stop_Inr_iff ret_def split: option.splits)
  then show ?thesis using alloc_proc_next [OF a] by simp
qed

lemma unat_next: "unat (n + 1 :: u32) \<le> unat n + 1"
  by (simp add: unat_word_ariths)

lemma less_next: "n + 1 \<noteq> 0 \<Longrightarrow> n < n + (1 :: u32)"
  using unatSuc [of n] by (simp add: word_less_nat_alt add.commute)

lemma no_process_quiet: "length (procs k) = 64 \<Longrightarrow> no_process L k k' \<Longrightarrow> quiet_table (procs k) (procs k')"
  unfolding no_process_def quiet_table_def by (auto simp: quiet_process_def split: if_splits)

lemma forked_family:
  assumes ok: "kernel_ok L c k" and f: "family_ok k" and fk: "forked L c k n k'" and nx: "next_pid k + 1 \<noteq> 0"
  shows "family_ok k'"
proof -
  note o = kernel_okD [OF ok]
  note e = fk [unfolded forked_def Let_def forked_child_def]
  let ?pc = "(procs k ! c)\<lparr>frame := (frame (procs k ! c))\<lparr>tf_a0 := scast (next_pid k)\<rparr>\<rparr>" and ?kid = "procs k' ! n"
  have ps: "procs k' = (procs k)[c := ?pc, n := ?kid]" and nk: "next_pid k' = next_pid k + 1" using e by blast+
  have n: "n < 64" "state (procs k ! n) = PROC_UNUSED" "n \<noteq> c" using e o(4) by auto
  have kid: "state ?kid = PROC_READY" "pid ?kid = next_pid k" "parent_pid ?kid = pid (procs k ! c)" using e by blast+
  have len: "length (procs k') = length (procs k)" using arg_cong [OF ps, of length] by simp
  have same: "pid (procs k' ! i) = pid (procs k ! i)" "parent_pid (procs k' ! i) = parent_pid (procs k ! i)"
    "state (procs k' ! i) = state (procs k ! i)" "chan (procs k' ! i) = chan (procs k ! i)"
    if "i \<noteq> n" "i < 64" for i
  proof -
    have "procs k' ! i = (if i = c then ?pc else procs k ! i)"
      using arg_cong [OF ps, of "\<lambda>ps. ps ! i"] that o(1) by simp
    then show "pid (procs k' ! i) = pid (procs k ! i)" "parent_pid (procs k' ! i) = parent_pid (procs k ! i)"
      "state (procs k' ! i) = state (procs k ! i)" "chan (procs k' ! i) = chan (procs k ! i)" by simp_all
  qed
  have live: "i \<in> live (procs k') \<longleftrightarrow> i = n \<or> i \<in> live (procs k)" for i
    using same(3) kid(1) n(1) o(1) len by (cases "i = n") (auto simp: live_def)
  have old: "i \<noteq> n" "i < 64" if "i \<in> live (procs k)" for i using that n(2) o(1) by (auto simp: live_def)
  note less = less_next [OF nx]
  have young: "pid (procs k ! i) < next_pid k" if "i \<in> live (procs k)" for i by (rule family_okD(3) [OF f that])
  have "inj_on (\<lambda>i. pid (procs k' ! i)) (live (procs k'))"
  proof (rule inj_onI)
    fix i j assume "i \<in> live (procs k')" "j \<in> live (procs k')" "pid (procs k' ! i) = pid (procs k' ! j)"
    then show "i = j"
      using live same(1) old young kid(2) family_okD(1) [OF f] by (metis inj_onD less_irrefl)
  qed
  moreover have "parent_pid (procs k' ! i) < pid (procs k' ! i) \<and> pid (procs k' ! i) < next_pid k'"
    if i: "i \<in> live (procs k')" for i
  proof (cases "i = n")
    case True
    then show ?thesis using kid less young [OF o(8)] nk by simp
  next
    case False
    then have l: "i \<in> live (procs k)" using i live by blast
    show ?thesis
      using family_okD(2) [OF f l] young [OF l] same(1,2) [OF old [OF l]] less nk by (metis less_trans)
  qed
  moreover have "sleeps_well (procs k') i" if i: "i \<in> live (procs k')" "state (procs k' ! i) = PROC_BLOCKED" for i
  proof -
    have l: "i \<in> live (procs k)" using i kid(1) live by auto
    note s = same [OF old [OF l]]
    have b: "state (procs k ! i) = PROC_BLOCKED" using i(2) s(3) by simp
    have "pid (procs k ! i) \<noteq> pid (procs k ! c)" using no_sleeping_parent [OF ok f l b] by blast
    then have nc: "\<not> child_of (pid (procs k ! i)) ?kid" "\<not> child_of (pid (procs k ! i)) (procs k ! n)"
      using kid(3) n(2) by (simp_all add: child_of_def)
    have "sleeps_well (procs k') i = sleeps_well (procs k) i"
    proof (rule sleeps_well_cong [OF len s(4,1)])
      fix j assume "j < length (procs k)"
      then show "child_of (pid (procs k ! i)) (procs k' ! j) = child_of (pid (procs k ! i)) (procs k ! j) \<and>
        (child_of (pid (procs k ! i)) (procs k ! j) \<longrightarrow>
          (state (procs k' ! j) = PROC_ZOMBIE) = (state (procs k ! j) = PROC_ZOMBIE))"
        using nc same [of j] o(1) by (cases "j = n") (auto simp: child_of_def)
    qed
    then show ?thesis using family_okD(4) [OF f l b] by simp
  qed
  ultimately show ?thesis unfolding family_ok_def by blast
qed

lemma fork_family:
  assumes L: "layout_ok L" and ok: "kernel_ok L c k" and f: "family_ok k" and nx: "next_pid k + 1 \<noteq> 0"
  shows "family_step k (sys_fork L (ProcFrame c) k)"
  using L ok
proof (cases rule: sys_fork_cases)
  case (again k')
  then have run: "sys_fork L (ProcFrame c) k = Inr (ProcFrame c, upd_frame (ProcFrame c) (\<lambda>f. f\<lparr>tf_a0 := E_AGAIN\<rparr>) k')"
    by (simp only: ret_def)
  have n: "next_pid k' = next_pid k \<or> next_pid k' = next_pid k + 1" using fork_next [OF run] by simp
  then have "next_pid k \<le> next_pid k'" using less_next [OF nx] by auto
  then have "family_ok k'"
    using family_ok_quiet_table [OF f no_process_quiet [OF kernel_okD(1) [OF ok] again(2)]] by blast
  then have "family_ok (upd_frame (ProcFrame c) g k')" for g using family_ok_quiet quiet_frame [OF quiet_refl] by blast
  then show ?thesis unfolding run family_step_def using n unat_next [of "next_pid k"] by auto
next
  case (forked n k')
  then show ?thesis
    using forked_family [OF ok f forked(2) nx] fork_next [OF forked(1)] unat_next [of "next_pid k"]
    by (auto simp: family_step_def)
qed simp

section \<open>Every trap\<close>

interpretation family: trap_contract L "\<lambda>c k. running_ok L c k \<and> family_ok k \<and> next_pid k + 1 \<noteq> 0" "\<lambda>c. family_step" for L
proof
  fix c k f out res
  let ?k = "(upd_frame (ProcFrame c) f k)\<lparr>console := out\<rparr>"
  assume pre: "running_ok L c k \<and> family_ok k \<and> next_pid k + 1 \<noteq> 0" and keep: "keeps_request f"
  have "quiet k (upd_frame (ProcFrame c) f k)" by (rule quiet_frame [OF quiet_refl])
  then have "family_ok (upd_frame (ProcFrame c) f k)" using pre family_ok_quiet by blast
  then have "family_ok ?k" by (rule family_ok_quiet) (rule quiet_same; simp)
  then show "running_ok L c ?k \<and> family_ok ?k \<and> next_pid ?k + 1 \<noteq> 0"
    using pre safe.pre_entered [of L c k, OF _ keep] by (simp del: upd_frame.simps)
  have n: "next_pid ?k = next_pid k" by (simp del: upd_frame.simps)
  show "family_step ?k res \<Longrightarrow> family_step k res" unfolding family_step_def n .
next
  fix c k inp code
  assume "running_ok L c k \<and> family_ok k \<and> next_pid k + 1 \<noteq> 0"
  then show "family_step k (interrupt inp code (ProcFrame c) k)"
    using family_step_calm [OF _ refl calm_interrupt] by blast
qed (auto intro: exit_family fork_family wait_family family_step_calm [OF _ refl calm_putchar]
    family_step_calm [OF _ refl calm_exec] family_step_calm [OF _ refl calm_sbrk] family_step_calm [OF _ refl calm_open]
    family_step_calm [OF _ refl calm_read] family_step_calm [OF _ refl calm_write] family_step_calm [OF _ refl calm_close])

section \<open>Progress of a sleeping parent\<close>

definition kid :: "process list \<Rightarrow> nat \<Rightarrow> nat \<Rightarrow> bool" where
  "kid ps i j \<longleftrightarrow> j < length ps \<and> child_of (pid (ps ! i)) (ps ! j)"

text \<open>A process that runs, may run, or waits for input only.\<close>

definition awake :: "process \<Rightarrow> bool" where
  "awake p \<longleftrightarrow> state p \<in> {PROC_READY, PROC_RUNNING} \<or> state p = PROC_BLOCKED \<and> chan p = UartChan"

text \<open>Children are younger, so following sleeping children ends at a descendant that is awake.\<close>

lemma waiter_has_awake_descendant:
  assumes f: "family_ok k" and i: "i \<in> live (procs k)" "state (procs k ! i) = PROC_BLOCKED" "chan (procs k ! i) \<noteq> UartChan"
  shows "\<exists>j. (kid (procs k))\<^sup>+\<^sup>+ i j \<and> awake (procs k ! j)"
  using i
proof (induction "2 ^ 32 - unat (pid (procs k ! i))" arbitrary: i rule: less_induct)
  case less
  have "sleeps_well (procs k) i" by (rule family_okD(4) [OF f less.prems(1,2)])
  then obtain j where j: "j < length (procs k)" "child_of (pid (procs k ! i)) (procs k ! j)" "state (procs k ! j) \<noteq> PROC_ZOMBIE"
    using less.prems(3) by (auto simp: sleeps_well_iff)
  then have k: "kid (procs k) i j" and l: "j \<in> live (procs k)" and p: "parent_pid (procs k ! j) = pid (procs k ! i)"
    by (simp_all add: kid_def live_def child_of_def)
  show ?case
  proof (cases "awake (procs k ! j)")
    case True
    then show ?thesis using k by blast
  next
    case False
    then have b: "state (procs k ! j) = PROC_BLOCKED" "chan (procs k ! j) \<noteq> UartChan"
      using j(2,3) by (cases "state (procs k ! j)"; auto simp: awake_def child_of_def)+
    have "unat (pid (procs k ! i)) < unat (pid (procs k ! j))"
      using family_okD(2) [OF f l] p by (simp add: word_less_nat_alt)
    moreover have "unat (pid (procs k ! j)) < 2 ^ 32" using unsigned_less [of "pid (procs k ! j)"] by simp
    ultimately have "2 ^ 32 - unat (pid (procs k ! j)) < 2 ^ 32 - unat (pid (procs k ! i))" by linarith
    from less.hyps [OF this l b] k show ?thesis by (meson tranclp_into_tranclp2)
  qed
qed

section \<open>From boot on\<close>

lemma upd_proc_parents:
  assumes "\<And>p. parent_pid (f p) = parent_pid p"
  shows "map parent_pid (procs (upd_proc i f k)) = map parent_pid (procs k)"
  using assms by (cases "i < length (procs k)") (simp_all add: map_update list_update_same_conv list_update_beyond)

lemma alloc_proc_parents:
  assumes "alloc_proc L k = Inr (r, k')"
  shows "map parent_pid (procs k') = map parent_pid (procs k)"
proof -
  note up = upd_proc_parents
  have pt: "map parent_pid (procs k2) = map parent_pid (procs k1)" if "new_page_table L i k1 = Inr (b, k2)" for i k1 b k2
    using that by (auto simp: new_page_table_def Let_def bind_stop_Inr_iff up simp del: procs_upd_proc
        split: prod.splits if_splits)
  have st: "map parent_pid (procs k2) = map parent_pid (procs k1)" if "new_kernel_stack L i k1 = (b, k2)" for i k1 b k2
    using that by (auto simp: new_kernel_stack_def Let_def up simp del: procs_upd_proc split: prod.splits if_splits)
  have "parent_pid (init_process_fds p) = parent_pid p" for p by (simp add: init_process_fds_def)
  then show ?thesis using assms
    by (auto simp: alloc_proc_def Let_def bind_stop_Inr_iff up simp del: procs_upd_proc dest!: pt st
        split: option.splits prod.splits if_splits)
qed

lemma kmain_family:
  assumes L: "layout_ok L" and run: "kmain L now (power_on m) = Inr (q, k')"
  shows "family_ok k'" "next_pid k' = 2"
proof -
  obtain k1 where b: "boot_memory L (power_on m) = Inr k1" using run by (auto simp: kmain_def bind_stop_Inr_iff)
  then have k1: "owned L (mem k1) {} {}" "procs k1 = replicate 64 empty_process" "next_pid k1 = 1"
    using boot_memory_ok [OF L, of "power_on m"] by (simp_all add: power_on_def)
  define k2 where "k2 = proc_init (say nl (say ''Initializing Process Subsystem...'' k1))"
  have ps2: "procs k2 = replicate 64 empty_process" "next_pid k2 = 1"
    using k1(2,3) by (simp_all add: k2_def proc_init_def empty_process_def)
  have t2: "table_ok L k2" unfolding k2_def
    by (rule proc_init_ok; use k1 in \<open>simp add: process_ok_def empty_process_def\<close>)
  obtain a k3 elf r k4 where al: "alloc_proc L k2 = Inr (Some a, k3)" and le: "load_elf L a elf k3 = Inr (r, k4)"
    and r: "r = 0"
    and k': "procs k' = (procs k4)[a := (procs k4 ! a)\<lparr>state := PROC_RUNNING\<rparr>]" "next_pid k' = next_pid k4"
    using run b unfolding kmain_def
    by (auto simp: bind_stop_Inr_iff Let_def k2_def [symmetric] split: option.splits if_splits)
  have fp: "fresh_process L k2 a k3" "table_ok L k3"
    using L t2 al by (cases rule: alloc_proc_cases; simp)+
  note f = fp(1) [unfolded fresh_process_def Let_def]
  have a: "a < 64" and ps3: "procs k3 = (replicate 64 empty_process)[a := procs k3 ! a]"
    and p3: "pid (procs k3 ! a) = 1" "state (procs k3 ! a) = PROC_READY" and n3: "next_pid k3 = 2"
    using f ps2 by simp_all
  have len3: "length (procs k3) = 64" using arg_cong [OF ps3, of length] by simp
  have "parent_pid (procs k3 ! a) = 0"
    using arg_cong [OF alloc_proc_parents [OF al], of "\<lambda>ps. ps ! a"] a len3 by (simp add: ps2 empty_process_def)
  have sp3: "spaces_ok L (mem k3) (procs k3)" using fp(2) by (simp add: table_ok_def)
  have r3: "page_table (procs k3 ! a) \<in> roots (procs k3)"
    using a p3(2) len3 by (intro spaces_okD(5) [OF sp3]) (simp add: live_def)
  obtain entry brk where k4: "procs k4 = (procs k3)[a := loaded_process entry (page_up brk) (procs k3 ! a)]"
    "next_pid k4 = next_pid k3"
    using spaces_okD(2) [OF sp3] refl r3 a [folded len3] le r by (cases rule: load_elf_cases [where elf = elf]) auto
  define p where "p = (loaded_process entry (page_up brk) (procs k3 ! a))\<lparr>state := PROC_RUNNING\<rparr>"
  have p: "pid p = 1" "parent_pid p = 0" "state p = PROC_RUNNING"
    using p3(1) \<open>parent_pid (procs k3 ! a) = 0\<close> by (simp_all add: p_def loaded_process_def)
  have "procs k' = (procs k3)[a := p]" using k'(1) k4(1) a len3 by (simp add: p_def)
  then have ps': "procs k' = (replicate 64 empty_process)[a := p]" using ps3 by (metis list_update_overwrite)
  have nth: "procs k' ! i = (if i = a then p else empty_process)" if "i < 64" for i
    using that a by (simp add: ps' nth_list_update)
  have "state empty_process = PROC_UNUSED" "length (procs k') = 64" by (simp_all add: empty_process_def ps')
  then have "live (procs k') = {a}" using nth a p(3) by (auto simp: live_def split: if_splits)
  then show "family_ok k'" "next_pid k' = 2"
    using nth [OF a] p k'(2) k4(2) n3 by (simp_all add: family_ok_def)
qed

section \<open>Running\<close>

text \<open>As long as the pids cannot have wrapped around.\<close>

interpretation family: system_invariant L
  "\<lambda>t c k. unat n0 + t < 2 ^ 32 \<longrightarrow> family_ok k \<and> unat (next_pid k) \<le> unat (n0 :: u32) + t" for L n0
proof
  fix c k t m f
  assume "unat n0 + t < 2 ^ 32 \<longrightarrow> family_ok k \<and> unat (next_pid k) \<le> unat n0 + t"
  moreover have "quiet k (upd_frame (ProcFrame c) (\<lambda>_. f) (k\<lparr>mem := m\<rparr>))" by (rule quiet_frame [OF quiet_same]) simp_all
  ultimately show "unat n0 + t < 2 ^ 32 \<longrightarrow> family_ok (upd_frame (ProcFrame c) (\<lambda>_. f) (k\<lparr>mem := m\<rparr>)) \<and>
      unat (next_pid (upd_frame (ProcFrame c) (\<lambda>_. f) (k\<lparr>mem := m\<rparr>))) \<le> unat n0 + t"
    using family_ok_quiet by (auto simp del: upd_frame.simps)
next
  fix c k t inp n k'
  assume L: "layout_ok L" and ok: "system_ok L c k" and u: "\<not> from_supervisor (frame (procs k ! c))"
    and i: "unat n0 + t < 2 ^ 32 \<longrightarrow> family_ok k \<and> unat (next_pid k) \<le> unat n0 + t"
    and run: "trap_handler L inp (ProcFrame c) k = Inr (ProcFrame n, k')"
  show "unat n0 + Suc t < 2 ^ 32 \<longrightarrow> family_ok k' \<and> unat (next_pid k') \<le> unat n0 + Suc t"
  proof
    assume b: "unat n0 + Suc t < 2 ^ 32"
    then have f: "family_ok k" "unat (next_pid k) \<le> unat n0 + t" using i by simp_all
    have "unat (next_pid k) + 1 < 2 ^ 32" using f(2) b by simp
    then have "unat (next_pid k + 1) = unat (next_pid k) + 1" by (simp add: unat_word_ariths)
    then have "next_pid k + 1 \<noteq> 0" by (metis unat_0 Suc_eq_plus1 nat.distinct(1))
    then have "family_step k (trap_handler L inp (ProcFrame c) k)"
      using family.trap u f(1) system_okD(3) [OF ok L] by blast
    then show "family_ok k' \<and> unat (next_pid k') \<le> unat n0 + Suc t" unfolding run using f(2) by (simp add: family_step_def)
  qed
qed

section \<open>Properties\<close>

text \<open>
  C5: no parent sleeps in \<open>wait\<close> for nothing. In every state a well-formed system reaches with
  fewer than \<open>2 ^ 32\<close> traps from \<open>next_pid\<close> on (so that pids have not wrapped around), the pids
  in use are distinct, every parent is older than its children, and a process asleep waits for
  the console or, in \<open>wait\<close>, for a child it has, none of which is a zombie: the wakeup of an
  \<open>exit\<close> is never lost. Moreover some descendant of a process asleep in \<open>wait\<close> runs, is ready,
  or waits for the console only, so parents never wait for each other in a circle.
\<close>
theorem waiting_parents_progress:
  assumes "layout_ok L" "system_ok L c0 k0" "family_ok k0" "runs_in L c0 k0 t c k"
    and "unat (next_pid k0) + t < 2 ^ 32"
  shows "family_ok k \<and>
    (\<forall>i < 64. state (procs k ! i) = PROC_BLOCKED \<longrightarrow> chan (procs k ! i) \<noteq> UartChan \<longrightarrow>
       (\<exists>j. (kid (procs k))\<^sup>+\<^sup>+ i j \<and> awake (procs k ! j)))"
proof -
  have "family_ok k" "length (procs k) = 64"
    using family.along [OF assms(1,2) _ assms(4), of "next_pid k0"] assms(3,5)
    by (auto dest!: system_okD(1) kernel_okD(1))
  then show ?thesis using waiter_has_awake_descendant by (simp add: live_def)
qed

text \<open>The sample process, started with its program, asks for memory.\<close>

lemma calling_family: "family_ok (calling num x y z)" "next_pid (calling num x y z) = 2"
proof -
  have "live (procs sample_machine) = {0}" using calling_live by (simp add: calling_def del: upd_frame.simps)
  then have "family_ok sample_machine"
    unfolding family_ok_def
    by (simp add: sample_machine_procs sample_process_def init_process_fds_def empty_process_def sample_machine_def)
  then show "family_ok (calling num x y z)"
    unfolding calling_def by (rule family_ok_quiet [OF _ quiet_frame [OF quiet_refl]])
  show "next_pid (calling num x y z) = 2" by (simp add: calling_def sample_machine_def del: upd_frame.simps)
qed

lemma waiting_parents_progress_witness:
  "\<exists>k. runs_in sample_layout 0 (calling 6 4096 0 0) 1 0 k \<and> family_ok k"
proof -
  obtain k' where "trap_handler sample_layout inp (ProcFrame 0) (calling 6 4096 0 0) = Inr (ProcFrame 0, k')"
    using calling_sbrk by blast
  from runs_trap_start(1) [OF calling_user this] have r: "runs_in sample_layout 0 (calling 6 4096 0 0) 1 0 k'" .
  have "unat (next_pid (calling 6 4096 0 0)) + 1 < 2 ^ 32" by (simp add: calling_family)
  with waiting_parents_progress [OF sample_layout_ok calling_system calling_family(1) r] r show ?thesis by blast
qed

end
