(* ===== verification/Halt.thy ===== *)
theory Halt
  imports Family
begin

text \<open>
  When the machine stops by itself: \<open>schedule\<close> shuts down or waits for ever, and it does so only
  if nothing else is left to do. A process asleep in \<open>wait\<close> alone never stops it, because the
  chain of sleeping children (\<open>Family\<close>) ends in somebody awake.
\<close>

section \<open>Handlers that never stop to wait\<close>

definition busy :: "stop + 'a \<Rightarrow> bool" where
  "busy r \<longleftrightarrow> r \<noteq> Inl Shutdown \<and> r \<noteq> Inl Idle"

lemma busy_Inr [simp]: "busy (Inr x)"
  by (simp add: busy_def)

lemma busy_ret [simp]: "busy (ret tf v k)"
  by (simp add: ret_def)

lemma busy_bind: "busy r \<Longrightarrow> (\<And>x. r = Inr x \<Longrightarrow> busy (f x)) \<Longrightarrow> busy (bind_stop r f)"
  by (cases r) (simp_all add: busy_def)

lemma busy_for_each:
  assumes "\<And>x s. busy (body x s)"
  shows "busy (for_each body xs s)"
proof -
  have "case for_each body xs s of Inl r \<Rightarrow> busy (Inl r :: stop + unit) | Inr s' \<Rightarrow> True"
    by (rule for_each_rule [where I = "\<lambda>_ _. True"]) (use assms in \<open>auto simp: busy_def\<close>)
  then show ?thesis by (simp add: busy_def split: sum.splits)
qed

lemma busy_access [simp]: "busy (user_load m s a)" "busy (user_store s a b m)" "busy (kread m a)"
  by (simp_all add: busy_def user_load_def user_store_def kread_def split: option.splits)

lemma busy_streq_loop: "(\<And>x. busy (ra x)) \<Longrightarrow> (\<And>x. busy (rb x)) \<Longrightarrow> busy (streq_loop n ra rb a b)"
proof (induction n arbitrary: a b)
  case 0
  then show ?case by (simp add: busy_def)
next
  case (Suc n)
  show ?case unfolding streq_loop.simps using Suc.IH [OF Suc.prems]
    by (intro busy_bind Suc.prems) (simp add: busy_bind)
qed

lemma busy_find_entry: "(\<And>x. busy (rd x)) \<Longrightarrow> busy (find_entry m rd name e n)"
proof (induction n arbitrary: e)
  case (Suc n)
  show ?case unfolding find_entry.simps streq_def using Suc.IH [OF Suc.prems]
    by (intro busy_bind busy_streq_loop Suc.prems) simp_all
qed simp

lemma busy_get_entry [simp]: "busy (ramdisk_get_entry L m (user_load m s) name)"
  unfolding ramdisk_get_entry_def Let_def by (simp add: busy_bind busy_find_entry)

lemma busy_str_ok [simp]: "busy (user_str_ok m s pt a n)"
proof (induction n arbitrary: a)
  case (Suc n)
  show ?case unfolding user_str_ok.simps using Suc by (simp add: busy_bind)
qed simp

lemma busy_copy [simp]: "busy (copy_to_user d s n k)"
  unfolding copy_to_user_def by (intro busy_for_each busy_bind) simp_all

lemma busy_console_write [simp]: "busy (console_write buf n k)"
  unfolding console_write_def by (intro busy_for_each busy_bind) simp_all

lemma busy_console_more [simp]: "busy (console_more buf left n k)"
proof (induction buf left n k rule: console_more.induct)
  case (2 buf left n k)
  obtain ch u where g: "uart_getc (rx k) = (ch, u)" by fastforce
  show ?case unfolding console_more.simps g prod.case
  proof (rule busy_bind)
    fix l assume l: "user_load (mem k) (satp k) (buf + ucast (n - 1)) = Inr l"
    show "busy (if l = newline then Inr (n, k) else if ch = - 1 then Inr (n, k\<lparr>rx := u\<rparr>)
        else bind_stop (user_store (satp k) (buf + ucast n) (of_int ch) (mem k))
          (\<lambda>m. console_more buf left (n + 1) (k\<lparr>rx := u, mem := m\<rparr>)))"
      using "2.IH" [OF _ g [symmetric]] by (auto intro!: busy_bind)
  qed simp
qed simp

section \<open>The scheduler stops\<close>

abbreviation waits_for_console :: "process \<Rightarrow> bool" where
  "waits_for_console p \<equiv> state p = PROC_BLOCKED \<and> chan p = UartChan"

lemma schedule_halts:
  assumes f: "family_ok k1" and at: "length (procs k1) = 64" "current k1 = Some c" "c < 64"
    and others: "\<forall>i < 64. i \<noteq> c \<longrightarrow> state (procs k1 ! i) \<noteq> PROC_RUNNING"
    and run: "schedule ws tf k1 = Inl r"
  shows "state (procs k1 ! c) \<noteq> PROC_RUNNING" "\<And>i. i < 64 \<Longrightarrow> state (procs k1 ! i) \<noteq> PROC_READY"
    "r = Shutdown \<Longrightarrow> i < 64 \<Longrightarrow> state (procs k1 ! i) \<in> {PROC_UNUSED, PROC_ZOMBIE}"
    "r = Idle \<Longrightarrow> \<exists>i < 64. waits_for_console (procs k1 ! i)"
proof -
  note s = schedule_stops [OF at run]
  show nr: "state (procs k1 ! c) \<noteq> PROC_RUNNING" and ready: "\<And>i. i < 64 \<Longrightarrow> state (procs k1 ! i) \<noteq> PROC_READY"
    by (fact s(1), fact s(2))
  have running: "state (procs k1 ! i) \<noteq> PROC_RUNNING" if "i < 64" for i using others that nr by blast
  show "state (procs k1 ! i) \<in> {PROC_UNUSED, PROC_ZOMBIE}" if "r = Shutdown" "i < 64"
    using s(3) that ready [OF that(2)] running [OF that(2)] by (cases "state (procs k1 ! i)") auto
  show "\<exists>i < 64. waits_for_console (procs k1 ! i)" if idle: "r = Idle"
  proof -
    obtain i where i: "i < 64" "state (procs k1 ! i) = PROC_BLOCKED" using s(3) idle by auto
    show ?thesis
    proof (cases "chan (procs k1 ! i) = UartChan")
      case False
      have "i \<in> live (procs k1)" using i at(1) by (simp add: live_def)
      then obtain j where j: "(kid (procs k1))\<^sup>+\<^sup>+ i j" "awake (procs k1 ! j)"
        using waiter_has_awake_descendant [OF f _ i(2) False] by blast
      from j(1) have "j < 64" using at(1) by (cases rule: tranclp.cases) (simp_all add: kid_def)
      then show ?thesis using j(2) ready running by (auto simp: awake_def)
    qed (use i in blast)
  qed
qed

section \<open>Every trap\<close>

text \<open>
  Nobody but zombies is left beside \<open>c\<close>; nobody beside \<open>c\<close> can run; somebody waits for the
  console, asleep already or about to be: \<open>c\<close>'s trap is a \<open>read\<close> of the console, and no byte is
  there.
\<close>

definition all_done :: "nat \<Rightarrow> kernel \<Rightarrow> bool" where
  "all_done c k \<longleftrightarrow> (\<forall>i < 64. i \<noteq> c \<longrightarrow> state (procs k ! i) \<in> {PROC_UNUSED, PROC_ZOMBIE})"

definition none_ready :: "nat \<Rightarrow> kernel \<Rightarrow> bool" where
  "none_ready c k \<longleftrightarrow> (\<forall>i < 64. i \<noteq> c \<longrightarrow> state (procs k ! i) \<in> {PROC_UNUSED, PROC_ZOMBIE, PROC_BLOCKED})"

definition reads_empty_console :: "nat \<Rightarrow> kernel \<Rightarrow> bool" where
  "reads_empty_console c k \<longleftrightarrow>
     (let f = frame (procs k ! c) in
      tf_scause f = 8 \<and> tf_a7 f = 8 \<and>
      (\<exists>fl. the_file k c (fd_arg f) = Some fl \<and> f_type fl = FILE_TYPE_CONSOLE) \<and>
      fst (uart_getc (rx k)) = - 1)"

definition console_awaited :: "nat \<Rightarrow> kernel \<Rightarrow> bool" where
  "console_awaited c k \<longleftrightarrow> (\<exists>i < 64. i \<noteq> c \<and> waits_for_console (procs k ! i)) \<or> reads_empty_console c k"

definition halts_well :: "nat \<Rightarrow> kernel \<Rightarrow> stop + tf_ptr \<times> kernel \<Rightarrow> bool" where
  "halts_well c k res \<longleftrightarrow> (res = Inl Shutdown \<longrightarrow> all_done c k) \<and>
     (res = Inl Idle \<longrightarrow> console_awaited c k \<and> none_ready c k)"

lemma halts_busy: "busy res \<Longrightarrow> halts_well c k res"
  by (simp add: busy_def halts_well_def)

text \<open>
  The scheduler is called with \<open>k1\<close>: the others are as in \<open>k\<close>, but a parent may have been woken,
  and then there is somebody to run.
\<close>

lemma halts_schedule:
  assumes ok: "kernel_ok L c k" and f: "family_ok k1" and at: "length (procs k1) = 64" "current k1 = Some c"
    and others: "\<And>i. i < 64 \<Longrightarrow> i \<noteq> c \<Longrightarrow> procs k1 ! i = procs k ! i \<or> state (procs k1 ! i) = PROC_READY"
    and me: "waits_for_console (procs k1 ! c) \<Longrightarrow> console_awaited c k"
  shows "halts_well c k (schedule ws tf k1)"
proof (cases "schedule ws tf k1")
  case (Inl r)
  note o = kernel_okD [OF ok]
  have "\<forall>i < 64. i \<noteq> c \<longrightarrow> state (procs k1 ! i) \<noteq> PROC_RUNNING"
  proof (intro allI impI)
    fix i assume "i < (64 :: nat)" "i \<noteq> c"
    then show "state (procs k1 ! i) \<noteq> PROC_RUNNING" using others [of i] o(9) by auto
  qed
  note h = schedule_halts [OF f at o(2) this Inl]
  have same: "procs k1 ! i = procs k ! i" if "i < 64" "i \<noteq> c" for i using others [OF that] h(2) [OF that(1)] by blast
  have "all_done c k" if r: "r = Shutdown"
    unfolding all_done_def
  proof (intro allI impI)
    fix i assume i: "i < (64 :: nat)" "i \<noteq> c"
    show "state (procs k ! i) \<in> {PROC_UNUSED, PROC_ZOMBIE}" using h(3) [OF r i(1)] same [OF i] by simp
  qed
  moreover have "none_ready c k"
    unfolding none_ready_def
  proof (intro allI impI)
    fix i assume i: "i < (64 :: nat)" "i \<noteq> c"
    have "state (procs k ! i) \<noteq> PROC_RUNNING" using o(9) i by blast
    then show "state (procs k ! i) \<in> {PROC_UNUSED, PROC_ZOMBIE, PROC_BLOCKED}"
      using h(2) [OF i(1)] same [OF i] by (cases "state (procs k ! i)") simp_all
  qed
  moreover have "console_awaited c k" if r: "r = Idle"
  proof -
    obtain i where i: "i < 64" "waits_for_console (procs k1 ! i)" using h(4) [OF r] by blast
    show ?thesis
    proof (cases "i = c")
      case False
      then show ?thesis using i same [OF i(1)] by (auto simp: console_awaited_def)
    qed (use i me in simp)
  qed
  ultimately show ?thesis using Inl by (simp add: halts_well_def)
qed (simp add: halts_well_def)

lemma departed_self:
  assumes "kernel_ok L c k"
  shows "state (procs (departed c k) ! c) = PROC_ZOMBIE"
proof -
  have c: "c < length (procs k)" by (rule current_in [OF assms])
  then have "quiet_process (procs (zombified c k) ! c) (procs (departed c k) ! c)"
    using departed_quiet [of c k] by (simp add: quiet_table_def)
  then show ?thesis using zombified_at [OF c, of c] by (simp add: quiet_process_def)
qed

lemma halts_exit:
  assumes ok: "kernel_ok L c k" and f: "family_ok k"
  shows "halts_well c k (exit_current ws tf k)"
proof -
  note o = kernel_okD [OF ok]
  have wake: "procs (departed c k) ! i = procs (zombified c k) ! i \<or> state (procs (departed c k) ! i) = PROC_READY"
    if "i < 64" for i
    using that o(1) by (auto simp: departed_def wakeup_def wake_one_def split: option.split)
  have "halts_well c k (schedule ws tf (departed c k))"
  proof (rule halts_schedule [OF ok departed_family [OF ok f]])
    fix i assume "i < (64 :: nat)" "i \<noteq> c"
    then show "procs (departed c k) ! i = procs k ! i \<or> state (procs (departed c k) ! i) = PROC_READY"
      using wake [of i] zombified_at [of i k c] o(1) by simp
  next
    assume "waits_for_console (procs (departed c k) ! c)"
    then show "console_awaited c k" using wake [OF o(2)] zombified_at [of c k c] o(1,2) by simp
  qed (use o(1,3) in simp_all)
  then show ?thesis using exit_departed [of k c ws tf] o(1,2,3) by simp
qed

lemma halts_block:
  assumes ok: "kernel_ok L c k" and f: "family_ok (sleep_on ch k1)" 
    and k1: "procs k1 = procs k" "current k1 = current k" and me: "ch = UartChan \<Longrightarrow> console_awaited c k"
  shows "halts_well c k (block_on ws ch (ProcFrame c) k1)"
  unfolding block_on_def
proof (rule halts_schedule [OF ok])
  note o = kernel_okD [OF ok]
  let ?k2 = "upd_frame (ProcFrame c) (\<lambda>f. f\<lparr>tf_sepc := tf_sepc f - 4\<rparr>) (sleep_on ch k1)"
  show "family_ok ?k2" by (rule family_ok_quiet [OF f quiet_frame [OF quiet_refl]])
  have at: "procs ?k2 ! i = (if i = c then (procs k ! c)\<lparr>state := PROC_BLOCKED, chan := ch,
      frame := (frame (procs k ! c))\<lparr>tf_sepc := tf_sepc (frame (procs k ! c)) - 4\<rparr>\<rparr> else procs k ! i)" for i
    using o(1,2,3) k1 by (simp add: sleep_on_def)
  show "procs ?k2 ! i = procs k ! i \<or> state (procs ?k2 ! i) = PROC_READY" if "i \<noteq> c" for i
    using that by (simp only: at if_False simp_thms)
  show "console_awaited c k" if "waits_for_console (procs ?k2 ! c)"
    using that me unfolding at by simp
  show "length (procs ?k2) = 64" "current ?k2 = Some c" using o(1,3) k1 by (simp_all add: sleep_on_def)
qed

lemma halts_wait:
  assumes ok: "kernel_ok L c k" and f: "family_ok k"
  shows "halts_well c k (sys_wait L ws (ProcFrame c) k)"
proof -
  note o = kernel_okD [OF ok]
  let ?me = "pid (procs k ! c)"
  let ?P = "\<lambda>p. child_of ?me p \<and> state p = PROC_ZOMBIE"
  show ?thesis
  proof (cases "find_index ?P (procs k)")
    case None
    then have none: "\<And>i. i < 64 \<Longrightarrow> \<not> ?P (procs k ! i)" using find_index_None [of ?P] o(1) by simp
    have "halts_well c k (block_on ws (ProcChan c) (ProcFrame c) k)" if "\<exists>p \<in> set (procs k). child_of ?me p"
      by (rule halts_block [OF ok slept_family [OF ok f that none]]) simp_all
    then show ?thesis using None by (simp add: sys_wait_def with_current_ok [OF ok] Let_def halts_busy)
  qed (simp add: sys_wait_def with_current_ok [OF ok] Let_def halts_busy)
qed

lemma halts_read:
  assumes ok: "kernel_ok L c k" and f: "family_ok k"
    and trap: "tf_scause (frame (procs k ! c)) = 8" "tf_a7 (frame (procs k ! c)) = 8"
  shows "halts_well c k (sys_read ws (ProcFrame c) k)"
proof -
  have "halts_well c k (console_read ws (ProcFrame c) buf count k)"
    if fl: "the_file k c (fd_arg (frame (procs k ! c))) = Some fl" "f_type fl = FILE_TYPE_CONSOLE" for buf count fl
  proof -
    obtain ch u where g: "uart_getc (rx k) = (ch, u)" by fastforce
    have ok': "kernel_ok L c (k\<lparr>rx := u\<rparr>)" by (rule own_step_ok(1) [OF ok own_step_same [OF ok]]) simp_all
    have "family_ok (k\<lparr>rx := u\<rparr>)" by (rule family_ok_quiet [OF f quiet_same]) simp_all
    then have "family_ok (sleep_on UartChan (k\<lparr>rx := u\<rparr>))" by (rule family_ok_quiet [OF _ quiet_sleep [OF ok']])
    moreover have "console_awaited c k" if "ch = - 1"
      using fl trap g that by (simp add: console_awaited_def reads_empty_console_def)
    ultimately have "halts_well c k (block_on ws UartChan (ProcFrame c) (k\<lparr>rx := u\<rparr>))" if "ch = - 1"
      using that by (intro halts_block [OF ok]) simp_all
    moreover have "busy (bind_stop (user_store (satp k) buf (of_int ch) (mem k)) (\<lambda>m.
             bind_stop (console_more buf (unat count - 1) 1 (k\<lparr>rx := u, mem := m\<rparr>)) (\<lambda>(n, k1).
               ret (ProcFrame c) (ucast n) k1)))"
      by (intro busy_bind) auto
    ultimately show ?thesis unfolding console_read_def g prod.case by (simp add: halts_busy)
  qed
  moreover have "busy (ramdisk_read (ProcFrame c) c fd buf count k)" for fd buf count
    unfolding ramdisk_read_def Let_def by (auto intro!: busy_bind)
  ultimately show ?thesis
    by (auto simp: sys_read_def with_current_ok [OF ok] Let_def halts_busy split: option.splits)
qed

lemma halts_exec:
  assumes L: "layout_ok L" and ok: "kernel_ok L c k"
  shows "halts_well c k (sys_exec L (ProcFrame c) k)"
proof -
  have "busy (exec_image L (ProcFrame c) c elf k)" for elf
    using assms by (cases rule: exec_image_cases [where tf = "ProcFrame c" and elf = elf]) (auto simp: busy_def)
  then show ?thesis
    by (auto simp: sys_exec_eq [OF kernel_okD(3) [OF ok]] Let_def intro!: halts_busy busy_bind)
qed

lemma halts_fork:
  assumes L: "layout_ok L" and ok: "kernel_ok L c k"
  shows "halts_well c k (sys_fork L (ProcFrame c) k)"
  using assms
proof (cases rule: sys_fork_cases)
  case (stop z)
  then show ?thesis by (auto simp: copy_stop_def halts_well_def)
next
  case (again k')
  show ?thesis unfolding again(1) by (rule halts_busy [OF busy_ret])
qed (simp add: halts_well_def)

lemma halts_interrupt:
  assumes ok: "kernel_ok L c k" and f: "family_ok k"
  shows "halts_well c k (interrupt inp code (ProcFrame c) k)"
proof -
  note o = kernel_okD [OF ok]
  have "halts_well c k (schedule ws (ProcFrame c) (k\<lparr>timer := t\<rparr>))" for ws t
    by (rule halts_schedule [OF ok family_ok_quiet [OF f quiet_same]]) (use o(1,3,4) in simp_all)
  then show ?thesis by (simp add: interrupt_def halts_well_def)
qed

lemma halts_entered:
  assumes c: "c < length (procs k)" and keep: "keeps_request f"
    and halts: "halts_well c ((upd_frame (ProcFrame c) f k)\<lparr>console := out\<rparr>) res"
  shows "halts_well c k res"
proof -
  let ?k = "(upd_frame (ProcFrame c) f k)\<lparr>console := out\<rparr>"
  have others: "procs ?k ! i = procs k ! i" if "i \<noteq> c" for i using that by simp
  have "open_files (procs ?k ! c) = open_files (procs k ! c)" using c by simp
  then have fl: "the_file ?k c fd = the_file k c fd" for fd by (simp add: the_file_def)
  have f: "frame (procs ?k ! c) = frame (procs (upd_frame (ProcFrame c) f k) ! c)" and rx: "rx ?k = rx k"
    by (simp_all add: upd_proc_def)
  have "reads_empty_console c ?k = reads_empty_console c k"
    unfolding reads_empty_console_def Let_def f fl rx fd_arg_def upd_frame_args [OF keep] by (rule refl)
  moreover have "none_ready c ?k = none_ready c k" "all_done c ?k = all_done c k"
    "(\<exists>i < 64. i \<noteq> c \<and> waits_for_console (procs ?k ! i)) = (\<exists>i < 64. i \<noteq> c \<and> waits_for_console (procs k ! i))"
    unfolding none_ready_def all_done_def using others by metis+
  ultimately show ?thesis using halts unfolding halts_well_def console_awaited_def by blast
qed

interpretation halt: trap_contract L "\<lambda>c k. running_ok L c k \<and> family_ok k" halts_well for L
proof
  fix c k f out res
  let ?k = "(upd_frame (ProcFrame c) f k)\<lparr>console := out\<rparr>"
  assume pre: "running_ok L c k \<and> family_ok k" and keep: "keeps_request f"
  have "quiet k (upd_frame (ProcFrame c) f k)" by (rule quiet_frame [OF quiet_refl])
  then have "family_ok (upd_frame (ProcFrame c) f k)" using pre family_ok_quiet by blast
  then have "family_ok ?k" by (rule family_ok_quiet) (rule quiet_same; simp)
  then show "running_ok L c ?k \<and> family_ok ?k"
    using pre safe.pre_entered [of L c k, OF _ keep] by (simp del: upd_frame.simps)
  show "halts_well c ?k res \<Longrightarrow> halts_well c k res"
    using pre current_in halts_entered [OF _ keep] by blast
next
  fix c k assume "running_ok L c k \<and> family_ok k"
  then have ok: "kernel_ok L c k" by simp
  show "halts_well c k (sys_putchar (ProcFrame c) k)" by (simp add: sys_putchar_def halts_busy)
  show "halts_well c k (sys_sbrk L (ProcFrame c) k)" using sys_sbrk_outcome [OF ok] by (metis busy_ret halts_busy)
  show "halts_well c k (sys_open L (ProcFrame c) k)"
    by (auto simp: sys_open_def with_current_ok [OF ok] Let_def intro!: halts_busy busy_bind split: option.splits)
  show "halts_well c k (sys_write (ProcFrame c) k)"
    by (auto simp: sys_write_def with_current_ok [OF ok] Let_def intro!: halts_busy busy_bind split: option.splits)
  show "halts_well c k (sys_close (ProcFrame c) k)"
    by (auto simp: sys_close_def with_current_ok [OF ok] Let_def halts_busy split: option.splits)
  show "halts_well c k (Inl UnknownSyscall)" by (simp add: halts_well_def)
qed (auto intro: halts_exit halts_fork halts_exec halts_wait halts_read halts_interrupt)

section \<open>Properties\<close>

text \<open>
  C8: the machine stops by itself only when it is done. In a well-formed state of the system
  (\<open>family_ok\<close> holds along every run, \<open>waiting_parents_progress\<close>), a trap shuts the machine down
  only if every other process is a zombie, and lets it idle for ever only if nobody else can run
  and the console is awaited: another process is asleep for console input, or this very trap is
  a \<open>read\<close> of a console descriptor that finds no byte. So a machine whose other processes all
  sleep in \<open>wait\<close> does not stop, whatever call the caller makes, unless that call is such a read.
\<close>
theorem machine_stops_only_when_done:
  assumes "layout_ok L" "system_ok L c k" "family_ok k" "\<not> from_supervisor (frame (procs k ! c))"
    and "trap_handler L inp (ProcFrame c) k = Inl r"
  shows "(r = Shutdown \<longrightarrow> all_done c k) \<and> (r = Idle \<longrightarrow> console_awaited c k \<and> none_ready c k)"
  using halt.trap [of L c k inp] assms system_okD(3) by (simp add: halts_well_def)

text \<open>The sample process is alone and exits.\<close>

lemma machine_stops_only_when_done_witness:
  "\<forall>inp. \<exists>r. trap_handler sample_layout inp (ProcFrame 0) (calling 2 0 0 0) = Inl r \<and>
     (r = Shutdown \<longrightarrow> all_done 0 (calling 2 0 0 0)) \<and> (r = Idle \<longrightarrow> console_awaited 0 (calling 2 0 0 0) \<and> none_ready 0 (calling 2 0 0 0))"
proof
  fix inp
  let ?start = "calling 2 0 0 0" and ?k = "upd_frame (ProcFrame 0) (\<lambda>f. f\<lparr>tf_sepc := tf_sepc f + 4\<rparr>) (calling 2 0 0 0)"
  have ok: "kernel_ok sample_layout 0 ?k" by (rule kernel_ok_frame [OF calling_ok])
  note o = kernel_okD [OF ok]
  have "tf_a7 (get_frame ?k (ProcFrame 0)) = 2" using calling_frame [of 2 0 0 0] by simp
  then have t: "trap_handler sample_layout inp (ProcFrame 0) ?start = exit_current (in_wakes inp) (ProcFrame 0) ?k"
    unfolding trap_calling syscall_def Let_def by (simp del: upd_frame.simps get_frame.simps)
  also have "\<dots> = schedule (in_wakes inp) (ProcFrame 0) (departed 0 ?k)"
    by (rule exit_departed [OF o(3)]) (use o(1) in simp)
  finally have run: "trap_handler sample_layout inp (ProcFrame 0) ?start = schedule (in_wakes inp) (ProcFrame 0) (departed 0 ?k)" .
  have live: "live (procs (departed 0 ?k)) = {0}" using departed_live [OF ok] calling_live by (simp only: upd_frame_live)
  have at: "length (procs (departed 0 ?k)) = 64" "current (departed 0 ?k) = Some 0" using o(1,3) by simp_all
  have zombie: "state (procs (departed 0 ?k) ! 0) = PROC_ZOMBIE" by (rule departed_self [OF ok])
  have "schedule (in_wakes inp) (ProcFrame 0) (departed 0 ?k) \<noteq> Inr (q, k')" for q k'
  proof
    assume "schedule (in_wakes inp) (ProcFrame 0) (departed 0 ?k) = Inr (q, k')"
    then obtain n where "scheduled (get_frame (departed 0 ?k) (ProcFrame 0)) 0 (departed 0 ?k) n k'"
      using schedule_spec [OF at zero_less_numeral] by blast
    then have n: "n < 64" "state (procs (departed 0 ?k) ! n) \<in> {PROC_READY, PROC_BLOCKED, PROC_RUNNING}"
      unfolding scheduled_def by blast+
    then have "n \<in> live (procs (departed 0 ?k))" using at(1) by (auto simp: live_def)
    then show False using n(2) zombie live by simp
  qed
  then obtain r where r: "trap_handler sample_layout inp (ProcFrame 0) ?start = Inl r"
    unfolding run by (cases "schedule (in_wakes inp) (ProcFrame 0) (departed 0 ?k)") auto
  with machine_stops_only_when_done [OF sample_layout_ok calling_system calling_family(1) calling_user r]
  show "\<exists>r. trap_handler sample_layout inp (ProcFrame 0) ?start = Inl r \<and>
     (r = Shutdown \<longrightarrow> all_done 0 ?start) \<and> (r = Idle \<longrightarrow> console_awaited 0 ?start \<and> none_ready 0 ?start)" by blast
qed

end
