(* ===== verification/Readers.thy ===== *)
theory Readers
  imports Family
begin

text \<open>
  No wakeup of a console reader is lost, for the whole system: a process sleeps in \<open>SYS_READ\<close> only
  while the ring holds no finished line. \<open>Sched\<close> shows it for interrupts and scheduling; here
  the system calls are added, each of which falls asleep only after it found the ring empty.
\<close>

section \<open>Handlers that put nobody to sleep\<close>

definition no_new_sleeper :: "process list \<Rightarrow> process list \<Rightarrow> bool" where
  "no_new_sleeper ps ps' \<longleftrightarrow> length ps' = length ps \<and>
     (\<forall>i < length ps. state (ps' ! i) = PROC_BLOCKED \<longrightarrow> chan (ps' ! i) = UartChan \<longrightarrow>
        state (ps ! i) = PROC_BLOCKED \<and> chan (ps ! i) = UartChan)"

lemma no_new_sleeper_refl [simp]: "no_new_sleeper ps ps"
  by (simp add: no_new_sleeper_def)

lemma no_new_sleeper_upd:
  assumes "state p = PROC_BLOCKED \<Longrightarrow> chan p = UartChan \<Longrightarrow> state (ps ! i) = PROC_BLOCKED \<and> chan (ps ! i) = UartChan"
  shows "no_new_sleeper ps (ps[i := p])"
  unfolding no_new_sleeper_def
proof (intro conjI allI impI)
  fix j assume "j < length ps" "state (ps[i := p] ! j) = PROC_BLOCKED" "chan (ps[i := p] ! j) = UartChan"
  then show "state (ps ! j) = PROC_BLOCKED" "chan (ps ! j) = UartChan" using assms by (cases "j = i"; simp)+
qed simp

lemma no_new_sleeper_trans: "no_new_sleeper ps ps' \<Longrightarrow> no_new_sleeper ps' ps'' \<Longrightarrow> no_new_sleeper ps ps''"
  by (auto simp: no_new_sleeper_def)

lemma readers_ok_idem:
  assumes r: "readers_ok k" and rx: "rx k' = rx k" and n: "no_new_sleeper (procs k) (procs k')"
  shows "readers_ok k'"
proof -
  have "finished (rx k) = []" if "i < length (procs k)" "state (procs k' ! i) = PROC_BLOCKED" "chan (procs k' ! i) = UartChan" for i
    using r n that unfolding readers_ok_def no_new_sleeper_def by (metis nth_mem)
  then show ?thesis using r n unfolding readers_ok_def rx no_new_sleeper_def by (auto simp: in_set_conv_nth)
qed

lemma no_new_sleeper_frame: "no_new_sleeper (procs k) (procs (upd_frame tf f k))"
  by (cases tf) (auto intro: no_new_sleeper_upd)

lemma readers_ok_frame: "readers_ok k \<Longrightarrow> readers_ok (upd_frame tf f k)"
  by (rule readers_ok_idem [OF _ _ no_new_sleeper_frame]) simp_all

lemma readers_ok_file: "readers_ok k \<Longrightarrow> readers_ok (upd_file c fd g k)"
  by (erule readers_ok_idem) (auto simp: upd_file_def intro: no_new_sleeper_upd)

text \<open>A step that only reads from the ring, with a line to read: nobody is asleep then.\<close>

lemma readers_ok_line:
  assumes "readers_ok k" "finished (rx k) \<noteq> []" "procs k' = procs k" "uart_ok (rx k')"
  shows "readers_ok k'"
  using assms by (auto simp: readers_ok_def)

definition wakes :: "kernel \<Rightarrow> stop + tf_ptr \<times> kernel \<Rightarrow> bool" where
  "wakes k res \<longleftrightarrow> (\<forall>q k'. readers_ok k \<longrightarrow> res = Inr (q, k') \<longrightarrow> readers_ok k')"

lemma wakes_Inl [simp]: "wakes k (Inl z)"
  by (simp add: wakes_def)

lemma wakes_bind: "(\<And>x. r = Inr x \<Longrightarrow> wakes k (f x)) \<Longrightarrow> wakes k (bind_stop r f)"
  by (cases r) simp_all

lemma wakes_ret: "(readers_ok k \<Longrightarrow> readers_ok k') \<Longrightarrow> wakes k (ret tf v k')"
  using readers_ok_frame by (auto simp: wakes_def ret_def)

lemma wakes_schedule:
  assumes "readers_ok k \<Longrightarrow> readers_ok k1" "length (procs k1) = 64" "current k1 = Some c" "c < 64"
  shows "wakes k (schedule ws tf k1)"
  unfolding wakes_def using readers_ok_schedule [OF _ assms(2-4)] assms(1) by blast

section \<open>The handlers\<close>

lemma wakes_exit:
  assumes ok: "kernel_ok L c k"
  shows "wakes k (exit_current ws tf k)"
proof -
  note o = kernel_okD [OF ok]
  have "readers_ok (zombified c k)" if "readers_ok k"
    unfolding zombified_def by (rule readers_ok_upd [OF that]) simp
  then have "readers_ok (departed c k)" if "readers_ok k"
    using that readers_ok_wakeup by (simp add: departed_def split: option.split)
  then have "wakes k (schedule ws tf (departed c k))" by (rule wakes_schedule) (use o(1,2,3) in simp_all)
  then show ?thesis using exit_departed [of k c ws tf] o(1,2,3) by simp
qed

lemma wakes_block:
  assumes ok: "kernel_ok L c k" and k1: "procs k1 = procs k" "current k1 = current k" "rx k1 = rx k"
    and ch: "ch = UartChan \<Longrightarrow> readers_ok k \<Longrightarrow> finished (rx k) = []"
  shows "wakes k (block_on ws ch tf k1)"
  unfolding block_on_def
proof (rule wakes_schedule [OF readers_ok_frame])
  note o = kernel_okD [OF ok]
  assume r: "readers_ok k"
  then have "readers_ok k1" using readers_ok_cong k1 by blast
  then show "readers_ok (sleep_on ch k1)"
    unfolding sleep_on_def k1(2) o(3) option.case by (rule readers_ok_upd) (use ch r k1(3) in auto)
qed (use k1 kernel_okD(1,2,3) [OF ok] in \<open>simp_all add: sleep_on_def\<close>)

lemma rx_free [simp]: "rx (free_proc L i k) = rx k"
  by (simp add: free_proc_def release_stack_def release_space_def Let_def)

lemma wakes_wait:
  assumes ok: "kernel_ok L c k"
  shows "wakes k (sys_wait L ws (ProcFrame c) k)"
proof -
  note o = kernel_okD [OF ok]
  let ?P = "\<lambda>p. child_of (pid (procs k ! c)) p \<and> state p = PROC_ZOMBIE"
  show ?thesis
  proof (cases "find_index ?P (procs k)")
    case None
    have "wakes k (block_on ws (ProcChan c) (ProcFrame c) k)" by (rule wakes_block [OF ok]) simp_all
    then show ?thesis using None wakes_ret by (simp add: sys_wait_def with_current_ok [OF ok] Let_def)
  next
    case (Some i)
    then have i: "i < 64" "?P (procs k ! i)" using find_index_Some [of ?P "procs k" i] o(1) by auto
    then have "state (procs k ! i) \<noteq> PROC_UNUSED" by simp
    note r = free_proc_reap [OF o(10) i(1) this]
    have "state (scrubbed p) \<noteq> PROC_BLOCKED" for p by (simp add: scrubbed_def)
    then have "no_new_sleeper (procs k) (procs (free_proc L i k))" unfolding r(2) by (intro no_new_sleeper_upd) simp
    then have "readers_ok k \<Longrightarrow> readers_ok (free_proc L i k)" by (rule readers_ok_idem [rotated 2]) simp_all
    then show ?thesis using Some wakes_ret by (simp add: sys_wait_def with_current_ok [OF ok] Let_def)
  qed
qed

lemma wakes_sbrk:
  assumes ok: "kernel_ok L c k"
  shows "wakes k (sys_sbrk L (ProcFrame c) k)"
proof -
  obtain v k' where run: "sys_sbrk L (ProcFrame c) k = ret (ProcFrame c) v k'" and out: "sbrk_outcome L c k v k'"
    using sys_sbrk_outcome [OF ok] by blast
  have "readers_ok (upd_proc c (\<lambda>p. p\<lparr>heap_break := b\<rparr>) (k\<lparr>mem := m\<rparr>))" "readers_ok (k\<lparr>mem := m\<rparr>)" if "readers_ok k" for b m
    by (rule readers_ok_idem [OF that]; auto intro: no_new_sleeper_upd)+
  then have "readers_ok k \<Longrightarrow> readers_ok k'"
    using out unfolding sbrk_outcome_def Let_def by (auto split: if_splits)
  then show ?thesis unfolding run by (rule wakes_ret)
qed

lemma wakes_exec:
  assumes L: "layout_ok L" and ok: "kernel_ok L c k"
  shows "wakes k (sys_exec L (ProcFrame c) k)"
proof -
  note o = kernel_okD [OF ok]
  have "wakes k (exec_image L (ProcFrame c) c elf k)" for elf
    using assms
  proof (cases rule: exec_image_cases [where tf = "ProcFrame c" and elf = elf])
    case (execed k')
    note e = execed(2) [unfolded execed_def Let_def]
    obtain entry brk where p: "procs k' ! c =
        loaded_process entry (page_up brk) ((procs k ! c)\<lparr>page_table := page_table (procs k' ! c)\<rparr>)"
      using e by blast
    have "procs k' = (procs k)[c := procs k' ! c]" using e by blast
    moreover have "no_new_sleeper (procs k) ((procs k)[c := procs k' ! c])"
      by (rule no_new_sleeper_upd) (subst (asm) p, simp add: loaded_process_def o(4))
    ultimately have "no_new_sleeper (procs k) (procs k')" by simp
    then have "readers_ok k \<Longrightarrow> readers_ok k'" by (rule readers_ok_idem [rotated 2]) (use e in blast)+
    then show ?thesis unfolding execed(1) by (simp add: wakes_def)
  qed simp
  then show ?thesis
    by (auto simp: sys_exec_eq [OF o(3)] Let_def intro!: wakes_bind wakes_ret)
qed

lemma wakes_fork:
  assumes L: "layout_ok L" and ok: "kernel_ok L c k"
  shows "wakes k (sys_fork L (ProcFrame c) k)"
  using assms
proof (cases rule: sys_fork_cases)
  case (again k')
  note n = again(2) [unfolded no_process_def] and o = kernel_okD [OF ok]
  have "no_new_sleeper (procs k) (procs k')"
    unfolding no_new_sleeper_def
  proof (intro conjI allI impI)
    fix i assume i: "i < length (procs k)" "state (procs k' ! i) = PROC_BLOCKED" "chan (procs k' ! i) = UartChan"
    have "if state (procs k ! i) = PROC_UNUSED then state (procs k' ! i) = PROC_UNUSED else procs k' ! i = procs k ! i"
      using n i(1) o(1) by simp
    then show "state (procs k ! i) = PROC_BLOCKED" "chan (procs k ! i) = UartChan" using i(2,3) by (simp_all split: if_splits)
  qed (use n in blast)
  then have "readers_ok k \<Longrightarrow> readers_ok k'"
    by (rule readers_ok_idem [rotated 2]) (use n in \<open>simp_all add: same_rest_def\<close>)
  then show ?thesis unfolding again(1) by (rule wakes_ret)
next
  case (forked n k')
  note e = forked(2) [unfolded forked_def Let_def forked_child_def] and o = kernel_okD [OF ok]
  let ?pc = "(procs k ! c)\<lparr>frame := (frame (procs k ! c))\<lparr>tf_a0 := scast (next_pid k)\<rparr>\<rparr>"
  have ps: "procs k' = (procs k)[c := ?pc, n := procs k' ! n]" and kid: "state (procs k' ! n) = PROC_READY"
    and rx: "rx k' = rx k" using e by blast+
  have "no_new_sleeper (procs k) ((procs k)[c := ?pc])" by (rule no_new_sleeper_upd) simp
  moreover have "no_new_sleeper ((procs k)[c := ?pc]) ((procs k)[c := ?pc, n := procs k' ! n])"
    by (rule no_new_sleeper_upd) (simp add: kid)
  ultimately have "no_new_sleeper (procs k) ((procs k)[c := ?pc, n := procs k' ! n])" by (rule no_new_sleeper_trans)
  then have "no_new_sleeper (procs k) (procs k')" by (simp only: ps [symmetric])
  then have "readers_ok k \<Longrightarrow> readers_ok k'" by (rule readers_ok_idem [rotated 2]) (simp_all add: rx)
  then show ?thesis unfolding forked(1) by (simp add: wakes_def)
qed simp

text \<open>Reading the console: without a line the process sleeps, with one nobody else does.\<close>

lemma uart_getc_ok:
  assumes "uart_ok u" "uart_getc u = (ch, u')"
  shows "uart_ok u'"
proof (cases "finished u")
  case Nil
  then show ?thesis using uart_getc_refines(1) [OF assms(1)] assms by simp
next
  case (Cons b q)
  then show ?thesis using uart_getc_refines(2) [OF assms(1) Cons] assms(2) by auto
qed

lemma console_more_uart_ok:
  "console_more buf left n k = Inr (v, k') \<Longrightarrow> uart_ok (rx k) \<Longrightarrow> uart_ok (rx k') \<and> procs k' = procs k"
proof (induction buf left n k arbitrary: v k' rule: console_more.induct)
  case (2 buf left n k)
  obtain ch u where g: "uart_getc (rx k) = (ch, u)" by fastforce
  have u: "uart_ok u" by (rule uart_getc_ok [OF "2.prems"(2) g])
  have "uart_ok (rx k') \<and> procs k' = procs k" if "console_more buf left (n + 1) (k\<lparr>rx := u, mem := m\<rparr>) = Inr (v, k')"
    "ch \<noteq> -1" "user_store (satp k) (buf + ucast n) (of_int ch) (mem k) = Inr m"
    "user_load (mem k) (satp k) (buf + ucast (n - 1)) = Inr l" "l \<noteq> newline" for m l
    using "2.IH" [OF that(5) g [symmetric] that(2) that(1)] u by simp
  then show ?case using "2.prems" g u
    by (auto simp: bind_stop_Inr_iff split: if_splits)
qed simp

lemma wakes_console_read:
  assumes ok: "kernel_ok L c k"
  shows "wakes k (console_read ws tf buf count k)"
proof (cases "readers_ok k")
  case r: True
  then have uo: "uart_ok (rx k)" by (rule readers_ok_rx)
  obtain ch u where g: "uart_getc (rx k) = (ch, u)" by fastforce
  show ?thesis
  proof (cases "finished (rx k)")
    case Nil
    then have "ch = -1" "u = rx k" using uart_getc_refines(1) [OF uo Nil] g by simp_all
    moreover have "wakes k (block_on ws UartChan tf k)" by (rule wakes_block [OF ok]) (simp_all add: Nil)
    ultimately show ?thesis using g wakes_ret by (simp add: console_read_def)
  next
    case (Cons b q)
    obtain u1 where "uart_getc (rx k) = (uint b, u1)" "uart_ok u1" using uart_getc_refines(2) [OF uo Cons] by blast
    then have "ch = uint b" "uart_ok u" using g by simp_all
    moreover have "uint b \<noteq> -1" using uint_ge_0 [of b] by linarith
    ultimately have "ch \<noteq> -1" by simp
    have "wakes k (ret tf v k1)" if "console_more b n 1 (k\<lparr>rx := u, mem := m\<rparr>) = Inr (w, k1)" for v w b n m k1
    proof -
      have "uart_ok (rx k1)" "procs k1 = procs k" using console_more_uart_ok [OF that] \<open>uart_ok u\<close> by simp_all
      then show ?thesis using readers_ok_line [OF r] Cons by (intro wakes_ret) simp_all
    qed
    then show ?thesis using g \<open>ch \<noteq> -1\<close> wakes_ret by (auto simp: console_read_def intro!: wakes_bind)
  qed
qed (simp add: wakes_def)

lemma copy_to_user_rx: "copy_to_user d s n k = Inr k' \<Longrightarrow> rx k' = rx k \<and> procs k' = procs k"
proof -
  have "case copy_to_user d s n k of Inl _ \<Rightarrow> True | Inr k' \<Rightarrow> rx k' = rx k \<and> procs k' = procs k"
    unfolding copy_to_user_def
    by (rule for_each_rule [where I = "\<lambda>_ k'. rx k' = rx k \<and> procs k' = procs k"]) (auto simp: bind_stop_Inr_iff)
  then show "copy_to_user d s n k = Inr k' \<Longrightarrow> rx k' = rx k \<and> procs k' = procs k" by simp
qed

lemma wakes_read:
  assumes ok: "kernel_ok L c k"
  shows "wakes k (sys_read ws tf k)"
proof -
  have "wakes k (ret tf v (upd_file c fd g k1))" if "copy_to_user d s n k = Inr k1" for v fd g d s n k1
    using copy_to_user_rx [OF that] readers_ok_cong by (intro wakes_ret readers_ok_file) blast
  then have "wakes k (ramdisk_read tf c fd buf count k)" for fd buf count
    using wakes_ret by (auto simp: ramdisk_read_def Let_def intro!: wakes_bind)
  then show ?thesis using wakes_console_read [OF ok] wakes_ret
    by (auto simp: sys_read_def with_current_ok [OF ok] Let_def split: option.splits)
qed

lemma console_write_rx: "console_write buf n k = Inr k' \<Longrightarrow> rx k' = rx k \<and> procs k' = procs k"
proof -
  have "case console_write buf n k of Inl _ \<Rightarrow> True | Inr k' \<Rightarrow> rx k' = rx k \<and> procs k' = procs k"
    unfolding console_write_def
    by (rule for_each_rule [where I = "\<lambda>_ k'. rx k' = rx k \<and> procs k' = procs k"]) (auto simp: bind_stop_Inr_iff)
  then show "console_write buf n k = Inr k' \<Longrightarrow> rx k' = rx k \<and> procs k' = procs k" by simp
qed

lemma wakes_write:
  assumes ok: "kernel_ok L c k"
  shows "wakes k (sys_write tf k)"
proof -
  have "wakes k (ret tf v k1)" if "console_write buf n k = Inr k1" for v buf n k1
    using console_write_rx [OF that] readers_ok_cong by (intro wakes_ret) blast
  then show ?thesis using wakes_ret
    by (auto simp: sys_write_def with_current_ok [OF ok] Let_def intro!: wakes_bind split: option.splits)
qed

section \<open>Every trap\<close>

interpretation readers: trap_contract L "running_ok L" "\<lambda>c. wakes" for L
proof
  fix c k f out res
  let ?k = "(upd_frame (ProcFrame c) f k)\<lparr>console := out\<rparr>"
  show "running_ok L c k \<Longrightarrow> keeps_request f \<Longrightarrow> running_ok L c ?k" by (rule safe.pre_entered)
  have "readers_ok ?k" if "readers_ok k"
    by (rule readers_ok_cong [OF readers_ok_frame [OF that, of "ProcFrame c" f]]) simp_all
  then show "wakes ?k res \<Longrightarrow> wakes k res" unfolding wakes_def by blast
next
  fix c k inp code assume "running_ok L c k"
  then have ok: "kernel_ok L c k" by simp
  have "wakes k (schedule ws (ProcFrame c) (k\<lparr>timer := t\<rparr>))" for ws t
    by (rule wakes_schedule [OF readers_ok_cong]) (use kernel_okD(1,2,3) [OF ok] in simp_all)
  then show "wakes k (interrupt inp code (ProcFrame c) k)"
    using readers_ok_plic by (simp add: interrupt_def wakes_def)
next
  fix c k assume "running_ok L c k"
  then have ok: "kernel_ok L c k" by simp
  show "wakes k (sys_putchar (ProcFrame c) k)"
    unfolding sys_putchar_def by (rule wakes_ret) (simp add: readers_ok_def)
  show "wakes k (sys_open L (ProcFrame c) k)"
    by (auto simp: sys_open_def with_current_ok [OF ok] Let_def intro!: wakes_bind wakes_ret readers_ok_file split: option.splits)
  show "wakes k (sys_close (ProcFrame c) k)"
    by (auto simp: sys_close_def with_current_ok [OF ok] Let_def intro!: wakes_ret readers_ok_file split: option.splits)
qed (auto intro: wakes_exit wakes_fork wakes_exec wakes_wait wakes_sbrk wakes_read wakes_write)

interpretation readers: system_invariant L "\<lambda>t c. readers_ok" for L
proof
  fix c k m f assume "readers_ok k"
  then have "readers_ok (k\<lparr>mem := m\<rparr>)" by (rule readers_ok_cong) simp_all
  then show "readers_ok (upd_frame (ProcFrame c) (\<lambda>_. f) (k\<lparr>mem := m\<rparr>))" by (rule readers_ok_frame)
next
  fix c k inp n k'
  assume "layout_ok L" "system_ok L c k" "readers_ok k" "\<not> from_supervisor (frame (procs k ! c))"
    "trap_handler L inp (ProcFrame c) k = Inr (ProcFrame n, k')"
  then show "readers_ok k'" using readers.trap [of L c k inp] system_okD(3) unfolding wakes_def by blast
qed

lemma kmain_readers:
  assumes L: "layout_ok L" and run: "kmain L now (power_on m) = Inr (q, k)"
  shows "readers_ok k"
proof -
  obtain a where a: "rx k = uart_reset" "kernel_ok L a k" "\<forall>i < 64. i \<noteq> a \<longrightarrow> state (procs k ! i) = PROC_UNUSED"
    using kmain_cases [OF L, of m now] run by auto
  note o = kernel_okD [OF a(2)]
  have "state (procs k ! i) \<noteq> PROC_BLOCKED" if "i < 64" for i using a(3) o(4) that by (cases "i = a") auto
  then show ?thesis using o(1) a(1) uart_reset_ok(1) by (auto simp: readers_ok_def in_set_conv_nth)
qed

section \<open>Properties\<close>

text \<open>
  C7: no wakeup of a console reader is lost. After boot the ring buffer is well formed and
  nobody sleeps beside a finished line, and in every state the system then reaches, whatever
  bytes arrive and in whatever order programs read, block, die and are scheduled, a process
  asleep on the console finds the ring without a finished line: when one is finished, all
  readers are woken.
\<close>
theorem console_readers_always_woken:
  assumes "layout_ok L"
  shows "(\<forall>now m q k. kmain L now (power_on m) = Inr (q, k) \<longrightarrow> readers_ok k) \<and>
    (\<forall>c0 k0 c k. system_ok L c0 k0 \<longrightarrow> readers_ok k0 \<longrightarrow> runs L c0 k0 c k \<longrightarrow> readers_ok k)"
  using kmain_readers [OF assms] readers.along [OF assms] unfolding runs_def by blast

lemma calling_readers: "readers_ok (calling num x y z)"
proof -
  have "rx (calling num x y z) = uart_reset" by (simp add: calling_def sample_machine_def power_on_def)
  moreover have "state (procs (calling num x y z) ! i) \<noteq> PROC_BLOCKED" if "i < 64" for i
  proof (cases "i = 0")
    case True
    then show ?thesis using kernel_okD(4) [OF calling_ok] by simp
  next
    case False
    then have "i \<notin> live (procs (calling num x y z))" using calling_live by simp
    then show ?thesis using that kernel_okD(1) [OF calling_ok] by (simp add: live_def)
  qed
  ultimately show ?thesis
    using uart_reset_ok(1) kernel_okD(1) [OF calling_ok] by (auto simp: readers_ok_def in_set_conv_nth)
qed

lemma console_readers_always_woken_witness:
  "\<exists>k. runs sample_layout 0 (calling 6 4096 0 0) 0 k \<and> readers_ok k"
proof -
  obtain k' where "trap_handler sample_layout inp (ProcFrame 0) (calling 6 4096 0 0) = Inr (ProcFrame 0, k')"
    using calling_sbrk by blast
  from runs_trap_start(2) [OF calling_user this] have "runs sample_layout 0 (calling 6 4096 0 0) 0 k'" .
  with console_readers_always_woken [OF sample_layout_ok] calling_system calling_readers show ?thesis by blast
qed

end
