(* ===== verification/Read_Spec.thy ===== *)
theory Read_Spec
  imports Read
begin

text \<open>
  What a \<open>read\<close> delivers. A descriptor of a ramdisk file hands over the next bytes of the file,
  a descriptor of the console one finished line; the bytes appear at the addresses of the
  buffer, as the process will load them, and no other byte of memory changes.
\<close>

section \<open>Delivery\<close>

text \<open>
  The bytes \<open>bs\<close> have been delivered to the buffer of process \<open>c\<close>: they are what user loads
  there find, and memory is otherwise unchanged.
\<close>

definition delivered :: "nat \<Rightarrow> kernel \<Rightarrow> u64 \<Rightarrow> u8 list \<Rightarrow> memory \<Rightarrow> bool" where
  "delivered c k buf bs m \<longleftrightarrow>
     (\<forall>j < length bs. user_load m (satp k) (buf + of_nat j) = Inr (bs ! j)) \<and>
     (\<forall>b. b \<notin> (\<lambda>j. user_addr (mem k) (page_table (procs k ! c)) (buf + of_nat j)) ` {..<length bs} \<longrightarrow>
        m b = mem k b)"

lemma delivered_copied:
  assumes ok: "kernel_ok L c k" and chk: "user_range_ok (mem k) (page_table (procs k ! c)) buf len PTE_W"
    and low: "unat buf + unat len \<le> 2 ^ 38" and n: "n \<le> unat len"
    and rd: "readable (mem k) (page_table (procs k ! c))"
    and c: "copied_out L (roots (procs k)) (stacks (procs k)) (page_table (procs k ! c)) (mem k) buf f n m"
  shows "delivered c k buf (map f [0..<n]) m"
proof -
  note o = kernel_okD [OF ok]
  note ow = spaces_okD(1) [OF o(6)] and r = current_root [OF ok]
  note cd = copied_outD [OF c]
  have "user_load m (satp k) (buf + of_nat j) = Inr (f j)" if "j < n" for j
    using access_written(2) [OF ow r chk low less_le_trans [OF that n] rd cd(1)] cd(2) [OF that] o(5) by simp
  then show ?thesis using cd(3) by (auto simp: delivered_def)
qed

text \<open>The kernel's own image is not among the frames of a process.\<close>

lemma image_not_user:
  assumes "wf_forest L m R" "r \<in> R" "page_base b \<le> image_end L"
  shows "page_base b \<notin> user_frames m r"
  using wf_above [OF assms(1,2)] assms(3) by (fastforce simp: user_frames_def)

lemma page_base_le: "page_base b \<le> b"
  by (simp add: page_base_def word_and_le2)

section \<open>Files\<close>

lemma ramdisk_read_delivers:
  assumes ok: "kernel_ok L c k" and chk: "user_range_ok (mem k) (page_table (procs k ! c)) buf (ucast count) PTE_W"
    and low: "unat buf + unat count \<le> 2 ^ 38" and rd: "readable (mem k) (page_table (procs k ! c))"
    and fl: "open_files (procs k ! c) ! fd = fl" and off: "f_offset fl \<le> f_size fl"
    and src: "unat (f_data fl) + unat (f_size fl) \<le> unat (image_end L)"
  defines "n \<equiv> min count (f_size fl - f_offset fl)"
  defines "bs \<equiv> map (\<lambda>j. mem k (f_data fl + of_nat (unat (f_offset fl) + j))) [0..<unat n]"
  shows "\<exists>m. ramdisk_read (ProcFrame c) c fd buf count k =
      ret (ProcFrame c) (ucast n) (upd_file c fd (\<lambda>g. g\<lparr>f_offset := f_offset g + n\<rparr>) (k\<lparr>mem := m\<rparr>)) \<and>
    delivered c k buf bs m"
proof -
  note o = kernel_okD [OF ok]
  note ow = spaces_okD(1) [OF o(6)] and r = current_root [OF ok]
  have low': "unat buf + unat (ucast count :: u64) \<le> 2 ^ 38" using low by simp
  have n_le: "unat n \<le> unat (ucast count :: u64)" unfolding n_def by (simp add: min_def word_le_nat_alt)
  have n_left: "unat n \<le> unat (f_size fl) - unat (f_offset fl)"
    unfolding n_def using off by (simp add: min_def word_le_nat_alt unat_sub)
  show ?thesis
  proof (cases "f_size fl - f_offset fl = 0")
    case True
    then have n0: "n = 0" by (simp add: n_def)
    have "upd_file c fd (\<lambda>g. g\<lparr>f_offset := f_offset g + 0\<rparr>) (k\<lparr>mem := mem k\<rparr>) = k"
      by (simp add: upd_file_def)
    moreover have "delivered c k buf [] (mem k)" by (simp add: delivered_def)
    ultimately show ?thesis using True fl n0
      by (intro exI [of _ "mem k"]) (simp add: ramdisk_read_def Let_def bs_def)
  next
    case False
    let ?src = "f_data fl + ucast (f_offset fl)"
    from copy_to_user_returns [OF ow r o(5) chk low' n_le rd] obtain k1 where
      run: "copy_to_user buf ?src (unat n) k = Inr k1" by blast
    obtain m f where k1: "k1 = k\<lparr>mem := m\<rparr>"
      and c: "copied_out L (roots (procs k)) (stacks (procs k)) (page_table (procs k ! c)) (mem k) buf f (unat n) m"
      and f: "(\<forall>j < unat n. page_base (?src + of_nat j) \<notin> user_frames (mem k) (page_table (procs k ! c))) \<longrightarrow>
        (\<forall>j < unat n. f j = mem k (?src + of_nat j))"
      using copy_to_user_out [OF ow r o(5) chk low' n_le run] by blast
    have at: "?src + of_nat j = f_data fl + of_nat (unat (f_offset fl) + j)" for j
      by (simp add: of_nat_unat)
    have layout_end: "unat (image_end L) < 2 ^ 64" using unsigned_less [of "image_end L"] by simp
    have img: "page_base (?src + of_nat j) \<notin> user_frames (mem k) (page_table (procs k ! c))" if "j < unat n" for j
    proof (rule image_not_user [OF spaces_okD(2) [OF o(6)] r])
      have "unat (f_data fl) + (unat (f_offset fl) + j) < unat (image_end L)"
        using that n_left src off by (simp add: word_le_nat_alt)
      then have "unat (?src + of_nat j) \<le> unat (image_end L)"
        unfolding at using layout_end by (subst unat_add_of_nat) simp_all
      then show "page_base (?src + of_nat j) \<le> image_end L"
        using page_base_le order_trans by (fastforce simp: word_le_nat_alt)
    qed
    have "map f [0..<unat n] = bs" using f img unfolding bs_def at by simp
    then have d: "delivered c k buf bs m" using delivered_copied [OF ok chk low' n_le rd c] by simp
    have "(if f_size fl - f_offset fl < count then f_size fl - f_offset fl else count) = n"
      unfolding n_def min_def by (auto simp: not_le not_less)
    then have "ramdisk_read (ProcFrame c) c fd buf count k =
        ret (ProcFrame c) (ucast n) (upd_file c fd (\<lambda>g. g\<lparr>f_offset := f_offset g + n\<rparr>) k1)"
      using False fl run by (simp add: ramdisk_read_def Let_def)
    then show ?thesis using k1 d by blast
  qed
qed

section \<open>The console\<close>

lemma console_read_delivers:
  assumes ok: "kernel_ok L c k" and chk: "user_range_ok (mem k) (page_table (procs k ! c)) buf (ucast count) PTE_W"
    and low: "unat buf + unat count \<le> 2 ^ 38" and rd: "readable (mem k) (page_table (procs k ! c))"
    and u: "uart_ok (rx k)" and line: "finished (rx k) \<noteq> []" and pos: "count \<noteq> 0"
  defines "bs \<equiv> first_line (unat count) (finished (rx k))"
  shows "\<exists>m u'. console_read ws (ProcFrame c) buf count k = ret (ProcFrame c) (of_nat (length bs)) (k\<lparr>rx := u', mem := m\<rparr>) \<and>
    delivered c k buf bs m \<and> finished (rx k) = bs @ finished u' \<and> uart_ok u'"
proof -
  note o = kernel_okD [OF ok]
  note ow = spaces_okD(1) [OF o(6)] and r = current_root [OF ok]
  let ?len = "ucast count :: u64"
  have low': "unat buf + unat ?len \<le> 2 ^ 38" using low by simp
  have p: "0 < unat ?len" using pos by (simp add: unat_gt_0)
  obtain b q where q: "finished (rx k) = b # q" using line by (cases "finished (rx k)") auto
  obtain u1 where g: "uart_getc (rx k) = (uint b, u1)" "uart_ok u1" "finished u1 = q"
    using uart_getc_refines(2) [OF u q] by blast
  have nb: "uint b \<noteq> -1" "(of_int (uint b) :: u8) = b" using uint_ge_0 [of b] by (linarith, simp)
  obtain m where st: "user_store (satp k) buf b (mem k) = Inr m"
    using access_written(1) [OF ow r chk low' p rd written_refl [OF ow], of b] o(5) by auto
  let ?k1 = "k\<lparr>rx := u1, mem := m\<rparr>"
  obtain y where y: "console_more buf (unat ?len - 1) 1 ?k1 = Inr y"
  proof -
    have "copied_out L (roots (procs k)) (stacks (procs k)) (page_table (procs k ! c)) (mem k) buf
        ((\<lambda>_. 0)(0 := b)) (unat (1 :: u32)) (mem ?k1)"
      unfolding unat_1 One_nat_def
      using copied_out_store [OF ow r chk low' p copied_out_0 [OF ow]] st o(5) by simp
    then show thesis
      using that console_more_returns [OF ow r chk low' len_small rd, of "(\<lambda>_. 0)(0 := b)" 1 ?k1 "unat ?len - 1"] p o(5)
      by auto
  qed
  obtain n k' where run: "console_more buf (unat ?len - 1) 1 ?k1 = Inr (n, k')" using y by (cases y) auto
  obtain m' u' f where k': "k' = k\<lparr>rx := u', mem := m'\<rparr>" and n: "1 \<le> unat n" "unat n \<le> unat ?len"
    and c: "copied_out L (roots (procs k)) (stacks (procs k)) (page_table (procs k ! c)) (mem k) buf f (unat n) m'"
    and f0: "f 0 = b"
    and rest: "map f [1..<unat n] = (if b = newline then [] else first_line (unat ?len - 1) q)"
      "q = map f [1..<unat n] @ finished u'" "uart_ok u'"
    using console_more_ok [OF ok chk low' len_small p st run] g(2,3) by blast
  obtain l where l: "unat count = Suc l" using p by (cases "unat count") auto
  have all: "map f [0..<unat n] = b # map f [1..<unat n]"
    using n(1) f0 by (simp add: upt_conv_Cons)
  also have "\<dots> = bs" unfolding rest(1) bs_def q using l by simp
  finally have bs: "map f [0..<unat n] = bs" .
  have "delivered c k buf bs m'" using delivered_copied [OF ok chk low' n(2) rd c] bs by simp
  moreover have "finished (rx k) = bs @ finished u'" unfolding q using rest(2) all bs by (metis append_Cons)
  moreover have "ucast n = (of_nat (length bs) :: u64)" using arg_cong [OF bs, of length] by (metis diff_zero length_map length_upt of_nat_unat)
  then have "console_read ws (ProcFrame c) buf count k = ret (ProcFrame c) (of_nat (length bs)) (k\<lparr>rx := u', mem := m'\<rparr>)"
    using pos g(1) nb st run k' by (simp add: console_read_def)
  ultimately show ?thesis using rest(3) by blast
qed

section \<open>A machine with files\<close>

text \<open>
  The sample machine about to execute \<open>read\<close> or \<open>write\<close>: descriptor 3 is open on a file of
  five bytes that lies at \<open>0x80208010\<close>, two of them read already; the console holds the
  finished line \<open>a\<close>; the buffer is at \<open>0x1004\<close>.
\<close>

definition sample_file :: file_t where
  "sample_file = \<lparr>f_type = FILE_TYPE_RAMDISK, f_offset = 2, f_size = 5, f_data = 0x80208010\<rparr>"

definition sample_rx :: uart where
  "sample_rx = uart_reset\<lparr>rx_buf := (replicate UART_RX_SIZE 0)[0 := 97, 1 := newline], rx_head := 2, rx_commit := 2\<rparr>"

definition io_machine :: "u64 \<Rightarrow> kernel" where
  "io_machine fd = (upd_frame (ProcFrame 0) (\<lambda>f. f\<lparr>tf_a0 := fd, tf_a1 := 0x1004, tf_a2 := 16\<rparr>)
     (upd_file 0 3 (\<lambda>_. sample_file) sample_machine))\<lparr>rx := sample_rx\<rparr>"

lemma sample_rx: "uart_ok sample_rx" "finished sample_rx = [97, newline]"
  by (simp_all add: uart_ok_def finished_def ring_slice_def sample_rx_def uart_reset_def
    upt_rec nth_list_update)

lemma io_machine_ok: "kernel_ok sample_layout 0 (io_machine fd)"
proof -
  let ?k = "upd_file 0 3 (\<lambda>_. sample_file) sample_machine"
  have 1: "kernel_ok sample_layout 0 ?k"
    by (rule own_step_ok(1) [OF sample_machine_ok own_step_files [OF sample_machine_ok]])
  have 2: "kernel_ok sample_layout 0 (upd_frame (ProcFrame 0) (\<lambda>f. f\<lparr>tf_a0 := fd, tf_a1 := 0x1004, tf_a2 := 16\<rparr>) ?k)"
    by (rule kernel_ok_frame [OF 1])
  show ?thesis unfolding io_machine_def
    by (rule own_step_ok(1) [OF 2 own_step_same [OF 2]]) simp_all
qed

lemma io_machine:
  "frame (procs (io_machine fd) ! 0) = zero_frame\<lparr>tf_a0 := fd, tf_a1 := 0x1004, tf_a2 := 16\<rparr>"
  "page_table (procs (io_machine fd) ! 0) = sample_root" "satp (io_machine fd) = MAKE_SATP sample_root"
  "rx (io_machine fd) = sample_rx" "mem (io_machine fd) = mem sample_machine" "current (io_machine fd) = Some 0"
  "open_files (procs (io_machine fd) ! 0) = (open_files sample_process)[3 := sample_file]"
  by (simp_all add: io_machine_def upd_file_def sample_machine_procs sample_process_def
    init_process_fds_def empty_process_def)

lemma sample_machine_leaf: "path_leaf (mem sample_machine) sample_root va = path_leaf sample_user sample_root va"
proof -
  obtain n m1 where al: "pmm_alloc_page sample_layout sample_user = (n, m1)" by fastforce
  have end_al: "page_aligned (image_end sample_layout)" by (rule wf_aligned [OF sample_user_space(1)])
  have "untouched sample_user m1 sample_root"
    by (rule untouched_bitmap [OF sample_user_space(1) singletonI same_except_alloc [OF end_al al]])
  from untouched_leaf [OF sample_user_space(1) singletonI this VPN_less] show ?thesis
    using al by (simp add: path_leaf_def sample_machine_def power_on_def)
qed

lemma sample_machine_wf:
  "wf_forest sample_layout (mem sample_machine) (roots (procs sample_machine))"
  "sample_root \<in> roots (procs sample_machine)"
  using spaces_okD(2) [OF kernel_okD(6) [OF sample_machine_ok]] current_root [OF sample_machine_ok]
  by (simp_all add: sample_machine_procs sample_process_def)

lemma sample_machine_buffer:
  "user_range_ok (mem sample_machine) sample_root 0x1004 16 need = user_range_ok sample_user sample_root 0x1004 16 need"
  unfolding user_range_ok_iff
  using user_page_ok_iff [OF sample_user_space(1) singletonI] user_page_ok_iff [OF sample_machine_wf] sample_machine_leaf by simp

lemma sample_machine_readable: "readable (mem sample_machine) sample_root"
  using sample_user_read_write by (simp add: readable_def sample_machine_leaf)

lemma io_machine_buffer:
  "user_range_ok (mem (io_machine fd)) (page_table (procs (io_machine fd) ! 0)) 0x1004 (ucast (16 :: u32)) PTE_W"
  "readable (mem (io_machine fd)) (page_table (procs (io_machine fd) ! 0))"
  using sample_range_ok sample_machine_buffer [of PTE_W] sample_machine_readable by (simp_all add: io_machine)

lemma io_machine_args:
  "0x1004 = tf_a1 (frame (procs (io_machine fd) ! 0))"
  "16 = (ucast (tf_a2 (frame (procs (io_machine fd) ! 0))) :: u32)"
  by (simp_all add: io_machine)

section \<open>Properties\<close>

text \<open>
  C19: reading a file. For a checked buffer, a \<open>read\<close> of an open ramdisk file returns the
  smaller of the requested length and what is left of the file, delivers that many bytes of
  the file from the current offset on, advances the offset past them, and changes no other
  byte of memory. The file lies in the kernel image, the buffer below the canonical limit,
  and the process has no write-only page.
\<close>
theorem read_hands_over_file:
  assumes "kernel_ok L c k" "f = frame (procs k ! c)" "buf = tf_a1 f" "count = ucast (tf_a2 f)"
    and "user_range_ok (mem k) (page_table (procs k ! c)) buf (ucast count) PTE_W"
    and "unat buf + unat (count :: u32) \<le> 2 ^ 38" "readable (mem k) (page_table (procs k ! c))"
    and "the_file k c (fd_arg f) = Some fl" "f_type fl = FILE_TYPE_RAMDISK" "f_offset fl \<le> f_size fl"
    and "unat (f_data fl) + unat (f_size fl) \<le> unat (image_end L)"
    and "n = min count (f_size fl - f_offset fl)"
  shows "\<exists>m. sys_read ws (ProcFrame c) k = ret (ProcFrame c) (ucast n)
        (upd_file c (nat (fd_arg f)) (\<lambda>g. g\<lparr>f_offset := f_offset g + n\<rparr>) (k\<lparr>mem := m\<rparr>)) \<and>
      delivered c k buf (map (\<lambda>j. mem k (f_data fl + of_nat (unat (f_offset fl) + j))) [0..<unat n]) m"
proof -
  have fl: "open_files (procs k ! c) ! nat (fd_arg f) = fl"
    using assms(8) by (auto simp: the_file_def Let_def split: if_splits)
  have "sys_read ws (ProcFrame c) k = ramdisk_read (ProcFrame c) c (nat (fd_arg f)) buf count k"
    using assms(2-5,8,9) by (simp add: sys_read_def with_current_ok [OF assms(1)] Let_def)
  then show ?thesis unfolding assms(12)
    using ramdisk_read_delivers [OF assms(1,5,6,7) fl assms(10,11)] by (simp only:)
qed

lemma read_hands_over_file_witness:
  "\<exists>m k'. sys_read [] (ProcFrame 0) (io_machine 3) = ret (ProcFrame 0) 3 k' \<and>
     user_load m (MAKE_SATP sample_root) 0x1006 = Inr (mem sample_machine 0x80208014) \<and> mem k' = m"
proof -
  have fd: "fd_arg (frame (procs (io_machine 3) ! 0)) = 3" by (simp add: fd_arg_def io_machine)
  have fl: "the_file (io_machine 3) 0 (fd_arg (frame (procs (io_machine 3) ! 0))) = Some sample_file"
    unfolding fd by (simp add: the_file_def io_machine sample_file_def sample_process_def init_process_fds_def empty_process_def)
  have n: "(3 :: u32) = min 16 (f_size sample_file - f_offset sample_file)" by (simp add: sample_file_def)
  obtain m where m: "sys_read [] (ProcFrame 0) (io_machine 3) = ret (ProcFrame 0) (ucast (3 :: u32))
        (upd_file 0 (nat (fd_arg (frame (procs (io_machine 3) ! 0)))) (\<lambda>g. g\<lparr>f_offset := f_offset g + 3\<rparr>)
          ((io_machine 3)\<lparr>mem := m\<rparr>))"
      "delivered 0 (io_machine 3) 0x1004
         (map (\<lambda>j. mem (io_machine 3) (f_data sample_file + of_nat (unat (f_offset sample_file) + j))) [0..<unat (3 :: u32)]) m"
    using read_hands_over_file [OF io_machine_ok refl io_machine_args io_machine_buffer(1) _ io_machine_buffer(2) fl _ _ _ n, of "[]"]
    by (auto simp: sample_file_def sample_layout_def)
  have "user_load m (MAKE_SATP sample_root) (0x1004 + of_nat 2) = Inr (mem sample_machine (0x80208010 + of_nat (2 + 2)))"
    using spec [OF conjunct1 [OF m(2) [unfolded delivered_def io_machine]], of 2] by (simp add: sample_file_def)
  then show ?thesis using m(1) by (intro exI conjI) (auto simp: upd_file_def)
qed

text \<open>
  C18: reading the console. For a checked buffer, a \<open>read\<close> of the console blocks exactly when
  no finished line is there; otherwise it returns the first finished line, cut off at the
  requested length, delivers its bytes, takes exactly them out of the receive ring, and
  changes no other byte of memory.
\<close>
theorem read_takes_a_line:
  assumes "kernel_ok L c k" "f = frame (procs k ! c)" "buf = tf_a1 f" "count = ucast (tf_a2 f)"
    and "user_range_ok (mem k) (page_table (procs k ! c)) buf (ucast count) PTE_W"
    and "unat buf + unat (count :: u32) \<le> 2 ^ 38" "readable (mem k) (page_table (procs k ! c))"
    and "the_file k c (fd_arg f) = Some fl" "f_type fl = FILE_TYPE_CONSOLE" "uart_ok (rx k)" "count \<noteq> 0"
    and "bs = first_line (unat count) (finished (rx k))"
  shows "if finished (rx k) = [] then sys_read ws (ProcFrame c) k = block_on ws UartChan (ProcFrame c) k
    else \<exists>m u. sys_read ws (ProcFrame c) k = ret (ProcFrame c) (of_nat (length bs)) (k\<lparr>rx := u, mem := m\<rparr>) \<and>
      delivered c k buf bs m \<and> finished (rx k) = bs @ finished u \<and> uart_ok u"
proof -
  have run: "sys_read ws (ProcFrame c) k = console_read ws (ProcFrame c) buf count k"
    using assms(2-5,8,9) by (simp add: sys_read_def with_current_ok [OF assms(1)] Let_def)
  show ?thesis
  proof (cases "finished (rx k) = []")
    case True
    then show ?thesis using run assms(11) uart_getc_refines(1) [OF assms(10)] by (simp add: console_read_def)
  next
    case False
    from console_read_delivers [OF assms(1,5,6,7,10) this assms(11)] show ?thesis
      using False unfolding run assms(12) by (simp only: if_False simp_thms)
  qed
qed

lemma read_takes_a_line_witness:
  "\<exists>m u k'. sys_read [] (ProcFrame 0) (io_machine 0) = ret (ProcFrame 0) 2 k' \<and> mem k' = m \<and>
     user_load m (MAKE_SATP sample_root) 0x1004 = Inr 97 \<and> finished (rx k') = []"
proof -
  have fd: "fd_arg (frame (procs (io_machine 0) ! 0)) = 0" by (simp add: fd_arg_def io_machine)
  obtain fl where fl: "the_file (io_machine 0) 0 (fd_arg (frame (procs (io_machine 0) ! 0))) = Some fl"
    "f_type fl = FILE_TYPE_CONSOLE"
    unfolding fd by (simp add: the_file_def io_machine sample_file_def sample_process_def init_process_fds_def empty_process_def console_file_def)
  have rx: "uart_ok (rx (io_machine 0))" "finished (rx (io_machine 0)) = [97, newline]"
    unfolding io_machine by (rule sample_rx)+
  have bs: "[97, newline] = first_line (unat (16 :: u32)) (finished (rx (io_machine 0)))"
    using first_line.simps(3) [of 15 97 "[newline]"] first_line.simps(3) [of 14 newline "[]"]
    unfolding rx by simp
  obtain m u where m: "sys_read [] (ProcFrame 0) (io_machine 0) = ret (ProcFrame 0) 2 ((io_machine 0)\<lparr>rx := u, mem := m\<rparr>)"
      "delivered 0 (io_machine 0) 0x1004 [97, newline] m" "finished u = []"
    using read_takes_a_line [OF io_machine_ok refl io_machine_args io_machine_buffer(1) _ io_machine_buffer(2) fl rx(1) _ bs, of "[]"] rx(2) by auto
  have "user_load m (MAKE_SATP sample_root) (0x1004 + of_nat 0) = Inr ([97, newline] ! 0)"
    using spec [OF conjunct1 [OF m(2) [unfolded delivered_def io_machine]], of 0] by simp
  then show ?thesis using m(1,3) by auto
qed

end
