(* ===== verification/Write_Spec.thy ===== *)
theory Write_Spec
  imports Read_Spec
begin

text \<open>
  \<open>SYS_WRITE\<close> in full: which error it answers, and that a write to the console sends exactly the
  bytes of the buffer, as the process sees them.
\<close>

section \<open>A checked load\<close>

lemma readable_load:
  assumes wf: "wf_forest L m R" and r: "r \<in> R" and chk: "user_range_ok m r va len PTE_R"
    and low: "unat va + unat len \<le> 2 ^ 38" and i: "i < unat len"
  shows "user_load m (MAKE_SATP r) (va + of_nat i) = Inr (m (user_addr m r (va + of_nat i)))"
proof -
  let ?a = "va + of_nat i"
  let ?e = "path_leaf m r ?a"
  have "user_page_ok m r PTE_R (page_base ?a)"
    using chk page_in_low_range [OF low i] unfolding user_range_ok_iff by blast
  then have e: "has ?e PTE_V" "has ?e PTE_U" "has ?e PTE_R"
    using user_page_ok_iff [OF wf r] by (simp_all add: has_flags bit_flags)
  have uf: "user_frame ?e = Some (PTE_TO_PA ?e)" using e by (simp add: user_frame_def is_leaf_def)
  have "unat ?a = unat va + i" using low i by (intro unat_add_of_nat) simp
  then have "unat ?a < 2 ^ 38" using low i by simp
  then have "translate m (MAKE_SATP r) Load ?a = Some (user_addr m r ?a)"
    using translate_leaf [OF wf r _ e(1) _ e(3), of Load] uf e(3) by simp
  then show ?thesis by (simp add: user_load_def)
qed

section \<open>The console\<close>

text \<open>The first \<open>n\<close> bytes of a buffer of the current process.\<close>

definition buffer_bytes :: "nat \<Rightarrow> kernel \<Rightarrow> u64 \<Rightarrow> nat \<Rightarrow> u8 list" where
  "buffer_bytes c k buf n =
     map (\<lambda>i. mem k (user_addr (mem k) (page_table (procs k ! c)) (buf + of_nat i))) [0..<n]"

lemma console_write_sends:
  assumes ok: "kernel_ok L c k" and chk: "user_range_ok (mem k) (page_table (procs k ! c)) buf len PTE_R"
    and low: "unat buf + unat len \<le> 2 ^ 38"
  shows "console_write buf (unat len) k = Inr (k\<lparr>console := console k @ buffer_bytes c k buf (unat len)\<rparr>)"
proof -
  note o = kernel_okD [OF ok]
  let ?b = "\<lambda>i. mem k (user_addr (mem k) (page_table (procs k ! c)) (buf + of_nat i))"
  let ?I = "\<lambda>ys s. s = k\<lparr>console := console k @ map ?b ys\<rparr>"
  have load: "user_load (mem k) (satp k) (buf + of_nat i) = Inr (?b i)" if "i < unat len" for i
    unfolding o(5) by (rule readable_load [OF spaces_okD(2) [OF o(6)] current_root [OF ok] chk low that])
  have "case console_write buf (unat len) k of Inl r \<Rightarrow> False | Inr s \<Rightarrow> ?I [0..<unat len] s"
    unfolding console_write_def
  proof (rule for_each_rule [where I = ?I])
    fix ys x zs s r assume xs: "[0..<unat len] = ys @ x # zs" and s: "?I ys s"
    have "x \<in> set [0..<unat len]" unfolding xs by simp
    then have ld: "user_load (mem s) (satp s) (buf + of_nat x) = Inr (?b x)" using load s by simp
    show False
      if "bind_stop (user_load (mem s) (satp s) (buf + of_nat x)) (\<lambda>b. Inr (say_byte b s)) = Inl r"
      using that ld by simp
    show "?I (ys @ [x]) s'"
      if "bind_stop (user_load (mem s) (satp s) (buf + of_nat x)) (\<lambda>b. Inr (say_byte b s)) = Inr s'" for s'
      using that ld s by (auto simp: say_byte_def sbi_putchar_def)
  qed simp
  then show ?thesis by (auto simp: buffer_bytes_def split: sum.splits)
qed

lemma sys_write_answers:
  assumes "kernel_ok L c k" "f = frame (procs k ! c)" "buf = tf_a1 f" "count = ucast (tf_a2 f)"
    and "unat buf + unat (count :: u32) \<le> 2 ^ 38"
  shows "sys_write (ProcFrame c) k =
    (if \<not> user_range_ok (mem k) (page_table (procs k ! c)) buf (ucast count) PTE_R then ret (ProcFrame c) E_FAULT k
     else case the_file k c (fd_arg f) of
         None \<Rightarrow> ret (ProcFrame c) E_BADF k
       | Some fl \<Rightarrow>
           if f_type fl = FILE_TYPE_CONSOLE
           then ret (ProcFrame c) (ucast count) (k\<lparr>console := console k @ buffer_bytes c k buf (unat count)\<rparr>)
           else ret (ProcFrame c) (if f_type fl = FILE_TYPE_RAMDISK then E_PERM else E_BADF) k)"
proof -
  have "console_write buf (unat count) k = Inr (k\<lparr>console := console k @ buffer_bytes c k buf (unat count)\<rparr>)"
    if "user_range_ok (mem k) (page_table (procs k ! c)) buf (ucast count) PTE_R"
    using console_write_sends [OF assms(1) that] assms(5) by simp
  then show ?thesis using assms(2-4)
    by (simp add: sys_write_def with_current_ok [OF assms(1)] Let_def split: option.split)
qed

text \<open>
  What the check decides, in terms of the page table: the buffer is not null, and every page it
  touches has a leaf that is valid and lets the user read.
\<close>

definition readable_page :: "memory \<Rightarrow> u64 \<Rightarrow> u64 \<Rightarrow> bool" where
  "readable_page m r p \<longleftrightarrow> has (path_leaf m r p) PTE_V \<and> has (path_leaf m r p) PTE_U \<and> has (path_leaf m r p) PTE_R"

definition readable_buffer :: "nat \<Rightarrow> kernel \<Rightarrow> u64 \<Rightarrow> nat \<Rightarrow> bool" where
  "readable_buffer c k buf n \<longleftrightarrow> buf \<noteq> 0 \<and>
     (\<forall>i < n. readable_page (mem k) (page_table (procs k ! c)) (page_base (buf + of_nat i))) \<and>
     (n = 0 \<longrightarrow> page_aligned buf \<or> readable_page (mem k) (page_table (procs k ! c)) (page_base buf))"

text \<open>The pages of a range, one for each of its bytes; an empty range inside a page has that page.\<close>

lemma pages_in_bytes:
  assumes low: "unat va + unat len \<le> 2 ^ 38"
  shows "pages_in (page_base va) (page_up (va + len)) =
    (\<lambda>i. page_base (va + of_nat i)) ` {..<unat len} \<union> (if unat len = 0 \<and> \<not> page_aligned va then {page_base va} else {})"
    (is "?P = ?B \<union> ?Z")
proof -
  have sum: "unat (va + len) = unat va + unat len" using low by (intro unat_add_nowrap) (simp add: word_less_nat_alt unat_word_ariths)
  have up: "unat (page_up (va + len)) = (unat va + unat len + 4095) div 4096 * 4096"
    using unat_page_up [of "va + len"] sum low by simp
  have al: "page_aligned va \<longleftrightarrow> 4096 dvd unat va" by (simp add: page_aligned_unat)
  show ?thesis
  proof (intro set_eqI iffI)
    fix p assume "p \<in> ?P"
    then obtain x where x: "unat p = 4096 * x" "unat va div 4096 \<le> x" "4096 * x < (unat va + unat len + 4095) div 4096 * 4096"
      by (auto simp: pages_in_def word_le_nat_alt word_less_nat_alt unat_page_base up page_aligned_unat dvd_def)
    have "x < (unat va + unat len + 4095) div 4096" using x(3) by simp
    then have lt: "4096 * x < unat va + unat len" by linarith
    show "p \<in> ?B \<union> ?Z"
    proof (cases "x = unat va div 4096")
      case True
      then have p: "p = page_base va" using x(1) by (simp add: word_unat_eq_iff unat_page_base)
      show ?thesis
      proof (cases "unat len = 0")
        case True
        then have "\<not> page_aligned va" using lt x(1) \<open>x = _\<close> by (auto simp: al)
        then show ?thesis using True p by simp
      next
        case False
        then have "page_base (va + of_nat 0) \<in> ?B" by blast
        then show ?thesis using p by simp
      qed
    next
      case False
      then have ge: "unat va \<le> 4096 * x" using x(2) by linarith
      let ?i = "4096 * x - unat va"
      have i: "?i < unat len" using ge lt by linarith
      have "unat (va + of_nat ?i) = 4096 * x" using unat_add_of_nat [of va ?i] ge i low by simp
      then have "va + of_nat ?i = p" using x(1) by (simp add: word_unat_eq_iff)
      moreover have "page_base p = p" using x(1) by (simp add: word_unat_eq_iff unat_page_base)
      ultimately have "p = page_base (va + of_nat ?i)" by simp
      then show ?thesis using i by blast
    qed
  next
    fix p assume "p \<in> ?B \<union> ?Z"
    then consider i where "i < unat len" "p = page_base (va + of_nat i)" | "unat len = 0" "\<not> page_aligned va" "p = page_base va"
      by (auto split: if_splits)
    then show "p \<in> ?P"
    proof cases
      case 1
      then show ?thesis using page_in_low_range [OF low 1(1)] by simp
    next
      case 2
      then have "unat va mod 4096 \<noteq> 0" by (simp add: al mod_eq_0_iff_dvd)
      moreover have "unat va = unat va div 4096 * 4096 + unat va mod 4096" by simp
      ultimately have "(unat va div 4096 + 1) * 4096 \<le> unat va + 4095" unfolding add_mult_distrib by linarith
      then have "unat va div 4096 + 1 \<le> (unat va + 4095) div 4096" by (simp add: less_eq_div_iff_mult_less_eq)
      then show ?thesis using 2 by (simp add: pages_in_def word_less_nat_alt word_le_nat_alt unat_page_base up)
    qed
  qed
qed

lemma readable_buffer_iff:
  assumes ok: "kernel_ok L c k" and low: "unat buf + unat len \<le> 2 ^ 38"
  shows "user_range_ok (mem k) (page_table (procs k ! c)) buf len PTE_R \<longleftrightarrow> readable_buffer c k buf (unat len)"
proof -
  have p: "user_page_ok (mem k) (page_table (procs k ! c)) PTE_R p \<longleftrightarrow> readable_page (mem k) (page_table (procs k ! c)) p" for p
    unfolding readable_page_def user_page_ok_iff [OF spaces_okD(2) [OF kernel_okD(6) [OF ok]] current_root [OF ok]]
    by (simp add: has_flags bit_flags)
  show ?thesis
    unfolding user_range_ok_iff pages_in_bytes [OF low] readable_buffer_def p by auto
qed

section \<open>Properties\<close>

text \<open>
  C20: what \<open>write\<close> does, in every case. A null buffer, or one with a byte on a page that the page
  table does not let the user read, gives \<open>E_FAULT\<close>; then a descriptor that is not open gives
  \<open>E_BADF\<close> and a file of the ramdisk \<open>E_PERM\<close>, which is -5 (the comment above the user's \<open>write\<close>
  says -1). In all these cases nothing is printed and only \<open>a0\<close> changes. Otherwise exactly the bytes
  of the buffer, as the process sees them, go to the console in order, and the length is returned.
  The buffer ends below the canonical limit.
\<close>
theorem write_sends_buffer:
  assumes "kernel_ok L c k" "f = frame (procs k ! c)" "buf = tf_a1 f" "count = ucast (tf_a2 f)"
    and "unat buf + unat (count :: u32) \<le> 2 ^ 38"
  shows "sys_write (ProcFrame c) k =
    (if \<not> readable_buffer c k buf (unat count) then ret (ProcFrame c) E_FAULT k
     else case the_file k c (fd_arg f) of
         None \<Rightarrow> ret (ProcFrame c) E_BADF k
       | Some fl \<Rightarrow>
           if f_type fl = FILE_TYPE_CONSOLE
           then ret (ProcFrame c) (ucast count) (k\<lparr>console := console k @ buffer_bytes c k buf (unat count)\<rparr>)
           else ret (ProcFrame c) (if f_type fl = FILE_TYPE_RAMDISK then E_PERM else E_BADF) k)"
proof -
  have "unat buf + unat (ucast count :: u64) \<le> 2 ^ 38" using assms(5) by simp
  from readable_buffer_iff [OF assms(1) this] show ?thesis
    unfolding sys_write_answers [OF assms] by simp
qed

lemma sample_range_readable: "user_range_ok (mem sample_machine) sample_root 0x1004 16 PTE_R"
proof -
  have "page_base 0x1004 = 0x1000" "page_up (0x1004 + 16) = 0x2000"
    by (simp_all add: page_base_def page_up_def)
  moreover have "pages_in 0x1000 0x2000 = {0x1000}"
    using pages_in_step [of "0x1000" "0x1000"] by (simp add: page_aligned_def)
  moreover have "user_page_ok sample_user sample_root PTE_R 0x1000"
    unfolding user_page_ok_iff [OF sample_user_space(1) singletonI] sample_user_space(2)
    using has_entry [OF user_rw_flags] by (simp add: has_flags bit_or_iff bit_flags)
  ultimately show ?thesis unfolding sample_machine_buffer by (simp add: user_range_ok_iff)
qed

text \<open>Writing 16 bytes to descriptor 1, the console.\<close>

lemma write_sends_buffer_witness:
  "\<exists>k'. sys_write (ProcFrame 0) (io_machine 1) = ret (ProcFrame 0) 16 k' \<and>
     console k' = console (io_machine 1) @ buffer_bytes 0 (io_machine 1) 0x1004 16"
proof -
  have fd: "fd_arg (frame (procs (io_machine 1) ! 0)) = 1" by (simp add: fd_arg_def io_machine)
  obtain fl where fl: "the_file (io_machine 1) 0 (fd_arg (frame (procs (io_machine 1) ! 0))) = Some fl"
    "f_type fl = FILE_TYPE_CONSOLE"
    unfolding fd by (simp add: the_file_def io_machine sample_file_def sample_process_def init_process_fds_def empty_process_def console_file_def)
  have "user_range_ok (mem (io_machine 1)) (page_table (procs (io_machine 1) ! 0)) 0x1004 16 PTE_R"
    using sample_range_readable by (simp add: io_machine)
  then have "readable_buffer 0 (io_machine 1) 0x1004 16"
    using readable_buffer_iff [OF io_machine_ok, of "0x1004" 16 1] by simp
  then show ?thesis
    using write_sends_buffer [OF io_machine_ok refl io_machine_args] fl by auto
qed

end
