(* ===== verification/User_String.thy ===== *)
theory User_String
  imports Cstring "HOL-Library.Sublist" "HOL-Library.List_Lexorder"
begin

text \<open>
  The string functions of user programs (\<open>kernel/user/mystring.c\<close>), on the memory a program
  sees: a byte at every virtual address. (An access to an address that is not mapped traps
  instead and ends the program.) A loop that looks for a terminating zero may run forever; then
  the value is \<open>None\<close>. \<open>char\<close> is unsigned here, as RISC-V compilers have it; the comparisons
  cast to \<open>unsigned char\<close> anyway.
\<close>

section \<open>The functions\<close>

partial_function (option) scan_end :: "memory \<Rightarrow> u64 \<Rightarrow> u64 option" where
  "scan_end m p = (if m p \<noteq> 0 then scan_end m (p + 1) else Some p)"

definition lz_length :: "memory \<Rightarrow> u64 \<Rightarrow> u64 option" where
  "lz_length m str = Option.bind (scan_end m str) (\<lambda>e. Some (e - str))"

partial_function (option) lz_copy :: "memory \<Rightarrow> u64 \<Rightarrow> u64 \<Rightarrow> memory option" where
  "lz_copy m dest src =
     (if m src \<noteq> 0 then lz_copy (m(dest := m src)) (dest + 1) (src + 1) else Some (m(dest := 0)))"

text \<open>The loops bounded by \<open>n\<close>: the last argument is \<open>n - len\<close>.\<close>

fun copy_upto :: "memory \<Rightarrow> u64 \<Rightarrow> u64 \<Rightarrow> nat \<Rightarrow> memory \<times> u64 \<times> nat" where
  "copy_upto m dest src 0 = (m, dest, 0)"
| "copy_upto m dest src (Suc left) =
     (if m src \<noteq> 0 then copy_upto (m(dest := m src)) (dest + 1) (src + 1) left else (m, dest, Suc left))"

fun pad_zero :: "memory \<Rightarrow> u64 \<Rightarrow> nat \<Rightarrow> memory" where
  "pad_zero m dest 0 = m"
| "pad_zero m dest (Suc left) = pad_zero (m(dest := 0)) (dest + 1) left"

definition lz_ncopy :: "memory \<Rightarrow> u64 \<Rightarrow> u64 \<Rightarrow> u64 \<Rightarrow> memory" where
  "lz_ncopy m dest src n = (case copy_upto m dest src (unat n) of (m', dest', left) \<Rightarrow> pad_zero m' dest' left)"

definition lz_concat :: "memory \<Rightarrow> u64 \<Rightarrow> u64 \<Rightarrow> memory option" where
  "lz_concat m dest src = Option.bind (scan_end m dest) (\<lambda>e. lz_copy m e src)"

definition lz_nconcat :: "memory \<Rightarrow> u64 \<Rightarrow> u64 \<Rightarrow> u64 \<Rightarrow> memory option" where
  "lz_nconcat m dest src n =
     Option.bind (scan_end m dest) (\<lambda>e.
       let len = e - dest
       in case copy_upto m e src (unat n - unat len) of (m', dest', _) \<Rightarrow> Some (m'(dest' := 0)))"

partial_function (option) lz_compare :: "memory \<Rightarrow> u64 \<Rightarrow> u64 \<Rightarrow> int option" where
  "lz_compare m a b =
     (if m a \<noteq> 0 \<and> m b \<noteq> 0 then
        if m a \<noteq> m b then Some (uint (m a) - uint (m b)) else lz_compare m (a + 1) (b + 1)
      else Some (uint (m a) - uint (m b)))"

fun ncompare :: "memory \<Rightarrow> u64 \<Rightarrow> u64 \<Rightarrow> nat \<Rightarrow> int" where
  "ncompare m a b 0 = 0"
| "ncompare m a b (Suc left) =
     (if m a \<noteq> 0 \<and> m b \<noteq> 0 then
        if m a \<noteq> m b then uint (m a) - uint (m b) else ncompare m (a + 1) (b + 1) left
      else uint (m a) - uint (m b))"

definition lz_ncompare :: "memory \<Rightarrow> u64 \<Rightarrow> u64 \<Rightarrow> u64 \<Rightarrow> int" where
  "lz_ncompare m a b n = ncompare m a b (unat n)"

partial_function (option) match_end :: "memory \<Rightarrow> u64 \<Rightarrow> u64 \<Rightarrow> u64 option" where
  "match_end m p q = (if m p = m q \<and> m q \<noteq> 0 then match_end m (p + 1) (q + 1) else Some q)"

partial_function (option) lz_search :: "memory \<Rightarrow> u64 \<Rightarrow> u64 \<Rightarrow> u64 option" where
  "lz_search m hay needle =
     (if m hay \<noteq> 0 then
        Option.bind (match_end m hay needle) (\<lambda>q.
          if m q = 0 then Some hay else lz_search m (hay + 1) needle)
      else Some 0)"

section \<open>Strings in memory\<close>

abbreviation cstr :: "memory \<Rightarrow> u64 \<Rightarrow> u8 list \<Rightarrow> bool" where
  "cstr m \<equiv> cstring (kread m)"

lemma cstr_Nil: "cstr m p [] \<longleftrightarrow> m p = 0"
  by (simp add: kread_apply)

lemma cstr_Cons: "cstr m p (c # s) \<longleftrightarrow> c \<noteq> 0 \<and> m p = c \<and> cstr m (p + 1) s"
  by (auto simp: kread_apply [of m p])

declare cstring.simps [simp del] cstr_Nil [simp] cstr_Cons [simp]

text \<open>A string ends before its addresses come round again.\<close>

lemma cstr_short:
  assumes "cstr m p s"
  shows "length s < 2 ^ 64"
proof (rule ccontr)
  assume "\<not> ?thesis"
  then obtain k where k: "length s = k + 2 ^ 64" by (metis le_Suc_ex not_le add.commute)
  then have at: "of_nat (length s) = (of_nat k :: u64)" by (simp add: word_of_nat_eq_iff take_bit_eq_mod)
  have s: "0 \<notin> set s" "\<forall>i < length s. m (p + of_nat i) = s ! i" "m (p + of_nat (length s)) = 0"
    using assms by (auto simp: cstring_kread_iff)
  have l: "k < length s" using k by simp
  then have "s ! k = 0" using s(2,3) unfolding at by metis
  then show False using s(1) nth_mem [OF l] by simp
qed

text \<open>\<open>put m d bs\<close>: the bytes \<open>bs\<close> written at \<open>d\<close>.\<close>

definition put :: "memory \<Rightarrow> u64 \<Rightarrow> u8 list \<Rightarrow> memory" where
  "put m d bs = (\<lambda>b. if unat (b - d) < length bs then bs ! unat (b - d) else m b)"

lemma put_Nil [simp]: "put m d [] = m"
  by (simp add: put_def)

lemma put_Cons:
  assumes "length bs < 2 ^ 64"
  shows "put (m(d := c)) (d + 1) bs = put m d (c # bs)"
proof
  fix b
  show "put (m(d := c)) (d + 1) bs b = put m d (c # bs) b"
  proof (cases "b = d")
    case True
    have "d - (d + 1) = -1" by (simp add: algebra_simps)
    then have "unat (d - (d + 1)) = 2 ^ 64 - 1" by (simp add: unsigned_minus_1_eq_mask mask_eq_exp_minus_1)
    then show ?thesis using True assms by (simp add: put_def)
  next
    case False
    have "b - (d + 1) = b - d - 1" by (simp add: algebra_simps)
    moreover have "unat (b - d - 1) = unat (b - d) - 1" by (rule unat_minus_one) (use False in simp)
    ultimately have "unat (b - (d + 1)) = unat (b - d) - 1" by (simp only:)
    moreover have "0 < unat (b - d)" using False by (simp add: unat_gt_0)
    ultimately have "unat (b - d) = Suc (unat (b - (d + 1)))" by simp
    then show ?thesis using False by (auto simp: put_def)
  qed
qed

lemma put_at:
  assumes "i < length bs" "length bs \<le> 2 ^ 64"
  shows "put m d bs (d + of_nat i) = bs ! i"
proof -
  have "unat (of_nat i :: u64) = i" using assms by (intro unat_of_nat_u64) simp
  then show ?thesis using assms(1) by (simp add: put_def)
qed

lemma put_other:
  assumes "\<And>i. i < length bs \<Longrightarrow> b \<noteq> d + of_nat i"
  shows "put m d bs b = m b"
proof -
  have "b = d + of_nat (unat (b - d))" by simp
  then have "\<not> unat (b - d) < length bs" using assms by blast
  then show ?thesis by (simp add: put_def)
qed

lemma cstr_put:
  assumes "0 \<notin> set s" "length s < 2 ^ 64"
  shows "cstr (put m d (s @ [0])) d s"
  unfolding cstring_kread_iff
proof (intro conjI allI impI)
  fix i assume "i < length s"
  then show "put m d (s @ [0]) (d + of_nat i) = s ! i"
    using put_at [of i "s @ [0]" m d] assms(2) by (simp add: nth_append)
next
  show "put m d (s @ [0]) (d + of_nat (length s)) = 0"
    using put_at [of "length s" "s @ [0]" m d] assms(2) by simp
qed (rule assms)

section \<open>What they compute\<close>

lemma scan_end: "cstr m p s \<Longrightarrow> scan_end m p = Some (p + of_nat (length s))"
proof (induction s arbitrary: p)
  case Nil
  then show ?case by (simp add: scan_end.simps [of m p])
next
  case (Cons c s)
  then show ?case using Cons.IH [of "p + 1"] by (simp add: scan_end.simps [of m p] add.assoc)
qed

lemma lz_length_spec: "cstr m p s \<Longrightarrow> lz_length m p = Some (of_nat (length s))"
  by (simp add: lz_length_def scan_end)

text \<open>Copying to a place that does not overlap the source.\<close>

definition apart :: "u64 \<Rightarrow> nat \<Rightarrow> u64 \<Rightarrow> nat \<Rightarrow> bool" where
  "apart d n s k \<longleftrightarrow> (\<forall>i < n. \<forall>j < k. d + of_nat i \<noteq> s + of_nat j)"

lemma cstr_cong:
  assumes "\<And>j. j < Suc (length s) \<Longrightarrow> m' (p + of_nat j) = m (p + of_nat j)"
  shows "cstr m' p s = cstr m p s"
  unfolding cstring_kread_iff using assms by simp

lemma cstr_upd: "(\<And>j. j < Suc (length s) \<Longrightarrow> d \<noteq> p + of_nat j) \<Longrightarrow> cstr (m(d := x)) p s = cstr m p s"
  by (rule cstr_cong) auto

lemma apart_step:
  assumes "apart d (Suc n) s (Suc k)"
  shows "apart (d + 1) n (s + 1) k" "\<And>j. j < Suc k \<Longrightarrow> d \<noteq> s + of_nat j"
proof -
  show "apart (d + 1) n (s + 1) k" unfolding apart_def
  proof (intro allI impI)
    fix i j assume "i < n" "j < k"
    then have "d + of_nat (Suc i) \<noteq> s + of_nat (Suc j)" using assms unfolding apart_def by blast
    then show "d + 1 + of_nat i \<noteq> s + 1 + of_nat j" by (simp add: add.assoc)
  qed
  show "d \<noteq> s + of_nat j" if "j < Suc k" for j
    using assms [unfolded apart_def, rule_format, of 0 j] that by simp
qed

lemma lz_copy_spec:
  "cstr m src s \<Longrightarrow> apart dest (Suc (length s)) src (Suc (length s)) \<Longrightarrow>
     lz_copy m dest src = Some (put m dest (s @ [0]))"
proof (induction s arbitrary: m dest src)
  case Nil
  then show ?case using put_Cons [of "[]" m dest 0] by (simp add: lz_copy.simps [of m])
next
  case (Cons c s)
  note short = cstr_short [OF Cons.prems(1)]
  have c: "c \<noteq> 0" "m src = c" "cstr m (src + 1) s" using Cons.prems(1) by simp_all
  have ap: "apart (dest + 1) (Suc (length s)) (src + 1) (Suc (length s))"
    using apart_step(1) [of dest "Suc (length s)" src "Suc (length s)"] Cons.prems(2) by simp
  define m1 where m1: "m1 = m(dest := c)"
  have "cstr m1 (src + 1) s" unfolding m1
  proof (subst cstr_upd)
    fix j assume "j < Suc (length s)"
    then have "dest \<noteq> src + of_nat (Suc j)"
      by (intro apart_step(2) [OF Cons.prems(2) [unfolded length_Cons]]) simp
    then show "dest \<noteq> src + 1 + of_nat j" by (simp add: add.assoc)
  qed (rule c(3))
  from Cons.IH [OF this ap] have "lz_copy m1 (dest + 1) (src + 1) = Some (put m1 (dest + 1) (s @ [0]))" .
  moreover have "put m1 (dest + 1) (s @ [0]) = put m dest (c # s @ [0])"
    unfolding m1 by (rule put_Cons) (use short in simp)
  moreover have "lz_copy m dest src = lz_copy m1 (dest + 1) (src + 1)"
    using c(1,2) unfolding m1 by (subst lz_copy.simps) simp
  ultimately show ?case by simp
qed

lemma lz_concat_spec:
  assumes t: "cstr m dest t" and s: "cstr m src s"
    and ap: "apart dest (Suc (length t + length s)) src (Suc (length s))" and len: "length t + length s < 2 ^ 64"
  shows "lz_concat m dest src = Some (put m (dest + of_nat (length t)) (s @ [0]))"
    "cstr (put m (dest + of_nat (length t)) (s @ [0])) dest (t @ s)"
proof -
  let ?e = "dest + of_nat (length t)"
  have "apart ?e (Suc (length s)) src (Suc (length s))" unfolding apart_def
  proof (intro allI impI)
    fix i j assume "i < Suc (length s)" "j < Suc (length s)"
    then have "dest + of_nat (length t + i) \<noteq> src + of_nat j"
      using ap [unfolded apart_def, rule_format, of "length t + i" j] by simp
    then show "?e + of_nat i \<noteq> src + of_nat j" by (simp add: add.assoc)
  qed
  then show "lz_concat m dest src = Some (put m ?e (s @ [0]))"
    by (simp add: lz_concat_def scan_end [OF t] lz_copy_spec [OF s])
  have old: "put m ?e (s @ [0]) (dest + of_nat i) = t ! i" if i: "i < length t" for i
  proof -
    have "put m ?e (s @ [0]) (dest + of_nat i) = m (dest + of_nat i)"
    proof (rule put_other)
      fix j assume "j < length (s @ [0 :: u8])"
      then have "(of_nat i :: u64) \<noteq> of_nat (length t + j)" using i len by (subst of_nat_u64_eq) simp_all
      then show "dest + of_nat i \<noteq> ?e + of_nat j" by (simp add: add.assoc)
    qed
    then show ?thesis using t i by (simp add: cstring_kread_iff)
  qed
  have new: "put m ?e (s @ [0]) (?e + of_nat i) = (s @ [0]) ! i" if "i < Suc (length s)" for i
    using put_at [of i "s @ [0]" m ?e] that len by simp
  show "cstr (put m ?e (s @ [0])) dest (t @ s)" unfolding cstring_kread_iff
  proof (intro conjI allI impI)
    show "0 \<notin> set (t @ s)" using s t by (simp add: cstring_kread_iff)
    fix i assume i: "i < length (t @ s)"
    show "put m ?e (s @ [0]) (dest + of_nat i) = (t @ s) ! i"
    proof (cases "i < length t")
      case False
      then have "dest + of_nat i = ?e + of_nat (i - length t)" by (simp add: of_nat_diff)
      moreover have "i - length t < length s" using i False by simp
      ultimately show ?thesis using new [of "i - length t"] False by (simp add: nth_append)
    qed (use old in \<open>simp add: nth_append\<close>)
  next
    show "put m ?e (s @ [0]) (dest + of_nat (length (t @ s))) = 0"
      using new [of "length s"] by (simp add: add.assoc)
  qed
qed

section \<open>The bounded copies\<close>

lemma put_append:
  assumes "length xs + length ys \<le> 2 ^ 64"
  shows "put (put m d xs) (d + of_nat (length xs)) ys = put m d (xs @ ys)"
  using assms
proof (induction xs arbitrary: m d)
  case (Cons x xs)
  have short: "length xs < 2 ^ 64" "length (xs @ ys) < 2 ^ 64" using Cons.prems by simp_all
  have "put (put (m(d := x)) (d + 1) xs) (d + 1 + of_nat (length xs)) ys = put (m(d := x)) (d + 1) (xs @ ys)"
    by (rule Cons.IH) (use Cons.prems in simp)
  then have "put (put m d (x # xs)) (d + 1 + of_nat (length xs)) ys = put m d (x # xs @ ys)"
    unfolding put_Cons [OF short(1)] put_Cons [OF short(2)] .
  then show ?case by (simp add: add.assoc)
qed simp

lemma pad_zero_put: "n \<le> 2 ^ 64 \<Longrightarrow> pad_zero m d n = put m d (replicate n 0)"
proof (induction n arbitrary: m d)
  case (Suc n)
  then have "pad_zero (m(d := 0)) (d + 1) n = put (m(d := 0)) (d + 1) (replicate n 0)" by (intro Suc.IH) simp
  also have "\<dots> = put m d (0 # replicate n 0)" by (rule put_Cons) (use Suc.prems in simp)
  finally show ?case by simp
qed simp

lemma copy_upto_put:
  "cstr m src s \<Longrightarrow> apart dest left src (Suc (length s)) \<Longrightarrow> left \<le> 2 ^ 64 \<Longrightarrow>
     copy_upto m dest src left = (put m dest (take left s), dest + of_nat (min left (length s)), left - length s)"
proof (induction left arbitrary: m dest src s)
  case (Suc left)
  show ?case
  proof (cases s)
    case Nil
    then show ?thesis using Suc.prems by simp
  next
    case (Cons c t)
    have c: "c \<noteq> 0" "m src = c" "cstr m (src + 1) t" using Suc.prems(1) by (simp_all add: Cons)
    note ap = apart_step [OF Suc.prems(2)]
    define m1 where m1: "m1 = m(dest := c)"
    have "cstr m1 (src + 1) t" unfolding m1
    proof (subst cstr_upd)
      fix j assume "j < Suc (length t)"
      then have "dest \<noteq> src + of_nat (Suc j)" by (intro ap(2)) (simp add: Cons)
      then show "dest \<noteq> src + 1 + of_nat j" by (simp add: add.assoc)
    qed (rule c(3))
    from Suc.IH [OF this] ap(1) Suc.prems(3)
    have "copy_upto m1 (dest + 1) (src + 1) left =
        (put m1 (dest + 1) (take left t), dest + 1 + of_nat (min left (length t)), left - length t)"
      by (simp add: Cons)
    moreover have "put m1 (dest + 1) (take left t) = put m dest (c # take left t)"
      unfolding m1 by (rule put_Cons) (use Suc.prems(3) in simp)
    moreover have "copy_upto m dest src (Suc left) = copy_upto m1 (dest + 1) (src + 1) left"
      using c by (simp add: m1)
    ultimately show ?thesis by (simp add: Cons add.assoc)
  qed
qed simp

lemma lz_ncopy_spec:
  assumes "cstr m src s" "apart dest (unat n) src (Suc (length s))"
  shows "lz_ncopy m dest src n = put m dest (take (unat n) s @ replicate (unat n - length s) 0)"
proof -
  have n: "unat n \<le> 2 ^ 64" using unat_u64_less [of n] by simp
  have "dest + of_nat (min (unat n) (length s)) = dest + of_nat (length (take (unat n) s))" by (simp add: min.commute)
  then show ?thesis
    using copy_upto_put [OF assms n] pad_zero_put [of "unat n - length s"] n
      put_append [of "take (unat n) s" "replicate (unat n - length s) 0" m dest]
    by (simp add: lz_ncopy_def)
qed

lemma lz_nconcat_spec:
  assumes t: "cstr m dest t" and s: "cstr m src s"
    and ap: "apart (dest + of_nat (length t)) (unat n - length t) src (Suc (length s))"
  shows "lz_nconcat m dest src n = Some (put m (dest + of_nat (length t)) (take (unat n - length t) s @ [0]))"
proof -
  let ?e = "dest + of_nat (length t)" and ?l = "unat n - length t"
  have l: "?l < 2 ^ 64" using unat_u64_less [of n] by simp
  have len: "unat (?e - dest) = length t" using cstr_short [OF t] by (simp add: unat_of_nat_u64)
  have "put m ?e (take ?l s @ [0]) = put (put m ?e (take ?l s)) (?e + of_nat (length (take ?l s))) [0]"
    by (rule put_append [symmetric]) (use l in simp)
  also have "\<dots> = (put m ?e (take ?l s))(?e + of_nat (min ?l (length s)) := 0)"
    using put_Cons [of "[]" _ "?e + of_nat (min ?l (length s))" 0] by (simp add: min.commute)
  finally show ?thesis
    using copy_upto_put [OF s ap] l len by (simp add: lz_nconcat_def scan_end [OF t] Let_def)
qed

section \<open>Comparing and searching\<close>

lemma ncompare_spec:
  "cstr m a s \<Longrightarrow> cstr m b t \<Longrightarrow>
     (ncompare m a b n = 0 \<longleftrightarrow> take n s = take n t) \<and> (ncompare m a b n < 0 \<longleftrightarrow> take n s < take n t)"
proof (induction n arbitrary: a b s t)
  case (Suc n)
  show ?case
  proof (cases s)
    case Nil
    then show ?thesis using Suc.prems
      by (cases t) (auto simp: word_gt_0 uint_0_iff less_le)
  next
    case (Cons x s')
    show ?thesis
    proof (cases t)
      case Nil
      then show ?thesis using Suc.prems Cons by (auto simp: uint_0_iff)
    next
      case t: (Cons y t')
      then show ?thesis using Suc.prems Cons Suc.IH [of "a + 1" s' "b + 1" t']
        by (auto simp: word_less_def word_uint_eq_iff)
    qed
  qed
qed simp

lemma lz_compare_bounded:
  "cstr m a s \<Longrightarrow> cstr m b t \<Longrightarrow> length s < n \<Longrightarrow> lz_compare m a b = Some (ncompare m a b n)"
proof (induction s arbitrary: a b t n)
  case Nil
  then show ?case by (cases n) (auto simp: lz_compare.simps [of m a b])
next
  case (Cons x s)
  obtain n' where n: "n = Suc n'" "length s < n'" using Cons.prems(3) by (cases n) auto
  show ?case
  proof (cases t)
    case Nil
    then show ?thesis using Cons.prems n by (simp add: lz_compare.simps [of m a b])
  next
    case t: (Cons y t')
    then show ?thesis using Cons.prems n Cons.IH [of "a + 1" "b + 1" t' n']
      by (simp add: lz_compare.simps [of m a b])
  qed
qed

lemma match_end:
  "cstr m p hs \<Longrightarrow> cstr m q ns \<Longrightarrow> \<exists>e. match_end m p q = Some e \<and> (m e = 0 \<longleftrightarrow> prefix ns hs)"
proof (induction ns arbitrary: p q hs)
  case Nil
  then show ?case by (simp add: match_end.simps [of m p q])
next
  case (Cons c ns)
  show ?case
  proof (cases hs)
    case Nil
    then show ?thesis using Cons.prems by (simp add: match_end.simps [of m p q])
  next
    case (Cons d hs')
    then show ?thesis using Cons.prems Cons.IH [of "p + 1" hs' "q + 1"]
      by (auto simp: match_end.simps [of m p q])
  qed
qed

text \<open>The first place where \<open>ns\<close> occurs in \<open>hs\<close>.\<close>

fun first_at :: "u8 list \<Rightarrow> u8 list \<Rightarrow> nat option" where
  "first_at ns [] = (if ns = [] then Some 0 else None)"
| "first_at ns (c # hs) = (if prefix ns (c # hs) then Some 0 else map_option Suc (first_at ns hs))"

lemma first_at_spec:
  "case first_at ns hs of
     Some i \<Rightarrow> i \<le> length hs \<and> prefix ns (drop i hs) \<and> (\<forall>j < i. \<not> prefix ns (drop j hs))
   | None \<Rightarrow> \<not> sublist ns hs"
proof (induction hs)
  case (Cons c hs)
  show ?case
  proof (cases "prefix ns (c # hs)")
    case False
    have "\<forall>j < Suc i. \<not> prefix ns (drop j (c # hs))" if "\<forall>j < i. \<not> prefix ns (drop j hs)" for i
      using that False by (auto simp: less_Suc_eq_0_disj)
    then show ?thesis using False Cons.IH by (auto simp: sublist_Cons_right split: option.splits)
  qed simp
qed simp

lemma lz_search_first:
  "cstr m hay hs \<Longrightarrow> cstr m needle ns \<Longrightarrow> hs \<noteq> [] \<or> ns \<noteq> [] \<Longrightarrow>
     lz_search m hay needle = Some (case first_at ns hs of Some i \<Rightarrow> hay + of_nat i | None \<Rightarrow> 0)"
proof (induction hs arbitrary: hay)
  case Nil
  then show ?case by (simp add: lz_search.simps [of m hay])
next
  case (Cons c hs)
  obtain e where e: "match_end m hay needle = Some e" "m e = 0 \<longleftrightarrow> prefix ns (c # hs)"
    using match_end [OF Cons.prems(1,2)] by blast
  show ?case
  proof (cases "prefix ns (c # hs)")
    case True
    then show ?thesis using Cons.prems(1) e by (simp add: lz_search.simps [of m hay])
  next
    case False
    then have "ns \<noteq> []" by auto
    then show ?thesis using Cons.prems e False Cons.IH [of "hay + 1"]
      by (auto simp: lz_search.simps [of m hay] add.assoc split: option.splits)
  qed
qed

text \<open>The empty string occurs in the empty string, but is not found there.\<close>

lemma lz_search_empty: "cstr m hay [] \<Longrightarrow> lz_search m hay needle = Some 0"
  by (simp add: lz_search.simps [of m hay])

section \<open>Properties\<close>

text \<open>
  C40: comparing strings. \<open>lz_compare\<close> returns on any two strings; its result is zero exactly
  when they are equal and negative exactly when the first comes first in the lexicographic
  order of their bytes, and \<open>lz_ncompare\<close> decides the same of their first \<open>n\<close> bytes.
\<close>
theorem lz_compare_lexicographic:
  assumes "cstr m a s" "cstr m b t"
  shows "\<exists>r. lz_compare m a b = Some r \<and> (r = 0 \<longleftrightarrow> s = t) \<and> (r < 0 \<longleftrightarrow> s < t) \<and>
    (lz_ncompare m a b n = 0 \<longleftrightarrow> take (unat n) s = take (unat n) t) \<and>
    (lz_ncompare m a b n < 0 \<longleftrightarrow> take (unat n) s < take (unat n) t)"
proof -
  let ?k = "Suc (max (length s) (length t))"
  have "take ?k s = s" "take ?k t = t" by simp_all
  then show ?thesis
    using lz_compare_bounded [OF assms, of ?k] ncompare_spec [OF assms, of ?k] ncompare_spec [OF assms, of "unat n"]
    by (simp add: lz_ncompare_def)
qed

definition two_names :: memory where
  "two_names = (\<lambda>_. 0)(0x10 := 97, 0x11 := 98, 0x20 := 97, 0x21 := 0xC3)"

lemma lz_compare_lexicographic_witness:
  "\<exists>r < 0. lz_compare two_names 0x10 0x20 = Some r \<and> lz_ncompare two_names 0x10 0x20 1 = 0"
proof -
  have "cstr two_names 0x10 [97, 98]" "cstr two_names 0x20 [97, 0xC3]"
    by (simp_all add: two_names_def)
  from lz_compare_lexicographic [OF this, of 1] show ?thesis by auto
qed

end
