(* ===== verification/User_Print.thy ===== *)
theory User_Print
  imports User_String Sbi
begin

text \<open>
  Formatted output of user programs (\<open>kernel/user/syscalls.c\<close>): \<open>putchar\<close>, \<open>puts\<close>,
  \<open>putint\<close>, \<open>putptr\<close>, \<open>printf\<close>, \<open>lz_strerror\<close> and \<open>lz_error\<close>. A function is given by the
  \<open>write\<close> system calls it makes: the descriptor and the bytes of the buffer, in order. The
  variable arguments of \<open>printf\<close> are the function \<open>arg\<close> of the slot number: whatever lies in
  the register or on the stack there.
\<close>

section \<open>Writing\<close>

type_synonym request = "nat \<times> u8 list"

definition printed :: "request list \<Rightarrow> u8 list" where
  "printed ws = concat (map snd ws)"

lemma printed_simps [simp]: "printed [] = []" "printed (w # ws) = snd w @ printed ws"
  "printed (ws @ ws') = printed ws @ printed ws'"
  by (simp_all add: printed_def)

definition putchar :: "u8 \<Rightarrow> request list" where
  "putchar c = [(1, [c])]"

definition putchars :: "u8 list \<Rightarrow> request list" where
  "putchars cs = concat (map putchar cs)"

text \<open>\<open>strlen\<close> counts with an \<open>int\<close>.\<close>

partial_function (option) strlen_from :: "memory \<Rightarrow> u64 \<Rightarrow> u32 \<Rightarrow> u32 option" where
  "strlen_from m str len = (if m (str + scast len) \<noteq> 0 then strlen_from m str (len + 1) else Some len)"

definition bytes_at :: "memory \<Rightarrow> u64 \<Rightarrow> nat \<Rightarrow> u8 list" where
  "bytes_at m p n = map (\<lambda>i. m (p + of_nat i)) [0..<n]"

definition write_str :: "nat \<Rightarrow> memory \<Rightarrow> u64 \<Rightarrow> request list option" where
  "write_str fd m str = Option.bind (strlen_from m str 0) (\<lambda>len. Some [(fd, bytes_at m str (unat len))])"

definition puts :: "memory \<Rightarrow> u64 \<Rightarrow> request list option" where
  "puts m str = write_str 1 m str"

text \<open>\<open>lz_error(who, what)\<close>, both strings in memory.\<close>

definition lz_error :: "memory \<Rightarrow> u64 \<Rightarrow> u64 \<Rightarrow> request list option" where
  "lz_error m who what =
     Option.bind (write_str 2 m who) (\<lambda>a. Option.bind (write_str 2 m what) (\<lambda>b.
       Some ([(2, bytes_of ''['')] @ a @ [(2, bytes_of ''] '')] @ b @ [(2, [10])])))"

definition lz_strerror :: "int \<Rightarrow> string" where
  "lz_strerror err =
     (if err = -1 then ''nothing by that name in the ramdisk''
      else if err = -2 then ''that descriptor is not open''
      else if err = -3 then ''the kernel refused a bad pointer''
      else if err = -4 then ''the kernel is out of memory''
      else if err = -5 then ''not allowed''
      else if err = -6 then ''no free process slot, try again''
      else ''unknown error'')"

section \<open>Numbers\<close>

text \<open>
  The digits in the order the loops find them, least significant first: the contents of the
  local array \<open>buffer\<close>.
\<close>

function int_digits :: "int \<Rightarrow> u8 list" where
  "int_digits num = (if num > 0 then (of_int (num mod 10) + 48) # int_digits (num div 10) else [])"
  by auto
termination by (relation "measure nat") auto

function uint_digits :: "u32 \<Rightarrow> u8 list" where
  "uint_digits v = (if v > 0 then (48 + ucast (v mod 10)) # uint_digits (v div 10) else [])"
  by auto
termination
  by (relation "measure unat") (simp_all add: unat_div_distrib word_greater_zero_iff unat_gt_0)

function uhex_digits :: "u32 \<Rightarrow> u8 list" where
  "uhex_digits v = (if v > 0 then hex_digit (ucast (v AND 0xF)) # uhex_digits (drop_bit 4 v) else [])"
  by auto
termination
proof (relation "measure unat")
  fix v :: u32 assume "v > 0"
  then have "0 < unat v" by (simp add: unat_gt_0 word_greater_zero_iff)
  moreover have "unat (drop_bit 4 v) = unat v div 16" by (simp add: drop_bit_eq_div unat_div_distrib)
  ultimately show "(drop_bit 4 v, v) \<in> measure unat" by simp
qed simp

declare int_digits.simps [simp del] uint_digits.simps [simp del] uhex_digits.simps [simp del]

definition putint :: "u32 \<Rightarrow> request list" where
  "putint num =
     (if num = 0 then putchar 48
      else
        (let n = (if sint num < 0 then - num else num)
         in (if sint num < 0 then putchar 45 else []) @ putchars (rev (int_digits (sint n)))))"

definition print_uint :: "u32 \<Rightarrow> request list" where
  "print_uint v = (if v = 0 then putchar 48 else putchars (rev (uint_digits v)))"

definition print_hex :: "u32 \<Rightarrow> request list" where
  "print_hex v = (if v = 0 then putchar 48 else putchars (rev (uhex_digits v)))"

text \<open>\<open>for (i = 15; i >= 0; i--) putchar(hex[(value >> (i * 4)) & 0xF]);\<close>\<close>

definition putptr :: "u64 \<Rightarrow> request list" where
  "putptr v = [(1, bytes_of ''0x'')] @ putchars (map (\<lambda>i. hex_digit (drop_bit (4 * i) v AND 0xF)) (rev [0..<16]))"

section \<open>printf\<close>

text \<open>
  One conversion, for the character after the percent sign: what it prints and how many
  argument slots it takes.
\<close>

definition directive :: "memory \<Rightarrow> (nat \<Rightarrow> u64) \<Rightarrow> nat \<Rightarrow> u8 \<Rightarrow> (request list \<times> nat) option" where
  "directive m arg n d =
     (if d = 37 then Some (putchar 37, n)
      else if d = 99 then Some (putchar (ucast (arg n)), n + 1)
      else if d = 115 then
        if arg n = 0 then Some ([(1, bytes_of ''(null)'')], n + 1)
        else Option.bind (puts m (arg n)) (\<lambda>ws. Some (ws, n + 1))
      else if d = 100 then
        (let v = (ucast (arg n) :: u32)
         in Some (if sint v < 0 then putchar 45 @ print_uint (- v) else print_uint v, n + 1))
      else if d = 117 then Some (print_uint (ucast (arg n)), n + 1)
      else if d = 120 then Some (print_hex (ucast (arg n)), n + 1)
      else if d = 112 then Some (putptr (arg n), n + 1)
      else Some (putchar 37 @ putchar d, n))"

partial_function (option) printf_from :: "memory \<Rightarrow> (nat \<Rightarrow> u64) \<Rightarrow> nat \<Rightarrow> u64 \<Rightarrow> request list option" where
  "printf_from m arg n p =
     (if m p = 0 then Some []
      else if m p \<noteq> 37 then
        Option.bind (printf_from m arg n (p + 1)) (\<lambda>ws. Some (putchar (m p) @ ws))
      else if m (p + 1) = 0 then Some []
      else
        Option.bind (directive m arg n (m (p + 1))) (\<lambda>(out, n').
          Option.bind (printf_from m arg n' (p + 1 + 1)) (\<lambda>ws. Some (out @ ws))))"

definition printf :: "memory \<Rightarrow> u64 \<Rightarrow> (nat \<Rightarrow> u64) \<Rightarrow> request list option" where
  "printf m fmt arg = printf_from m arg 0 fmt"

section \<open>Strings\<close>

lemma printed_putchar [simp]: "printed (putchar c) = [c]" "printed (putchars cs) = cs"
  by (induction cs) (simp_all add: putchar_def putchars_def)

lemma strlen_from:
  "cstr m (str + of_nat n) s \<Longrightarrow> n + length s < 2 ^ 31 \<Longrightarrow> strlen_from m str (of_nat n) = Some (of_nat (n + length s))"
proof (induction s arbitrary: n)
  case Nil
  have "scast (of_nat n :: u32) = (of_nat n :: u64)"
    using Nil.prems(2) by (intro scast_small) simp
  then show ?case using Nil.prems by (simp add: strlen_from.simps [of m str "of_nat n"])
next
  case (Cons c s)
  have sc: "scast (of_nat n :: u32) = (of_nat n :: u64)"
    using Cons.prems(2) by (intro scast_small) simp
  have "strlen_from m str (of_nat (Suc n)) = Some (of_nat (Suc n + length s))"
    by (rule Cons.IH) (use Cons.prems in \<open>simp_all add: ac_simps\<close>)
  then have "strlen_from m str (of_nat n + 1) = Some (of_nat (n + length (c # s)))" by (simp add: add.commute)
  then show ?case using Cons.prems(1) sc by (subst strlen_from.simps) simp
qed

lemma write_str: "cstr m p s \<Longrightarrow> length s < 2 ^ 31 \<Longrightarrow> write_str fd m p = Some [(fd, s)]"
proof -
  assume a: "cstr m p s" "length s < 2 ^ 31"
  have "strlen_from m p 0 = Some (of_nat (length s))" using strlen_from [of m p 0 s] a by simp
  moreover have "unat (of_nat (length s) :: u32) = length s" using a(2) by (simp add: unat_of_nat)
  moreover have "bytes_at m p (length s) = s"
    using a(1) by (intro nth_equalityI) (simp_all add: bytes_at_def cstring_kread_iff)
  ultimately show ?thesis by (simp add: write_str_def)
qed

text \<open>An error report reads \<open>[who] what\<close>.\<close>

lemma lz_error_text:
  assumes "cstr m who s" "cstr m what t" "length s < 2 ^ 31" "length t < 2 ^ 31"
  shows "\<exists>ws. lz_error m who what = Some ws \<and> printed ws = bytes_of ''['' @ s @ bytes_of ''] '' @ t @ [10] \<and>
    fst ` set ws = {2}"
  using write_str [OF assms(1,3)] write_str [OF assms(2,4)] by (simp add: lz_error_def)

section \<open>Decimal and hexadecimal numbers\<close>

text \<open>The usual numerals, without leading zeros.\<close>

fun numeral_in :: "nat \<Rightarrow> (nat \<Rightarrow> u8) \<Rightarrow> nat \<Rightarrow> u8 list" where
  "numeral_in b d n = (if n < b \<or> b < 2 then [d n] else numeral_in b d (n div b) @ [d (n mod b)])"

declare numeral_in.simps [simp del]

definition read_in :: "nat \<Rightarrow> (u8 \<Rightarrow> nat) \<Rightarrow> u8 list \<Rightarrow> nat" where
  "read_in b value cs = foldl (\<lambda>n c. b * n + value c) 0 cs"

lemma read_in_numeral:
  assumes "2 \<le> b" "\<And>i. i < b \<Longrightarrow> value (d i) = i"
  shows "read_in b value (numeral_in b d n) = n"
proof (induction n rule: less_induct)
  case (less n)
  show ?case
  proof (cases "n < b")
    case True
    then show ?thesis using assms by (simp add: numeral_in.simps [of b d n] read_in_def)
  next
    case False
    then have "n div b < n" using assms(1) by simp
    from less.IH [OF this] show ?thesis
      using False assms by (simp add: numeral_in.simps [of b d n] read_in_def)
  qed
qed

abbreviation dec_digit :: "nat \<Rightarrow> u8" where
  "dec_digit n \<equiv> 48 + of_nat n"

abbreviation hex_char :: "nat \<Rightarrow> u8" where
  "hex_char n \<equiv> hex_digit (of_nat n)"

definition dec :: "nat \<Rightarrow> u8 list" where
  "dec n = numeral_in 10 dec_digit n"

definition hex :: "nat \<Rightarrow> u8 list" where
  "hex n = numeral_in 16 hex_char n"

definition read_dec :: "u8 list \<Rightarrow> nat" where
  "read_dec cs = read_in 10 (\<lambda>c. unat c - 48) cs"

definition read_hexnum :: "u8 list \<Rightarrow> nat" where
  "read_hexnum cs = read_in 16 (\<lambda>c. unat (hex_value c)) cs"

lemma read_dec [simp]: "read_dec (dec n) = n"
  unfolding read_dec_def dec_def by (rule read_in_numeral) (simp_all add: unat_word_ariths unat_of_nat)

lemma read_hexnum [simp]: "read_hexnum (hex n) = n"
  unfolding read_hexnum_def hex_def
proof (rule read_in_numeral)
  fix i :: nat assume "i < 16"
  then have "(of_nat i :: u64) < 16" "unat (of_nat i :: u64) = i"
    by (simp_all add: word_less_nat_alt unat_of_nat)
  then show "unat (hex_value (hex_char i)) = i" by (simp add: hex_value_digit)
qed simp

text \<open>A loop that divides by the base until nothing is left finds the digits of the numeral.\<close>

lemma digits_numeral:
  assumes b: "2 \<le> b" and digits: "\<And>v. 0 < f v \<Longrightarrow> digits v = d (f v mod b) # digits (next_v v)"
    and zero: "\<And>v. f v = 0 \<Longrightarrow> digits v = []" and less: "\<And>v. f (next_v v) = f v div b"
  shows "0 < f v \<Longrightarrow> rev (digits v) = numeral_in b d (f v)"
proof (induction "f v" arbitrary: v rule: less_induct)
  case less
  show ?case
  proof (cases "f v < b")
    case True
    then have "digits (next_v v) = []" using assms(4) by (intro zero) simp
    then show ?thesis using digits [OF less.prems] True by (simp add: numeral_in.simps [of b d "f v"])
  next
    case False
    then have "f (next_v v) < f v" "0 < f (next_v v)" using b by (simp_all add: assms(4) div_greater_zero_iff)
    from less.hyps [OF this] show ?thesis
      using digits [OF less.prems] False b by (simp add: numeral_in.simps [of b d "f v"] assms(4))
  qed
qed

lemma print_uint_dec [simp]: "printed (print_uint v) = dec (unat v)"
proof (cases "v = 0")
  case True
  then show ?thesis by (simp add: print_uint_def dec_def numeral_in.simps)
next
  case False
  have "rev (uint_digits v) = numeral_in 10 dec_digit (unat v)"
  proof (rule digits_numeral [where f = unat and digits = uint_digits and next_v = "\<lambda>v. v div 10"])
    fix w :: u32 assume "0 < unat w"
    then have "uint_digits w = (48 + ucast (w mod 10)) # uint_digits (w div 10)"
      by (subst uint_digits.simps) (simp add: unat_gt_0 word_greater_zero_iff)
    moreover have "(ucast (w mod 10) :: u8) = of_nat (unat (w mod 10))" by (rule of_nat_unat [symmetric])
    moreover have "unat (w mod 10) = unat w mod 10" by (simp add: unat_mod_distrib)
    ultimately show "uint_digits w = dec_digit (unat w mod 10) # uint_digits (w div 10)" by simp
  next
    fix w :: u32 assume "unat w = 0"
    then show "uint_digits w = []" by (subst uint_digits.simps) (simp add: unat_eq_0)
  qed (use False in \<open>simp_all add: unat_div_distrib unat_gt_0\<close>)
  then show ?thesis using False by (simp add: print_uint_def dec_def)
qed

lemma print_hex_hex [simp]: "printed (print_hex v) = hex (unat v)"
proof (cases "v = 0")
  case True
  then show ?thesis by (simp add: print_hex_def hex_def numeral_in.simps hex_digit_def hex_digits)
next
  case False
  have "rev (uhex_digits v) = numeral_in 16 hex_char (unat v)"
  proof (rule digits_numeral [where f = unat and digits = uhex_digits and next_v = "\<lambda>v. drop_bit 4 v"])
    fix w :: u32 assume "0 < unat w"
    then have "uhex_digits w = hex_digit (ucast (w AND 0xF)) # uhex_digits (drop_bit 4 w)"
      by (subst uhex_digits.simps) (simp add: unat_gt_0 word_greater_zero_iff)
    moreover have "w AND 0xF = w mod 16" using take_bit_eq_mask [of 4 w] take_bit_eq_mod [of 4 w] by (simp add: mask_eq_exp_minus_1)
    then have "(ucast (w AND 0xF) :: u64) = of_nat (unat (w mod 16))" by (simp only: of_nat_unat)
    moreover have "unat (w mod 16) = unat w mod 16" by (simp add: unat_mod_distrib)
    ultimately show "uhex_digits w = hex_char (unat w mod 16) # uhex_digits (drop_bit 4 w)" by (simp only:)
  next
    fix w :: u32 assume "unat w = 0"
    then show "uhex_digits w = []" by (subst uhex_digits.simps) (simp add: unat_eq_0)
  qed (use False in \<open>simp_all add: drop_bit_eq_div unat_div_distrib unat_gt_0\<close>)
  then show ?thesis using False by (simp add: print_hex_def hex_def)
qed

text \<open>Signed numbers and pointers.\<close>

definition sdec :: "int \<Rightarrow> u8 list" where
  "sdec k = (if k < 0 then 45 # dec (nat (- k)) else dec (nat k))"

definition read_sdec :: "u8 list \<Rightarrow> int" where
  "read_sdec cs = (case cs of c # ds \<Rightarrow> if c = 45 then - int (read_dec ds) else int (read_dec cs) | [] \<Rightarrow> 0)"

lemma numeral_in_nonempty: "numeral_in b d n \<noteq> []"
  by (induction b d n rule: numeral_in.induct) (subst numeral_in.simps, simp)

lemma dec_first_digit: "hd (numeral_in 10 dec_digit n) \<in> dec_digit ` {..<10}"
proof (induction n rule: less_induct)
  case (less n)
  then show ?case
    using numeral_in_nonempty [of 10 dec_digit "n div 10"] by (cases "n < 10") (simp_all add: numeral_in.simps [of 10 dec_digit n] hd_append)
qed

lemma read_sdec [simp]: "read_sdec (sdec k) = k"
proof (cases "k < 0")
  case False
  obtain c ds where c: "dec (nat k) = c # ds" using numeral_in_nonempty unfolding dec_def by (metis neq_Nil_conv)
  then have "c \<in> dec_digit ` {..<10}" using dec_first_digit [of "nat k"] unfolding dec_def by simp
  moreover have "dec_digit i \<noteq> 45" if "i < 10" for i
  proof
    assume eq: "dec_digit i = 45"
    have "unat (dec_digit i) = 48 + i" using that by (simp add: unat_word_ariths unat_of_nat)
    then show False unfolding eq by simp
  qed
  ultimately have "c \<noteq> 45" by auto
  then show ?thesis using False c read_dec [of "nat k"] by (simp add: sdec_def read_sdec_def)
qed (simp add: sdec_def read_sdec_def)

lemma int_digits_dec: "0 < k \<Longrightarrow> rev (int_digits k) = dec (nat k)"
  unfolding dec_def
proof (rule digits_numeral [where f = nat and digits = int_digits and next_v = "\<lambda>v. v div 10"])
  fix v :: int assume "0 < nat v"
  then have "v mod 10 = int (nat v mod 10)" by (simp add: zmod_int)
  then have "(of_int (v mod 10) :: u8) = of_nat (nat v mod 10)" by (simp only: of_int_of_nat_eq)
  then show "int_digits v = dec_digit (nat v mod 10) # int_digits (v div 10)"
    using \<open>0 < nat v\<close> by (subst int_digits.simps) (simp add: add.commute)
next
  fix v :: int assume "nat v = 0"
  then show "int_digits v = []" by (subst int_digits.simps) simp
qed (simp_all add: nat_div_distrib)

lemma sint_uminus: "sint (v :: u32) \<noteq> - (2 ^ 31) \<Longrightarrow> sint (- v) = - sint v"
proof -
  assume "sint v \<noteq> - (2 ^ 31)"
  then have "- (2 ^ 31) \<le> - sint v" "- sint v < 2 ^ 31" using sint_range_size [of v] by (simp_all add: word_size)
  moreover have "- v = word_of_int (- sint v)" by simp
  ultimately show ?thesis using sint_sbintrunc' [of "- sint v", where 'a = 32] by (simp add: signed_take_bit_int_eq_self)
qed

text \<open>\<open>putint\<close> prints every \<open>int\<close> but the smallest one, of which only the sign comes out.\<close>

lemma putint_text:
  "printed (putint v) = (if sint v = - (2 ^ 31) then [45] else sdec (sint v))"
proof (cases "sint v = - (2 ^ 31)")
  case True
  then have "(of_int (sint v) :: u32) = - (2 ^ 31)" by simp
  then have "v = - (2 ^ 31)" by simp
  then have eq: "- v = v" "v \<noteq> 0" by simp_all
  have "int_digits (sint v) = []" using True by (subst int_digits.simps) simp
  then show ?thesis unfolding putint_def Let_def eq(1) using eq(2) True by simp
next
  case False
  have z: "v = 0 \<longleftrightarrow> sint v = 0"
  proof
    assume "sint v = 0"
    then have "(of_int (sint v) :: u32) = 0" by simp
    then show "v = 0" by simp
  qed simp
  show ?thesis
    using False sint_uminus [OF False] int_digits_dec [of "sint v"] int_digits_dec [of "- sint v"] z
    by (auto simp: putint_def sdec_def dec_def numeral_in.simps [of _ _ 0])
qed

lemma putptr_text: "printed (putptr v) = bytes_of ''0x'' @ puthex v []"
proof -
  have "rev [0..<16] = map (\<lambda>j. 15 - j) [0..<16 :: nat]" by (simp add: upt_rec)
  then show ?thesis unfolding putptr_def puthex_def fold_putchar by (simp add: diff_mult_distrib2)
qed

lemma read_hex_puthex: "read_hex (puthex v []) = v"
  using read_hex_upto [of 16 v] by (simp add: puthex_digits)

section \<open>What printf prints\<close>

text \<open>
  The text for one conversion, over the argument slots from \<open>n\<close> on; \<open>strs n\<close> is the string
  the pointer in slot \<open>n\<close> points to.
\<close>

definition slots :: "u8 \<Rightarrow> nat" where
  "slots d = (if d \<in> {99, 115, 100, 117, 120, 112} then 1 else 0)"

definition conversion :: "(nat \<Rightarrow> u64) \<Rightarrow> (nat \<Rightarrow> u8 list) \<Rightarrow> nat \<Rightarrow> u8 \<Rightarrow> u8 list" where
  "conversion arg strs n d =
     (if d = 37 then [37]
      else if d = 99 then [ucast (arg n)]
      else if d = 115 then if arg n = 0 then bytes_of ''(null)'' else strs n
      else if d = 100 then sdec (sint (ucast (arg n) :: u32))
      else if d = 117 then dec (unat (ucast (arg n) :: u32))
      else if d = 120 then hex (unat (ucast (arg n) :: u32))
      else if d = 112 then bytes_of ''0x'' @ puthex (arg n) []
      else [37, d])"

fun rendered :: "(nat \<Rightarrow> u64) \<Rightarrow> (nat \<Rightarrow> u8 list) \<Rightarrow> nat \<Rightarrow> u8 list \<Rightarrow> u8 list" where
  "rendered arg strs n [] = []"
| "rendered arg strs n (c # f) =
     (if c \<noteq> 37 then c # rendered arg strs n f
      else
        (case f of
           [] \<Rightarrow> []
         | d # f' \<Rightarrow> conversion arg strs n d @ rendered arg strs (n + slots d) f'))"

text \<open>The slots a format takes as strings.\<close>

fun string_slots :: "nat \<Rightarrow> u8 list \<Rightarrow> nat list" where
  "string_slots n [] = []"
| "string_slots n (c # f) =
     (if c \<noteq> 37 then string_slots n f
      else
        (case f of
           [] \<Rightarrow> []
         | d # f' \<Rightarrow> (if d = 115 then [n] else []) @ string_slots (n + slots d) f'))"

definition string_arg :: "memory \<Rightarrow> (nat \<Rightarrow> u64) \<Rightarrow> (nat \<Rightarrow> u8 list) \<Rightarrow> nat \<Rightarrow> bool" where
  "string_arg m arg strs n \<longleftrightarrow> arg n = 0 \<or> cstr m (arg n) (strs n) \<and> length (strs n) < 2 ^ 31"

text \<open>\<open>print_uint((unsigned)(-v))\<close> is right for the smallest \<open>int\<close>, too.\<close>

lemma unat_uminus_neg:
  assumes "sint (v :: u32) < 0"
  shows "int (unat (- v)) = - sint v"
proof -
  have "- (2 ^ 31) \<le> sint v" using sint_range_size [of v] by (simp add: word_size)
  then have k: "nat (- sint v) < 2 ^ 32" "0 \<le> - sint v" using assms by simp_all
  have "- v = of_int (- sint v)" by simp
  also have "\<dots> = of_int (int (nat (- sint v)))" using k(2) by simp
  finally have "- v = of_nat (nat (- sint v))" by (simp only: of_int_of_nat_eq)
  then have "unat (- v) = nat (- sint v)" using k(1) by (simp add: unat_of_nat)
  then show ?thesis using k(2) by simp
qed

lemma unat_sint: "0 \<le> sint (v :: u32) \<Longrightarrow> unat v = nat (sint v)"
proof -
  assume pos: "0 \<le> sint v"
  have k: "nat (sint v) < 2 ^ 32" using sint_range_size [of v] pos by (simp add: word_size nat_less_iff)
  have "(of_int (sint v) :: u32) = of_int (int (nat (sint v)))" using pos by simp
  then have "v = of_nat (nat (sint v))" by (simp only: of_int_sint of_int_of_nat_eq) simp
  moreover have "unat (of_nat (nat (sint v)) :: u32) = nat (sint v)" using k by (simp add: unat_of_nat)
  ultimately show ?thesis by metis
qed

lemma directive_text:
  assumes "d = 115 \<Longrightarrow> string_arg m arg strs n"
  shows "\<exists>ws. directive m arg n d = Some (ws, n + slots d) \<and> printed ws = conversion arg strs n d"
proof -
  let ?v = "ucast (arg n) :: u32"
  have neg: "nat (- sint ?v) = unat (- ?v)" if "sint ?v < 0"
    by (simp only: unat_uminus_neg [OF that, symmetric] nat_int)
  have pos: "nat (sint ?v) = unat ?v" if "\<not> sint ?v < 0" using unat_sint [of ?v] that by simp
  have str: "\<exists>ws. puts m (arg n) = Some ws \<and> printed ws = strs n" if "d = 115" "arg n \<noteq> 0"
    using assms that write_str [of m "arg n" "strs n" 1] by (simp add: string_arg_def puts_def)
  show ?thesis
    using str neg pos
    by (auto simp: directive_def conversion_def slots_def Let_def sdec_def putptr_text)
qed

lemma printf_from_text:
  "cstr m p f \<Longrightarrow> (\<And>i. i \<in> set (string_slots n f) \<Longrightarrow> string_arg m arg strs i) \<Longrightarrow>
     \<exists>ws. printf_from m arg n p = Some ws \<and> printed ws = rendered arg strs n f"
proof (induction f arbitrary: n p rule: length_induct)
  case (1 f)
  note IH = 1 (1) [rule_format] and f = 1 (2) and args = 1 (3)
  show ?case
  proof (cases f)
    case Nil
    then show ?thesis using f by (subst printf_from.simps) simp
  next
    case c: (Cons c f1)
    show ?thesis
    proof (cases "c = 37")
      case False
      then have "\<exists>ws. printf_from m arg n (p + 1) = Some ws \<and> printed ws = rendered arg strs n f1"
        using f args c by (intro IH) simp_all
      then show ?thesis using False c f by (subst printf_from.simps) auto
    next
      case True
      show ?thesis
      proof (cases f1)
        case Nil
        then show ?thesis using True c f by (subst printf_from.simps) simp
      next
        case d: (Cons d f2)
        have "\<exists>ws. printf_from m arg (n + slots d) (p + 1 + 1) = Some ws \<and> printed ws = rendered arg strs (n + slots d) f2"
          using f args c d True by (intro IH) (simp_all add: add.assoc)
        moreover have "\<exists>ws. directive m arg n d = Some (ws, n + slots d) \<and> printed ws = conversion arg strs n d"
          using args c d True by (intro directive_text) simp
        ultimately show ?thesis using True c d f by (subst printf_from.simps) auto
      qed
    qed
  qed
qed

section \<open>Properties\<close>

text \<open>
  C32: \<open>printf\<close>. For every format string, and arguments whose string slots hold null or a
  string, \<open>printf\<close> returns and prints the format with each conversion replaced by the text of
  its argument, in order; the texts of \<open>%d\<close>, \<open>%u\<close>, \<open>%x\<close> and \<open>%p\<close> read back as the argument,
  for every value of it.
\<close>
theorem printf_renders:
  assumes "cstr m fmt f" "\<And>i. i \<in> set (string_slots 0 f) \<Longrightarrow> string_arg m arg strs i"
  shows "\<exists>ws. printf m fmt arg = Some ws \<and> printed ws = rendered arg strs 0 f \<and>
    read_sdec (conversion arg strs n 100) = sint (ucast (arg n) :: u32) \<and>
    read_dec (conversion arg strs n 117) = unat (ucast (arg n) :: u32) \<and>
    read_hexnum (conversion arg strs n 120) = unat (ucast (arg n) :: u32) \<and>
    read_hex (drop 2 (conversion arg strs n 112)) = arg n"
  unfolding printf_def using printf_from_text [OF assms] read_hex_puthex [of "arg n"]
  by (simp add: conversion_def bytes_of_def)

text \<open>The format \<open>%d!\<close>, printing minus five.\<close>

definition a_format :: memory where
  "a_format = (\<lambda>_. 0)(0x100 := 37, 0x101 := 100, 0x102 := 33)"

lemma printf_renders_witness:
  "\<exists>ws. printf a_format 0x100 (\<lambda>_. -5) = Some ws \<and> printed ws = [45, 53, 33]"
proof -
  have f: "cstr a_format 0x100 [37, 100, 33]" by (simp add: a_format_def)
  have "rendered (\<lambda>_. -5) strs 0 [37, 100, 33] = [45, 53, 33]" for strs
    by (simp add: conversion_def sdec_def dec_def numeral_in.simps)
  then show ?thesis using printf_renders [OF f, of "\<lambda>_. -5" "\<lambda>_. []" 0] by auto
qed

end
