(* ===== verification/User_Calls.thy ===== *)
theory User_Calls
  imports System Write_Spec User_Print
begin

text \<open>
  The system call wrappers of \<open>kernel/user/syscalls.c\<close>. A wrapper is what it leaves in the
  registers before its \<open>ecall\<close>, over the trap frame in which the kernel finds them; an \<open>int\<close> is
  held sign-extended in its register, and the result is what the kernel leaves in \<open>a0\<close>. What a
  program prints with the output functions (\<open>User_Print\<close>) is followed through the kernel to the
  console.
\<close>

section \<open>The wrappers\<close>

definition exit_call :: "u32 \<Rightarrow> trap_frame \<Rightarrow> trap_frame" where
  "exit_call code f = f\<lparr>tf_a7 := 2, tf_a0 := scast code\<rparr>"

definition fork_call :: "trap_frame \<Rightarrow> trap_frame" where
  "fork_call f = f\<lparr>tf_a7 := 3\<rparr>"

definition exec_call :: "u64 \<Rightarrow> trap_frame \<Rightarrow> trap_frame" where
  "exec_call filename f = f\<lparr>tf_a7 := 4, tf_a0 := filename\<rparr>"

definition wait_call :: "trap_frame \<Rightarrow> trap_frame" where
  "wait_call f = f\<lparr>tf_a7 := 5\<rparr>"

definition sbrk_call :: "u32 \<Rightarrow> trap_frame \<Rightarrow> trap_frame" where
  "sbrk_call increment f = f\<lparr>tf_a7 := 6, tf_a0 := scast increment\<rparr>"

definition open_call :: "u64 \<Rightarrow> trap_frame \<Rightarrow> trap_frame" where
  "open_call filename f = f\<lparr>tf_a7 := 7, tf_a0 := filename\<rparr>"

definition read_call :: "u32 \<Rightarrow> u64 \<Rightarrow> u32 \<Rightarrow> trap_frame \<Rightarrow> trap_frame" where
  "read_call fd buffer n f = f\<lparr>tf_a7 := 8, tf_a0 := scast fd, tf_a1 := buffer, tf_a2 := scast n\<rparr>"

definition write_call :: "u32 \<Rightarrow> u64 \<Rightarrow> u32 \<Rightarrow> trap_frame \<Rightarrow> trap_frame" where
  "write_call fd buffer n f = f\<lparr>tf_a7 := 9, tf_a0 := scast fd, tf_a1 := buffer, tf_a2 := scast n\<rparr>"

definition close_call :: "u32 \<Rightarrow> trap_frame \<Rightarrow> trap_frame" where
  "close_call fd f = f\<lparr>tf_a7 := 10, tf_a0 := scast fd\<rparr>"

lemmas call_defs = exit_call_def fork_call_def exec_call_def wait_call_def sbrk_call_def open_call_def
  read_call_def write_call_def close_call_def

text \<open>\<open>int ret\<close>, moved out of \<open>a0\<close>.\<close>

definition call_result :: "trap_frame \<Rightarrow> int" where
  "call_result f = sint (ucast (tf_a0 f) :: u32)"

text \<open>What \<open>ecall\<close> in user mode adds: the cause, and the mode it came from.\<close>

definition at_ecall :: "trap_frame \<Rightarrow> bool" where
  "at_ecall f \<longleftrightarrow> tf_scause f = 8 \<and> \<not> from_supervisor f"

lemma at_ecall_call [simp]:
  "at_ecall (exit_call code f) = at_ecall f" "at_ecall (fork_call f) = at_ecall f"
  "at_ecall (exec_call name f) = at_ecall f" "at_ecall (wait_call f) = at_ecall f"
  "at_ecall (sbrk_call inc f) = at_ecall f" "at_ecall (open_call name f) = at_ecall f"
  "at_ecall (read_call fd buf n f) = at_ecall f" "at_ecall (write_call fd buf n f) = at_ecall f"
  "at_ecall (close_call fd f) = at_ecall f"
  by (simp_all add: at_ecall_def from_supervisor_def call_defs)

lemma at_ecall_user: "at_ecall f \<Longrightarrow> \<not> from_supervisor f"
  by (simp add: at_ecall_def)

section \<open>Into the kernel\<close>

text \<open>The frame a handler finds: behind the \<open>ecall\<close>.\<close>

definition after_ecall :: "trap_frame \<Rightarrow> trap_frame" where
  "after_ecall f = f\<lparr>tf_sepc := tf_sepc f + 4\<rparr>"

definition calls :: "nat \<Rightarrow> trap_frame \<Rightarrow> kernel \<Rightarrow> kernel" where
  "calls c f k = upd_frame (ProcFrame c) (\<lambda>_. f) k"

lemma calls_simps [simp]:
  "mem (calls c f k) = mem k" "console (calls c f k) = console k" "satp (calls c f k) = satp k"
  "current (calls c f k) = current k" "rx (calls c f k) = rx k" "length (procs (calls c f k)) = length (procs k)"
  by (simp_all add: calls_def)

lemma calls_frame [simp]: "c < length (procs k) \<Longrightarrow> frame (procs (calls c f k) ! c) = f"
  by (simp add: calls_def)

lemma calls_nth: "procs (calls c f k) ! i = (if i = c \<and> c < length (procs k) then (procs k ! c)\<lparr>frame := f\<rparr> else procs k ! i)"
  by (cases "c < length (procs k)") (simp_all add: calls_def upd_proc_def nth_list_update list_update_beyond)

lemma calls_other [simp]:
  "page_table (procs (calls c f k) ! i) = page_table (procs k ! i)"
  "open_files (procs (calls c f k) ! i) = open_files (procs k ! i)"
  "state (procs (calls c f k) ! i) = state (procs k ! i)"
  by (simp_all add: calls_nth)

lemma calls_file [simp]: "the_file (calls c f k) c' fd = the_file k c' fd"
  by (simp add: the_file_def Let_def)

lemma calls_buffer [simp]: "buffer_bytes c' (calls c f k) buf n = buffer_bytes c' k buf n"
  by (simp add: buffer_bytes_def)

lemma trap_at_ecall:
  assumes c: "c < length (procs k)" and f: "at_ecall f"
  shows "trap_handler L inp (ProcFrame c) (calls c f k) = syscall L inp (ProcFrame c) (calls c (after_ecall f) k)"
proof -
  have "upd_frame (ProcFrame c) (\<lambda>f. f\<lparr>tf_sepc := tf_sepc f + 4\<rparr>) (calls c f k) = calls c (after_ecall f) k"
    using c by (simp add: calls_def upd_proc_def after_ecall_def)
  moreover have "get_frame (calls c f k) (ProcFrame c) = f" using c by simp
  ultimately show ?thesis using f by (simp add: trap_handler_def at_ecall_def Let_def)
qed

lemma int_register [simp]: "ucast (scast (n :: u32) :: u64) = n"
  by (rule bit_word_eqI) (simp add: bit_simps)

text \<open>
  Every wrapper reaches its handler, which finds the C arguments: an \<open>int\<close> with its sign, a
  pointer as it is.
\<close>

lemma call_arrives:
  assumes c: "c < length (procs k)" and f: "at_ecall f"
  shows "trap_handler L inp (ProcFrame c) (calls c (exit_call code f) k) = exit_current (in_wakes inp) (ProcFrame c) (calls c (after_ecall (exit_call code f)) k)"
    and "trap_handler L inp (ProcFrame c) (calls c (fork_call f) k) = sys_fork L (ProcFrame c) (calls c (after_ecall (fork_call f)) k)"
    and "trap_handler L inp (ProcFrame c) (calls c (exec_call name f) k) = sys_exec L (ProcFrame c) (calls c (after_ecall (exec_call name f)) k)"
    and "trap_handler L inp (ProcFrame c) (calls c (wait_call f) k) = sys_wait L (in_wakes inp) (ProcFrame c) (calls c (after_ecall (wait_call f)) k)"
    and "trap_handler L inp (ProcFrame c) (calls c (sbrk_call inc f) k) = sys_sbrk L (ProcFrame c) (calls c (after_ecall (sbrk_call inc f)) k)"
    and "trap_handler L inp (ProcFrame c) (calls c (open_call name f) k) = sys_open L (ProcFrame c) (calls c (after_ecall (open_call name f)) k)"
    and "trap_handler L inp (ProcFrame c) (calls c (read_call fd buf n f) k) = sys_read (in_wakes inp) (ProcFrame c) (calls c (after_ecall (read_call fd buf n f)) k)"
    and "trap_handler L inp (ProcFrame c) (calls c (write_call fd buf n f) k) = sys_write (ProcFrame c) (calls c (after_ecall (write_call fd buf n f)) k)"
    and "trap_handler L inp (ProcFrame c) (calls c (close_call fd f) k) = sys_close (ProcFrame c) (calls c (after_ecall (close_call fd f)) k)"
  using c f by (simp_all add: trap_at_ecall syscall_def Let_def after_ecall_def) (simp_all add: call_defs)

lemma call_arguments [simp]:
  "fd_arg (after_ecall (read_call fd buf n f)) = sint fd" "tf_a1 (after_ecall (read_call fd buf n f)) = buf"
  "ucast (tf_a2 (after_ecall (read_call fd buf n f))) = n"
  "fd_arg (after_ecall (write_call fd buf n f)) = sint fd" "tf_a1 (after_ecall (write_call fd buf n f)) = buf"
  "ucast (tf_a2 (after_ecall (write_call fd buf n f))) = n"
  "fd_arg (after_ecall (close_call fd f)) = sint fd"
  "tf_a0 (after_ecall (exec_call name f)) = name" "tf_a0 (after_ecall (open_call name f)) = name"
  "tf_a0 (after_ecall (sbrk_call inc f)) = scast inc"
  by (simp_all add: fd_arg_def after_ecall_def call_defs)

section \<open>Printing\<close>

text \<open>A buffer of the current process that holds \<open>bs\<close> and that the kernel accepts.\<close>

definition buffer_holds :: "nat \<Rightarrow> kernel \<Rightarrow> u64 \<Rightarrow> u8 list \<Rightarrow> bool" where
  "buffer_holds c k buf bs \<longleftrightarrow>
     user_range_ok (mem k) (page_table (procs k ! c)) buf (of_nat (length bs)) PTE_R \<and>
     unat buf + length bs \<le> 2 ^ 38 \<and> length bs < 2 ^ 31 \<and> buffer_bytes c k buf (length bs) = bs"

definition console_fd :: "nat \<Rightarrow> kernel \<Rightarrow> int \<Rightarrow> bool" where
  "console_fd c k fd \<longleftrightarrow> (\<exists>fl. the_file k c fd = Some fl \<and> f_type fl = FILE_TYPE_CONSOLE)"

lemma calls_console_fd [simp]: "console_fd c (calls c f k) fd = console_fd c k fd"
  by (simp add: console_fd_def)

lemma calls_buffer_holds [simp]: "buffer_holds c (calls c f k) buf bs = buffer_holds c k buf bs"
  by (simp add: buffer_holds_def)

text \<open>One \<open>write\<close>, from the C call to its result.\<close>

definition answered :: "nat \<Rightarrow> u8 list \<Rightarrow> trap_frame \<Rightarrow> kernel \<Rightarrow> kernel" where
  "answered c bs f k = calls c (f\<lparr>tf_a0 := of_nat (length bs)\<rparr>) (k\<lparr>console := console k @ bs\<rparr>)"

lemma write_call_prints:
  assumes ok: "kernel_ok L c k" and f: "at_ecall f" and fd: "console_fd c k (int fd)" "fd < 2 ^ 31"
    and b: "buffer_holds c k buf bs"
  shows "trap_handler L inp (ProcFrame c) (calls c (write_call (of_nat fd) buf (of_nat (length bs)) f) k) =
    Inr (ProcFrame c, answered c bs (after_ecall (write_call (of_nat fd) buf (of_nat (length bs)) f)) k)"
proof -
  let ?n = "of_nat (length bs) :: u32"
  let ?g = "after_ecall (write_call (of_nat fd) buf ?n f)"
  let ?k = "calls c ?g k"
  have c: "c < length (procs k)" using kernel_okD(1,2) [OF ok] by simp
  have n: "unat ?n = length bs" "(ucast ?n :: u64) = of_nat (length bs)"
    using b by (simp_all add: buffer_holds_def unat_of_nat unsigned_of_nat take_bit_nat_eq_self)
  have k: "kernel_ok L c ?k" unfolding calls_def by (rule kernel_ok_frame [OF ok])
  have sfd: "sint (of_nat fd :: u32) = int fd"
    using fd(2) by (simp add: signed_of_nat signed_take_bit_int_eq_self)
  obtain fl where fl: "the_file ?k c (int fd) = Some fl" "f_type fl = FILE_TYPE_CONSOLE"
    using fd(1) by (auto simp: console_fd_def)
  have chk: "user_range_ok (mem ?k) (page_table (procs ?k ! c)) buf (ucast ?n) PTE_R"
    "unat buf + unat ?n \<le> 2 ^ 38" "buffer_bytes c ?k buf (unat ?n) = bs"
    using b n by (simp_all add: buffer_holds_def)
  have "sys_write (ProcFrame c) ?k = ret (ProcFrame c) (ucast ?n) (?k\<lparr>console := console ?k @ bs\<rparr>)"
    using sys_write_answers [OF k refl refl refl] c chk fl sfd by simp
  also have "\<dots> = Inr (ProcFrame c, answered c bs ?g k)"
    using c n(2) by (simp add: ret_def answered_def calls_def upd_proc_def)
  finally show ?thesis using call_arrives(8) [OF c f] by simp
qed

text \<open>
  A program hands the requests of an output function to the kernel: before each it computes (its
  own user frames and its registers may change), until the buffer is filled and it calls
  \<open>write\<close>. The result is that of the last trap, or of the first that does not come back to the
  program. No timer tick falls between the requests: another process could print then.
\<close>

inductive performs :: "layout \<Rightarrow> nat \<Rightarrow> request list \<Rightarrow> kernel \<Rightarrow> stop + tf_ptr \<times> kernel \<Rightarrow> bool" for L c where
  finished: "performs L c [] k (Inr (ProcFrame c, k))"
| request: "same_except (user_frames (mem k) (page_table (procs k ! c))) (mem k) m \<Longrightarrow>
    buffer_holds c (k\<lparr>mem := m\<rparr>) buf bs \<Longrightarrow> at_ecall f \<Longrightarrow>
    trap_handler L inp (ProcFrame c) (calls c (write_call (of_nat fd) buf (of_nat (length bs)) f) (k\<lparr>mem := m\<rparr>)) = Inr (ProcFrame c, k1) \<Longrightarrow>
    performs L c ws k1 out \<Longrightarrow> performs L c ((fd, bs) # ws) k out"
| lost: "same_except (user_frames (mem k) (page_table (procs k ! c))) (mem k) m \<Longrightarrow>
    buffer_holds c (k\<lparr>mem := m\<rparr>) buf bs \<Longrightarrow> at_ecall f \<Longrightarrow>
    trap_handler L inp (ProcFrame c) (calls c (write_call (of_nat fd) buf (of_nat (length bs)) f) (k\<lparr>mem := m\<rparr>)) = out \<Longrightarrow>
    (\<And>k1. out \<noteq> Inr (ProcFrame c, k1)) \<Longrightarrow> performs L c ((fd, bs) # ws) k out"

lemma answered_keeps:
  assumes "system_ok L c k" "c < length (procs k)"
  shows "system_ok L c (answered c bs f k)" "console_fd c (answered c bs f k) fd = console_fd c k fd"
proof -
  have k: "kernel_ok L c k" "all_guarded k" using system_okD [OF assms(1)] by simp_all
  have "kernel_ok L c (k\<lparr>console := x\<rparr>)" for x by (rule kernel_ok_owned [OF k(1)]) (use kernel_okD(6) [OF k(1)] in \<open>simp_all add: spaces_ok_def\<close>)
  then have "kernel_ok L c (answered c bs f k)" unfolding answered_def calls_def by (rule kernel_ok_frame)
  moreover have "system_ok L c (upd_frame (ProcFrame c) (\<lambda>_. g) (k\<lparr>mem := mem k\<rparr>))" for g
    by (rule system_ok_user [OF assms(1)]) (simp add: same_except_def)
  then have "all_guarded (calls c g k)" for g using system_okD(2) [of L c "calls c g k"] by (simp add: calls_def)
  then have "all_guarded (answered c bs f k)" by (simp add: answered_def everywhere_def calls_def upd_proc_def live_def)
  ultimately show "system_ok L c (answered c bs f k)" by (simp add: system_ok_def)
  show "console_fd c (answered c bs f k) fd = console_fd c k fd"
    by (simp add: answered_def console_fd_def the_file_def Let_def)
qed

lemma request_served:
  assumes "same_except (user_frames (mem k) (page_table (procs k ! c))) (mem k) m"
    and "buffer_holds c (k\<lparr>mem := m\<rparr>) buf bs" "at_ecall f" "system_ok L c k" "console_fd c k (int fd)" "fd < 2 ^ 31"
  shows "\<exists>k1. trap_handler L inp (ProcFrame c) (calls c (write_call (of_nat fd) buf (of_nat (length bs)) f) (k\<lparr>mem := m\<rparr>)) =
      Inr (ProcFrame c, k1) \<and> console k1 = console k @ bs \<and> system_ok L c k1 \<and>
    (\<forall>i. console_fd c k1 i = console_fd c k i) \<and> call_result (frame (procs k1 ! c)) = int (length bs) \<and>
    mem k1 = m \<and> page_table (procs k1 ! c) = page_table (procs k ! c)"
proof -
  let ?k = "k\<lparr>mem := m\<rparr>" and ?g = "after_ecall (write_call (of_nat fd) buf (of_nat (length bs)) f)"
  have c: "c < length (procs k)"
    using kernel_okD(1,2) [OF system_okD(1) [OF assms(4)]] by simp
  have "system_ok L c (calls c (frame (procs k ! c)) ?k)"
    unfolding calls_def by (rule system_ok_user [OF assms(4,1)])
  then have sk: "system_ok L c ?k" using c by (simp add: calls_def upd_proc_def)
  have fds: "console_fd c ?k i = console_fd c k i" for i by (simp add: console_fd_def the_file_def)
  have len: "length bs < 2 ^ 31" using assms(2) by (simp add: buffer_holds_def)
  have "sint (ucast (of_nat (length bs) :: u64) :: u32) = int (length bs)"
    using len by (simp add: signed_take_bit_int_eq_self unsigned_of_nat signed_of_nat take_bit_nat_eq_self)
  then have "call_result (frame (procs (answered c bs ?g ?k) ! c)) = int (length bs)"
    using c by (simp add: answered_def call_result_def)
  then show ?thesis
    using write_call_prints [OF system_okD(1) [OF sk] assms(3) _ assms(6,2)] answered_keeps [OF sk] assms(5) c fds
    by (auto simp: answered_def)
qed

text \<open>The requests of a program, one after the other.\<close>

lemma performs_console:
  assumes "performs L c ws k out" "system_ok L c k" "\<forall>w \<in> set ws. console_fd c k (int (fst w)) \<and> fst w < 2 ^ 31"
  shows "\<exists>k'. out = Inr (ProcFrame c, k') \<and> console k' = console k @ printed ws \<and> system_ok L c k' \<and>
    (ws \<noteq> [] \<longrightarrow> call_result (frame (procs k' ! c)) = int (length (snd (last ws))))"
  using assms
proof (induction rule: performs.induct)
  case (finished k)
  then show ?case by simp
next
  case (request k m buf bs f inp fd k1 ws out)
  have fd: "console_fd c k (int fd)" "fd < 2 ^ 31" "\<forall>w \<in> set ws. console_fd c k (int (fst w)) \<and> fst w < 2 ^ 31"
    using request.prems(2) by auto
  from request_served [OF request.hyps(1-3) request.prems(1) fd(1,2), of inp] request.hyps(4)
  have k1: "console k1 = console k @ bs" "system_ok L c k1" "\<And>i. console_fd c k1 i = console_fd c k i"
    "call_result (frame (procs k1 ! c)) = int (length bs)" by auto
  show ?case
  proof (cases ws)
    case Nil
    then have "out = Inr (ProcFrame c, k1)" using request.hyps(5) by (auto elim: performs.cases)
    then show ?thesis using Nil k1 by simp
  next
    case (Cons w ws')
    then show ?thesis using request.IH k1(2) k1(3) fd(3) k1(1) by simp
  qed
next
  case (lost k m buf bs f inp fd out ws)
  have "console_fd c k (int fd)" "fd < 2 ^ 31" using lost.prems(2) by auto
  from request_served [OF lost.hyps(1-3) lost.prems(1) this, of inp] show ?case using lost.hyps(4,5) by auto
qed

section \<open>printf\<close>

definition to_stdout :: "request list \<Rightarrow> bool" where
  "to_stdout ws \<longleftrightarrow> (\<forall>w \<in> set ws. fst w = 1)"

lemma to_stdout_simps [simp]:
  "to_stdout []" "to_stdout (w # ws) \<longleftrightarrow> fst w = 1 \<and> to_stdout ws" "to_stdout (ws @ ws') \<longleftrightarrow> to_stdout ws \<and> to_stdout ws'"
  "to_stdout (putchar b)" "to_stdout (putchars bs)"
  by (auto simp: to_stdout_def putchar_def putchars_def)

lemma puts_stdout: "puts m p = Some ws \<Longrightarrow> to_stdout ws"
  by (auto simp: puts_def write_str_def bind_eq_Some_conv)

lemma directive_stdout: "directive m arg n d = Some (ws, n') \<Longrightarrow> to_stdout ws"
  using puts_stdout [of m "arg n"]
  by (auto simp: directive_def Let_def print_uint_def print_hex_def putptr_def bind_eq_Some_conv split: if_splits)

lemma printf_stdout: "printf_from m arg n p = Some ws \<Longrightarrow> to_stdout ws"
proof (erule printf_from.raw_induct [rotated, where P = "\<lambda>m arg n p ws. to_stdout ws"])
  fix pf m arg n p ws
  assume "\<And>m arg n p ws. pf m arg n p = Some ws \<Longrightarrow> to_stdout ws"
    and "(if m p = 0 then Some [] else if m p \<noteq> 37
        then Option.bind (pf m arg n (p + 1)) (\<lambda>ws. Some (putchar (m p) @ ws))
        else if m (p + 1) = 0 then Some []
        else Option.bind (directive m arg n (m (p + 1))) (\<lambda>(out, n').
          Option.bind (pf m arg n' (p + 1 + 1)) (\<lambda>ws. Some (out @ ws)))) = Some ws"
  then show "to_stdout ws"
    using directive_stdout by (fastforce simp: bind_eq_Some_conv split: if_splits)
qed

section \<open>A program that can print\<close>

text \<open>A page the program may read and write, at address 0x1000; the buffer is the byte 0x1004.\<close>

definition own_page :: "nat \<Rightarrow> kernel \<Rightarrow> bool" where
  "own_page c k \<longleftrightarrow> (let e = path_leaf (mem k) (page_table (procs k ! c)) 0x1000
     in has e PTE_V \<and> has e PTE_U \<and> has e PTE_R \<and> has e PTE_W)"

lemma byte_at_own_page:
  fixes b :: u8
  assumes ok: "kernel_ok L c k" and e: "own_page c k"
  defines "r \<equiv> page_table (procs k ! c)"
  defines "m \<equiv> (mem k)(user_addr (mem k) r 0x1004 := b)"
  shows "same_except (user_frames (mem k) r) (mem k) m" "buffer_holds c (k\<lparr>mem := m\<rparr>) 0x1004 [b]"
    and "path_leaf m r 0x1000 = path_leaf (mem k) r 0x1000"
proof -
  note o = spaces_okD(1) [OF kernel_okD(6) [OF ok]]
  have wf: "wf_forest L (mem k) (roots (procs k))" and r: "r \<in> roots (procs k)"
    using spaces_okD(2) [OF kernel_okD(6) [OF ok]] current_root [OF ok] by (simp_all add: r_def)
  have leaf: "path_leaf m' r 0x1004 = path_leaf m' r 0x1000" for m' by (simp add: path_leaf_def VPN_def)
  let ?e = "path_leaf (mem k) r 0x1000"
  have flags: "has ?e PTE_V" "has ?e PTE_U" "has ?e PTE_R" "has ?e PTE_W"
    using e by (simp_all add: own_page_def r_def Let_def)
  then have "user_frame ?e = Some (PTE_TO_PA ?e)" by (simp add: user_frame_def is_leaf_def)
  moreover have "tree (mem k) r (vpath 0x1000) = user_frame ?e"
    unfolding path_leaf_def by (rule tree_leaf) simp_all
  ultimately have own: "PTE_TO_PA ?e \<in> user_frames (mem k) r" unfolding user_frames_def by auto
  have "page_base (user_addr (mem k) r 0x1004) = PTE_TO_PA ?e"
    unfolding user_addr_def leaf by (rule page_base_add) simp_all
  then show se: "same_except (user_frames (mem k) r) (mem k) m"
    using own by (auto simp: same_except_def m_def)
  have F: "f \<in> user_frames (mem k) r \<Longrightarrow> \<exists>i j l. tree (mem k) r [i, j, l] = Some f" for f
    by (simp add: user_frames_def)
  note uw = user_writes [OF o r se F]
  show same: "path_leaf m r 0x1000 = path_leaf (mem k) r 0x1000"
    unfolding path_leaf_def by (rule uw(4) [OF _ r]) simp_all
  have "page_base 0x1004 = 0x1000" "page_up (0x1004 + 1) = 0x2000"
    by (simp_all add: page_base_def page_up_def)
  moreover have "pages_in 0x1000 0x2000 = {0x1000}"
    using pages_in_step [of "0x1000" "0x1000"] by (simp add: page_aligned_def)
  moreover have "user_page_ok m r PTE_R 0x1000"
    using flags by (simp add: user_page_ok_iff [OF owned_wf [OF uw(1)] r] same has_flags bit_flags)
  ultimately have "user_range_ok m r 0x1004 1 PTE_R" by (simp add: user_range_ok_iff)
  moreover have "user_addr m r 0x1004 = user_addr (mem k) r 0x1004"
    unfolding user_addr_def leaf same ..
  then have "buffer_bytes c (k\<lparr>mem := m\<rparr>) 0x1004 1 = [b]" by (simp add: buffer_bytes_def r_def m_def)
  ultimately show "buffer_holds c (k\<lparr>mem := m\<rparr>) 0x1004 [b]" by (simp add: buffer_holds_def r_def)
qed

lemma can_print:
  assumes "system_ok L c k" "console_fd c k 1" "own_page c k"
  shows "\<exists>out. performs L c (putchars bs) k out"
  using assms
proof (induction bs arbitrary: k)
  case Nil
  then show ?case using performs.finished by (auto simp: putchars_def)
next
  case (Cons b bs)
  let ?f = "zero_frame\<lparr>tf_scause := 8\<rparr>"
  have f: "at_ecall ?f" by (simp add: at_ecall_def from_supervisor_def zero_frame_def)
  note w = byte_at_own_page [OF system_okD(1) [OF Cons.prems(1)] Cons.prems(3), of b]
  obtain k1 where k1: "trap_handler L undefined (ProcFrame c) (calls c (write_call (of_nat 1) 0x1004 (of_nat (length [b])) ?f)
      (k\<lparr>mem := (mem k)(user_addr (mem k) (page_table (procs k ! c)) 0x1004 := b)\<rparr>)) = Inr (ProcFrame c, k1)"
    "system_ok L c k1" "console_fd c k1 1" "own_page c k1"
    using request_served [OF w(1,2) f Cons.prems(1), of 1 undefined] Cons.prems(2,3) w(3)
    by (auto simp: own_page_def)
  obtain out where "performs L c (putchars bs) k1 out" using Cons.IH [OF k1(2-4)] by blast
  from performs.request [OF w(1,2) f k1(1) this]
  show ?case by (auto simp: putchars_def putchar_def)
qed

section \<open>Properties\<close>

text \<open>
  C16: what a program prints reaches the console. A program whose descriptor 1 is the console
  calls \<open>printf\<close>: handing the bytes to the kernel, \<open>write\<close> after \<open>write\<close> and with any
  computation between, it is never stopped or taken off the processor by a call, the console
  shows exactly the rendered format behind what stood there, and the system stays well formed.
\<close>
theorem printf_reaches_console:
  assumes "cstr m fmt f" "\<And>i. i \<in> set (string_slots 0 f) \<Longrightarrow> string_arg m arg strs i"
    and "system_ok L c k" "console_fd c k 1"
  shows "\<exists>ws. printf m fmt arg = Some ws \<and>
    (\<forall>out. performs L c ws k out \<longrightarrow>
      (\<exists>k'. out = Inr (ProcFrame c, k') \<and> console k' = console k @ rendered arg strs 0 f \<and> system_ok L c k'))"
proof -
  obtain ws where ws: "printf m fmt arg = Some ws" "printed ws = rendered arg strs 0 f"
    using printf_from_text [OF assms(1,2)] by (auto simp: printf_def)
  then have fd: "to_stdout ws" by (simp add: printf_def printf_stdout)
  have "\<exists>k'. out = Inr (ProcFrame c, k') \<and> console k' = console k @ rendered arg strs 0 f \<and> system_ok L c k'"
    if "performs L c ws k out" for out
    using performs_console [OF that assms(3)] assms(4) fd ws(2) by (auto simp: to_stdout_def)
  then show ?thesis using ws(1) by blast
qed

text \<open>The format \<open>%d!\<close> again: seven, on the console of the sample machine.\<close>

lemma calling_console: "console_fd 0 (calling num x y z) 1"
  by (simp add: console_fd_def the_file_def calling_def sample_machine_procs sample_process_def
    init_process_fds_def empty_process_def console_file_def)

lemma calling_own_page: "own_page 0 (calling num x y z)"
  using has_entry [OF user_rw_flags] sample_user_space(2)
  by (simp add: own_page_def calling_def sample_machine_procs sample_process_def sample_machine_leaf
    init_process_fds_def empty_process_def has_flags bit_or_iff bit_flags Let_def)

lemma printf_reaches_console_witness:
  "\<exists>out k'. performs sample_layout 0 (putchars [55, 33]) (calling 9 0 0 0) out \<and>
     printf a_format 0x100 (\<lambda>_. 7) = Some (putchars [55, 33]) \<and> out = Inr (ProcFrame 0, k') \<and>
     console k' = console (calling 9 0 0 0) @ [55, 33]"
proof -
  have f: "cstr a_format 0x100 [37, 100, 33]" by (simp add: a_format_def kread_def)
  have p: "printf a_format 0x100 (\<lambda>_. 7) = Some (putchars [55, 33])"
    by (simp add: printf_def printf_from.simps directive_def a_format_def putchars_def putchar_def print_uint_def
      uint_digits.simps Let_def)
  have "rendered (\<lambda>_. 7) (\<lambda>_. []) 0 [37, 100, 33] = [55, 33]"
    by (simp add: conversion_def sdec_def dec_def numeral_in.simps)
  then have "\<forall>out. performs sample_layout 0 (putchars [55, 33]) (calling 9 0 0 0) out \<longrightarrow>
      (\<exists>k'. out = Inr (ProcFrame 0, k') \<and> console k' = console (calling 9 0 0 0) @ [55, 33] \<and> system_ok sample_layout 0 k')"
    using printf_reaches_console [OF f _ calling_system calling_console, of "\<lambda>_. 7" "\<lambda>_. []" 9 0 0 0] p by simp
  moreover obtain out where "performs sample_layout 0 (putchars [55, 33]) (calling 9 0 0 0) out"
    using can_print [OF calling_system calling_console calling_own_page] by blast
  ultimately show ?thesis using p by blast
qed

end
