(* ===== verification/User_Shell.thy ===== *)
theory User_Shell
  imports User_Print Uart
begin

text \<open>
  The shell (\<open>kernel/user/sh.c\<close>): reading a line, splitting it into words in place, and what
  the shell does with them. Like the string functions, over the memory of the program.
\<close>

section \<open>Splitting a line\<close>

partial_function (option) skip_spaces :: "memory \<Rightarrow> u64 \<Rightarrow> u64 option" where
  "skip_spaces m p = (if m p = 32 then skip_spaces m (p + 1) else Some p)"

partial_function (option) skip_word :: "memory \<Rightarrow> u64 \<Rightarrow> u64 option" where
  "skip_word m p = (if m p \<noteq> 32 \<and> m p \<noteq> 0 then skip_word m (p + 1) else Some p)"

text \<open>
  The loop of \<open>parseline\<close> at \<open>&line[i]\<close>, with \<open>left\<close> entries of the argument array to go. The
  array is the list of the pointers stored so far; the null behind them is implicit.
\<close>

partial_function (option) parse_from :: "memory \<Rightarrow> u64 \<Rightarrow> u64 list \<Rightarrow> nat \<Rightarrow> (u64 list \<times> memory) option" where
  "parse_from m p args left =
     (if m p \<noteq> 0 \<and> 0 < left then
        Option.bind (skip_spaces m p) (\<lambda>w.
          if m w = 0 then Some (args, m)
          else
            Option.bind (skip_word m w) (\<lambda>e.
              if m e = 32 then parse_from (m(e := 0)) (e + 1) (args @ [w]) (left - 1)
              else parse_from m e (args @ [w]) (left - 1)))
      else Some (args, m))"

definition parseline :: "memory \<Rightarrow> u64 \<Rightarrow> nat \<Rightarrow> (u64 list \<times> memory) option" where
  "parseline m line max_args = parse_from m line [] max_args"

subsection \<open>Words\<close>

abbreviation no_space :: "u8 \<Rightarrow> bool" where
  "no_space c \<equiv> c \<noteq> 32"

function words :: "u8 list \<Rightarrow> u8 list list" where
  "words [] = []"
| "words (c # s) = (if c = 32 then words s else (c # takeWhile no_space s) # words (dropWhile no_space s))"
  by pat_completeness auto
termination by (relation "measure length") (simp_all add: less_Suc_eq_le length_dropWhile_le)

lemma skip_spaces: "cstr m p s \<Longrightarrow> skip_spaces m p = Some (p + of_nat (length (takeWhile (\<lambda>c. c = 32) s)))"
proof (induction s arbitrary: p)
  case Nil
  then show ?case by (subst skip_spaces.simps) simp
next
  case (Cons c s)
  then show ?case using Cons.IH [of "p + 1"] by (subst skip_spaces.simps) (simp add: add.assoc)
qed

lemma skip_word: "cstr m p s \<Longrightarrow> skip_word m p = Some (p + of_nat (length (takeWhile no_space s)))"
proof (induction s arbitrary: p)
  case Nil
  then show ?case by (subst skip_word.simps) simp
next
  case (Cons c s)
  then show ?case using Cons.IH [of "p + 1"] by (subst skip_word.simps) (simp add: add.assoc)
qed

lemma cstr_drop: "cstr m p s \<Longrightarrow> n \<le> length s \<Longrightarrow> cstr m (p + of_nat n) (drop n s)"
proof (induction n arbitrary: p s)
  case (Suc n)
  then obtain c t where s: "s = c # t" by (cases s) auto
  then show ?case using Suc.IH [of "p + 1" t] Suc.prems by (simp add: add.assoc)
qed simp

lemma words_spaces: "words (dropWhile (\<lambda>c. c = 32) s) = words s"
  by (induction s) auto

text \<open>Writing beyond a string keeps it.\<close>

lemma cstr_outside:
  assumes "cstr m p w" "\<And>j. j \<le> length w \<Longrightarrow> m' (p + of_nat j) = m (p + of_nat j)"
  shows "cstr m' p w"
  using assms cstr_cong [of w m' p m] by simp

lemma cstr_cut:
  assumes "cstr m p (w @ v)" "\<And>i. i < length w \<Longrightarrow> m' (p + of_nat i) = m (p + of_nat i)" "m' (p + of_nat (length w)) = 0"
  shows "cstr m' p w"
  using assms by (simp add: cstring_kread_iff nth_append)

text \<open>
  \<open>parsed\<close>: the new pointers \<open>ws\<close> point to the words, and only bytes of the text at \<open>p\<close> have
  changed.
\<close>

definition parsed :: "memory \<Rightarrow> u64 \<Rightarrow> u8 list \<Rightarrow> nat \<Rightarrow> u64 list \<Rightarrow> memory \<Rightarrow> bool" where
  "parsed m p s left ws m' \<longleftrightarrow>
     length ws = min left (length (words s)) \<and>
     (\<forall>j < length ws. cstr m' (ws ! j) (words s ! j)) \<and>
     (\<forall>b. (\<forall>i < length s. b \<noteq> p + of_nat i) \<longrightarrow> m' b = m b)"

lemma parse_step:
  assumes s: "cstr m p s" and w: "dropWhile (\<lambda>c. c = 32) s = c # t"
    and a: "a = p + of_nat (length (takeWhile (\<lambda>c. c = 32) s))"
    and e: "e = a + of_nat (length (c # takeWhile no_space t))"
  shows "c \<noteq> 32" "cstr m a (c # t)" "skip_spaces m p = Some a" "skip_word m a = Some e"
    "cstr m e (dropWhile no_space t)" "words s = (c # takeWhile no_space t) # words (dropWhile no_space t)"
proof -
  show c: "c \<noteq> 32" using w dropWhile_eq_Cons_conv [of "\<lambda>c. c = 32" s c t] by blast
  have "length (takeWhile (\<lambda>c. c = 32) s) \<le> length s" by (rule length_takeWhile_le)
  from cstr_drop [OF s this] show ct: "cstr m a (c # t)" 
    unfolding a using w dropWhile_eq_drop [of "\<lambda>c. c = 32" s] by (simp only:)
  show "skip_spaces m p = Some a" unfolding a by (rule skip_spaces [OF s])
  show "skip_word m a = Some e" using skip_word [OF ct] c e by simp
  have "cstr m (a + of_nat (length (takeWhile no_space (c # t)))) (drop (length (takeWhile no_space (c # t))) (c # t))"
    by (rule cstr_drop [OF ct length_takeWhile_le])
  moreover have "takeWhile no_space (c # t) = c # takeWhile no_space t" "dropWhile no_space (c # t) = dropWhile no_space t"
    using c by simp_all
  moreover note dropWhile_eq_drop [of no_space "c # t"]
  ultimately show "cstr m e (dropWhile no_space t)" unfolding e by (simp only:)
  show "words s = (c # takeWhile no_space t) # words (dropWhile no_space t)"
    using words_spaces [of s] c unfolding w by simp
qed

lemma parse_from_spec:
  "cstr m p s \<Longrightarrow> \<exists>ws m'. parse_from m p args left = Some (args @ ws, m') \<and> parsed m p s left ws m'"
proof (induction s arbitrary: m p args left rule: length_induct)
  case (1 s)
  note IH = 1 (1) [rule_format] and s = 1 (2)
  note short = cstr_short [OF s]
  let ?sp = "takeWhile (\<lambda>c. c = 32) s"
  define a where a: "a = p + of_nat (length ?sp)"
  show ?case
  proof (cases "s = [] \<or> left = 0")
    case True
    then have "m p = 0 \<or> left = 0" using s by auto
    then have "parse_from m p args left = Some (args @ [], m)" by (subst parse_from.simps) auto
    moreover have "parsed m p s left [] m" using True by (auto simp: parsed_def)
    ultimately show ?thesis by blast
  next
    case more: False
    then have go: "m p \<noteq> 0 \<and> 0 < left" using s by (cases s) auto
    have sp: "skip_spaces m p = Some a" unfolding a by (rule skip_spaces [OF s])
    have cat: "s = ?sp @ dropWhile (\<lambda>c. c = 32) s" by simp
    show ?thesis
    proof (cases "dropWhile (\<lambda>c. c = 32) s")
      case Nil
      have "cstr m a []" using cstr_drop [OF s, of "length ?sp"] Nil unfolding a
        by (simp add: length_takeWhile_le dropWhile_eq_drop [symmetric])
      then have "m a = 0" by simp
      then have "parse_from m p args left = Some (args @ [], m)" using go sp by (subst parse_from.simps) simp
      moreover have "words s = []" using words_spaces [of s] Nil by simp
      then have "parsed m p s left [] m" by (simp add: parsed_def)
      ultimately show ?thesis by blast
    next
      case (Cons c t)
      let ?w = "c # takeWhile no_space t"
      let ?u = "dropWhile no_space t"
      define e where e: "e = a + of_nat (length ?w)"
      note st = parse_step [OF s Cons a e]
      have "length t = length (takeWhile no_space t) + length ?u"
        by (metis length_append takeWhile_dropWhile_id)
      then have len: "length s = length ?sp + length ?w + length ?u"
        using arg_cong [OF cat, of length] Cons by simp
      have at: "a + of_nat j = p + of_nat (length ?sp + j)" for j by (simp add: a add.assoc)
      have pos: "p + of_nat i \<noteq> p + of_nat j" if "i < j" "j \<le> length s" for i j
        using that short of_nat_u64_eq [of i j] by simp
      have ct: "cstr m a (?w @ ?u)" using st(2) by simp
      show ?thesis
      proof (cases ?u)
        case Nil
        have "m e = 0" using st(5) unfolding Nil by simp
        have "parse_from m e (args @ [a]) (left - 1) = Some (args @ [a], m)"
          using \<open>m e = 0\<close> by (subst parse_from.simps) simp
        then have "parse_from m p args left = Some (args @ [a], m)"
          using go st(2-4) \<open>m e = 0\<close> by (subst parse_from.simps) simp
        moreover have "parsed m p s left [a] m"
          using cstr_cut [OF ct, of m] \<open>m e = 0\<close> more unfolding parsed_def st(6) Nil e by simp
        ultimately show ?thesis by blast
      next
        case u: (Cons d v)
        then have "d = 32" using dropWhile_eq_Cons_conv [of no_space t d v] by blast
        then have me: "m e = 32" and v: "cstr m (e + 1) v" using st(5) u by auto
        define m1 where m1: "m1 = m(e := 0)"
        have lenv: "length s = length ?sp + length ?w + Suc (length v)" using len u by simp
        have e1: "e + of_nat (Suc i) = p + of_nat (length ?sp + length ?w + Suc i)" for i
          unfolding e at by (simp add: add.assoc)
        have e0: "e = p + of_nat (length ?sp + length ?w)" unfolding e at ..
        have "cstr m1 (e + 1) v"
        proof (rule cstr_outside [OF v])
          fix j assume "j \<le> length v"
          then have "e + of_nat (Suc j) \<noteq> e"
            using pos [of "length ?sp + length ?w" "length ?sp + length ?w + Suc j"] lenv unfolding e1 e0
            by (cases "j = length v") (auto simp: add.assoc)
          then show "m1 (e + 1 + of_nat j) = m (e + 1 + of_nat j)" by (simp add: m1 add.assoc)
        qed
        from IH [OF _ this, of "args @ [a]" "left - 1"] lenv obtain ws m' where
          run: "parse_from m1 (e + 1) (args @ [a]) (left - 1) = Some ((args @ [a]) @ ws, m')"
          and ws: "parsed m1 (e + 1) v (left - 1) ws m'" by auto
        have "parse_from m p args left = Some (args @ (a # ws), m')"
          using go st(2-4) me run by (subst parse_from.simps) (simp add: m1)
        moreover have "parsed m p s left (a # ws) m'" unfolding parsed_def
        proof (intro conjI allI impI)
          show "length (a # ws) = min left (length (words s))"
            using ws more unfolding st(6) u by (cases left) (auto simp: parsed_def \<open>d = 32\<close>)
        next
          have out: "m' (p + of_nat i) = m1 (p + of_nat i)" if "i \<le> length ?sp + length ?w" for i
          proof -
            have "p + of_nat i \<noteq> e + of_nat (Suc j)" if "j < length v" for j
              unfolding e1 using pos [of i "length ?sp + length ?w + Suc j"] that \<open>i \<le> _\<close> lenv by simp
            then show ?thesis using ws by (simp add: parsed_def add.assoc)
          qed
          have "cstr m' a ?w"
          proof (rule cstr_cut [OF ct])
            fix i assume i: "i < length ?w"
            then have "p + of_nat (length ?sp + i) \<noteq> e"
              unfolding e0 using pos [of "length ?sp + i" "length ?sp + length ?w"] lenv by simp
            then show "m' (a + of_nat i) = m (a + of_nat i)" using out [of "length ?sp + i"] i unfolding at by (simp add: m1)
          next
            have "m' e = m1 e" using out [of "length ?sp + length ?w"] unfolding e0 by simp
            then have "m' e = 0" by (simp add: m1)
          then show "m' (a + of_nat (length ?w)) = 0" unfolding e .
          qed
          then show "cstr m' ((a # ws) ! j) (words s ! j)" if "j < length (a # ws)" for j
            using that ws unfolding st(6) u by (cases j) (auto simp: parsed_def \<open>d = 32\<close>)
        next
          fix b assume b: "\<forall>i < length s. b \<noteq> p + of_nat i"
          have "b \<noteq> e" using b [rule_format, of "length ?sp + length ?w"] lenv unfolding e0 by simp
          moreover have "b \<noteq> e + of_nat (Suc j)" if "j < length v" for j
            unfolding e1 using b [rule_format, of "length ?sp + length ?w + Suc j"] lenv that by simp
          then have "m' b = m1 b" using ws by (simp add: parsed_def add.assoc)
          ultimately show "m' b = m b" by (simp add: m1)
        qed
        ultimately show ?thesis by blast
      qed
    qed
  qed
qed

section \<open>Reading a line\<close>

text \<open>
  \<open>read_line\<close> over the system call \<open>read(0, buf, n)\<close>: a function of the length that gives the
  result, the bytes stored in the buffer, and the next state; \<open>None\<close> when it never returns.
\<close>

partial_function (option) read_loop ::
  "(nat \<Rightarrow> 's \<Rightarrow> (int \<times> u8 list \<times> 's) option) \<Rightarrow> nat \<Rightarrow> memory \<Rightarrow> u64 \<Rightarrow> nat \<Rightarrow> 's \<Rightarrow> (int \<times> memory \<times> 's) option" where
  "read_loop rd max_len m buf len s =
     (if len + 1 < max_len then
        Option.bind (rd (max_len - 1 - len) s) (\<lambda>(r, bs, s').
          if r < 0 then Some (r, m, s')
          else
            (let m' = put m (buf + of_nat len) bs; len' = len + nat r
             in if r = 0 \<or> m' (buf + of_nat (len' - 1)) = newline
                then Some (int len', m'(buf + of_nat len' := 0), s')
                else read_loop rd max_len m' buf len' s'))
      else Some (int len, m(buf + of_nat len := 0), s))"

definition read_line :: "(nat \<Rightarrow> 's \<Rightarrow> (int \<times> u8 list \<times> 's) option) \<Rightarrow> memory \<Rightarrow> u64 \<Rightarrow> nat \<Rightarrow> 's \<Rightarrow> (int \<times> memory \<times> 's) option" where
  "read_line rd m buf max_len s = read_loop rd max_len m buf 0 s"

text \<open>
  On the console the call takes one finished line, as \<open>SYS_READ\<close> does; without one the process
  sleeps.
\<close>

definition console_call :: "nat \<Rightarrow> uart \<Rightarrow> (int \<times> u8 list \<times> uart) option" where
  "console_call n u =
     (if finished u = [] then None
      else (case take_line uart_getc n u of (bs, u') \<Rightarrow> Some (int (length bs), bs, u')))"

lemma console_call:
  assumes "uart_ok u" "finished u \<noteq> []"
  shows "\<exists>u'. console_call n u = Some (int (length (first_line n (finished u))), first_line n (finished u), u') \<and>
    finished u = first_line n (finished u) @ finished u' \<and> uart_ok u'"
proof -
  obtain bs u' where t: "take_line uart_getc n u = (bs, u')" by fastforce
  have "console_call n u = Some (int (length bs), bs, u')" using assms(2) t by (simp add: console_call_def)
  then show ?thesis using uart_rx.take_line_spec [OF assms(1) t] by metis
qed

lemma read_line_console:
  assumes ok: "uart_ok u" and room: "1 < max_len" "max_len < 2 ^ 31"
    and q: "finished u \<noteq> []" and bs: "bs = first_line (max_len - 1) (finished u)"
    and all: "last bs = newline \<or> length bs = max_len - 1"
  shows "\<exists>u'. read_line console_call m buf max_len u = Some (int (length bs), put m buf (bs @ [0]), u') \<and>
    finished u = bs @ finished u' \<and> uart_ok u'"
proof -
  obtain u' where c: "console_call (max_len - 1) u = Some (int (length bs), bs, u')"
    "finished u = bs @ finished u'" "uart_ok u'"
    using console_call [OF ok q] bs by blast
  have ne: "bs \<noteq> []"
    using q room(1) unfolding bs by (cases "finished u"; cases "max_len - 1") auto
  have len: "length bs \<le> max_len - 1"
    using bs first_line_length by blast
  let ?m = "put m buf bs"
  have last_byte: "?m (buf + of_nat (length bs - 1)) = last bs"
    using put_at [of "length bs - 1" bs m buf] ne len room(2) by (simp add: last_conv_nth)
  have ends: "?m(buf + of_nat (length bs) := 0) = put m buf (bs @ [0])"
    using put_append [of bs "[0]" m buf] put_Cons [of "[]" ?m "buf + of_nat (length bs)" 0] len room(2) by simp
  have "read_loop console_call max_len m buf 0 u = Some (int (length bs), put m buf (bs @ [0]), u')"
  proof (cases "last bs = newline")
    case True
    then show ?thesis using c(1) room(1) last_byte ends ne by (subst read_loop.simps) (simp add: Let_def)
  next
    case False
    then have "length bs = max_len - 1" using all by blast
    then have "read_loop console_call max_len ?m buf (length bs) u' = Some (int (length bs), put m buf (bs @ [0]), u')"
      using ends room(1) by (subst read_loop.simps) simp
    then show ?thesis using False c(1) room(1) last_byte ne by (subst read_loop.simps) (simp add: Let_def)
  qed
  then show ?thesis using c(2,3) by (simp add: read_line_def)
qed

section \<open>What a line does\<close>

text \<open>
  One round of the loop of \<open>main\<close>, up to the \<open>fork\<close>; the literals \<open>"exit"\<close> and \<open>".elf"\<close> lie at
  the addresses \<open>exit_str\<close> and \<open>elf_str\<close> of the program.
\<close>

datatype shell_action =
    Return int
  | Again
  | Complain
  | Spawn u64

definition shell_line :: "u64 \<Rightarrow> memory \<Rightarrow> u64 \<Rightarrow> int \<Rightarrow> (shell_action \<times> memory) option" where
  "shell_line exit_str m line n =
     (if n < 0 then Some (Return (-1), m)
      else if n = 0 then Some (Return 0, m)
      else
        (let e = line + of_int (n - 1); m1 = (if m e = newline then m(e := 0) else m)
         in Option.bind (parseline m1 line 16) (\<lambda>(args, m2).
              case args of
                [] \<Rightarrow> Some (Again, m2)
              | w # ws \<Rightarrow>
                  Option.bind (lz_compare m2 w exit_str) (\<lambda>r.
                    if r = 0 then Some (if ws = [] then Return 0 else Complain, m2)
                    else Some (Spawn w, m2)))))"

text \<open>The child: the file name, built in the 64 bytes of \<open>name\<close>, or nothing if it is too long.\<close>

definition program_name :: "u64 \<Rightarrow> memory \<Rightarrow> u64 \<Rightarrow> u64 \<Rightarrow> memory option option" where
  "program_name elf_str m name w =
     Option.bind (lz_length m w) (\<lambda>l.
       if l > 64 - 5 then Some None
       else
         Option.bind (lz_copy m name w) (\<lambda>m1.
           Option.bind (lz_concat m1 name elf_str) (\<lambda>m2. Some (Some m2))))"

lemma program_name_fits:
  assumes w: "cstr m p w" and e: "cstr m elf_str (bytes_of ''.elf'')"
    and apart: "apart name 64 p (Suc (length w))" "apart name 64 elf_str 5"
  shows "if length w \<le> 59
    then \<exists>m2. program_name elf_str m name p = Some (Some m2) \<and> cstr m2 name (w @ bytes_of ''.elf'') \<and>
      (\<forall>b. (\<forall>i < 64. b \<noteq> name + of_nat i) \<longrightarrow> m2 b = m b)
    else program_name elf_str m name p = Some None"
proof -
  have four: "length (bytes_of ''.elf'') = 4" by (simp add: bytes_of_def)
  have len: "(of_nat (length w) > (64 - 5 :: u64)) \<longleftrightarrow> \<not> length w \<le> 59"
    using cstr_short [OF w] by (simp add: word_less_nat_alt unat_of_nat_u64 not_le)
  show ?thesis
  proof (cases "length w \<le> 59")
    case True
    let ?m1 = "put m name (w @ [0])"
    have copy: "lz_copy m name p = Some ?m1"
      by (rule lz_copy_spec [OF w]) (use apart(1) True in \<open>auto simp: apart_def\<close>)
    have w1: "cstr ?m1 name w" using w True by (intro cstr_put) (auto simp: cstring_kread_iff)
    have e1: "cstr ?m1 elf_str (bytes_of ''.elf'')"
    proof (rule cstr_outside [OF e])
      fix j assume "j \<le> length (bytes_of ''.elf'')"
      then have "elf_str + of_nat j \<noteq> name + of_nat i" if "i < 64" for i
        using apart(2) that four unfolding apart_def by (metis less_Suc_eq_le numeral_eq_Suc pred_numeral_simps(2,3) BitM.simps(1) arith_simps(26))
      then show "?m1 (elf_str + of_nat j) = m (elf_str + of_nat j)" using True by (intro put_other) simp
    qed
    let ?m2 = "put ?m1 (name + of_nat (length w)) (bytes_of ''.elf'' @ [0])"
    have cat: "lz_concat ?m1 name elf_str = Some ?m2" "cstr ?m2 name (w @ bytes_of ''.elf'')"
      using lz_concat_spec [OF w1 e1] apart(2) True four by (auto simp: apart_def)
    have "?m2 b = m b" if b: "\<forall>i < 64. b \<noteq> name + of_nat i" for b
    proof -
      have "b \<noteq> name + of_nat (length w) + of_nat i" if "i < length (bytes_of ''.elf'' @ [0])" for i
        using b [rule_format, of "length w + i"] that True four by (simp add: add.assoc)
      then have "?m2 b = ?m1 b" by (rule put_other)
      also have "\<dots> = m b" using b True by (intro put_other) simp
      finally show ?thesis .
    qed
    then show ?thesis using True lz_length_spec [OF w] copy cat len by (simp add: program_name_def)
  next
    case False
    then show ?thesis using lz_length_spec [OF w] len by (simp add: program_name_def)
  qed
qed

text \<open>
  The rest of the round, from the result of \<open>fork\<close> on; \<open>lit\<close> gives the address of a string
  literal of the program. The parent waits, the child builds the name and calls \<open>exec\<close>; when
  that returns, or the name is too long, it reports and exits.
\<close>

datatype fork_action =
    Wait
  | Exec u64
  | Failed "request list"
  | Exit "request list"

definition after_fork :: "(string \<Rightarrow> u64) \<Rightarrow> memory \<Rightarrow> u64 \<Rightarrow> u64 \<Rightarrow> int \<Rightarrow> (fork_action \<times> memory) option" where
  "after_fork lit m name w pid =
     (if pid < 0 then
        Option.bind (lz_error m (lit ''fork'') (lit (lz_strerror pid))) (\<lambda>ws. Some (Failed ws, m))
      else if pid = 0 then
        Option.bind (program_name (lit ''.elf'') m name w) (\<lambda>r.
          case r of
            None \<Rightarrow> Option.bind (lz_error m w (lit ''Too long of a name'')) (\<lambda>ws. Some (Exit ws, m))
          | Some m2 \<Rightarrow> Some (Exec name, m2))
      else Some (Wait, m))"

definition after_exec :: "(string \<Rightarrow> u64) \<Rightarrow> memory \<Rightarrow> u64 \<Rightarrow> int \<Rightarrow> (fork_action \<times> memory) option" where
  "after_exec lit m w res =
     Option.bind (lz_error m w (lit (lz_strerror res))) (\<lambda>ws. Some (Exit ws, m))"

text \<open>The literals of the program as the linker lays them out.\<close>

definition literals :: "memory \<Rightarrow> (string \<Rightarrow> u64) \<Rightarrow> bool" where
  "literals m lit \<longleftrightarrow>
     (\<forall>s \<in> {''fork'', ''.elf'', ''Too long of a name''} \<union> range lz_strerror. cstr m (lit s) (bytes_of s))"

lemma lz_strerror_length: "length (lz_strerror err) < 64"
  by (simp add: lz_strerror_def)

text \<open>
  Only the parent waits; the child always ends in \<open>exec\<close> of the word with \<open>.elf\<close> behind it, or
  in an error report on descriptor 2 that names the culprit.
\<close>

lemma after_fork_action:
  assumes m: "literals m lit" and w: "cstr m p w" "length w < 2 ^ 31"
    and apart: "apart name 64 p (Suc (length w))" "apart name 64 (lit ''.elf'') 5"
  shows "\<exists>a m2. after_fork lit m name p pid = Some (a, m2) \<and>
    (if pid < 0 then \<exists>ws. a = Failed ws \<and> m2 = m \<and>
         printed ws = bytes_of ''[fork] '' @ bytes_of (lz_strerror pid) @ [10]
     else if pid = 0 then
       if length w \<le> 59 then a = Exec name \<and> cstr m2 name (w @ bytes_of ''.elf'')
       else \<exists>ws. a = Exit ws \<and> m2 = m \<and> printed ws = bytes_of ''['' @ w @ bytes_of ''] Too long of a name'' @ [10]
     else a = Wait \<and> m2 = m)"
proof -
  have lit: "cstr m (lit s) (bytes_of s)" if "s \<in> {''fork'', ''.elf'', ''Too long of a name''} \<union> range lz_strerror" for s
    using m that unfolding literals_def by blast
  have len: "length (bytes_of s) = length s" for s by (simp add: bytes_of_def)
  consider "pid < 0" | "pid = 0" "length w \<le> 59" | "pid = 0" "\<not> length w \<le> 59" | "0 < pid" by linarith
  then show ?thesis
  proof cases
    case 1
    have "length (lz_strerror pid) < 2 ^ 31" using lz_strerror_length [of pid] by simp
    then have "length (bytes_of (lz_strerror pid)) < 2 ^ 31" unfolding len .
    moreover have "length (bytes_of ''fork'') < 2 ^ 31" by (simp add: len)
    ultimately obtain ws where ws: "lz_error m (lit ''fork'') (lit (lz_strerror pid)) = Some ws"
      "printed ws = bytes_of ''['' @ bytes_of ''fork'' @ bytes_of ''] '' @ bytes_of (lz_strerror pid) @ [10]"
      using lz_error_text [of m "lit ''fork''" "bytes_of ''fork''" "lit (lz_strerror pid)" "bytes_of (lz_strerror pid)"]
        lit [of "''fork''"] lit [of "lz_strerror pid"] by auto
    then show ?thesis using 1 by (simp add: after_fork_def bytes_of_def)
  next
    case 2
    then show ?thesis
      using program_name_fits [OF w(1) _ apart] lit [of "''.elf''"] by (auto simp: after_fork_def)
  next
    case 3
    have "cstr m (lit ''Too long of a name'') (bytes_of ''Too long of a name'')" by (rule lit) simp
    moreover have "length (bytes_of ''Too long of a name'') < 2 ^ 31" by (simp add: len)
    ultimately obtain ws where "lz_error m p (lit ''Too long of a name'') = Some ws"
      "printed ws = bytes_of ''['' @ w @ bytes_of ''] '' @ bytes_of ''Too long of a name'' @ [10]"
      using lz_error_text [OF w(1) _ w(2)] by blast
    then show ?thesis
      using 3 program_name_fits [OF w(1) _ apart] lit [of "''.elf''"] by (simp add: after_fork_def bytes_of_def)
  qed (simp add: after_fork_def)
qed

section \<open>Properties\<close>

lemma words_spec: "concat (words s) = filter no_space s" "w \<in> set (words s) \<Longrightarrow> w \<noteq> [] \<and> 32 \<notin> set w"
proof -
  have cut: "filter no_space (takeWhile no_space t @ dropWhile no_space t) = takeWhile no_space t @ filter no_space (dropWhile no_space t)" for t
    unfolding filter_append by (auto simp: filter_id_conv dest: set_takeWhileD)
  show "concat (words s) = filter no_space s"
  proof (induction s rule: words.induct)
    case (2 c t)
    then show ?case using cut [of t] by simp
  qed simp
  show "w \<in> set (words s) \<Longrightarrow> w \<noteq> [] \<and> 32 \<notin> set w"
    by (induction s rule: words.induct) (auto split: if_splits dest: set_takeWhileD)
qed

text \<open>
  C33: the shell splits a line. On any line, \<open>parseline\<close> returns; it finds the words of the line
  in order (the maximal runs without spaces), at most \<open>max_args\<close> of them, and each argument
  points to its word, terminated in place; no byte outside the line is written.
\<close>
theorem parseline_splits_words:
  assumes "cstr m line s"
  shows "\<exists>args m'. parseline m line max_args = Some (args, m') \<and>
    length args = min max_args (length (words s)) \<and>
    (\<forall>j < length args. cstr m' (args ! j) (words s ! j)) \<and>
    concat (words s) = filter no_space s \<and> (\<forall>w \<in> set (words s). w \<noteq> [] \<and> 32 \<notin> set w) \<and>
    (\<forall>b. (\<forall>i < length s. b \<noteq> line + of_nat i) \<longrightarrow> m' b = m b)"
  using parse_from_spec [OF assms, of "[]" max_args] words_spec(1) [of s] words_spec(2) [where s = s]
  unfolding parseline_def parsed_def by auto

definition a_line :: memory where
  "a_line = (\<lambda>_. 0)(0x100 := 32, 0x101 := 97, 0x102 := 98, 0x103 := 32, 0x104 := 99)"

lemma parseline_splits_words_witness:
  "\<exists>x y m'. parseline a_line 0x100 16 = Some ([x, y], m') \<and> cstr m' x [97, 98] \<and> cstr m' y [99]"
proof -
  have "cstr a_line 0x100 [32, 97, 98, 32, 99]" by (simp add: a_line_def)
  from parseline_splits_words [OF this, of 16] obtain args m' where
    a: "parseline a_line 0x100 16 = Some (args, m')" "length args = 2"
      "\<forall>j < length args. cstr m' (args ! j) ([[97, 98], [99]] ! j)"
    by auto
  obtain x y where "args = [x, y]" using a(2) by (auto simp: length_Suc_conv numeral_2_eq_2)
  then show ?thesis using a(1) a(3) [rule_format, of 0] a(3) [rule_format, of 1] by simp
qed

end
