(* ===== verification/User_Programs.thy ===== *)
theory User_Programs
  imports User_Shell
begin

text \<open>
  The other programs of the ramdisk: \<open>init\<close> (\<open>kernel/user/main.c\<close>), \<open>test2\<close> (\<open>test2.c\<close>) and
  \<open>readtest\<close> (\<open>readtest.c\<close>). As for the shell, a program is cut at its system calls: each piece
  is a function of what the call returned, and gives what is printed and what comes next.
\<close>

section \<open>Printing in order\<close>

fun in_order :: "request list option list \<Rightarrow> request list option" where
  "in_order [] = Some []"
| "in_order (x # xs) = Option.bind x (\<lambda>a. Option.bind (in_order xs) (\<lambda>b. Some (a @ b)))"

text \<open>\<open>printf\<close> with a literal as its format; \<open>args\<close> are the first arguments.\<close>

definition printf_lit :: "(string \<Rightarrow> u64) \<Rightarrow> memory \<Rightarrow> string \<Rightarrow> u64 list \<Rightarrow> request list option" where
  "printf_lit lit m fmt args = printf m (lit fmt) (\<lambda>i. if i < length args then args ! i else 0)"

definition strerror_report :: "(string \<Rightarrow> u64) \<Rightarrow> memory \<Rightarrow> string \<Rightarrow> int \<Rightarrow> request list option" where
  "strerror_report lit m who err = lz_error m (lit who) (lit (lz_strerror err))"

text \<open>How a piece of a program ends: in a system call, with \<open>return\<close>, or with \<open>exit\<close>.\<close>

datatype next_call =
    Fork_next
  | Exec_next u64
  | Wait_next
  | Open_next u64
  | Read_next int u64 nat
  | Close_next int
  | Return_next int
  | Exit_next int

type_synonym piece = "(request list \<times> next_call) option"

definition then_do :: "request list option \<Rightarrow> next_call \<Rightarrow> piece" where
  "then_do ws a = Option.bind ws (\<lambda>ws. Some (ws, a))"

section \<open>init\<close>

definition init_main :: "(string \<Rightarrow> u64) \<Rightarrow> memory \<Rightarrow> piece" where
  "init_main lit m = then_do (printf_lit lit m (''Lazux Shell Started!'' @ [CHR 0x0A]) []) Fork_next"

definition init_after_fork :: "(string \<Rightarrow> u64) \<Rightarrow> memory \<Rightarrow> int \<Rightarrow> piece" where
  "init_after_fork lit m pid =
     (if pid < 0 then then_do (strerror_report lit m ''init'' pid) (Return_next 1)
      else if pid = 0 then Some ([], Exec_next (lit ''sh.elf''))
      else Some ([], Wait_next))"

definition init_after_exec :: "(string \<Rightarrow> u64) \<Rightarrow> memory \<Rightarrow> int \<Rightarrow> piece" where
  "init_after_exec lit m err = then_do (strerror_report lit m ''init'' err) (Exit_next 1)"

definition init_after_wait :: "(string \<Rightarrow> u64) \<Rightarrow> memory \<Rightarrow> int \<Rightarrow> piece" where
  "init_after_wait lit m dead_child =
     then_do
       (in_order
         [printf_lit lit m (''Lazux Shell: Child process with PID %d has finished.'' @ [CHR 0x0A]) [of_int dead_child],
          printf_lit lit m (''Shell is sleeping forever.'' @ [CHR 0x0A]) []])
       (Return_next 0)"

section \<open>test2\<close>

definition test2_main :: "(string \<Rightarrow> u64) \<Rightarrow> memory \<Rightarrow> piece" where
  "test2_main lit m =
     then_do (puts m (lit (''--- Lazux VFS Complete Test ---'' @ [CHR 0x0A]))) (Open_next (lit ''init.elf''))"

definition test2_after_open :: "(string \<Rightarrow> u64) \<Rightarrow> memory \<Rightarrow> u64 \<Rightarrow> int \<Rightarrow> piece" where
  "test2_after_open lit m buffer fd =
     (if fd < 0 then then_do (strerror_report lit m ''test2'' fd) (Exit_next 1)
      else Some ([], Read_next fd buffer 4))"

definition test2_after_read :: "(string \<Rightarrow> u64) \<Rightarrow> memory \<Rightarrow> u64 \<Rightarrow> int \<Rightarrow> int \<Rightarrow> piece" where
  "test2_after_read lit m buffer fd bytes_read =
     (let m' = m(buffer + 4 := 0) in
      then_do
        (in_order
          [printf_lit lit m (''%d '' @ [CHR 0x0A]) [of_int bytes_read], puts m' (lit ''Data read: ''),
           puts m' (buffer + 1), puts m' (lit [CHR 0x0A])])
        (Close_next fd))"

definition test2_after_close :: "(string \<Rightarrow> u64) \<Rightarrow> memory \<Rightarrow> int \<Rightarrow> piece" where
  "test2_after_close lit m close_status =
     then_do
       (if close_status = 0 then puts m (lit (''Successfully closed the file descriptor!'' @ [CHR 0x0A])) else Some [])
       (Exit_next 0)"

section \<open>readtest\<close>

abbreviation BUF_SIZE :: nat where "BUF_SIZE \<equiv> 64"
abbreviation SMALL_SIZE :: nat where "SMALL_SIZE \<equiv> 4"
abbreviation LINE_MAX :: nat where "LINE_MAX \<equiv> 128"

text \<open>\<open>show\<close>: a byte outside the printable ones is made visible.\<close>

definition show_byte :: "(string \<Rightarrow> u64) \<Rightarrow> memory \<Rightarrow> u8 \<Rightarrow> request list option" where
  "show_byte lit m b =
     (if b = newline then printf_lit lit m [CHR 0x5C, CHR ''n''] []
      else if b < 0x20 \<or> b > 0x7e then printf_lit lit m [CHR 0x5C, CHR ''x'', CHR ''%'', CHR ''x''] [ucast b]
      else Some (putchar b))"

definition show_bytes :: "(string \<Rightarrow> u64) \<Rightarrow> memory \<Rightarrow> u8 list \<Rightarrow> request list option" where
  "show_bytes lit m bs = in_order ([Some (putchar 91)] @ map (show_byte lit m) bs @ [Some (putchar 93)])"

text \<open>
  The variables of \<open>main\<close>: the first \<open>len\<close> bytes of \<open>line\<close>, the size of the reads, and \<open>verbose\<close>.
\<close>

record reading =
  collected :: "u8 list"
  read_size :: nat
  verbose :: bool

definition reading_start :: reading where
  "reading_start = \<lparr>collected = [], read_size = BUF_SIZE, verbose = False\<rparr>"

text \<open>What a complete line does; no state means \<open>exit(0)\<close>.\<close>

definition line_done :: "(string \<Rightarrow> u64) \<Rightarrow> memory \<Rightarrow> reading \<Rightarrow> (request list \<times> reading option) option" where
  "line_done lit m st =
     (let line = collected st; len = length line;
          cmd = (\<lambda>c. len = 2 \<and> line ! 0 = c);
          report = in_order [printf_lit lit m ''line %d: '' [of_nat len], show_bytes lit m line, Some (putchar newline)]
      in if cmd 113 then
           Option.bind (in_order [report, printf_lit lit m (''readtest: bye'' @ [CHR 0x0A]) []]) (\<lambda>ws. Some (ws, None))
         else
           (let st1 = (if cmd 118 then st\<lparr>verbose := \<not> verbose st\<rparr> else st);
                toggled = (if cmd 118
                  then printf_lit lit m (''readtest: verbose %s'' @ [CHR 0x0A]) [lit (if verbose st1 then ''on'' else ''off'')]
                  else Some []);
                st2 = (if cmd 115
                  then st1\<lparr>read_size := (if read_size st1 = BUF_SIZE then SMALL_SIZE else BUF_SIZE)\<rparr> else st1);
                resized = (if cmd 115
                  then printf_lit lit m (''readtest: read size now %d'' @ [CHR 0x0A]) [of_nat (read_size st2)] else Some [])
            in Option.bind (in_order [report, toggled, resized]) (\<lambda>ws. Some (ws, Some (st2\<lparr>collected := []\<rparr>)))))"

text \<open>The loop over the bytes of one read.\<close>

definition feed_byte :: "(string \<Rightarrow> u64) \<Rightarrow> memory \<Rightarrow> u8 \<Rightarrow> reading \<Rightarrow> (request list \<times> reading option) option" where
  "feed_byte lit m b st =
     (let st1 = (if length (collected st) < LINE_MAX then st\<lparr>collected := collected st @ [b]\<rparr> else st)
      in if b \<noteq> newline then Some ([], Some st1) else line_done lit m st1)"

fun feed :: "(string \<Rightarrow> u64) \<Rightarrow> memory \<Rightarrow> u8 list \<Rightarrow> reading \<Rightarrow> (request list \<times> reading option) option" where
  "feed lit m [] st = Some ([], Some st)"
| "feed lit m (b # bs) st =
     Option.bind (feed_byte lit m b st) (\<lambda>(ws, r).
       case r of
         None \<Rightarrow> Some (ws, None)
       | Some st' \<Rightarrow> Option.bind (feed lit m bs st') (\<lambda>(ws', r'). Some (ws @ ws', r')))"

text \<open>One round of the main loop, after the read gave \<open>n\<close> and the bytes \<open>bs\<close>.\<close>

definition reading_round ::
  "(string \<Rightarrow> u64) \<Rightarrow> memory \<Rightarrow> int \<Rightarrow> u8 list \<Rightarrow> reading \<Rightarrow> (request list \<times> reading option) option" where
  "reading_round lit m n bs st =
     (if n < 0 then Option.bind (strerror_report lit m ''readtest'' n) (\<lambda>ws. Some (ws, None))
      else
        Option.bind
          (if verbose st
           then in_order [printf_lit lit m ''  got %d: '' [of_int n], show_bytes lit m bs, Some (putchar newline)]
           else Some []) (\<lambda>report.
          Option.bind (feed lit m bs st) (\<lambda>(ws, r). Some (report @ ws, r))))"

text \<open>
  At most \<open>k\<close> rounds over the call \<open>read(0, buf, size)\<close>, fewer if the program exits or sleeps in
  the call.
\<close>

fun rounds ::
  "(nat \<Rightarrow> 's \<Rightarrow> (int \<times> u8 list \<times> 's) option) \<Rightarrow> (string \<Rightarrow> u64) \<Rightarrow> memory \<Rightarrow> nat \<Rightarrow> reading \<Rightarrow> 's \<Rightarrow>
     (request list \<times> reading option \<times> 's) option" where
  "rounds rd lit m 0 st s = Some ([], Some st, s)"
| "rounds rd lit m (Suc k) st s =
     (case rd (read_size st) s of
        None \<Rightarrow> Some ([], Some st, s)
      | Some (n, bs, s') \<Rightarrow>
          Option.bind (reading_round lit m n bs st) (\<lambda>(ws, r).
            case r of
              None \<Rightarrow> Some (ws, None, s')
            | Some st' \<Rightarrow> Option.bind (rounds rd lit m k st' s') (\<lambda>(ws', r', t). Some (ws @ ws', r', t))))"

definition readtest_main ::
  "(nat \<Rightarrow> 's \<Rightarrow> (int \<times> u8 list \<times> 's) option) \<Rightarrow> (string \<Rightarrow> u64) \<Rightarrow> memory \<Rightarrow> nat \<Rightarrow> 's \<Rightarrow>
     (request list \<times> reading option \<times> 's) option" where
  "readtest_main rd lit m k s =
     Option.bind (printf_lit lit m (''readtest: type lines ('' @ [CHR 0x27] @ ''v'' @ [CHR 0x27] @ '' = verbose, '' @ [CHR 0x27] @
        ''s'' @ [CHR 0x27] @ '' = 4-byte reads, '' @ [CHR 0x27] @ ''q'' @ [CHR 0x27] @ '' = quit)'' @ [CHR 0x0A]) []) (\<lambda>ws.
       Option.bind (rounds rd lit m k reading_start s) (\<lambda>(ws', r, t). Some (ws @ ws', r, t)))"

section \<open>What init and test2 do\<close>

lemma printf_lit_text:
  assumes "cstr m (lit fmt) (bytes_of fmt)" "string_slots 0 (bytes_of fmt) = []"
  shows "\<exists>ws. printf_lit lit m fmt args = Some ws \<and>
    printed ws = rendered (\<lambda>i. if i < length args then args ! i else 0) (\<lambda>_. []) 0 (bytes_of fmt)"
  unfolding printf_lit_def printf_def by (rule printf_from_text [OF assms(1)]) (simp add: assms(2))

text \<open>Only the parent of \<open>init\<close> waits, only the child calls \<open>exec\<close>, and a failure ends the program.\<close>

lemma init_after_fork_next:
  "init_after_fork lit m pid = Some (ws, a) \<Longrightarrow>
     a = (if pid < 0 then Return_next 1 else if pid = 0 then Exec_next (lit ''sh.elf'') else Wait_next)"
  by (auto simp: init_after_fork_def then_do_def bind_eq_Some_conv split: if_splits)

text \<open>\<open>test2\<close> prints what it read from its second byte on.\<close>

lemma test2_prints:
  defines "d \<equiv> ''%d '' @ [CHR 0x0A]"
  assumes m': "m' = m(buffer + 4 := 0)" and n: "- (2 ^ 31) \<le> n" "n < 2 ^ 31"
    and lits: "cstr m (lit d) (bytes_of d)" "cstr m' (lit ''Data read: '') (bytes_of ''Data read: '')"
      "cstr m' (lit [CHR 0x0A]) (bytes_of [CHR 0x0A])"
    and s: "cstr m' (buffer + 1) s" "length s < 2 ^ 31"
  shows "\<exists>ws. test2_after_read lit m buffer fd n = Some (ws, Close_next fd) \<and>
    printed ws = sdec n @ bytes_of '' '' @ [10] @ bytes_of ''Data read: '' @ s @ [10]"
proof -
  have "sint (ucast (of_int n :: u64) :: u32) = n"
    using n by (simp add: unsigned_of_int signed_of_int signed_take_bit_take_bit signed_take_bit_int_eq_self)
  with printf_lit_text [where lit = lit and fmt = d, OF lits(1), of "[of_int n]"]
  obtain a where a: "printf_lit lit m d [of_int n] = Some a" "printed a = sdec n @ bytes_of '' '' @ [10]"
    by (auto simp: d_def bytes_of_def conversion_def slots_def)
  have "puts m' (lit ''Data read: '') = Some [(1, bytes_of ''Data read: '')]" "puts m' (buffer + 1) = Some [(1, s)]"
    "puts m' (lit [CHR 0x0A]) = Some [(1, [10])]"
    using write_str [OF lits(2), of 1] write_str [OF lits(3), of 1] write_str [OF s, of 1] by (simp_all add: puts_def bytes_of_def)
  then show ?thesis using a by (simp add: test2_after_read_def then_do_def Let_def m' d_def)
qed

section \<open>What readtest shows\<close>

abbreviation line_format :: string where "line_format \<equiv> ''line %d: ''"
abbreviation newline_escape :: string where "newline_escape \<equiv> [CHR 0x5C, CHR ''n'']"
abbreviation byte_escape :: string where "byte_escape \<equiv> [CHR 0x5C, CHR ''x'', CHR ''%'', CHR ''x'']"

definition reading_literals :: "(string \<Rightarrow> u64) \<Rightarrow> memory \<Rightarrow> bool" where
  "reading_literals lit m \<longleftrightarrow>
     (\<forall>s \<in> {line_format, newline_escape, byte_escape}. cstr m (lit s) (bytes_of s))"

definition shown :: "u8 \<Rightarrow> u8 list" where
  "shown b =
     (if b = newline then [92, 110] else if b < 0x20 \<or> b > 0x7e then [92, 120] @ hex (unat b) else [b])"

text \<open>The report on a complete line \<open>l\<close>, given without its newline.\<close>

definition line_report :: "u8 list \<Rightarrow> u8 list" where
  "line_report l =
     bytes_of ''line '' @ dec (Suc (length l)) @ bytes_of '': ['' @ concat (map shown (l @ [newline])) @ [93, newline]"

text \<open>A line that fits and is not one of the commands.\<close>

definition plain_line :: "u8 list \<Rightarrow> bool" where
  "plain_line l \<longleftrightarrow> newline \<notin> set l \<and> length l < LINE_MAX \<and> l \<notin> {[113], [118], [115]}"

lemma in_order_printed:
  "\<forall>x \<in> set xs. \<exists>ws. f x = Some ws \<and> printed ws = g x \<Longrightarrow>
     \<exists>ws. in_order (map f xs) = Some ws \<and> printed ws = concat (map g xs)"
  by (induction xs) auto

lemma in_order_append: "in_order (xs @ ys) = Option.bind (in_order xs) (\<lambda>a. Option.bind (in_order ys) (\<lambda>b. Some (a @ b)))"
proof (induction xs)
  case (Cons x xs)
  then show ?case by (cases x; cases "in_order xs"; cases "in_order ys") auto
qed (cases "in_order ys"; simp)

lemma show_byte_text:
  assumes "reading_literals lit m"
  shows "\<exists>ws. show_byte lit m b = Some ws \<and> printed ws = shown b"
proof -
  have lits: "cstr m (lit newline_escape) (bytes_of newline_escape)" "cstr m (lit byte_escape) (bytes_of byte_escape)"
    using assms by (simp_all add: reading_literals_def)
  have "\<exists>ws. printf_lit lit m newline_escape [] = Some ws \<and> printed ws = [92, 110]"
    using printf_lit_text [where lit = lit and fmt = newline_escape, OF lits(1), of "[]"] by (simp add: bytes_of_def)
  moreover have "unat (ucast (ucast b :: u64) :: u32) = unat b" 
    by (rule bit_eqI) (auto simp: bit_simps dest: bit_imp_le_length)
  then have "\<exists>ws. printf_lit lit m byte_escape [ucast b] = Some ws \<and> printed ws = [92, 120] @ hex (unat b)"
    using printf_lit_text [where lit = lit and fmt = byte_escape, OF lits(2), of "[ucast b]"] by (simp add: bytes_of_def conversion_def slots_def)
  ultimately show ?thesis by (simp add: show_byte_def shown_def)
qed

lemma show_bytes_text:
  assumes "reading_literals lit m"
  shows "\<exists>ws. show_bytes lit m bs = Some ws \<and> printed ws = [91] @ concat (map shown bs) @ [93]"
proof -
  obtain ws where "in_order (map (show_byte lit m) bs) = Some ws" "printed ws = concat (map shown bs)"
    using in_order_printed [of bs "show_byte lit m" shown] show_byte_text [OF assms] by blast
  then show ?thesis by (simp add: show_bytes_def in_order_append)
qed

lemma line_done_plain:
  assumes lits: "reading_literals lit m" and l: "plain_line l" and st: "collected st = l @ [newline]"
  shows "\<exists>ws. line_done lit m st = Some (ws, Some (st\<lparr>collected := []\<rparr>)) \<and> printed ws = line_report l"
proof -
  define n where "n = Suc (length l)"
  have "n < 2 ^ 31" using l by (simp add: plain_line_def n_def)
  then have n: "sint (ucast (of_nat n :: u64) :: u32) = int n"
    by (simp add: signed_take_bit_int_eq_self unsigned_of_nat signed_of_nat take_bit_nat_eq_self)
  have "cstr m (lit line_format) (bytes_of line_format)" using lits by (simp add: reading_literals_def)
  from printf_lit_text [where lit = lit and fmt = line_format, OF this, of "[of_nat n]"] n
  obtain a where a: "printf_lit lit m line_format [of_nat (Suc (length l))] = Some a"
    "printed a = bytes_of ''line '' @ dec (Suc (length l)) @ bytes_of '': ''"
    unfolding n_def [symmetric] by (auto simp: bytes_of_def conversion_def slots_def sdec_def)
  obtain b where b: "show_bytes lit m (l @ [newline]) = Some b"
    "printed b = [91] @ concat (map shown (l @ [newline])) @ [93]"
    using show_bytes_text [OF lits] by blast
  have no_cmd: "(length (l @ [newline]) = 2 \<and> (l @ [newline]) ! 0 = c) = False" if "c \<in> {113, 118, 115}" for c
    using l that by (cases l; cases "tl l") (auto simp: plain_line_def)
  have "line_done lit m st = Some (a @ b @ putchar newline, Some (st\<lparr>collected := []\<rparr>))"
    unfolding line_done_def Let_def st using no_cmd [of 113] no_cmd [of 118] no_cmd [of 115]
    by (simp only: insert_iff simp_thms if_False) (use a(1) b(1) in simp)
  then show ?thesis using a(2) b(2) by (simp add: line_report_def bytes_of_def)
qed

lemma feed_part:
  "newline \<notin> set bs \<Longrightarrow> length (collected st) + length bs \<le> LINE_MAX \<Longrightarrow>
     feed lit m bs st = Some ([], Some (st\<lparr>collected := collected st @ bs\<rparr>))"
  by (induction bs arbitrary: st) (simp_all add: feed_byte_def)

lemma feed_append:
  "feed lit m (xs @ ys) st = Option.bind (feed lit m xs st) (\<lambda>(ws, r).
     case r of None \<Rightarrow> Some (ws, None)
     | Some st' \<Rightarrow> Option.bind (feed lit m ys st') (\<lambda>(ws', r'). Some (ws @ ws', r')))"
proof (induction xs arbitrary: st)
  case Nil
  show ?case by (cases "feed lit m ys st") auto
next
  case (Cons b bs)
  show ?case
  proof (cases "feed_byte lit m b st")
    case (Some p)
    then show ?thesis using Cons.IH
      by (cases p) (auto split: option.splits bind_splits)
  qed simp
qed

lemma feed_line:
  assumes lits: "reading_literals lit m" and l: "plain_line (collected st @ l)"
  shows "\<exists>ws. feed lit m (l @ [newline]) st = Some (ws, Some (st\<lparr>collected := []\<rparr>)) \<and>
    printed ws = line_report (collected st @ l)"
proof -
  let ?st = "st\<lparr>collected := collected st @ l\<rparr>"
  have "feed lit m l st = Some ([], Some ?st)"
    by (rule feed_part) (use l in \<open>auto simp: plain_line_def\<close>)
  moreover have "feed_byte lit m newline ?st = line_done lit m (?st\<lparr>collected := collected ?st @ [newline]\<rparr>)"
    using l by (simp add: feed_byte_def plain_line_def)
  moreover obtain ws where "line_done lit m (?st\<lparr>collected := collected ?st @ [newline]\<rparr>) = Some (ws, Some (st\<lparr>collected := []\<rparr>))"
    "printed ws = line_report (collected st @ l)"
    using line_done_plain [OF lits l, of "?st\<lparr>collected := collected ?st @ [newline]\<rparr>"] by auto
  ultimately show ?thesis by (simp add: feed_append)
qed

text \<open>What one read takes: the rest of the line with its newline, or as much of it as fits.\<close>

lemma first_line_split:
  "newline \<notin> set l \<Longrightarrow> first_line n (l @ newline # rest) = (if length l < n then l @ [newline] else take n l)"
  by (induction l arbitrary: n) (case_tac n; auto)+

text \<open>Induction over the rounds, with part of a line already collected.\<close>

lemma rounds_lines:
  assumes lits: "reading_literals lit m"
  shows "uart_ok u \<Longrightarrow> read_size st \<in> {BUF_SIZE, SMALL_SIZE} \<Longrightarrow> \<not> verbose st \<Longrightarrow>
    finished u = l @ newline # concat (map (\<lambda>l. l @ [newline]) ls) \<Longrightarrow> plain_line (collected st @ l) \<Longrightarrow>
    \<forall>l \<in> set ls. plain_line l \<Longrightarrow> length (finished u) \<le> k \<Longrightarrow>
    \<exists>ws u'. rounds console_call lit m k st u = Some (ws, Some (st\<lparr>collected := []\<rparr>), u') \<and> finished u' = [] \<and>
      printed ws = line_report (collected st @ l) @ concat (map line_report ls)"
proof (induction k arbitrary: st u l ls)
  case 0
  then show ?case by simp
next
  case (Suc k)
  let ?rest = "concat (map (\<lambda>l. l @ [newline]) ls)" and ?n = "read_size st"
  define bs where "bs = first_line ?n (finished u)"
  obtain u' where u': "console_call ?n u = Some (int (length bs), bs, u')" "finished u = bs @ finished u'" "uart_ok u'"
    using console_call [OF Suc.prems(1), of ?n] Suc.prems(4) unfolding bs_def by auto
  have nl: "newline \<notin> set l" using Suc.prems(5) by (simp add: plain_line_def)
  have n: "0 < ?n" using Suc.prems(2) by auto
  have bs: "bs = (if length l < ?n then l @ [newline] else take ?n l)"
    using first_line_split [OF nl] Suc.prems(4) by (simp add: bs_def)
  have round: "reading_round lit m (int (length bs)) bs st = feed lit m bs st"
    using Suc.prems(3) by (simp add: reading_round_def)
  have short: "length (finished u') \<le> k"
    using u'(2) Suc.prems(7) bs n by (auto split: if_splits)
  show ?case
  proof (cases "length l < ?n")
    case True
    then have fin: "finished u' = ?rest" using u'(2) Suc.prems(4) bs by simp
    obtain ws where ws: "feed lit m bs st = Some (ws, Some (st\<lparr>collected := []\<rparr>))" "printed ws = line_report (collected st @ l)"
      using feed_line [OF lits Suc.prems(5)] True bs by auto
    show ?thesis
    proof (cases ls)
      case Nil
      then have "console_call i u' = None" for i using fin by (simp add: console_call_def)
      then have "rounds console_call lit m k st' u' = Some ([], Some st', u')" for st' by (cases k) simp_all
      then show ?thesis using u'(1) round ws fin Nil by simp
    next
      case (Cons l2 ls2)
      from Suc.IH [OF u'(3), of "st\<lparr>collected := []\<rparr>" l2 ls2] Suc.prems(2,3,6) fin Cons short
      show ?thesis using u'(1) round ws by auto
    qed
  next
    case False
    then have b: "bs = take ?n l" using bs by simp
    then have fin: "finished u' = drop ?n l @ newline # ?rest"
      using u'(2) Suc.prems(4) append_take_drop_id [of ?n l] by (metis append_assoc same_append_eq)
    have "feed lit m bs st = Some ([], Some (st\<lparr>collected := collected st @ bs\<rparr>))"
      by (rule feed_part) (use nl Suc.prems(5) b in \<open>auto simp: plain_line_def dest: in_set_takeD\<close>)
    moreover have "plain_line (collected (st\<lparr>collected := collected st @ bs\<rparr>) @ drop ?n l)"
      using Suc.prems(5) b by simp
    ultimately show ?thesis
      using Suc.IH [OF u'(3), of "st\<lparr>collected := collected st @ bs\<rparr>" "drop ?n l" ls] Suc.prems(2,3,6) fin short u'(1) round b
      by auto
  qed
qed

section \<open>Properties\<close>

text \<open>
  C34: \<open>readtest\<close> loses nothing. Whatever finished lines wait at the console (none of them a
  command, each fitting its buffer), and whether it reads 64 or 4 bytes at a time, enough rounds
  of its loop consume them all and print one report per line, in order, each with the length and
  every byte of its line made visible: cutting a line into several reads changes nothing.
\<close>
theorem readtest_reports_lines:
  assumes "reading_literals lit m" "uart_ok u" "read_size st \<in> {BUF_SIZE, SMALL_SIZE}" "\<not> verbose st" "collected st = []"
    and "finished u = concat (map (\<lambda>l. l @ [newline]) ls)" "\<forall>l \<in> set ls. plain_line l" "length (finished u) \<le> k"
  shows "\<exists>ws u'. rounds console_call lit m k st u = Some (ws, Some st, u') \<and> finished u' = [] \<and>
    printed ws = concat (map line_report ls)"
proof (cases ls)
  case Nil
  then have "console_call i u = None" for i using assms(6) by (simp add: console_call_def)
  then have "rounds console_call lit m k st u = Some ([], Some st, u)" by (cases k) simp_all
  then show ?thesis using Nil assms(6) by simp
next
  case (Cons l ls')
  have same: "st\<lparr>collected := []\<rparr> = st" using assms(5) by simp
  have "\<exists>ws u'. rounds console_call lit m k st u = Some (ws, Some (st\<lparr>collected := []\<rparr>), u') \<and> finished u' = [] \<and>
      printed ws = line_report l @ concat (map line_report ls')"
    using rounds_lines [OF assms(1-4), of l ls' k] assms(5-8) Cons by simp
  then show ?thesis unfolding same Cons by simp
qed

text \<open>The line \<open>hello\<close>, read four bytes at a time.\<close>

definition reading_memory :: memory where
  "reading_memory = (\<lambda>_. 0)(0x100 := 108, 0x101 := 105, 0x102 := 110, 0x103 := 101, 0x104 := 32, 0x105 := 37,
     0x106 := 100, 0x107 := 58, 0x108 := 32, 0x200 := 92, 0x201 := 110, 0x300 := 92, 0x301 := 120, 0x302 := 37,
     0x303 := 120)"

definition reading_lit :: "string \<Rightarrow> u64" where
  "reading_lit s = (if s = line_format then 0x100 else if s = newline_escape then 0x200 else 0x300)"

definition hello_uart :: uart where
  "hello_uart = uart_reset\<lparr>rx_buf := (replicate UART_RX_SIZE 0)[0 := 104, 1 := 101, 2 := 108, 3 := 108, 4 := 111, 5 := newline],
     rx_head := 6, rx_commit := 6\<rparr>"

lemma readtest_reports_lines_witness:
  "\<exists>ws u' st'. rounds console_call reading_lit reading_memory 6 (reading_start\<lparr>read_size := SMALL_SIZE\<rparr>) hello_uart =
       Some (ws, st', u') \<and>
     finished u' = [] \<and> printed ws = bytes_of ''line 6: [hello'' @ [92, 110, 93, newline]"
proof -
  have lits: "reading_literals reading_lit reading_memory"
    by (simp add: reading_literals_def reading_lit_def reading_memory_def bytes_of_def kread_def)
  have u: "uart_ok hello_uart" "finished hello_uart = [104, 101, 108, 108, 111, newline]"
    by (simp_all add: uart_ok_def finished_def ring_slice_def hello_uart_def uart_reset_def upt_rec nth_list_update)
  have "line_report [104, 101, 108, 108, 111] = bytes_of ''line 6: [hello'' @ [92, 110, 93, newline]"
    by (simp add: line_report_def bytes_of_def shown_def dec_def numeral_in.simps)
  then show ?thesis
    using readtest_reports_lines [OF lits u(1), of "reading_start\<lparr>read_size := SMALL_SIZE\<rparr>" "[[104, 101, 108, 108, 111]]" 6] u(2)
    by (auto simp: reading_start_def plain_line_def)
qed

end
