(* ===== verification/User_Heap.thy ===== *)
theory User_Heap
  imports Syscall
begin

text \<open>
  \<open>malloc\<close> and \<open>free\<close> of user programs (\<open>kernel/user/syscalls.c\<close>): a list of blocks, each with
  a header of \<open>META_SIZE\<close> = 24 bytes in front, searched first fit and extended with \<open>sbrk\<close>. The
  state is what the program sees: its memory, the variable \<open>global_base\<close>, and the end of the
  heap with its limit, which the kernel keeps. Whether the kernel finds the frames for an
  \<open>sbrk\<close> is an argument. \<open>None\<close> stands for not returning: the search runs in a cycle, or an
  access faults and the kernel ends the program.
\<close>

section \<open>The code\<close>

record heap =
  um :: memory
  global_base :: u64
  brk :: u64
  limit :: u64

text \<open>\<open>sbrk(int)\<close>: the kernel sees the sign-extended argument; new pages appear zeroed.\<close>

definition clear_pages :: "u64 \<Rightarrow> u64 \<Rightarrow> memory \<Rightarrow> memory" where
  "clear_pages a e m = (\<lambda>va. if page_base va \<in> pages_in a e then 0 else m va)"

definition sbrk :: "bool \<Rightarrow> u32 \<Rightarrow> heap \<Rightarrow> u64 \<times> heap" where
  "sbrk frames increment h =
     (let inc = (scast increment :: u64); new_brk = brk h + inc
      in if inc = 0 then (brk h, h)
         else if sint inc < 0 then (E_PERM, h)
         else if new_brk > limit h then (E_NOMEM, h)
         else if \<not> frames then (E_NOMEM, h)
         else (brk h, h\<lparr>um := clear_pages (page_up (brk h)) (page_up new_brk) (um h), brk := new_brk\<rparr>))"

abbreviation META_SIZE :: u64 where
  "META_SIZE \<equiv> 24"

abbreviation block_size :: "memory \<Rightarrow> u64 \<Rightarrow> u64" where
  "block_size m b \<equiv> load64 m b"

abbreviation block_next :: "memory \<Rightarrow> u64 \<Rightarrow> u64" where
  "block_next m b \<equiv> load64 m (b + 8)"

abbreviation is_free :: "memory \<Rightarrow> u64 \<Rightarrow> bool" where
  "is_free m b \<equiv> load32 m (b + 16) \<noteq> 0"

definition set_free :: "memory \<Rightarrow> u64 \<Rightarrow> u32 \<Rightarrow> memory" where
  "set_free m b v = store_le m (b + 16) 4 (ucast v)"

text \<open>The loop of \<open>find_free_block\<close>: the block found, or 0, and the last block passed.\<close>

partial_function (option) find_from :: "memory \<Rightarrow> u64 \<Rightarrow> u64 \<Rightarrow> u64 \<Rightarrow> (u64 \<times> u64) option" where
  "find_from m bytes cur last_block =
     (if cur = 0 then Some (0, last_block)
      else if is_free m cur \<and> block_size m cur \<ge> bytes then Some (cur, last_block)
      else find_from m bytes (block_next m cur) cur)"

definition find_free_block :: "heap \<Rightarrow> u64 \<Rightarrow> (u64 \<times> u64) option" where
  "find_free_block h bytes = find_from (um h) bytes (global_base h) 0"

text \<open>No user page lies above the lower half of the address space.\<close>

definition may_access :: "u64 \<Rightarrow> bool" where
  "may_access a \<longleftrightarrow> unat a < 2 ^ 38"

definition new_header :: "memory \<Rightarrow> u64 \<Rightarrow> u64 \<Rightarrow> memory" where
  "new_header m b bytes = store64 (set_free (store64 m b bytes) b 0) (b + 8) 0"

definition malloc :: "bool \<Rightarrow> u64 \<Rightarrow> heap \<Rightarrow> (u64 \<times> heap) option" where
  "malloc frames bytes h =
     (if bytes = 0 then Some (0, h)
      else
        Option.bind (find_free_block h bytes) (\<lambda>(block, last_block).
          if block \<noteq> 0 then Some (block + META_SIZE, h\<lparr>um := set_free (um h) block 0\<rparr>)
          else
            (let total_size = META_SIZE + bytes; (new_block, h1) = sbrk frames (ucast total_size) h
             in if new_block = -1 then Some (0, h1)
                else if \<not> may_access new_block then None
                else
                  (let m = new_header (um h1) new_block bytes
                   in Some (new_block + META_SIZE,
                        if last_block \<noteq> 0 then h1\<lparr>um := store64 m (last_block + 8) new_block\<rparr>
                        else h1\<lparr>um := m, global_base := new_block\<rparr>)))))"

definition free :: "u64 \<Rightarrow> heap \<Rightarrow> heap" where
  "free ptr h = (if ptr = 0 then h else h\<lparr>um := set_free (um h) (ptr - META_SIZE) 1\<rparr>)"

section \<open>The block list\<close>

text \<open>A block is its address, its bytes and whether it is free.\<close>

type_synonym block = "u64 \<times> nat \<times> bool"

fun path :: "memory \<Rightarrow> u64 \<Rightarrow> block list \<Rightarrow> u64 \<Rightarrow> bool" where
  "path m p [] q \<longleftrightarrow> p = q"
| "path m p ((a, n, f) # bs) q \<longleftrightarrow>
     p = a \<and> unat (block_size m a) = n \<and> is_free m a = f \<and> path m (block_next m a) bs q"

text \<open>The blocks lie one after the other between \<open>lo\<close> and \<open>hi\<close>.\<close>

fun laid_out :: "nat \<Rightarrow> block list \<Rightarrow> nat \<Rightarrow> bool" where
  "laid_out lo [] hi \<longleftrightarrow> lo \<le> hi"
| "laid_out lo ((a, n, f) # bs) hi \<longleftrightarrow> lo \<le> unat a \<and> laid_out (unat a + 24 + n) bs hi"

definition heap_ok :: "heap \<Rightarrow> block list \<Rightarrow> bool" where
  "heap_ok h bs \<longleftrightarrow> path (um h) (global_base h) bs 0 \<and> laid_out 1 bs (unat (brk h)) \<and> unat (limit h) < 2 ^ 38 \<and> brk h \<le> limit h"

lemma path_append [simp]: "path m p (xs @ ys) q \<longleftrightarrow> (\<exists>r. path m p xs r \<and> path m r ys q)"
  by (induction m p xs q rule: path.induct) auto

lemma laid_out_append [simp]:
  "laid_out lo (xs @ (a, n, f) # ys) hi \<longleftrightarrow> laid_out lo xs (unat a) \<and> laid_out (unat a + 24 + n) ys hi"
  by (induction lo xs "unat a" rule: laid_out.induct) auto

lemma laid_out_bounds: "laid_out lo bs hi \<Longrightarrow> (a, n, f) \<in> set bs \<Longrightarrow> lo \<le> unat a \<and> unat a + 24 + n \<le> hi"
proof (induction lo bs hi rule: laid_out.induct)
  case (2 lo b k g bs hi)
  have "lo \<le> hi" if "laid_out lo bs hi" for lo bs hi
    using that by (induction lo bs hi rule: laid_out.induct) auto
  then have "unat b + 24 + k \<le> hi" using 2(2) by auto
  then show ?case using 2 by auto
qed simp

section \<open>Memory\<close>

lemma store_le_apart:
  assumes "unat b < unat a \<or> unat a + n \<le> unat b" "unat a + n \<le> 2 ^ 64"
  shows "store_le m a n v b = m b"
proof (rule store_le_other)
  fix k assume "k < n"
  moreover from this have "unat (a + of_nat k) = unat a + k" using assms(2) by (intro unat_add_of_nat) simp
  ultimately show "b \<noteq> a + of_nat k" using assms(1) by auto
qed

lemma load_store_apart:
  assumes "unat b + k \<le> unat a \<or> unat a + n \<le> unat b" "unat a + n \<le> 2 ^ 64" "unat b + k \<le> 2 ^ 64"
  shows "load_le (store_le m a n v) b k = load_le m b k"
proof (rule load_le_cong)
  fix j assume "j < k"
  moreover from this have "unat (b + of_nat j) = unat b + j" using assms(3) by (intro unat_add_of_nat) simp
  ultimately show "store_le m a n v (b + of_nat j) = m (b + of_nat j)"
    using assms(1,2) by (intro store_le_apart) auto
qed

text \<open>The header fields of a block in the lower half.\<close>

lemma field_unat:
  assumes "unat (a :: u64) + 24 \<le> 2 ^ 38"
  shows "unat (a + 8) = unat a + 8" "unat (a + 16) = unat a + 16" "unat (a + 24) = unat a + 24"
  using assms unat_add_of_nat [of a 8] unat_add_of_nat [of a 16] unat_add_of_nat [of a 24] by simp_all

lemma path_cong:
  assumes "\<And>a n f j. (a, n, f) \<in> set bs \<Longrightarrow> j < 24 \<Longrightarrow> m' (a + of_nat j) = m (a + of_nat j)"
  shows "path m' p bs q = path m p bs q"
  using assms
proof (induction m p bs q rule: path.induct)
  case (2 m p a n f bs q)
  have load: "load_le m' (a + of_nat i) k = load_le m (a + of_nat i) k" if "i + k \<le> 24" for i k
  proof (rule load_le_cong)
    fix j assume "j < k"
    then show "m' (a + of_nat i + of_nat j) = m (a + of_nat i + of_nat j)"
      using 2(2) [of a n f "i + j"] that by (simp add: add.assoc)
  qed
  have f: "load64 m' a = load64 m a" "load64 m' (a + 8) = load64 m (a + 8)" "load_le m' (a + 16) 4 = load_le m (a + 16) 4"
    using load [of 0 8] load [of 8 8] load [of 16 4] by simp_all
  have "path m' (block_next m a) bs q = path m (block_next m a) bs q"
    by (rule 2(1)) (use 2(2) in auto)
  then show ?case by (simp add: f)
qed simp

section \<open>Searching\<close>

definition fits :: "u64 \<Rightarrow> block \<Rightarrow> bool" where
  "fits bytes b = (case b of (_, n, f) \<Rightarrow> f \<and> unat bytes \<le> n)"

lemma find_from_found:
  "path m p (xs @ (a, n, True) # ys) q \<Longrightarrow> \<forall>b \<in> set xs. \<not> fits bytes b \<Longrightarrow> unat bytes \<le> n \<Longrightarrow>
     laid_out lo (xs @ (a, n, True) # ys) hi \<Longrightarrow> 1 \<le> lo \<Longrightarrow> \<exists>l. find_from m bytes p last_block = Some (a, l)"
proof (induction xs arbitrary: p last_block lo)
  case Nil
  then have "a \<noteq> 0" by auto
  then show ?case using Nil by (subst find_from.simps) (auto simp: word_le_nat_alt)
next
  case (Cons b xs)
  obtain c k g where b: "b = (c, k, g)" by (cases b)
  have "\<exists>l. find_from m bytes (block_next m c) c = Some (a, l)"
    by (rule Cons.IH [where lo = "unat c + 24 + k"]) (use Cons.prems b in auto)
  moreover have "c \<noteq> 0" using Cons.prems(4,5) b by auto
  ultimately show ?case
    using Cons.prems b by (subst find_from.simps) (auto simp: fits_def word_le_nat_alt)
qed

lemma find_from_none:
  "path m p bs 0 \<Longrightarrow> \<forall>b \<in> set bs. \<not> fits bytes b \<Longrightarrow> laid_out lo bs hi \<Longrightarrow> 1 \<le> lo \<Longrightarrow>
     find_from m bytes p last_block = Some (0, if bs = [] then last_block else fst (last bs))"
proof (induction bs arbitrary: p last_block lo)
  case Nil
  then show ?case by (subst find_from.simps) simp
next
  case (Cons b bs)
  obtain c k g where b: "b = (c, k, g)" by (cases b)
  have "find_from m bytes (block_next m c) c = Some (0, if bs = [] then c else fst (last bs))"
    by (rule Cons.IH [where lo = "unat c + 24 + k"]) (use Cons.prems b in auto)
  moreover have "c \<noteq> 0" using Cons.prems(3,4) b by auto
  ultimately show ?case
    using Cons.prems b by (subst find_from.simps) (auto simp: fits_def word_le_nat_alt)
qed

section \<open>Marking a block\<close>

lemma set_free_apart:
  assumes "unat b < unat a + 16 \<or> unat a + 20 \<le> unat b" "unat a + 24 \<le> 2 ^ 38"
  shows "set_free m a v b = m b"
  unfolding set_free_def using assms field_unat [OF assms(2)] by (intro store_le_apart) auto

lemma heap_ok_below:
  assumes "heap_ok h bs" "(a, n, f) \<in> set bs"
  shows "0 < unat a" "unat a + 24 + n \<le> unat (brk h)" "unat (brk h) < 2 ^ 38" "unat a + 24 \<le> 2 ^ 38"
proof -
  show "unat (brk h) < 2 ^ 38" using assms(1) by (auto simp: heap_ok_def word_le_nat_alt)
  moreover have "1 \<le> unat a \<and> unat a + 24 + n \<le> unat (brk h)"
    using assms laid_out_bounds unfolding heap_ok_def by blast
  ultimately show "0 < unat a" "unat a + 24 + n \<le> unat (brk h)" "unat a + 24 \<le> 2 ^ 38" by auto
qed

text \<open>A block of the list and the others do not overlap.\<close>

lemma laid_out_sides:
  assumes "laid_out lo (xs @ (a, n, f) # ys) hi"
  shows "(b, k, g) \<in> set xs \<Longrightarrow> unat b + 24 + k \<le> unat a" "(b, k, g) \<in> set ys \<Longrightarrow> unat a + 24 + n \<le> unat b"
  using assms laid_out_bounds by (auto simp del: laid_out.simps simp: laid_out.simps(2))

lemma header_byte:
  assumes "unat (b :: u64) + 24 \<le> 2 ^ 38" "j < 24"
  shows "unat (b + of_nat j) = unat b + j"
  using assms by (intro unat_add_of_nat) simp

lemma set_free_ok:
  assumes ok: "heap_ok h (xs @ (a, n, f) # ys)"
  shows "heap_ok (h\<lparr>um := set_free (um h) a v\<rparr>) (xs @ (a, n, v \<noteq> 0) # ys)"
proof -
  let ?m = "set_free (um h) a v"
  have "(a, n, f) \<in> set (xs @ (a, n, f) # ys)" by simp
  note a = heap_ok_below [OF ok this]
  have l: "laid_out 1 (xs @ (a, n, f) # ys) (unat (brk h))" using ok by (simp add: heap_ok_def)
  note sides = laid_out_sides [OF l]
  have others: "?m (b + of_nat j) = um h (b + of_nat j)" if "(b, k, g) \<in> set xs \<union> set ys" "j < 24" for b k g j
  proof -
    have b: "unat b + 24 \<le> 2 ^ 38" using heap_ok_below(4) [OF ok, of b k g] that(1) by auto
    have "unat b + 24 \<le> unat a \<or> unat a + 24 \<le> unat b" using sides that(1) by fastforce
    then show ?thesis using header_byte [OF b that(2)] that(2) a(4) by (intro set_free_apart) auto
  qed
  have fields: "load64 ?m a = load64 (um h) a" "load64 ?m (a + 8) = load64 (um h) (a + 8)"
    unfolding set_free_def using field_unat [OF a(4)] a(4) by (auto intro!: load_store_apart)
  have flag: "(is_free ?m a) = (v \<noteq> 0)"
  proof -
    have "load_le ?m (a + 16) 4 = take_bit 32 (ucast v)" by (simp add: set_free_def load_le_store_le)
    moreover have "ucast (take_bit 32 (ucast v :: u64)) = v" by (intro bit_word_eqI) (simp add: bit_simps)
    ultimately show ?thesis by simp
  qed
  have xs: "path ?m q xs r = path (um h) q xs r" and ys: "path ?m q ys r = path (um h) q ys r" for q r
    by (rule path_cong, use others in blast)+
  have "path (um h) (global_base h) (xs @ (a, n, f) # ys) 0" using ok by (simp add: heap_ok_def)
  then have "path ?m (global_base h) (xs @ (a, n, v \<noteq> 0) # ys) 0"
    using xs ys fields flag by (auto simp del: path.simps simp: path.simps(2))
  then show ?thesis using ok by (simp add: heap_ok_def)
qed

text \<open>Bytes of the payloads: those of no header.\<close>

definition in_header :: "block list \<Rightarrow> u64 \<Rightarrow> bool" where
  "in_header bs va \<longleftrightarrow> (\<exists>(a, n, f) \<in> set bs. unat a \<le> unat va \<and> unat va < unat a + 24)"

lemma set_free_payload:
  assumes "heap_ok h bs" "(a, n, f) \<in> set bs" "\<not> in_header bs va"
  shows "set_free (um h) a v va = um h va"
  using assms heap_ok_below(4) [OF assms(1,2)]
  by (intro set_free_apart) (fastforce simp: in_header_def not_le)+

section \<open>Growing\<close>

lemma unat_page_up_ge: "unat (a :: u64) < 2 ^ 38 \<Longrightarrow> unat a \<le> unat (page_up a)"
  using unat_page_up [of a] div_mult_mod_eq [of "unat a + 4095" 4096] mod_less_divisor [of 4096 "unat a + 4095"] by simp

lemma clear_pages_below:
  assumes "unat va < unat a" "unat a < 2 ^ 38"
  shows "clear_pages (page_up a) e m va = m va"
proof -
  have "unat (page_base va) \<le> unat va" by (simp add: unat_page_base)
  then have "page_base va < page_up a" using unat_page_up_ge [OF assms(2)] assms(1) by (simp add: word_less_nat_alt)
  then show ?thesis by (auto simp: clear_pages_def pages_in_def)
qed

lemma sint_small64: "n < 2 ^ 63 \<Longrightarrow> sint (of_nat n :: u64) = int n"
  by (simp add: signed_of_nat signed_take_bit_int_eq_self)

text \<open>The request of \<open>malloc\<close>, when it is small enough for an \<open>int\<close>.\<close>

lemma sbrk_request:
  assumes "unat bytes < 2 ^ 31 - 24" "unat (limit h) < 2 ^ 38" "brk h \<le> limit h"
  shows "sbrk frames (ucast (META_SIZE + bytes)) h =
    (if frames \<and> unat (brk h) + 24 + unat bytes \<le> unat (limit h)
     then (brk h, h\<lparr>um := clear_pages (page_up (brk h)) (page_up (brk h + (META_SIZE + bytes))) (um h),
                   brk := brk h + (META_SIZE + bytes)\<rparr>)
     else (E_NOMEM, h))"
proof -
  let ?t = "META_SIZE + bytes"
  have t: "unat ?t = 24 + unat bytes" using assms(1) by (simp add: unat_word_ariths)
  have w: "(of_nat (unat ?t) :: u64) = ?t" by simp
  have "(ucast ?t :: u32) = of_nat (unat ?t)" by (rule of_nat_unat [symmetric])
  moreover have "(scast (of_nat (unat ?t) :: u32) :: u64) = of_nat (unat ?t)"
    by (rule scast_small) (use assms(1) t in simp)
  ultimately have sc: "(scast (ucast ?t :: u32) :: u64) = ?t" using w by simp
  have "sint (of_nat (unat ?t) :: u64) = int (unat ?t)"
    by (rule sint_small64) (use assms(1) t in simp)
  then have "\<not> sint ?t < 0" unfolding w by simp
  moreover have "?t \<noteq> 0" using t by auto
  moreover have "unat (brk h + ?t) = unat (brk h) + 24 + unat bytes"
    using assms t by (subst unat_word_ariths) (simp add: word_le_nat_alt)
  then have "brk h + ?t > limit h \<longleftrightarrow> \<not> unat (brk h) + 24 + unat bytes \<le> unat (limit h)"
    by (simp add: word_less_nat_alt not_le)
  ultimately show ?thesis unfolding sbrk_def sc Let_def by simp
qed

text \<open>The header of a new block.\<close>

lemma new_header:
  assumes b: "unat b + 24 \<le> 2 ^ 38"
  shows "block_size (new_header m b bytes) b = bytes" "block_next (new_header m b bytes) b = 0"
    "\<not> is_free (new_header m b bytes) b" "unat va < unat b \<Longrightarrow> new_header m b bytes va = m va"
proof -
  note f = field_unat [OF b]
  let ?m1 = "store64 m b bytes"
  have "load64 (new_header m b bytes) b = load64 (set_free ?m1 b 0) b"
    unfolding new_header_def using f b by (intro load_store_apart) auto
  also have "\<dots> = load64 ?m1 b"
    unfolding set_free_def using f b by (intro load_store_apart) auto
  finally show "block_size (new_header m b bytes) b = bytes" by simp
  show "block_next (new_header m b bytes) b = 0" by (simp add: new_header_def)
  have "load_le (new_header m b bytes) (b + 16) 4 = load_le (set_free ?m1 b 0) (b + 16) 4"
    unfolding new_header_def using f b by (intro load_store_apart) auto
  then show "\<not> is_free (new_header m b bytes) b" by (simp add: set_free_def load_le_store_le)
  show "new_header m b bytes va = m va" if "unat va < unat b"
  proof -
    have "new_header m b bytes va = set_free ?m1 b 0 va"
      unfolding new_header_def using f b that by (intro store_le_apart) auto
    also have "\<dots> = ?m1 va" using b that by (intro set_free_apart) auto
    also have "\<dots> = m va" using b that by (intro store_le_apart) auto
    finally show ?thesis .
  qed
qed

lemma path_below:
  assumes "\<And>a n f. (a, n, f) \<in> set bs \<Longrightarrow> unat a + 24 \<le> hi" "hi \<le> 2 ^ 38"
    and "\<And>va. unat va < hi \<Longrightarrow> m' va = m va"
  shows "path m' p bs q = path m p bs q"
proof (rule path_cong)
  fix a n f and j :: nat assume "(a, n, f) \<in> set bs" and j: "j < 24"
  then have a: "unat a + 24 \<le> hi" using assms(1) by blast
  then have "unat (a + of_nat j) = unat a + j" using assms(2) by (intro header_byte [OF _ j]) simp
  then show "m' (a + of_nat j) = m (a + of_nat j)" using a j by (intro assms(3)) simp
qed

text \<open>Linking a new block behind the last one.\<close>

definition linked :: "memory \<Rightarrow> u64 \<Rightarrow> block list \<Rightarrow> u64 \<Rightarrow> memory \<times> u64" where
  "linked m base bs b = (if bs = [] then (m, b) else (store64 m (fst (last bs) + 8) b, base))"

lemma linked_path:
  assumes p: "path m base bs 0" and l: "laid_out 1 bs (unat b)" and b: "unat b + 24 \<le> 2 ^ 38"
    and new: "unat (block_size m b) = n" "block_next m b = 0" "\<not> is_free m b"
    and lk: "linked m base bs b = (m', base')"
  shows "path m' base' (bs @ [(b, n, False)]) 0" "\<And>va. \<not> in_header bs va \<Longrightarrow> m' va = m va"
proof -
  have "path m' base' (bs @ [(b, n, False)]) 0 \<and> (\<forall>va. \<not> in_header bs va \<longrightarrow> m' va = m va)"
  proof (cases bs rule: rev_cases)
    case Nil
    then show ?thesis using new lk by (simp add: linked_def)
  next
    case (snoc xs c)
    obtain a k f where c: "c = (a, k, f)" by (cases c)
    have bs: "bs = xs @ (a, k, f) # []" using snoc c by simp
    have m': "m' = store64 m (a + 8) b" "base' = base" using lk bs by (simp_all add: linked_def)
    have ab: "unat a + 24 + k \<le> unat b" using l unfolding bs laid_out_append by simp
    then have a: "unat a + 24 \<le> 2 ^ 38" using b by simp
    note f = field_unat [OF a] and fb = field_unat [OF b]
    have out: "m' va = m va" if "unat va < unat a + 8 \<or> unat a + 16 \<le> unat va" for va
      unfolding m' using that f a by (intro store_le_apart) auto
    have fields: "block_size m' a = block_size m a" "load_le m' (a + 16) 4 = load_le m (a + 16) 4" "block_next m' a = b"
      "block_size m' b = block_size m b" "load_le m' (b + 16) 4 = load_le m (b + 16) 4" "block_next m' b = block_next m b"
      unfolding m' using f fb a b ab by (auto intro!: load_store_apart)
    have "path m' base xs a = path m base xs a"
    proof (rule path_below [of xs "unat a"])
      fix d j g assume "(d, j, g) \<in> set xs"
      then show "unat d + 24 \<le> unat a" using laid_out_sides(1) [OF l [unfolded bs]] by fastforce
    qed (use a out in auto)
    moreover have "path m base xs a \<and> unat (block_size m a) = k \<and> is_free m a = f"
      using p unfolding bs by auto
    ultimately have "path m' base' (bs @ [(b, n, False)]) 0"
      unfolding bs m'(2) using fields new by simp
    moreover have "\<not> in_header bs va \<Longrightarrow> m' va = m va" for va
      by (rule out) (auto simp: bs in_header_def)
    ultimately show ?thesis by blast
  qed
  then show "path m' base' (bs @ [(b, n, False)]) 0" "\<And>va. \<not> in_header bs va \<Longrightarrow> m' va = m va" by blast+
qed

lemma laid_out_snoc: "laid_out lo bs (unat b) \<Longrightarrow> laid_out lo (bs @ [(b, n, f)]) (unat b + 24 + n)"
  by simp

lemma malloc_grow:
  assumes ok: "heap_ok h bs" and none: "\<forall>b \<in> set bs. \<not> fits bytes b"
    and n: "0 < unat bytes" "unat bytes < 2 ^ 31 - 24"
    and room: "frames" "unat (brk h) + 24 + unat bytes \<le> unat (limit h)"
  shows "\<exists>h'. malloc frames bytes h = Some (brk h + META_SIZE, h') \<and>
    heap_ok h' (bs @ [(brk h, unat bytes, False)]) \<and> limit h' = limit h \<and>
    unat (brk h') = unat (brk h) + 24 + unat bytes \<and>
    (\<forall>va. unat va < unat (brk h) \<longrightarrow> \<not> in_header bs va \<longrightarrow> um h' va = um h va)"
proof -
  let ?b = "brk h" and ?m1 = "clear_pages (page_up (brk h)) (page_up (brk h + (META_SIZE + bytes))) (um h)"
  let ?m = "new_header ?m1 ?b bytes"
  have o: "path (um h) (global_base h) bs 0" "laid_out 1 bs (unat ?b)" "unat (limit h) < 2 ^ 38" "?b \<le> limit h"
    using ok by (simp_all add: heap_ok_def)
  have b: "unat ?b + 24 \<le> 2 ^ 38" "unat ?b < 2 ^ 38" using room o(3) by simp_all
  note nh = new_header [OF b(1), where m = ?m1 and bytes = bytes]
  have below: "?m va = um h va" if "unat va < unat ?b" for va
    using nh(4) [OF that] clear_pages_below [OF that b(2)] by simp
  have "unat a + 24 \<le> unat ?b" if "(a, k, f) \<in> set bs" for a k f
    using heap_ok_below(2) [OF ok that] by simp
  then have p: "path ?m (global_base h) bs 0"
    using path_below [of bs "unat ?b" ?m "um h"] below b(2) o(1) by auto
  obtain m' base' where lk: "linked ?m (global_base h) bs ?b = (m', base')" by fastforce
  note q = linked_path [OF p o(2) b(1) _ nh(2,3) lk, of "unat bytes"]
  have total: "unat (brk h + (META_SIZE + bytes)) = unat ?b + 24 + unat bytes"
    using n(2) b(2) by (simp add: unat_word_ariths)
  have base0: "last_block \<noteq> 0 \<longleftrightarrow> bs \<noteq> []" if "last_block = (if bs = [] then 0 else fst (last bs))" for last_block
  proof (cases "bs = []")
    case False
    obtain a k f where "last bs = (a, k, f)" by (cases "last bs")
    then have "(a, k, f) \<in> set bs" using last_in_set [OF False] by simp
    then show ?thesis using heap_ok_below(1) [OF ok] that False \<open>last bs = _\<close> by (auto simp: unat_gt_0)
  qed (simp add: that)
  have "find_free_block h bytes = Some (0, if bs = [] then 0 else fst (last bs))"
    unfolding find_free_block_def by (rule find_from_none [OF o(1) none o(2)]) simp
  moreover have "unat (-1 :: u64) = 2 ^ 64 - 1" by (simp add: unsigned_minus_1_eq_mask mask_eq_exp_minus_1)
  then have "?b \<noteq> -1" using b(2) by fastforce
  ultimately have "malloc frames bytes h = Some (?b + META_SIZE,
      h\<lparr>um := m', brk := brk h + (META_SIZE + bytes), global_base := base'\<rparr>)"
    using sbrk_request [OF n(2) o(3,4), of frames] room n(1) lk b(2) base0 [OF refl]
    by (auto simp: malloc_def may_access_def linked_def Let_def)
  moreover have "heap_ok (h\<lparr>um := m', brk := brk h + (META_SIZE + bytes), global_base := base'\<rparr>) (bs @ [(?b, unat bytes, False)])"
    using q(1) nh(1) o(2,3) room(2) total by (simp add: heap_ok_def word_le_nat_alt)
  moreover have "\<not> in_header bs va \<Longrightarrow> m' va = ?m va" for va using q(2) nh(1) by simp
  ultimately show ?thesis using below total by auto
qed

lemma malloc_reuse:
  assumes ok: "heap_ok h (xs @ (a, n, True) # ys)" and first: "\<forall>b \<in> set xs. \<not> fits bytes b"
    and n: "bytes \<noteq> 0" "unat bytes \<le> n"
  shows "malloc frames bytes h = Some (a + META_SIZE, h\<lparr>um := set_free (um h) a 0\<rparr>)"
proof -
  have o: "path (um h) (global_base h) (xs @ (a, n, True) # ys) 0" "laid_out 1 (xs @ (a, n, True) # ys) (unat (brk h))"
    using ok by (simp_all only: heap_ok_def)
  obtain l where "find_free_block h bytes = Some (a, l)"
    using find_from_found [OF o(1) first n(2) o(2)] unfolding find_free_block_def by blast
  moreover have "a \<noteq> 0" using heap_ok_below(1) [OF ok, of a n True] by auto
  ultimately show ?thesis using n(1) by (simp add: malloc_def)
qed

text \<open>
  When \<open>sbrk\<close> fails, \<open>malloc\<close> takes the error code for an address: it does not return null, the
  access faults.
\<close>

lemma malloc_failure_kills:
  assumes ok: "heap_ok h bs" and none: "\<forall>b \<in> set bs. \<not> fits bytes b"
    and n: "0 < unat bytes" "unat bytes < 2 ^ 31 - 24"
    and full: "\<not> (frames \<and> unat (brk h) + 24 + unat bytes \<le> unat (limit h))"
  shows "malloc frames bytes h = None"
proof -
  have o: "path (um h) (global_base h) bs 0" "laid_out 1 bs (unat (brk h))" "unat (limit h) < 2 ^ 38" "brk h \<le> limit h"
    using ok by (simp_all add: heap_ok_def)
  have "find_free_block h bytes = Some (0, if bs = [] then 0 else fst (last bs))"
    unfolding find_free_block_def by (rule find_from_none [OF o(1) none o(2)]) simp
  then show ?thesis
    using sbrk_request [OF n(2) o(3,4), of frames] full n(1) by (auto simp: malloc_def may_access_def)
qed

text \<open>
  \<open>sbrk\<close> takes an \<open>int\<close>: a request of \<open>2 ^ 32\<close> bytes grows the heap by the header alone, and
  \<open>malloc\<close> returns a block that is not there.
\<close>

lemma malloc_truncates:
  assumes ok: "heap_ok h bs" and none: "\<forall>b \<in> set bs. \<not> fits (2 ^ 32) b"
    and room: "unat (brk h) + 24 \<le> unat (limit h)"
  shows "\<exists>h'. malloc True (2 ^ 32) h = Some (brk h + META_SIZE, h') \<and> brk h' = brk h + META_SIZE"
proof -
  have o: "path (um h) (global_base h) bs 0" "laid_out 1 bs (unat (brk h))" "unat (limit h) < 2 ^ 38" "brk h \<le> limit h"
    using ok by (simp_all add: heap_ok_def)
  have b: "unat (brk h) < 2 ^ 38" using room o(3) by simp
  have "unat (-1 :: u64) = 2 ^ 64 - 1" by (simp add: unsigned_minus_1_eq_mask mask_eq_exp_minus_1)
  then have m1: "brk h \<noteq> -1" using b by fastforce
  have f: "find_free_block h (2 ^ 32) = Some (0, if bs = [] then 0 else fst (last bs))"
    unfolding find_free_block_def by (rule find_from_none [OF o(1) none o(2)]) simp
  have c: "(4294967320 :: u32) = 24" by simp
  have "\<not> brk h + 24 > limit h" using room field_unat(3) [of "brk h"] o(3) by (simp add: word_less_nat_alt)
  then have "sbrk True 24 h = (brk h, h\<lparr>um := clear_pages (page_up (brk h)) (page_up (brk h + 24)) (um h), brk := brk h + 24\<rparr>)"
    by (simp add: sbrk_def Let_def)
  then have "sbrk True 4294967320 h = (brk h, h\<lparr>um := clear_pages (page_up (brk h)) (page_up (brk h + 24)) (um h), brk := brk h + 24\<rparr>)"
    unfolding c .
  then show ?thesis using f m1 b by (simp add: malloc_def may_access_def Let_def)
qed

lemma free_ok:
  assumes "heap_ok h (xs @ (a, n, f) # ys)"
  shows "heap_ok (free (a + META_SIZE) h) (xs @ (a, n, True) # ys)"
proof -
  have "a + META_SIZE \<noteq> 0"
    using heap_ok_below [OF assms, of a n f] field_unat(3) [of a] by (metis add_is_0 in_set_conv_decomp unsigned_0 zero_neq_numeral)
  then show ?thesis using set_free_ok [OF assms, of 1] by (simp add: free_def)
qed

section \<open>Properties\<close>

text \<open>
  C31: the allocator. On a well-formed heap with the blocks \<open>bs\<close> (in address order, disjoint,
  each with its header in front), a \<open>malloc\<close> of at most two gigabytes either does not return,
  because no free block is large enough and the kernel refuses to grow the heap, or returns the
  payload of a block large enough that was free in the list or has just been appended to it
  beyond the old end of the heap. The heap is well formed again with that block taken and all
  others as they were, and no byte of a payload has changed. \<open>free\<close> of the pointer makes
  exactly that block free again.
\<close>
theorem malloc_hands_out_free_block:
  assumes "heap_ok h bs" "0 < unat bytes" "unat bytes < 2 ^ 31 - 24"
  shows "case malloc frames bytes h of
      None \<Rightarrow> (\<forall>b \<in> set bs. \<not> fits bytes b) \<and> \<not> (frames \<and> unat (brk h) + 24 + unat bytes \<le> unat (limit h))
    | Some (p, h') \<Rightarrow> \<exists>xs a n ys. p = a + META_SIZE \<and> unat bytes \<le> n \<and>
        (bs = xs @ (a, n, True) # ys \<and> brk h' = brk h \<or> bs = xs \<and> ys = [] \<and> a = brk h) \<and>
        heap_ok h' (xs @ (a, n, False) # ys) \<and> heap_ok (free p h') (xs @ (a, n, True) # ys) \<and>
        (\<forall>va. unat va < unat (brk h) \<longrightarrow> \<not> in_header bs va \<longrightarrow> um h' va = um h va)"
proof (cases "\<exists>b \<in> set bs. fits bytes b")
  case True
  then obtain xs b ys where bs: "bs = xs @ b # ys" "fits bytes b" "\<forall>c \<in> set xs. \<not> fits bytes c"
    using split_list_first_prop [OF True] by blast
  then obtain a n where b: "b = (a, n, True)" "unat bytes \<le> n" by (cases b) (auto simp: fits_def)
  have ok: "heap_ok h (xs @ (a, n, True) # ys)" using assms(1) bs(1) b(1) by simp
  have "bytes \<noteq> 0" using assms(2) by auto
  note run = malloc_reuse [OF ok bs(3) this b(2)]
  have ok': "heap_ok (h\<lparr>um := set_free (um h) a 0\<rparr>) (xs @ (a, n, False) # ys)" using set_free_ok [OF ok, of 0] by simp
  have "(a, n, True) \<in> set bs" using bs(1) b(1) by simp
  note same = set_free_payload [OF assms(1) this]
  have brk: "brk (h\<lparr>um := set_free (um h) a 0\<rparr>) = brk h"
    and um: "um (h\<lparr>um := set_free (um h) a 0\<rparr>) = set_free (um h) a 0" by simp_all
  show ?thesis unfolding run option.case prod.case
  proof (intro exI conjI allI impI)
    show "bs = xs @ (a, n, True) # ys \<and> brk (h\<lparr>um := set_free (um h) a 0\<rparr>) = brk h \<or> bs = xs \<and> ys = [] \<and> a = brk h"
      using bs(1) b(1) brk by blast
    show "um (h\<lparr>um := set_free (um h) a 0\<rparr>) va = um h va" if "\<not> in_header bs va" for va
      unfolding um by (rule same [OF that])
  qed (rule refl b(2) ok' free_ok [OF ok'])+
next
  case False
  show ?thesis
  proof (cases "frames \<and> unat (brk h) + 24 + unat bytes \<le> unat (limit h)")
    case True
    from malloc_grow [OF assms(1) _ assms(2,3), of frames] False True obtain h' where
      h': "malloc frames bytes h = Some (brk h + META_SIZE, h')" "heap_ok h' (bs @ [(brk h, unat bytes, False)])"
        "\<forall>va. unat va < unat (brk h) \<longrightarrow> \<not> in_header bs va \<longrightarrow> um h' va = um h va"
      by blast
    then show ?thesis using free_ok [OF h'(2)] by auto
  next
    case full: False
    then show ?thesis using malloc_failure_kills [OF assms(1) _ assms(2,3) full] False by auto
  qed
qed

definition fresh_heap :: heap where
  "fresh_heap = \<lparr>um = (\<lambda>_. 0), global_base = 0, brk = 0x2000, limit = 0x3FFFE000\<rparr>"

lemma fresh_heap_ok: "heap_ok fresh_heap []"
  by (simp add: heap_ok_def fresh_heap_def)

lemma malloc_hands_out_free_block_witness:
  "\<exists>h' n. malloc True 100 fresh_heap = Some (0x2018, h') \<and> 100 \<le> n \<and> heap_ok h' [(0x2000, n, False)] \<and>
     heap_ok (free 0x2018 h') [(0x2000, n, True)]"
proof -
  have "brk fresh_heap = 0x2000" "limit fresh_heap = 0x3FFFE000" by (simp_all add: fresh_heap_def)
  then show ?thesis
    using malloc_hands_out_free_block [OF fresh_heap_ok, of 100 True]
    by (cases "malloc True 100 fresh_heap") auto
qed

end
