(* ===== verification/Heap_View.thy ===== *)
theory Heap_View
  imports User_Heap Trap_Safe
begin

text \<open>
  The kernel's \<open>SYS_SBRK\<close> implements the \<open>sbrk\<close> that user programs are written against.
  \<open>sees\<close> relates a process in the kernel to its view of itself: the heap limits are the same,
  and every byte it can load through its page table is the byte of its own memory.
\<close>

definition sees :: "nat \<Rightarrow> kernel \<Rightarrow> heap \<Rightarrow> bool" where
  "sees c k h \<longleftrightarrow> (let p = procs k ! c; r = page_table p in
     brk h = heap_break p \<and> limit h = heap_max p \<and>
     (\<forall>va. unat va < 2 ^ 38 \<longrightarrow> user_frame (path_leaf (mem k) r va) \<noteq> None \<longrightarrow>
        um h va = mem k (user_addr (mem k) r va)))"

text \<open>What the process loads is what it sees.\<close>

lemma sees_load:
  assumes ok: "kernel_ok L c k" and s: "sees c k h" and va: "unat va < 2 ^ 38"
    and e: "user_frame (path_leaf (mem k) (page_table (procs k ! c)) va) \<noteq> None"
      "has (path_leaf (mem k) (page_table (procs k ! c)) va) PTE_R"
  shows "user_load (mem k) (satp k) va = Inr (um h va)"
proof -
  note o = kernel_okD [OF ok]
  have v: "has (path_leaf (mem k) (page_table (procs k ! c)) va) PTE_V"
    using e(1) by (auto simp: user_frame_def split: if_splits)
  have "translate (mem k) (MAKE_SATP (page_table (procs k ! c))) Load va =
      Some (user_addr (mem k) (page_table (procs k ! c)) va)"
    by (rule translate_leaf [OF spaces_okD(2) [OF o(6)] current_root [OF ok] va v e]) (simp add: e(2))
  then show ?thesis using s va e(1) o(5) by (simp add: user_load_def sees_def Let_def)
qed

lemma kept_byte:
  assumes wf: "wf_forest L m R" and r: "r \<in> R" and g: "gains L R r m m'"
    and leaf: "path_leaf m' r va = path_leaf m r va" and e: "user_frame (path_leaf m r va) \<noteq> None"
  shows "m' (user_addr m' r va) = m (user_addr m r va)"
proof -
  have "tree m r (vpath va) = user_frame (path_leaf m r va)"
    unfolding path_leaf_def by (rule tree_leaf) simp_all
  moreover have "user_frame (path_leaf m r va) = Some (PTE_TO_PA (path_leaf m r va))"
    using e by (auto simp: user_frame_def split: if_splits)
  moreover have "page_base (user_addr m r va) = PTE_TO_PA (path_leaf m r va)"
    unfolding user_addr_def by (rule page_base_add) simp_all
  ultimately have "m' (user_addr m r va) = m (user_addr m r va)"
    using extends_own_frame [OF wf gainsD(1) [OF g] r] by metis
  then show ?thesis using leaf by (simp add: user_addr_def)
qed

text \<open>A page of the new range shows zeros, every other byte is kept.\<close>

lemma sees_grown:
  assumes ok: "kernel_ok L c k" and s: "sees c k h" and p: "p = procs k ! c"
    and new: "new = heap_break p + inc" "unat new < 2 ^ 38"
    and A: "A = pages_in (page_up (heap_break p)) (page_up new)"
    and g: "heap_grown L (roots (procs k)) (page_table p) A (mem k) m"
    and va: "unat va < 2 ^ 38" "user_frame (path_leaf m (page_table p) va) \<noteq> None"
  shows "clear_pages (page_up (heap_break p)) (page_up new) (um h) va = m (user_addr m (page_table p) va)"
proof -
  note hd = heap_grownD [OF g] and o = kernel_okD [OF ok]
  let ?r = "page_table p"
  have r: "?r \<in> roots (procs k)" using current_root [OF ok] p by simp
  show ?thesis
  proof (cases "page_base va \<in> A")
    case True
    from hd(2) [OF True] obtain n where n: "path_leaf m ?r (page_base va) = heap_entry n" "page_aligned n"
      "\<forall>j < 4096. m (n + of_nat j) = 0" by (auto simp: zero_page_def)
    have "path_leaf m ?r va = heap_entry n" using n(1) by (simp add: path_leaf_def)
    then have "user_addr m ?r va = n + of_nat (unat va mod 4096)"
      unfolding user_addr_def by (simp only: PTE_TO_PA_map [OF n(2) user_rw_flags])
    then show ?thesis using True n(3) A by (simp add: clear_pages_def)
  next
    case False
    have "[VPN va 2, VPN va 1, VPN va 0] \<notin> vpath ` A"
    proof
      assume "[VPN va 2, VPN va 1, VPN va 0] \<in> vpath ` A"
      then obtain q where q: "q \<in> A" "vpath (page_base va) = vpath q" by auto
      have "q < page_up new" "page_aligned q" using q(1) A by (auto simp: pages_in_def)
      moreover have "unat (page_up new) \<le> 2 ^ 39" using unat_page_up [of new] new(2) by simp
      ultimately have "unat q < 2 ^ 39" by (simp add: word_less_nat_alt)
      moreover have "unat (page_base va) < 2 ^ 39"
        using va(1) div_times_less_eq_dividend [of "unat va" 4096] by (simp add: unat_page_base)
      ultimately have "page_base va = q" using VPN_inj [of "page_base va" q] q(2) \<open>page_aligned q\<close> by simp
      then show False using False q(1) by simp
    qed
    then have leaf: "path_leaf m ?r va = path_leaf (mem k) ?r va"
      unfolding path_leaf_def by (intro hd(3) [OF r VPN_less VPN_less VPN_less]) simp
    have "m (user_addr m ?r va) = mem k (user_addr (mem k) ?r va)"
      by (rule kept_byte [OF spaces_okD(2) [OF o(6)] r hd(1) leaf]) (use va(2) leaf in simp)
    also have "\<dots> = um h va" using s va leaf p by (simp add: sees_def Let_def)
    finally show ?thesis using False A by (simp add: clear_pages_def)
  qed
qed

lemma sees_restored:
  assumes ok: "kernel_ok L c k" and s: "sees c k h"
    and g: "heap_restored L (roots (procs k)) (page_table (procs k ! c)) (mem k) m"
  shows "sees c (k\<lparr>mem := m\<rparr>) h"
proof -
  note o = kernel_okD [OF ok] and g' = g [unfolded heap_restored_def]
  let ?r = "page_table (procs k ! c)"
  have "um h va = m (user_addr m ?r va)" if va: "unat va < 2 ^ 38" "user_frame (path_leaf m ?r va) \<noteq> None" for va
  proof -
    have "path_leaf m ?r va \<noteq> 0" using va(2) by (auto simp: user_frame_def has_def)
    then have leaf: "path_leaf m ?r va = path_leaf (mem k) ?r va"
      using g' current_root [OF ok] VPN_less unfolding path_leaf_def by blast
    have "m (user_addr m ?r va) = mem k (user_addr (mem k) ?r va)"
      by (rule kept_byte [OF spaces_okD(2) [OF o(6)] current_root [OF ok] conjunct1 [OF g'] leaf])
        (use va(2) leaf in simp)
    then show ?thesis using s va leaf by (simp add: sees_def Let_def)
  qed
  then show ?thesis using s by (simp add: sees_def Let_def)
qed

lemma sees_frame: "c < length (procs k) \<Longrightarrow> sees c (upd_frame (ProcFrame c) f k) h = sees c k h"
  by (simp add: sees_def Let_def)

section \<open>Properties\<close>

text \<open>Either outcome of the kernel is one of the library's \<open>sbrk\<close>.\<close>

lemma sbrk_outcome_view:
  assumes "kernel_ok L c k" "sees c k h" and a0: "tf_a0 (frame (procs k ! c)) = scast (increment :: u32)"
    and out: "sbrk_outcome L c k v k1"
  shows "\<exists>frames h'. sbrk frames increment h = (v, h') \<and> sees c k1 h' \<and>
    (3 * card (pages_in (page_up (brk h)) (page_up (brk h + scast increment))) \<le> frames_left L (mem k) \<longrightarrow> frames)"
proof -
  note o = kernel_okD [OF assms(1)]
  define p where p: "p = procs k ! c"
  define inc where inc: "inc = (scast increment :: u64)"
  let ?new = "heap_break p + inc"
  have lim: "brk h = heap_break p" "limit h = heap_max p" using assms(2) p by (simp_all add: sees_def Let_def)
  let ?A = "pages_in (page_up (heap_break p)) (page_up ?new)"
  have a0: "tf_a0 (frame p) = inc" using a0 by (simp add: p inc)
  note sb = sbrk_def [of _ increment h, folded inc, unfolded Let_def lim]
  have "\<exists>frames h'. sbrk frames increment h = (v, h') \<and> sees c k1 h' \<and> (3 * card ?A \<le> frames_left L (mem k) \<longrightarrow> frames)"
  proof (cases "inc = 0 \<or> sint inc < 0 \<or> ?new > heap_max p")
    case True
    then have "k1 = k \<and> sbrk True increment h = (v, h)"
      using out a0 p unfolding sb by (auto simp: sbrk_outcome_def Let_def)
    then show ?thesis using assms(2) by blast
  next
    case False
    have "?new \<le> 0x3FFFE000" using False o(7) [OF o(2)] p by (auto simp: process_ok_def)
    then have new: "unat ?new < 2 ^ 38" by (simp add: word_le_nat_alt)
    from out False consider
      (grown) m where "v = heap_break p" "k1 = upd_proc c (\<lambda>p. p\<lparr>heap_break := ?new\<rparr>) (k\<lparr>mem := m\<rparr>)"
        "heap_grown L (roots (procs k)) (page_table p) ?A (mem k) m"
    | (full) m where "v = E_NOMEM" "k1 = k\<lparr>mem := m\<rparr>" "heap_restored L (roots (procs k)) (page_table p) (mem k) m"
        "frames_left L (mem k) < 3 * card ?A"
      using a0 unfolding sbrk_outcome_def Let_def p by auto
    then show ?thesis
    proof cases
      case grown
      let ?h = "h\<lparr>um := clear_pages (page_up (heap_break p)) (page_up ?new) (um h), brk := ?new\<rparr>"
      have "sbrk True increment h = (v, ?h)" unfolding sb using False grown(1) by simp
      moreover have "sees c k1 ?h"
        using sees_grown [OF assms(1,2) p refl new refl grown(3)] grown(2) o(1,2) lim(2) p
        by (simp add: sees_def Let_def)
      ultimately show ?thesis by blast
    next
      case full
      have "sbrk False increment h = (v, h)" unfolding sb using False full(1) by simp
      moreover have "sees c k1 h" using sees_restored [OF assms(1,2)] full(2,3) p by simp
      ultimately show ?thesis using full(4) by force
    qed
  qed
  then show ?thesis unfolding lim inc .
qed

text \<open>
  C17: the kernel's \<open>SYS_SBRK\<close> refines the \<open>sbrk\<close> of the user library. For a process that sees
  the heap \<open>h\<close>, and any increment, the system call returns to the process, with the result
  and a memory that the process sees exactly as \<open>sbrk\<close> computes them; frames for three times
  the number of new pages are enough for it not to fail for lack of memory.
\<close>
theorem sbrk_refined_by_kernel:
  assumes "kernel_ok L c k" "sees c k h" "tf_a0 (frame (procs k ! c)) = scast (increment :: u32)"
  shows "\<exists>frames k' v h'. sys_sbrk L (ProcFrame c) k = Inr (ProcFrame c, k') \<and>
    sbrk frames increment h = (v, h') \<and> tf_a0 (frame (procs k' ! c)) = v \<and> sees c k' h' \<and>
    (3 * card (pages_in (page_up (brk h)) (page_up (brk h + scast increment))) \<le> frames_left L (mem k) \<longrightarrow> frames)"
proof -
  note o = kernel_okD [OF assms(1)]
  obtain v k1 where run: "sys_sbrk L (ProcFrame c) k = ret (ProcFrame c) v k1" and out: "sbrk_outcome L c k v k1"
    using sys_sbrk_outcome [OF assms(1)] by blast
  have len: "c < length (procs k1)"
    using out o(1,2) by (auto simp: sbrk_outcome_def Let_def split: if_splits)
  obtain frames h' where v: "sbrk frames increment h = (v, h')" "sees c k1 h'"
    "3 * card (pages_in (page_up (brk h)) (page_up (brk h + scast increment))) \<le> frames_left L (mem k) \<longrightarrow> frames"
    using sbrk_outcome_view [OF assms out] by blast
  let ?k' = "upd_frame (ProcFrame c) (\<lambda>f. f\<lparr>tf_a0 := v\<rparr>) k1"
  have "sys_sbrk L (ProcFrame c) k = Inr (ProcFrame c, ?k')" "tf_a0 (frame (procs ?k' ! c)) = v" "sees c ?k' h'"
    using run len sees_frame [of c k1 "\<lambda>f. f\<lparr>tf_a0 := v\<rparr>" h'] v(2) by (simp_all add: ret_def)
  with v(1,3) show ?thesis by blast
qed

text \<open>The sample process asks for a page.\<close>

definition asking :: kernel where
  "asking = upd_frame (ProcFrame 0) (\<lambda>f. f\<lparr>tf_a0 := 4096\<rparr>) sample_machine"

definition seen_heap :: heap where
  "seen_heap = \<lparr>um = (\<lambda>va. mem asking (user_addr (mem asking) sample_root va)), global_base = 0,
     brk = 0x2000, limit = 0x3FFFE000\<rparr>"

lemma sbrk_refined_by_kernel_witness:
  "\<exists>frames k' v h'. sys_sbrk sample_layout (ProcFrame 0) asking = Inr (ProcFrame 0, k') \<and>
    sbrk frames 4096 seen_heap = (v, h') \<and> sees 0 k' h'"
proof -
  have ok: "kernel_ok sample_layout 0 asking" unfolding asking_def by (rule kernel_ok_frame [OF sample_machine_ok])
  have p: "page_table (procs asking ! 0) = sample_root" "heap_break (procs asking ! 0) = 0x2000"
    "heap_max (procs asking ! 0) = 0x3FFFE000" "tf_a0 (frame (procs asking ! 0)) = scast (4096 :: u32)"
    by (simp_all add: asking_def sample_machine_procs sample_process_def)
  have "sees 0 asking seen_heap" by (simp add: sees_def Let_def p seen_heap_def)
  from sbrk_refined_by_kernel [OF ok this p(4)] show ?thesis by blast
qed

end
