(* ===== verification/Spec2Isabelle.thy ===== *)
theory Spec2Isabelle
  imports Launch Page_Free Page_Copy Kernel_Map Sched Elf_Contents Wx File_Inv Halt Readers Read_Spec User_Calls User_Programs Heap_View
begin

text \<open>
  Lazux: a small RISC-V (RV64, Sv39) kernel and its user library, in C.

  \<^bold>\<open>The program.\<close> \<open>kernel/main.c\<close> boots on OpenSBI: it sets up the page allocator
  (\<open>kernel/mm/pmm.c\<close>), a process table (\<open>kernel/proc/process.c\<close>) and the first process from an
  ELF image in the ramdisk, then drops to user mode. From there on the kernel runs only in
  \<open>trap_handler\<close> (\<open>kernel/arch/riscv/trap_handler.c\<close>), on system calls, faults, timer ticks
  and UART interrupts (\<open>plic.c\<close>, \<open>uart.c\<close>). Address spaces are page tables in memory
  (\<open>kernel/mm/vmm.c\<close>) that the MMU walks; user programs are linked with a small library
  (\<open>kernel/user\<close>). One hart; interrupts stay off inside the kernel.

  \<^bold>\<open>The model.\<close> Physical memory is a function from 64-bit addresses to bytes (\<open>memory\<close>); the
  page bitmap, page tables, ELF images and the ramdisk lie in it as bytes, and every load and
  store of the C code is one on it. Machine integers are words and wrap as the code's do.
  \<open>layout\<close> holds the addresses the linker script defines; \<open>layout_ok\<close> states what that script
  guarantees. The static variables of the kernel are the record \<open>kernel\<close>. A function that can
  hang, panic or fault returns a sum with the type \<open>stop\<close>. What devices deliver during a trap
  is the record \<open>input\<close>, an argument. User memory is reached through \<open>translate\<close>, a model of the
  Sv39 walk with the permission bits.

  \<^bold>\<open>Theories.\<close>
  \<^item> \<open>Prelude\<close>: words, little-endian loads and stores, pages, loops over pages with their rules.
    \<open>Klib\<close>: \<open>memset\<close>, \<open>memcpy\<close> (\<open>kernel/lib/string.c\<close>).
  \<^item> \<open>Pmm\<close>: \<open>init_pmm\<close>, \<open>pmm_alloc_page\<close>, \<open>pmm_free_page\<close>, with the allocator interface as a
    locale, interpreted on the bitmap.
  \<^item> \<open>Vmm\<close>: the operations of \<open>vmm.c\<close>. \<open>Page_Tree\<close> reads page tables as trees (\<open>tree\<close>) and states
    that the trees of all processes are disjoint (\<open>wf_forest\<close>). \<open>Page_Map\<close>, \<open>Page_Free\<close>,
    \<open>Page_Copy\<close>, \<open>Page_Extend\<close>, \<open>Kernel_Map\<close>, \<open>Page_Supply\<close>, \<open>Kernel_Supply\<close>: what mapping,
    unmapping, freeing and copying do to these trees, and how many frames they need.
  \<^item> \<open>Uart\<close>: the receive ring and line discipline, refined to two lists; readers through a locale.
    \<open>Sbi\<close>: console output.
  \<^item> \<open>Kernel_State\<close>: the process table and the other static variables. \<open>Sched\<close>: \<open>schedule\<close>,
    \<open>sleep_on\<close>, \<open>wakeup\<close>, \<open>exit_current\<close>, the interrupt dispatch, and bounded waiting.
    \<open>Process\<close>: \<open>alloc_proc\<close>, \<open>free_proc\<close>.
  \<^item> \<open>Cstring\<close>, \<open>Ramdisk\<close>: \<open>streq\<close>, the image built by \<open>tools/mkramdisk.c\<close> and its lookup.
    \<open>Elf\<close>: \<open>load_elf\<close>; \<open>Elf_Spec\<close> and \<open>Elf_Contents\<close> say what it maps and what lies there,
    \<open>Elf_Image\<close> what a whole well-formed file (\<open>elf_ok\<close>) becomes (\<open>runs_program\<close>).
  \<^item> \<open>User_Mem\<close>: the MMU and the checks \<open>user_range_ok\<close>, \<open>user_str_ok\<close>. \<open>Syscall\<close>, \<open>Trap\<close>, \<open>Boot\<close>:
    every system call, \<open>trap_handler\<close>, \<open>kmain\<close>.
  \<^item> \<open>Spaces\<close>, \<open>Kernel_Inv\<close>: ownership of frames by address spaces and kernel stacks, the
    invariant \<open>kernel_ok\<close>. \<open>Process_Life\<close>, \<open>Isolation\<close>, \<open>Trap_Inv\<close>, \<open>Heap\<close>, \<open>Fork\<close>, \<open>Exec\<close>,
    \<open>User_Store\<close>, \<open>User_Guard\<close>, \<open>Read\<close>, \<open>Read_Spec\<close>, \<open>Write_Spec\<close>: what each operation does,
    that it keeps the invariant, and that it leaves other processes alone.
  \<^item> \<open>Dispatch\<close>: the dispatcher of \<open>trap_handler\<close> as a locale (\<open>trap_contract\<close>): what is shown of
    each handler holds of every trap. Its interpretations are the kernel invariant and isolation
    (\<open>Trap_Safe\<close>), an abstract step the trap refines (\<open>Effect\<close>, \<open>Trap_Effect\<close>), the process tree
    (\<open>Family\<close>), the console readers (\<open>Readers\<close>) and when the machine stops (\<open>Halt\<close>); \<open>Quiet\<close> says
    which handlers leave the set of processes alone. \<open>Process_Inv\<close>: invariants of processes, a
    locale over the abstract steps.
  \<^item> \<open>Boot_Spec\<close>: what \<open>kmain\<close> does, and from which memories it boots (\<open>bootable\<close>). \<open>Launch\<close>: \<open>exec\<close>
    and boot run the file they are told to; with a ramdisk of one file on which both are carried
    out.
  \<^item> \<open>System\<close>: runs of user computation and traps after boot, and invariants over them
    (\<open>system_invariant\<close>). In every reachable state: the kernel is well formed, its image is
    unchanged (\<open>System\<close>), no user page is writable and executable (\<open>Wx\<close>), file descriptors are
    typed (\<open>File_Inv\<close>), a parent asleep in \<open>wait\<close> is always woken (\<open>Family\<close>), so is a reader of the
    console (\<open>Readers\<close>), and the machine stops only when it is done (\<open>Halt\<close>).
  \<^item> \<open>User_String\<close>, \<open>User_Print\<close>, \<open>User_Heap\<close>: \<open>kernel/user/mystring.c\<close> and the output and heap
    functions of \<open>kernel/user/syscalls.c\<close>. \<open>Heap_View\<close> shows that the kernel's \<open>SYS_SBRK\<close>
    implements the \<open>sbrk\<close> that \<open>malloc\<close> is written against. \<open>User_Shell\<close>: one round
    of the shell (\<open>kernel/user/sh.c\<close>), from the line it reads out of the ring of \<open>Uart\<close> to what
    parent and child do after \<open>fork\<close>. \<open>User_Programs\<close>: \<open>init\<close>, \<open>test2\<close> and \<open>readtest\<close>, cut at their
    system calls.
  \<^item> \<open>User_Calls\<close>: the system call wrappers as the registers they leave for the kernel. Every call
    arrives at its handler with its C arguments, and what \<open>printf\<close> prints in the model of the
    library is what the console shows in the model of the kernel.

  \<^bold>\<open>Loops.\<close> Loops over pages are \<open>for_pages\<close>, which ends by a measure and reports the wrap-around
  at the top of the address space as \<open>Diverge\<close>. \<open>load_elf\<close> reads \<open>e_phnum\<close> each time around its loop
  over the program headers (\<open>load_segments\<close>), as the code does, and returns since that is a 16-bit
  field; every other iteration that maps a page takes a frame, so running out of them is the only
  way it stops. \<open>streq\<close> has fuel 256: names are checked by
  \<open>user_str_ok(name, 256)\<close> first, and boot compares with a literal. The loops of the user
  library that look for a terminator are \<open>partial_function\<close>s, and that they return is proved.
  \<open>schedule\<close> idles over the list of wake-ups the devices deliver; when it is used up, the machine
  waits for ever (\<open>Idle\<close>).

  \<^bold>\<open>Assumptions.\<close> \<open>layout_ok\<close>; pids do not wrap around (\<open>Family\<close> only, as a bound on the traps).
  The buffers of \<open>read\<close> and \<open>write\<close> are arbitrary: \<open>user_range_ok\<close> accepts some addresses that the
  MMU refuses (\<open>user_range_ok_wraps\<close>, \<open>user_range_ok_not_canonical\<close>), but then the kernel faults,
  since every store it does complete goes to a user page of the caller (\<open>User_Guard\<close>). Only where
  the bytes delivered are described (\<open>Read_Spec\<close>, \<open>Write_Spec\<close>) the buffer is bounded. The virtual
  addresses of an ELF image are not checked by the kernel: \<open>elf_ok\<close> asks that they are pages of the
  user's half of which no two segments share one, that the file lies in the image of the kernel,
  and that none is a page of the kernel, which the process would take from it. What the loader does with other files is bounded by \<open>load_elf_confined\<close>, where
  accesses of the kernel to its own memory always find it. A new address space takes 70 frames
  (the root and at most 69 tables), a process 73, and boot 143 and those of the program: the
  constants of \<open>startable\<close> and \<open>bootable\<close>.

  \<^bold>\<open>Not modelled.\<close> Assembly (\<open>entry.S\<close>, \<open>trap.S\<close>, \<open>switch.S\<close>, \<open>start.S\<close>): saving and restoring
  registers appears as the trap frame only. TLB flushes, accessed and dirty bits and the reserved
  bits of page table entries. Device registers other than the data they deliver (\<open>uart_init\<close>,
  \<open>plic_init\<close>, the timer value is kept). The text of a fault report that ends in a hang, and
  timing. Faults of user programs inside the library functions, except where \<open>malloc\<close> itself
  causes one.
\<close>

end
